(* ===== verification/Netspy_Prelude.thy ===== *)
theory Netspy_Prelude
  imports Complex_Main "HOL-Library.Multiset"
begin

text \<open>
  Shared vocabulary of the development: the exception hierarchy of
  \<^verbatim>\<open>netspy/exceptions.py\<close> (with the few built-in exceptions the code raises or catches), results of
  fallible calls, Python's \<open>float\<close> quantities as \<^typ>\<open>real\<close>, association lists that keep
  the insertion order of a Python \<open>dict\<close>, and the list lemmas the components share.
\<close>

named_theorems netspy_defs \<open>definitions unfolded together by the component proofs\<close>
named_theorems frame_simps \<open>fields an operation leaves unchanged\<close>

section \<open>Exceptions\<close>

text \<open>
  The classes of \<^verbatim>\<open>exceptions.py\<close>, in its order, after the built-in classes the modelled code meets:
  \<open>PyValueError\<close> (bad number or JSON text), \<open>PyKeyError\<close>, \<open>PyTypeError\<close>, \<open>PyIndexError\<close>,
  \<open>PyOSError\<close> (files), \<open>PyNotImplementedError\<close>, \<open>RedisCallError\<close> (any failing call of the Redis client)
  and \<open>PyOtherError\<close> (anything a user hook may raise).
\<close>

datatype exn_class =
    PyException | PyValueError | PyKeyError | PyTypeError | PyIndexError | PyOSError
  | PyNotImplementedError | RedisCallError | PyOtherError
  | NetspyError | ConfigError | SpiderError | RequestError | HttpStatusError
  | ResponseTooLargeError | ContentTypeRejectedError | AntiBotError | ProxyUnavailableError
  | UserUnavailableError | ResponseError | ValidationError | NotRetryError | ItemError
  | PipelineError | DedupError

text \<open>The direct base class, as in the class headers.\<close>

fun base_class :: "exn_class \<Rightarrow> exn_class option" where
  "base_class PyException = None"
| "base_class ConfigError = Some NetspyError"
| "base_class SpiderError = Some NetspyError"
| "base_class RequestError = Some NetspyError"
| "base_class HttpStatusError = Some RequestError"
| "base_class ResponseTooLargeError = Some RequestError"
| "base_class ContentTypeRejectedError = Some NetspyError"
| "base_class AntiBotError = Some RequestError"
| "base_class ProxyUnavailableError = Some RequestError"
| "base_class UserUnavailableError = Some RequestError"
| "base_class ResponseError = Some NetspyError"
| "base_class ValidationError = Some NetspyError"
| "base_class NotRetryError = Some NetspyError"
| "base_class ItemError = Some NetspyError"
| "base_class PipelineError = Some NetspyError"
| "base_class DedupError = Some NetspyError"
| "base_class _ = Some PyException"

fun class_depth :: "exn_class \<Rightarrow> nat" where
  "class_depth PyException = 0"
| "class_depth HttpStatusError = 3"
| "class_depth ResponseTooLargeError = 3"
| "class_depth AntiBotError = 3"
| "class_depth ProxyUnavailableError = 3"
| "class_depth UserUnavailableError = 3"
| "class_depth NetspyError = 1"
| "class_depth ConfigError = 2"
| "class_depth SpiderError = 2"
| "class_depth RequestError = 2"
| "class_depth ContentTypeRejectedError = 2"
| "class_depth ResponseError = 2"
| "class_depth ValidationError = 2"
| "class_depth NotRetryError = 2"
| "class_depth ItemError = 2"
| "class_depth PipelineError = 2"
| "class_depth DedupError = 2"
| "class_depth _ = 1"

lemma base_class_depth: "base_class c = Some b \<Longrightarrow> class_depth b < class_depth c"
  by (cases c) auto

text \<open>\<open>isinstance\<close>: walk the base classes.\<close>

function issubclass :: "exn_class \<Rightarrow> exn_class \<Rightarrow> bool" where
  "issubclass c d = (c = d \<or> (case base_class c of None \<Rightarrow> False | Some b \<Rightarrow> issubclass b d))"
  by pat_completeness auto
termination
  by (relation "measure (\<lambda>(c, d). class_depth c)") (auto dest: base_class_depth)

declare issubclass.simps [simp del]

text \<open>An exception object: its class and the \<open>status_code\<close> that \<open>HttpStatusError\<close> carries.\<close>

datatype exn = Exn (exn_cls: exn_class) (exn_code: "int option")

abbreviation raise_of :: "exn_class \<Rightarrow> exn" where
  "raise_of c \<equiv> Exn c None"

definition http_status_error :: "int \<Rightarrow> exn" where
  "http_status_error code = Exn HttpStatusError (Some code)"

definition isinst :: "exn \<Rightarrow> exn_class \<Rightarrow> bool" where
  "isinst e c = issubclass (exn_cls e) c"

lemma issubclass_refl [simp]: "issubclass c c"
  by (subst issubclass.simps) simp

lemma issubclass_RequestError [simp]:
  "issubclass c RequestError \<longleftrightarrow> c \<in> {RequestError, HttpStatusError, ResponseTooLargeError,
     AntiBotError, ProxyUnavailableError, UserUnavailableError}"
  by (cases c) (simp_all add: issubclass.simps)

lemma issubclass_leaf [simp]:
  "issubclass c HttpStatusError \<longleftrightarrow> c = HttpStatusError"
  "issubclass c ResponseTooLargeError \<longleftrightarrow> c = ResponseTooLargeError"
  "issubclass c ContentTypeRejectedError \<longleftrightarrow> c = ContentTypeRejectedError"
  "issubclass c ProxyUnavailableError \<longleftrightarrow> c = ProxyUnavailableError"
  "issubclass c UserUnavailableError \<longleftrightarrow> c = UserUnavailableError"
  "issubclass c ValidationError \<longleftrightarrow> c = ValidationError"
  "issubclass c NotRetryError \<longleftrightarrow> c = NotRetryError"
  by (cases c; simp add: issubclass.simps)+

section \<open>Results, time, dictionaries\<close>

type_synonym 'a res = "exn + 'a"

text \<open>Seconds: Python floats, read as exact reals.\<close>

type_synonym time = real

text \<open>A Python \<open>dict\<close> whose iteration order matters: keys in insertion order.\<close>

type_synonym ('k, 'v) pydict = "('k \<times> 'v) list"

fun dget :: "('k, 'v) pydict \<Rightarrow> 'k \<Rightarrow> 'v option" where
  "dget [] k = None"
| "dget ((k', v) # d) k = (if k' = k then Some v else dget d k)"

fun dset :: "('k, 'v) pydict \<Rightarrow> 'k \<Rightarrow> 'v \<Rightarrow> ('k, 'v) pydict" where
  "dset [] k v = [(k, v)]"
| "dset ((k', v') # d) k v = (if k' = k then (k', v) # d else (k', v') # dset d k v)"

definition ddel :: "('k, 'v) pydict \<Rightarrow> 'k \<Rightarrow> ('k, 'v) pydict" where
  "ddel d k = filter (\<lambda>(k', v). k' \<noteq> k) d"

definition dkeys :: "('k, 'v) pydict \<Rightarrow> 'k list" where
  "dkeys d = map fst d"

lemma dget_dset [simp]: "dget (dset d k v) k' = (if k' = k then Some v else dget d k')"
  by (induction d k v rule: dset.induct) auto

lemma dget_ddel [simp]: "dget (ddel d k) k' = (if k' = k then None else dget d k')"
  by (induction d) (auto simp: ddel_def split: if_splits)

lemma dget_map_of: "dget d = map_of d"
proof
  fix k show "dget d k = map_of d k"
    by (induction d) auto
qed

lemma set_dkeys_dset [simp]: "set (dkeys (dset d k v)) = insert k (set (dkeys d))"
  by (induction d k v rule: dset.induct) (auto simp: dkeys_def)

lemma distinct_dkeys_dset [simp]: "distinct (dkeys (dset d k v)) \<longleftrightarrow> distinct (dkeys d)"
proof (induction d k v rule: dset.induct)
  case (2 k' v' d k v)
  then show ?case
    using set_dkeys_dset [of d k v] by (auto simp: dkeys_def)
qed (auto simp: dkeys_def)

lemma dkeys_ddel: "dkeys (ddel d k) = filter (\<lambda>x. x \<noteq> k) (dkeys d)"
  by (induction d) (auto simp: dkeys_def ddel_def)

lemma set_dkeys_ddel: "set (dkeys (ddel d k)) = set (dkeys d) - {k}"
  by (auto simp: dkeys_ddel)

lemma distinct_dkeys_ddel [simp]: "distinct (dkeys d) \<Longrightarrow> distinct (dkeys (ddel d k))"
  by (induction d) (auto simp: dkeys_def ddel_def)

lemma dget_None_iff: "dget d k = None \<longleftrightarrow> k \<notin> set (dkeys d)"
  by (simp add: dget_map_of dkeys_def map_of_eq_None_iff)

lemma dget_Some_in: "dget d k = Some v \<Longrightarrow> (k, v) \<in> set d"
  by (induction d) (auto split: if_splits)

lemma dget_in_set: "distinct (dkeys d) \<Longrightarrow> (k, v) \<in> set d \<Longrightarrow> dget d k = Some v"
  by (simp add: dget_map_of dkeys_def)

lemma set_dset_cases: "e \<in> set (dset d k v) \<Longrightarrow> e = (k, v) \<or> e \<in> set d"
  by (induction d k v rule: dset.induct) (auto split: if_splits)

section \<open>Generic lemmas\<close>

lemma map_sum_Inr_iff: "map_sum id f x = Inr y \<longleftrightarrow> (\<exists>z. x = Inr z \<and> y = f z)"
  by (cases x) auto

lemma mset_filter_add: "mset (filter P xs) + mset (filter (\<lambda>x. \<not> P x) xs) = mset xs"
  by (induction xs) auto

lemma drop_less_Cons: "drop i xs = y # ys \<Longrightarrow> i < length xs \<and> xs ! i = y \<and> drop (Suc i) xs = ys"
proof -
  assume a: "drop i xs = y # ys"
  then have i: "i < length xs" by (metis drop_all list.distinct(1) not_less)
  with a show ?thesis by (simp add: Cons_nth_drop_Suc [symmetric])
qed

text \<open>
  \<^verbatim>\<open>f"{x:.3f}"\<close>: rounding to three decimals, ties to even, read back as a number.
\<close>

definition round_half_even :: "real \<Rightarrow> int" where
  "round_half_even y =
     (let f = \<lfloor>y\<rfloor>; d = y - of_int f
      in if d < 1 / 2 then f else if 1 / 2 < d then f + 1 else if even f then f else f + 1)"

definition fmt3 :: "real \<Rightarrow> real" where
  "fmt3 x = of_int (round_half_even (x * 1000)) / 1000"

lemma round_half_even_bound: "\<bar>of_int (round_half_even y) - y\<bar> \<le> 1 / 2"
proof -
  have l: "of_int \<lfloor>y\<rfloor> \<le> y" and u: "y < of_int \<lfloor>y\<rfloor> + 1" by linarith+
  show ?thesis
    using l u by (auto simp: round_half_even_def Let_def abs_le_iff)
qed

lemma fmt3_bound: "\<bar>fmt3 x - x\<bar> \<le> 1 / 2000"
proof -
  have "\<bar>of_int (round_half_even (x * 1000)) - x * 1000\<bar> \<le> 1 / 2"
    by (rule round_half_even_bound)
  then show ?thesis by (simp add: fmt3_def abs_le_iff field_simps)
qed

lemma round_half_even_mono: "x \<le> y \<Longrightarrow> round_half_even x \<le> round_half_even y"
proof -
  assume le: "x \<le> y"
  then have "\<lfloor>x\<rfloor> \<le> \<lfloor>y\<rfloor>" by (rule floor_mono)
  then consider "\<lfloor>x\<rfloor> = \<lfloor>y\<rfloor>" | "\<lfloor>x\<rfloor> + 1 \<le> \<lfloor>y\<rfloor>" by linarith
  then show ?thesis
    by cases (use le in \<open>auto simp: round_half_even_def Let_def\<close>)
qed

lemma fmt3_mono: "x \<le> y \<Longrightarrow> fmt3 x \<le> fmt3 y"
  by (simp add: fmt3_def divide_right_mono round_half_even_mono)

end
