(* ===== verification/Py_Json.thy ===== *)
theory Py_Json
  imports Netspy_Prelude
begin

text \<open>
  The Python values that travel through \<^verbatim>\<open>tools.dumps_json\<close> and \<^verbatim>\<open>tools.loads_json\<close>
  (\<^verbatim>\<open>netspy/utils/tools.py\<close>), and the two functions themselves: the text that
  \<^verbatim>\<open>json.dumps(obj, ensure_ascii=False)\<close> prints with its default separators, and a reader for the same
  fragment of JSON.  Numbers are integers (a Python float has no place in \<open>pyval\<close>); a character is
  one code point below 256.  The main fact is the round trip \<open>loads_dumps\<close>: the queue, the failed-request
  files and the batch lists all rely on it.
\<close>

datatype pyval =
    VNone | VBool bool | VInt int | VStr string
  | VList "pyval list" | VDict "(string \<times> pyval) list"

text \<open>Truth value, as \<open>or\<close> and \<open>if\<close> read it.\<close>

fun truthy :: "pyval \<Rightarrow> bool" where
  "truthy VNone = False"
| "truthy (VBool b) = b"
| "truthy (VInt i) = (i \<noteq> 0)"
| "truthy (VStr s) = (s \<noteq> [])"
| "truthy (VList xs) = (xs \<noteq> [])"
| "truthy (VDict d) = (d \<noteq> [])"

section \<open>Printing\<close>

abbreviation QUOTE :: char where "QUOTE \<equiv> CHR 0x22"
abbreviation BSLASH :: char where "BSLASH \<equiv> CHR 0x5C"

definition digit_char :: "nat \<Rightarrow> char" where
  "digit_char n = char_of (48 + n)"

definition is_digit :: "char \<Rightarrow> bool" where
  "is_digit c = (48 \<le> (of_char c :: nat) \<and> (of_char c :: nat) \<le> 57)"

definition digit_val :: "char \<Rightarrow> nat" where
  "digit_val c = of_char c - 48"

fun show_nat :: "nat \<Rightarrow> string" where
  "show_nat n = (if n < 10 then [digit_char n] else show_nat (n div 10) @ [digit_char (n mod 10)])"

declare show_nat.simps [simp del]

definition show_int :: "int \<Rightarrow> string" where
  "show_int i = (if i < 0 then CHR ''-'' # show_nat (nat (- i)) else show_nat (nat i))"

definition hex_char :: "nat \<Rightarrow> char" where
  "hex_char n = (if n < 10 then char_of (48 + n) else char_of (87 + n))"

definition esc_char :: "char \<Rightarrow> string" where
  "esc_char c =
     (if c = QUOTE then [BSLASH, QUOTE]
      else if c = BSLASH then [BSLASH, BSLASH]
      else if c = CHR 0x0A then [BSLASH, CHR ''n'']
      else if c = CHR 0x0D then [BSLASH, CHR ''r'']
      else if c = CHR 0x09 then [BSLASH, CHR ''t'']
      else if c = CHR 0x08 then [BSLASH, CHR ''b'']
      else if c = CHR 0x0C then [BSLASH, CHR ''f'']
      else if (of_char c :: nat) < 32
        then [BSLASH, CHR ''u'', CHR ''0'', CHR ''0'', hex_char (of_char c div 16), hex_char (of_char c mod 16)]
      else [c])"

definition show_str :: "string \<Rightarrow> string" where
  "show_str s = QUOTE # concat (map esc_char s) @ [QUOTE]"

fun join :: "string \<Rightarrow> string list \<Rightarrow> string" where
  "join sep [] = []"
| "join sep [x] = x"
| "join sep (x # y # ys) = x @ sep @ join sep (y # ys)"

fun dumps_json :: "pyval \<Rightarrow> string" where
  "dumps_json VNone = ''null''"
| "dumps_json (VBool b) = (if b then ''true'' else ''false'')"
| "dumps_json (VInt i) = show_int i"
| "dumps_json (VStr s) = show_str s"
| "dumps_json (VList xs) = ''['' @ join '', '' (map dumps_json xs) @ '']''"
| "dumps_json (VDict d) =
     ''{'' @ join '', '' (map (\<lambda>kv. show_str (fst kv) @ '': '' @ dumps_json (snd kv)) d) @ ''}''"

section \<open>Reading\<close>

definition is_ws :: "char \<Rightarrow> bool" where
  "is_ws c = (c = CHR '' '' \<or> c = CHR 0x09 \<or> c = CHR 0x0A \<or> c = CHR 0x0D)"

definition skip_ws :: "string \<Rightarrow> string" where
  "skip_ws s = dropWhile is_ws s"

definition hex_val :: "char \<Rightarrow> nat option" where
  "hex_val c =
     (let n = of_char c in
      if 48 \<le> n \<and> n \<le> 57 then Some (n - 48)
      else if 97 \<le> n \<and> n \<le> 102 then Some (n - 87)
      else if 65 \<le> n \<and> n \<le> 70 then Some (n - 55) else None)"

definition unesc :: "char \<Rightarrow> char option" where
  "unesc c =
     (if c = QUOTE then Some QUOTE else if c = BSLASH then Some BSLASH
      else if c = CHR ''/'' then Some (CHR ''/'')
      else if c = CHR ''n'' then Some (CHR 0x0A) else if c = CHR ''r'' then Some (CHR 0x0D)
      else if c = CHR ''t'' then Some (CHR 0x09) else if c = CHR ''b'' then Some (CHR 0x08)
      else if c = CHR ''f'' then Some (CHR 0x0C) else None)"

fun unhex4 :: "char \<Rightarrow> char \<Rightarrow> char \<Rightarrow> char \<Rightarrow> char option" where
  "unhex4 a b c d =
     (case (hex_val a, hex_val b, hex_val c, hex_val d) of
        (Some w, Some x, Some y, Some z) \<Rightarrow>
          (let n = ((w * 16 + x) * 16 + y) * 16 + z in if n < 256 then Some (char_of n) else None)
      | _ \<Rightarrow> None)"

text \<open>The rest of a string literal, after its opening quote.\<close>

fun scan_str :: "string \<Rightarrow> (string \<times> string) option" where
  "scan_str [] = None"
| "scan_str (c # cs) =
     (if c = QUOTE then Some ([], cs)
      else if c = BSLASH then
        (case cs of
           [] \<Rightarrow> None
         | d # ds \<Rightarrow>
             if d = CHR ''u'' then
               (case ds of
                  h1 # h2 # h3 # h4 # es \<Rightarrow>
                    (case unhex4 h1 h2 h3 h4 of None \<Rightarrow> None
                     | Some x \<Rightarrow> map_option (\<lambda>(s, r). (x # s, r)) (scan_str es))
                | _ \<Rightarrow> None)
             else (case unesc d of None \<Rightarrow> None
                   | Some x \<Rightarrow> map_option (\<lambda>(s, r). (x # s, r)) (scan_str ds)))
      else if (of_char c :: nat) < 32 then None
      else map_option (\<lambda>(s, r). (c # s, r)) (scan_str cs))"

definition read_nat :: "string \<Rightarrow> nat" where
  "read_nat ds = foldl (\<lambda>n c. n * 10 + digit_val c) 0 ds"

text \<open>Integer literals; a fraction or exponent after the digits is left to the caller, which rejects it.\<close>

definition scan_int :: "string \<Rightarrow> (int \<times> string) option" where
  "scan_int s =
     (let neg = (s \<noteq> [] \<and> hd s = CHR ''-''); t = (if neg then tl s else s);
          ds = takeWhile is_digit t
      in if ds = [] \<or> (1 < length ds \<and> hd ds = CHR ''0'') then None
         else Some ((if neg then - int (read_nat ds) else int (read_nat ds)), dropWhile is_digit t))"

fun scan_word :: "string \<Rightarrow> (pyval \<times> string) option" where
  "scan_word s =
     (if take 4 s = ''null'' then Some (VNone, drop 4 s)
      else if take 4 s = ''true'' then Some (VBool True, drop 4 s)
      else if take 5 s = ''false'' then Some (VBool False, drop 5 s) else None)"

fun parse_val :: "nat \<Rightarrow> string \<Rightarrow> (pyval \<times> string) option"
and parse_list :: "nat \<Rightarrow> string \<Rightarrow> (pyval list \<times> string) option"
and parse_dict :: "nat \<Rightarrow> string \<Rightarrow> ((string \<times> pyval) list \<times> string) option" where
  "parse_val 0 s = None"
| "parse_val (Suc n) s =
     (case skip_ws s of
        [] \<Rightarrow> None
      | c # cs \<Rightarrow>
          if c = QUOTE then map_option (\<lambda>(x, r). (VStr x, r)) (scan_str cs)
          else if c = CHR ''['' then
            (case skip_ws cs of
               [] \<Rightarrow> None
             | d # ds \<Rightarrow> if d = CHR '']'' then Some (VList [], ds)
                         else map_option (\<lambda>(xs, r). (VList xs, r)) (parse_list n (d # ds)))
          else if c = CHR ''{'' then
            (case skip_ws cs of
               [] \<Rightarrow> None
             | d # ds \<Rightarrow> if d = CHR ''}'' then Some (VDict [], ds)
                         else map_option (\<lambda>(xs, r). (VDict xs, r)) (parse_dict n (d # ds)))
          else if c = CHR ''-'' \<or> is_digit c then map_option (\<lambda>(i, r). (VInt i, r)) (scan_int (c # cs))
          else scan_word (c # cs))"
| "parse_list 0 s = None"
| "parse_list (Suc n) s =
     (case parse_val n s of
        None \<Rightarrow> None
      | Some (x, r) \<Rightarrow>
          (case skip_ws r of
             [] \<Rightarrow> None
           | c # cs \<Rightarrow> if c = CHR '','' then map_option (\<lambda>(xs, r'). (x # xs, r')) (parse_list n cs)
                       else if c = CHR '']'' then Some ([x], cs) else None))"
| "parse_dict 0 s = None"
| "parse_dict (Suc n) s =
     (case skip_ws s of
        [] \<Rightarrow> None
      | q # cs \<Rightarrow>
          if q \<noteq> QUOTE then None
          else (case scan_str cs of
             None \<Rightarrow> None
           | Some (k, r) \<Rightarrow>
               (case skip_ws r of
                  [] \<Rightarrow> None
                | c # r' \<Rightarrow>
                    if c \<noteq> CHR '':'' then None
                    else (case parse_val n r' of
                       None \<Rightarrow> None
                     | Some (x, t) \<Rightarrow>
                         (case skip_ws t of
                            [] \<Rightarrow> None
                          | e # es \<Rightarrow>
                              if e = CHR '','' then map_option (\<lambda>(xs, r'). ((k, x) # xs, r')) (parse_dict n es)
                              else if e = CHR ''}'' then Some ([(k, x)], es) else None)))))"

text \<open>
  \<^verbatim>\<open>json.loads\<close>: the whole text must be one value (a \<open>ValueError\<close> otherwise).  Each nested call
  consumes a character, so the length of the text is enough fuel.
\<close>

definition loads_json :: "string \<Rightarrow> pyval res" where
  "loads_json s =
     (case parse_val (Suc (length s)) s of
        Some (v, r) \<Rightarrow> if skip_ws r = [] then Inr v else Inl (raise_of PyValueError)
      | None \<Rightarrow> Inl (raise_of PyValueError))"

section \<open>The round trip\<close>

lemma hex_val_hex_char: "k < 16 \<Longrightarrow> hex_val (hex_char k) = Some k"
  by (auto simp: hex_val_def hex_char_def Let_def)

lemma unhex4_control:
  assumes "(of_char c :: nat) < 32"
  shows "unhex4 (CHR ''0'') (CHR ''0'') (hex_char (of_char c div 16)) (hex_char (of_char c mod 16)) = Some c"
proof -
  have z: "hex_val (CHR ''0'') = Some 0" by (simp add: hex_val_def)
  have "(of_char c :: nat) div 16 < 16" using assms by simp
  then show ?thesis using assms by (simp add: z hex_val_hex_char Let_def)
qed

lemma scan_str_esc: "scan_str (concat (map esc_char s) @ QUOTE # r) = Some (s, r)"
proof (induction s)
  case (Cons c s)
  show ?case
  proof (cases "c \<in> {QUOTE, BSLASH, CHR 0x0A, CHR 0x0D, CHR 0x09, CHR 0x08, CHR 0x0C}")
    case True
    then show ?thesis using Cons.IH by (auto simp: esc_char_def unesc_def)
  next
    case False
    then show ?thesis
      using Cons.IH unhex4_control [of c] by (auto simp: esc_char_def simp del: unhex4.simps)
  qed
qed simp

lemma of_char_digit_char: "n < 10 \<Longrightarrow> (of_char (digit_char n) :: nat) = 48 + n"
  by (simp add: digit_char_def)

lemma is_digit_digit_char [simp]: "n < 10 \<Longrightarrow> is_digit (digit_char n)"
  by (simp add: is_digit_def of_char_digit_char)

lemma digit_val_digit_char [simp]: "n < 10 \<Longrightarrow> digit_val (digit_char n) = n"
  by (simp add: digit_val_def of_char_digit_char)

lemma show_nat_digits: "list_all is_digit (show_nat n)"
proof (induction n rule: show_nat.induct)
  case (1 n)
  then show ?case by (subst show_nat.simps) simp
qed

lemma show_nat_nonempty [simp]: "show_nat n \<noteq> []"
  by (subst show_nat.simps) simp

lemma read_show_nat: "read_nat (show_nat n) = n"
proof (induction n rule: show_nat.induct)
  case (1 n)
  then show ?case
    by (subst show_nat.simps) (simp add: read_nat_def)
qed

lemma digit_char_0: "n < 10 \<Longrightarrow> digit_char n = CHR ''0'' \<longleftrightarrow> n = 0"
proof -
  assume n: "n < 10"
  have "digit_char n = CHR ''0'' \<longleftrightarrow> (of_char (digit_char n) :: nat) = of_char (CHR ''0'')"
    by (simp only: of_char_eq_iff)
  then show ?thesis using n by (simp add: of_char_digit_char)
qed

lemma show_nat_hd0: "0 < n \<Longrightarrow> hd (show_nat n) \<noteq> CHR ''0''"
proof (induction n rule: show_nat.induct)
  case (1 n)
  then show ?case by (subst show_nat.simps) (auto simp: digit_char_0)
qed

lemma show_nat_no_leading0: "1 < length (show_nat n) \<Longrightarrow> hd (show_nat n) \<noteq> CHR ''0''"
proof -
  assume l: "1 < length (show_nat n)"
  have "0 < n"
  proof (rule ccontr)
    assume "\<not> 0 < n"
    then show False using l by (simp add: show_nat.simps [of 0])
  qed
  then show ?thesis by (rule show_nat_hd0)
qed

lemma takeWhile_digits:
  assumes "list_all is_digit ds" and "r = [] \<or> \<not> is_digit (hd r)"
  shows "takeWhile is_digit (ds @ r) = ds" and "dropWhile is_digit (ds @ r) = r"
  using assms by (induction ds; cases r; auto)+

lemma not_digit_minus [simp]: "\<not> is_digit (CHR ''-'')"
  by (simp add: is_digit_def)

lemma hd_show_nat_digit: "is_digit (hd (show_nat n))"
  using show_nat_digits [of n] by (cases "show_nat n") auto

lemma scan_int_show:
  assumes "r = [] \<or> \<not> is_digit (hd r)"
  shows "scan_int (show_int i @ r) = Some (i, r)"
proof -
  have h: "hd (show_nat k @ r) \<noteq> CHR ''-''" for k
    using hd_show_nat_digit [of k] by (auto simp: hd_append)
  show ?thesis
    using takeWhile_digits [OF show_nat_digits assms] show_nat_no_leading0 h
    by (auto simp: scan_int_def show_int_def Let_def read_show_nat)
qed

fun json_fuel :: "pyval \<Rightarrow> nat" where
  "json_fuel (VList xs) = Suc (sum_list (map (\<lambda>x. Suc (json_fuel x)) xs))"
| "json_fuel (VDict d) = Suc (sum_list (map (\<lambda>kv. Suc (json_fuel (snd kv))) d))"
| "json_fuel _ = 1"

lemma hd_dumps_ws: "dumps_json v \<noteq> [] \<and> \<not> is_ws (hd (dumps_json v))"
proof (cases v)
  case (VInt i)
  have "is_digit c \<Longrightarrow> \<not> is_ws c" for c by (auto simp: is_digit_def is_ws_def)
  with VInt show ?thesis using hd_show_nat_digit by (auto simp: show_int_def is_ws_def)
qed (auto simp: show_str_def is_ws_def)

lemma skip_ws_dumps [simp]: "skip_ws (dumps_json v @ r) = dumps_json v @ r"
  using hd_dumps_ws [of v] by (cases "dumps_json v") (auto simp: skip_ws_def)

lemma skip_ws_space [simp]: "skip_ws (CHR '' '' # s) = skip_ws s"
  by (simp add: skip_ws_def is_ws_def)

lemma skip_ws_show_str [simp]: "skip_ws (show_str k @ r) = show_str k @ r"
  by (simp add: skip_ws_def show_str_def is_ws_def)

lemma parse_val_space [simp]: "parse_val n (CHR '' '' # s) = parse_val n s"
  by (cases n) simp_all

lemma parse_list_space [simp]: "parse_list n (CHR '' '' # s) = parse_list n s"
  by (cases n) simp_all

lemma parse_dict_space [simp]: "parse_dict n (CHR '' '' # s) = parse_dict n s"
  by (cases n) simp_all

abbreviation json_end :: "string \<Rightarrow> bool" where
  "json_end r \<equiv> r = [] \<or> \<not> is_digit (hd r)"

lemma not_digit_punct [simp]:
  "\<not> is_digit (CHR '','')" "\<not> is_digit (CHR '']'')" "\<not> is_digit (CHR ''}'')"
  by (simp_all add: is_digit_def)

lemma skip_ws_punct [simp]:
  "skip_ws (CHR '','' # s) = CHR '','' # s" "skip_ws (CHR '']'' # s) = CHR '']'' # s"
  "skip_ws (CHR ''}'' # s) = CHR ''}'' # s" "skip_ws (CHR '':'' # s) = CHR '':'' # s"
  by (simp_all add: skip_ws_def is_ws_def)

text \<open>Reading back the elements of a list, given that each element reads back.\<close>

lemma parse_list_join:
  assumes "\<And>x n r. x \<in> set xs \<Longrightarrow> json_fuel x \<le> n \<Longrightarrow> json_end r \<Longrightarrow> parse_val n (dumps_json x @ r) = Some (x, r)"
    and "xs \<noteq> []" and "sum_list (map (\<lambda>x. Suc (json_fuel x)) xs) \<le> n"
  shows "parse_list n (join '', '' (map dumps_json xs) @ CHR '']'' # r) = Some (xs, r)"
  using assms
proof (induction xs arbitrary: n)
  case (Cons x xs)
  then obtain m where n: "n = Suc m" by (cases n) auto
  then have m: "json_fuel x \<le> m" "sum_list (map (\<lambda>x. Suc (json_fuel x)) xs) \<le> m" using Cons.prems(3) by auto
  show ?case
  proof (cases xs)
    case Nil
    then show ?thesis using Cons.prems(1) [of x m "CHR '']'' # r"] m n by simp
  next
    case (Cons y ys)
    have "parse_list m (join '', '' (map dumps_json xs) @ CHR '']'' # r) = Some (xs, r)"
      using Cons.prems(1) m(2) Cons by (intro Cons.IH) auto
    with Cons show ?thesis
      using Cons.prems(1) [of x m "CHR '','' # CHR '' '' # join '', '' (map dumps_json xs) @ CHR '']'' # r"] m n
      by simp
  qed
qed simp

lemma parse_dict_join:
  assumes "\<And>k x n r. (k, x) \<in> set d \<Longrightarrow> json_fuel x \<le> n \<Longrightarrow> json_end r \<Longrightarrow> parse_val n (dumps_json x @ r) = Some (x, r)"
    and "d \<noteq> []" and "sum_list (map (\<lambda>kv. Suc (json_fuel (snd kv))) d) \<le> n"
  shows "parse_dict n (join '', '' (map (\<lambda>kv. show_str (fst kv) @ '': '' @ dumps_json (snd kv)) d) @ CHR ''}'' # r)
    = Some (d, r)"
  using assms
proof (induction d arbitrary: n)
  case (Cons kx d)
  obtain k x where kx: "kx = (k, x)" by (cases kx)
  from Cons.prems obtain m where n: "n = Suc m" by (cases n) auto
  then have m: "json_fuel x \<le> m" "sum_list (map (\<lambda>kv. Suc (json_fuel (snd kv))) d) \<le> m"
    using Cons.prems(3) kx by auto
  have sc: "scan_str (concat (map esc_char k) @ QUOTE # t) = Some (k, t)" for t by (rule scan_str_esc)
  show ?case
  proof (cases d)
    case Nil
    then show ?thesis
      using Cons.prems(1) [of k x m "CHR ''}'' # r"] m n kx by (simp add: sc show_str_def skip_ws_def is_ws_def)
  next
    case (Cons y ys)
    let ?rest = "join '', '' (map (\<lambda>kv. show_str (fst kv) @ '': '' @ dumps_json (snd kv)) d) @ CHR ''}'' # r"
    have ih: "parse_dict m ?rest = Some (d, r)"
      using Cons.prems(1) m(2) Cons by (intro Cons.IH) auto
    show ?thesis
      using Cons.prems(1) [of k x m "CHR '','' # CHR '' '' # ?rest"] m n kx ih Cons
      by (simp add: sc show_str_def [of k] skip_ws_def is_ws_def)
  qed
qed simp

lemma join_first:
  assumes "xs \<noteq> []" and "f (hd xs) = c # cs"
  shows "\<exists>t. join sep (map f xs) @ r = c # t"
proof (cases xs)
  case (Cons y ys)
  then show ?thesis using assms by (cases ys) auto
qed (use assms in simp)

lemma dumps_first: "\<exists>c cs. dumps_json v = c # cs \<and> \<not> is_ws c \<and> c \<noteq> CHR '']''"
proof (cases v)
  case (VInt i)
  have d: "is_digit c \<Longrightarrow> \<not> is_ws c \<and> c \<noteq> CHR '']''" for c by (auto simp: is_digit_def is_ws_def)
  obtain c cs where "show_nat k = c # cs \<and> is_digit c" if "k = nat i" for k
    using hd_show_nat_digit [of "nat i"] by (cases "show_nat (nat i)") auto
  with VInt d show ?thesis by (auto simp: show_int_def is_ws_def)
qed (auto simp: show_str_def is_ws_def)

lemma parse_dumps: "json_fuel v \<le> n \<Longrightarrow> json_end r \<Longrightarrow> parse_val n (dumps_json v @ r) = Some (v, r)"
proof (induction v arbitrary: n r rule: dumps_json.induct)
  case 1
  then show ?case by (cases n) (simp_all add: skip_ws_def is_ws_def is_digit_def)
next
  case (2 b)
  then show ?case by (cases n) (simp_all add: skip_ws_def is_ws_def is_digit_def)
next
  case (3 i)
  then obtain m where n: "n = Suc m" by (cases n) auto
  obtain c cs where c: "show_int i = c # cs" "c = CHR ''-'' \<or> is_digit c"
    using hd_show_nat_digit [of "nat i"]
    by (cases "show_int i") (auto simp: show_int_def split: if_splits dest: arg_cong [where f = hd])
  have "c \<noteq> QUOTE" "c \<noteq> CHR ''[''" "c \<noteq> CHR ''{''" using c(2) by (auto simp: is_digit_def)
  then show ?case using n c scan_int_show [OF "3.prems"(2), of i] skip_ws_dumps [of "VInt i" r] by simp
next
  case (4 s)
  then show ?case using scan_str_esc by (cases n) (simp_all add: show_str_def skip_ws_def is_ws_def)
next
  case (5 xs)
  from "5.prems" obtain m where n: "n = Suc m" by (cases n) auto
  show ?case
  proof (cases xs)
    case Nil
    then show ?thesis using n by (simp add: skip_ws_def is_ws_def)
  next
    case (Cons y ys)
    have "parse_list m (join '', '' (map dumps_json xs) @ CHR '']'' # r) = Some (xs, r)"
      using "5.IH" "5.prems" Cons n by (intro parse_list_join) auto
    moreover obtain c cs t where "dumps_json (hd xs) = c # cs" "\<not> is_ws c" "c \<noteq> CHR '']''"
      and t: "join '', '' (map dumps_json xs) @ CHR '']'' # r = c # t"
      using dumps_first [of "hd xs"] join_first [of xs dumps_json] Cons by (metis list.distinct(1))
    ultimately show ?thesis using n t by (simp add: skip_ws_def is_ws_def)
  qed
next
  case (6 d)
  from "6.prems" obtain m where n: "n = Suc m" by (cases n) auto
  let ?f = "\<lambda>kv. show_str (fst kv) @ '': '' @ dumps_json (snd kv)"
  show ?case
  proof (cases d)
    case Nil
    then show ?thesis using n by (simp add: skip_ws_def is_ws_def)
  next
    case (Cons y ys)
    have "\<exists>t. join '', '' (map ?f d) @ CHR ''}'' # r = QUOTE # t"
      using Cons by (intro join_first [where f = ?f]) (simp_all add: show_str_def)
    then obtain t where t: "join '', '' (map ?f d) @ CHR ''}'' # r = QUOTE # t" by blast
    have p: "parse_dict m (join '', '' (map ?f d) @ CHR ''}'' # r) = Some (d, r)"
    proof (rule parse_dict_join)
      show "parse_val n (dumps_json x @ r) = Some (x, r)"
        if "(k, x) \<in> set d" "json_fuel x \<le> n" "json_end r" for k x n r
        using "6.IH" [OF that(1)] that by simp
    qed (use "6.prems" Cons n in auto)
    have "dumps_json (VDict d) @ r = CHR ''{'' # join '', '' (map ?f d) @ CHR ''}'' # r" by simp
    then have "dumps_json (VDict d) @ r = CHR ''{'' # QUOTE # t" by (simp only: t)
    moreover have "parse_dict m (QUOTE # t) = Some (d, r)" using p by (simp only: t)
    ultimately show ?thesis by (simp add: n skip_ws_def is_ws_def del: dumps_json.simps)
  qed
qed

lemma sum_list_le_join: "sum_list (map g xs) \<le> length (join sep (map f xs)) + 1"
  if "\<And>x. x \<in> set xs \<Longrightarrow> g x \<le> length (f x) + 1" and "sep \<noteq> []" and "xs \<noteq> []"
  using that
proof (induction xs)
  case (Cons x xs)
  show ?case
  proof (cases xs)
    case (Cons y ys)
    have "g x \<le> length (f x) + 1" and "sum_list (map g xs) \<le> length (join sep (map f xs)) + 1"
      using Cons.prems Cons Cons.IH by auto
    moreover have "1 \<le> length sep" using Cons.prems(2) by (cases sep) auto
    ultimately show ?thesis using Cons by simp
  qed (use Cons.prems in simp)
qed simp

lemma json_fuel_le: "json_fuel v \<le> length (dumps_json v)"
proof (induction v rule: dumps_json.induct)
  case (3 i)
  then show ?case using show_nat_nonempty by (auto simp: show_int_def Suc_le_eq)
next
  case (5 xs)
  then show ?case
    using sum_list_le_join [of xs "\<lambda>x. Suc (json_fuel x)" dumps_json "'', ''"]
    by (cases "xs = []") auto
next
  case (6 d)
  let ?f = "\<lambda>kv. show_str (fst kv) @ '': '' @ dumps_json (snd kv)"
  have "Suc (json_fuel (snd kv)) \<le> length (?f kv) + 1" if "kv \<in> set d" for kv
    using "6.IH" [of kv] that by simp
  then show ?case
    using sum_list_le_join [of d "\<lambda>kv. Suc (json_fuel (snd kv))" ?f "'', ''"]
    by (cases "d = []") auto
qed (auto simp: show_str_def)

lemma loads_dumps: "loads_json (dumps_json v) = Inr v"
proof -
  have "parse_val (Suc (length (dumps_json v))) (dumps_json v @ []) = Some (v, [])"
    using json_fuel_le [of v] by (intro parse_dumps) auto
  then show ?thesis by (simp add: loads_json_def skip_ws_def)
qed

lemma dumps_json_inject [simp]: "dumps_json v = dumps_json w \<longleftrightarrow> v = w"
  using loads_dumps by (metis sum.inject(2))

end
