(* ===== verification/Netspy_Setting.thy ===== *)
theory Netspy_Setting
  imports Netspy_Prelude
begin

text \<open>
  The configuration module \<^verbatim>\<open>netspy/setting.py\<close>: the module globals the modelled code reads, one
  record per section of the file (each extends the one before, so \<open>setting\<close> is the whole module),
  and their defaults.  How a project file and environment variables are laid over the defaults is in
  \<open>Setting_Load\<close>.  Settings that only reach unmodelled code (log sinks, database connections, the browser)
  have no field.
\<close>

record runtime_setting =
  SPIDER_THREAD_COUNT :: int
  SPIDER_MAX_RETRY_TIMES :: int
  SPIDER_RETRY_INTERVAL :: time
  CHECK_STATUS_CODE :: bool
  RETRY_STATUS_CODES :: "int list"
  ACCEPT_STATUS_CODES :: "int list"
  RETRY_AFTER_MAX :: time
  RETRY_BACKOFF :: time
  SPIDER_KEEP_ALIVE :: bool
  SPIDER_SEED_LOCK_TTL :: int
  RUN_ID :: string
  DEDUP_SCOPE :: string
  RUN_TTL :: int
  RUN_SUMMARY_ENABLE :: bool
  HEARTBEAT_INTERVAL :: time
  HEARTBEAT_STALE :: time
  TASK_POLL_INTERVAL :: time
  TASK_BATCH_SIZE :: int
  TASK_EXHAUST_POLLS :: int
  BATCH_TASK_ID_FIELD :: string
  COLLECTOR_TASK_COUNT :: int
  REQUEST_BUFFER_MAX_CACHED :: int
  DONE_CHECK_TIMES :: int
  DONE_CHECK_INTERVAL :: time
  SPIDER_STARTUP_GRACE :: time
  SPIDER_TASK_LEASE :: time
  DUMP_UNFINISHED_ON_EXIT :: bool

record network_setting = runtime_setting +
  REQUEST_TIMEOUT :: time
  RANDOM_USER_AGENT :: bool
  USE_SESSION :: bool
  DOWNLOADER_ASYNC :: bool
  DOWNLOADER_IMPERSONATE :: string
  SESSION_CACHE_SIZE :: int
  SESSION_SHARD_THREADS :: int
  CURL_SESSION_SHARD_THREADS :: int
  DOWNLOADER_ASYNC_CONCURRENCY :: int
  ASYNC_THREADS_PER_LOOP :: int
  HTTPX_HTTP2 :: bool
  CONCURRENT_REQUESTS_PER_DOMAIN :: int
  DOWNLOAD_DELAY :: time
  RANDOMIZE_DOWNLOAD_DELAY :: bool
  GLOBAL_THROTTLE :: bool
  MAX_RESPONSE_SIZE :: int
  ALLOWED_CONTENT_TYPES :: "string list"
  ROBOTS_OBEY :: bool
  ROBOTS_USER_AGENT :: string
  ROBOTS_CACHE_TTL :: time
  CIRCUIT_FAILURE_THRESHOLD :: int
  CIRCUIT_COOLDOWN :: time
  SPIDER_MAX_RUNTIME :: time
  ANTIBOT_DETECT :: bool

record pool_setting = network_setting +
  PROXY_ENABLE :: bool
  PROXY_MAX_USE_TIMES :: int
  PROXY_MIN_INTERVAL :: time
  PROXY_WAIT_TIMEOUT :: time
  PROXY_BAN_SECONDS :: time
  PROXY_BAN_MAX_SECONDS :: time
  PROXY_SUSPECT_BAN_AFTER :: int
  PROXY_ALLOW_DIRECT :: bool
  USER_POOL_WAIT_TIMEOUT :: time
  USER_POOL_ALLOW_ANONYMOUS :: bool

record setting = pool_setting +
  ITEM_MAX_CACHED_COUNT :: int
  ITEM_PIPELINES :: "string list"
  ITEM_DEFAULT_TABLE :: string
  ITEM_FILTER_ENABLE :: bool
  RETRY_FAILED_ON_START :: bool
  RESPONSE_CACHE_ENABLE :: bool
  RESPONSE_CACHE_PATH :: string
  RESPONSE_CACHE_EXPIRE :: time
  MYSQL_UPDATE_ON_DUPLICATE :: bool
  POSTGRES_ON_CONFLICT :: string
  POSTGRES_CONFLICT_TARGET :: "string list"
  DEDUP_FILTER :: string
  DEDUP_ERROR_RATE :: real
  DEDUP_INITIAL_CAPACITY :: int
  DEDUP_WARN_FILL_RATE :: real
  DEDUP_MAX_LAYERS :: int
  WARNING_ENABLE :: bool
  WARNING_INTERVAL :: time
  WARNING_FAILED_RATE :: real
  WARNING_MIN_REQUESTS :: int
  WARNING_FAILED_COUNT :: int
  WARNING_STALL_SECONDS :: time

definition default_setting :: setting where
  "default_setting = \<lparr>
     SPIDER_THREAD_COUNT = 4, SPIDER_MAX_RETRY_TIMES = 3, SPIDER_RETRY_INTERVAL = 0,
     CHECK_STATUS_CODE = True, RETRY_STATUS_CODES = [429, 500, 502, 503, 504],
     ACCEPT_STATUS_CODES = [], RETRY_AFTER_MAX = 60, RETRY_BACKOFF = 0,
     SPIDER_KEEP_ALIVE = False, SPIDER_SEED_LOCK_TTL = 86400, RUN_ID = '''',
     DEDUP_SCOPE = ''auto'', RUN_TTL = 7 * 86400, RUN_SUMMARY_ENABLE = True,
     HEARTBEAT_INTERVAL = 3, HEARTBEAT_STALE = 15, TASK_POLL_INTERVAL = 2,
     TASK_BATCH_SIZE = 100, TASK_EXHAUST_POLLS = 3, BATCH_TASK_ID_FIELD = ''id'',
     COLLECTOR_TASK_COUNT = 100, REQUEST_BUFFER_MAX_CACHED = 1000, DONE_CHECK_TIMES = 3,
     DONE_CHECK_INTERVAL = 1 / 2, SPIDER_STARTUP_GRACE = 10, SPIDER_TASK_LEASE = 600,
     DUMP_UNFINISHED_ON_EXIT = True,
     REQUEST_TIMEOUT = 22, RANDOM_USER_AGENT = True, USE_SESSION = False, DOWNLOADER_ASYNC = False, DOWNLOADER_IMPERSONATE = [],
     SESSION_CACHE_SIZE = 16, SESSION_SHARD_THREADS = 32, CURL_SESSION_SHARD_THREADS = 16,
     DOWNLOADER_ASYNC_CONCURRENCY = 200, ASYNC_THREADS_PER_LOOP = 16, HTTPX_HTTP2 = False, CONCURRENT_REQUESTS_PER_DOMAIN = 8,
     DOWNLOAD_DELAY = 0, RANDOMIZE_DOWNLOAD_DELAY = True, GLOBAL_THROTTLE = False,
     MAX_RESPONSE_SIZE = 32 * 1024 * 1024, ALLOWED_CONTENT_TYPES = [], ROBOTS_OBEY = False,
     ROBOTS_USER_AGENT = ''*'', ROBOTS_CACHE_TTL = 3600, CIRCUIT_FAILURE_THRESHOLD = 10,
     CIRCUIT_COOLDOWN = 60, SPIDER_MAX_RUNTIME = 0, ANTIBOT_DETECT = True,
     PROXY_ENABLE = False, PROXY_MAX_USE_TIMES = 100, PROXY_MIN_INTERVAL = 1,
     PROXY_WAIT_TIMEOUT = 30, PROXY_BAN_SECONDS = 60, PROXY_BAN_MAX_SECONDS = 900,
     PROXY_SUSPECT_BAN_AFTER = 3, PROXY_ALLOW_DIRECT = False, USER_POOL_WAIT_TIMEOUT = 10,
     USER_POOL_ALLOW_ANONYMOUS = False,
     ITEM_MAX_CACHED_COUNT = 5000, ITEM_PIPELINES = [''netspy.pipelines.console.ConsolePipeline''],
     ITEM_DEFAULT_TABLE = ''items'', ITEM_FILTER_ENABLE = True, RETRY_FAILED_ON_START = False,
     RESPONSE_CACHE_ENABLE = False, RESPONSE_CACHE_PATH = ''.netspy_cache'', RESPONSE_CACHE_EXPIRE = 3600,
     MYSQL_UPDATE_ON_DUPLICATE = True, POSTGRES_ON_CONFLICT = ''nothing'', POSTGRES_CONFLICT_TARGET = [],
     DEDUP_FILTER = ''memory'',
     DEDUP_ERROR_RATE = 1 / 1000000, DEDUP_INITIAL_CAPACITY = 1000000,
     DEDUP_WARN_FILL_RATE = 8 / 10, DEDUP_MAX_LAYERS = 4, WARNING_ENABLE = True,
     WARNING_INTERVAL = 300, WARNING_FAILED_RATE = 1 / 2, WARNING_MIN_REQUESTS = 50,
     WARNING_FAILED_COUNT = 1000, WARNING_STALL_SECONDS = 600 \<rparr>"

lemma default_lease: "SPIDER_TASK_LEASE default_setting = 600"
  by (simp add: default_setting_def)

end
