(* ===== verification/Net_Request.thy ===== *)
theory Net_Request
  imports Py_Json Netspy_Setting "HOL-Library.List_Lexorder" "HOL-Library.Char_ord"
begin

text \<open>
  \<^verbatim>\<open>netspy/network/request.py\<close> and the fingerprint helpers of \<^verbatim>\<open>netspy/utils/tools.py\<close>: the
  \<open>Request\<close> object, its dictionary form (what is written to Redis and to the failed-request file),
  and the fingerprint that de-duplication keys on.

  Python identity matters to the framework (\<open>id(request)\<close> keys two tables), so the record carries it
  as \<open>oid\<close>; an operation that mutates a request keeps its \<open>oid\<close>, one that builds a new object is given
  a fresh one.  Fields have the types of the source's annotations.  \<open>urllib.parse\<close> and \<open>hashlib.md5\<close> are
  arguments of the functions that call them.
\<close>

section \<open>The object\<close>

text \<open>
  \<open>callback\<close> is \<open>None\<close>, a method name, or a callable (identified by a number), which has a \<open>__name__\<close>
  or not (a \<open>functools.partial\<close> has none).
\<close>

datatype callback_ref = CbNone | CbName string | CbFun nat "string option"

record request =
  oid :: nat
  url :: string
  http_method :: string
  callback :: callback_ref
  lease_token :: "string option"
  priority :: int
  retry_times :: int
  filter_repeat :: bool
  auto_request :: bool
  use_session :: "bool option"
  random_user_agent :: "bool option"
  impersonate :: "string option"
  render :: bool
  render_time :: "int option"
  wait_for :: "string option"
  render_script :: "nat option"
  download_midware :: "string option"
  parser_name :: "string option"
  cb_kwargs :: "(string, pyval) pydict"
  requests_kwargs :: "(string, pyval) pydict"
  custom :: "(string, pyval) pydict"
  user_attr :: "string option"

definition HTTP_KEYS :: "string list" where
  "HTTP_KEYS = [''params'', ''headers'', ''cookies'', ''data'', ''json'', ''content'', ''files'', ''auth'',
     ''timeout'', ''follow_redirects'', ''allow_redirects'', ''verify'', ''proxy'', ''proxies'', ''cert'']"

definition upper_char :: "char \<Rightarrow> char" where
  "upper_char c = (let n = (of_char c :: nat) in if 97 \<le> n \<and> n \<le> 122 then char_of (n - 32) else c)"

definition str_upper :: "string \<Rightarrow> string" where
  "str_upper s = map upper_char s"

text \<open>The constructor's loop over \<open>**kwargs\<close>.\<close>

fun split_kwargs :: "(string, pyval) pydict \<Rightarrow> (string, pyval) pydict \<Rightarrow> (string, pyval) pydict
    \<Rightarrow> (string, pyval) pydict \<times> (string, pyval) pydict" where
  "split_kwargs rk cu [] = (rk, cu)"
| "split_kwargs rk cu ((k, v) # kw) =
     (if k \<in> set HTTP_KEYS then split_kwargs (dset rk k v) cu kw else split_kwargs rk (dset cu k v) kw)"

text \<open>
  \<open>Request.__init__\<close> applied to the keyword arguments as a record of their values; \<open>kw\<close> are the
  remaining \<open>**kwargs\<close>.
\<close>

definition new_request :: "nat \<Rightarrow> request \<Rightarrow> (string, pyval) pydict \<Rightarrow> request" where
  "new_request o' args kw =
     args\<lparr>oid := o', http_method := str_upper (http_method args), lease_token := None,
          requests_kwargs := fst (split_kwargs [] [] kw), custom := snd (split_kwargs [] [] kw),
          user_attr := None\<rparr>"

text \<open>The default values of the keyword arguments.\<close>

definition request_defaults :: "string \<Rightarrow> request" where
  "request_defaults u = \<lparr>
     oid = 0, url = u, http_method = ''GET'', callback = CbNone, lease_token = None, priority = 300,
     retry_times = 0, filter_repeat = True, auto_request = True, use_session = None,
     random_user_agent = None, impersonate = None, render = False, render_time = None,
     wait_for = None, render_script = None, download_midware = None, parser_name = None,
     cb_kwargs = [], requests_kwargs = [], custom = [], user_attr = None \<rparr>"

definition callback_name :: "request \<Rightarrow> string option" where
  "callback_name r = (case callback r of CbNone \<Rightarrow> None | CbName s \<Rightarrow> Some s | CbFun _ n \<Rightarrow> n)"

section \<open>Dictionary form\<close>

definition v_str :: "string option \<Rightarrow> pyval" where
  "v_str x = (case x of None \<Rightarrow> VNone | Some s \<Rightarrow> VStr s)"

definition v_bool :: "bool option \<Rightarrow> pyval" where
  "v_bool x = (case x of None \<Rightarrow> VNone | Some b \<Rightarrow> VBool b)"

definition v_int :: "int option \<Rightarrow> pyval" where
  "v_int x = (case x of None \<Rightarrow> VNone | Some i \<Rightarrow> VInt i)"

definition to_dict :: "request \<Rightarrow> (string, pyval) pydict" where
  "to_dict r =
     [(''url'', VStr (url r)), (''method'', VStr (http_method r)), (''callback'', v_str (callback_name r)),
      (''priority'', VInt (priority r)), (''retry_times'', VInt (retry_times r)),
      (''filter_repeat'', VBool (filter_repeat r)), (''auto_request'', VBool (auto_request r)),
      (''use_session'', v_bool (use_session r)), (''random_user_agent'', v_bool (random_user_agent r)),
      (''impersonate'', v_str (impersonate r)), (''render'', VBool (render r)),
      (''render_time'', v_int (render_time r)), (''wait_for'', v_str (wait_for r)),
      (''download_midware'', v_str (download_midware r)), (''parser_name'', v_str (parser_name r)),
      (''cb_kwargs'', VDict (cb_kwargs r)), (''requests_kwargs'', VDict (requests_kwargs r)),
      (''custom'', VDict (custom r))]"

text \<open>
  Reading a field back.  A value whose JSON type does not fit the field's annotation is a
  \<open>TypeError\<close> of the model: the typed record has no place for it.
\<close>

fun get_str :: "pyval \<Rightarrow> string res" where
  "get_str (VStr s) = Inr s"
| "get_str _ = Inl (raise_of PyTypeError)"

fun get_int :: "pyval \<Rightarrow> int res" where
  "get_int (VInt i) = Inr i"
| "get_int _ = Inl (raise_of PyTypeError)"

fun get_bool :: "pyval \<Rightarrow> bool res" where
  "get_bool (VBool b) = Inr b"
| "get_bool _ = Inl (raise_of PyTypeError)"

fun get_dict :: "pyval \<Rightarrow> (string, pyval) pydict res" where
  "get_dict (VDict d) = Inr d"
| "get_dict VNone = Inr []"
| "get_dict _ = Inl (raise_of PyTypeError)"

definition get_opt :: "(pyval \<Rightarrow> 'a res) \<Rightarrow> pyval \<Rightarrow> 'a option res" where
  "get_opt f v = (if v = VNone then Inr None else map_sum id Some (f v))"

text \<open>\<open>known\<close>: a keyword present in the dictionary overrides the constructor's default.\<close>

definition field :: "(string, pyval) pydict \<Rightarrow> string \<Rightarrow> (pyval \<Rightarrow> 'a res) \<Rightarrow> 'a \<Rightarrow> 'a res" where
  "field d k f dflt = (case dget d k of None \<Rightarrow> Inr dflt | Some v \<Rightarrow> f v)"

definition PARAM_NAMES :: "string list" where
  "PARAM_NAMES = [''url'', ''method'', ''callback'', ''priority'', ''retry_times'', ''filter_repeat'',
     ''auto_request'', ''use_session'', ''random_user_agent'', ''impersonate'', ''render'', ''render_time'',
     ''wait_for'', ''download_midware'', ''parser_name'', ''cb_kwargs'', ''render_script'', ''self'']"

abbreviation bind_res :: "'a res \<Rightarrow> ('a \<Rightarrow> 'b res) \<Rightarrow> 'b res" where
  "bind_res m f \<equiv> (case m of Inl e \<Rightarrow> Inl e | Inr x \<Rightarrow> f x)"

text \<open>
  \<open>Request.from_dict\<close>.  A missing \<open>url\<close> is a \<open>KeyError\<close>; a keyword given twice (among the named
  parameters, \<open>requests_kwargs\<close> and \<open>custom\<close>) is a \<open>TypeError\<close> of the call.
\<close>

definition from_dict :: "nat \<Rightarrow> (string, pyval) pydict \<Rightarrow> request res" where
  "from_dict o' d =
    (case dget d ''url'' of None \<Rightarrow> Inl (raise_of PyKeyError) | Some vu \<Rightarrow>
     bind_res (get_str vu) (\<lambda>u.
     bind_res (field d ''method'' get_str ''GET'') (\<lambda>m.
     bind_res (field d ''requests_kwargs'' get_dict []) (\<lambda>rk.
     bind_res (field d ''custom'' get_dict []) (\<lambda>cu.
     bind_res (field d ''callback'' (get_opt get_str) None) (\<lambda>cb.
     bind_res (field d ''priority'' get_int 300) (\<lambda>pr.
     bind_res (field d ''retry_times'' get_int 0) (\<lambda>rt.
     bind_res (field d ''filter_repeat'' get_bool True) (\<lambda>fr.
     bind_res (field d ''auto_request'' get_bool True) (\<lambda>ar.
     bind_res (field d ''use_session'' (get_opt get_bool) None) (\<lambda>us.
     bind_res (field d ''random_user_agent'' (get_opt get_bool) None) (\<lambda>ua.
     bind_res (field d ''impersonate'' (get_opt get_str) None) (\<lambda>im.
     bind_res (field d ''render'' get_bool False) (\<lambda>re.
     bind_res (field d ''render_time'' (get_opt get_int) None) (\<lambda>rti.
     bind_res (field d ''wait_for'' (get_opt get_str) None) (\<lambda>wf.
     bind_res (field d ''download_midware'' (get_opt get_str) None) (\<lambda>dm.
     bind_res (field d ''parser_name'' (get_opt get_str) None) (\<lambda>pn.
     bind_res (field d ''cb_kwargs'' get_dict []) (\<lambda>ck.
       if \<not> distinct (dkeys rk @ dkeys cu) \<or> (set (dkeys rk) \<union> set (dkeys cu)) \<inter> set PARAM_NAMES \<noteq> {}
       then Inl (raise_of PyTypeError)
       else Inr (new_request o'
         ((request_defaults u)\<lparr>http_method := m, callback := (case cb of None \<Rightarrow> CbNone | Some s \<Rightarrow> CbName s),
            priority := pr, retry_times := rt, filter_repeat := fr, auto_request := ar,
            use_session := us, random_user_agent := ua, impersonate := im, render := re,
            render_time := rti, wait_for := wf, download_midware := dm, parser_name := pn,
            cb_kwargs := ck\<rparr>) (rk @ cu)))))))))))))))))))))"

text \<open>\<open>Request.copy\<close>: through the dictionary form, then the two callables are put back.\<close>

definition copy_request :: "nat \<Rightarrow> request \<Rightarrow> request res" where
  "copy_request o' r =
     bind_res (from_dict o' (to_dict r)) (\<lambda>n.
       Inr (n\<lparr>callback := (case callback r of CbFun i nm \<Rightarrow> CbFun i nm | _ \<Rightarrow> callback n),
              render_script := render_script r\<rparr>))"

section \<open>Fingerprint\<close>

text \<open>\<open>json.dumps(\<dots>, sort_keys=True)\<close>: keys sorted at every level.\<close>

fun sort_keys :: "pyval \<Rightarrow> pyval" where
  "sort_keys (VList xs) = VList (map sort_keys xs)"
| "sort_keys (VDict d) = VDict (sort_key fst (map (\<lambda>(k, v). (k, sort_keys v)) d))"
| "sort_keys v = v"

fun stringify :: "pyval \<Rightarrow> string" where
  "stringify (VStr s) = s"
| "stringify (VInt i) = show_int i"
| "stringify (VBool b) = (if b then ''True'' else ''False'')"
| "stringify VNone = ''None''"
| "stringify v = dumps_json (sort_keys v)"

definition get_fingerprint :: "(string \<Rightarrow> string) \<Rightarrow> pyval list \<Rightarrow> string" where
  "get_fingerprint md5 parts = md5 (join ''|'' (map stringify parts))"

text \<open>\<open>a.get("data") or a.get("json") or a.get("params") or ""\<close>\<close>

fun or_chain :: "pyval option list \<Rightarrow> pyval" where
  "or_chain [] = VStr ''''"
| "or_chain (x # xs) = (case x of Some v \<Rightarrow> if truthy v then v else or_chain xs | None \<Rightarrow> or_chain xs)"

definition fingerprint :: "(string \<Rightarrow> string) \<Rightarrow> (string \<Rightarrow> string) \<Rightarrow> request \<Rightarrow> string" where
  "fingerprint md5 canonical_url r =
     (let rk = requests_kwargs r; body = or_chain [dget rk ''data'', dget rk ''json'', dget rk ''params'']
      in get_fingerprint md5 [VStr (http_method r), VStr (canonical_url (url r)), body])"

section \<open>What survives serialisation\<close>

text \<open>Well-formed requests: what the constructor and the framework's own updates produce.\<close>

definition wf_request :: "request \<Rightarrow> bool" where
  "wf_request r \<longleftrightarrow> str_upper (http_method r) = http_method r
     \<and> distinct (dkeys (requests_kwargs r)) \<and> distinct (dkeys (custom r))
     \<and> set (dkeys (requests_kwargs r)) \<subseteq> set HTTP_KEYS
     \<and> set (dkeys (custom r)) \<inter> (set HTTP_KEYS \<union> set PARAM_NAMES) = {}"

definition wire_request :: "nat \<Rightarrow> request \<Rightarrow> request" where
  "wire_request o' r = r\<lparr>oid := o', lease_token := None, render_script := None, user_attr := None,
     callback := (case callback_name r of None \<Rightarrow> CbNone | Some s \<Rightarrow> CbName s)\<rparr>"

lemma HTTP_PARAM_disjoint: "set HTTP_KEYS \<inter> set PARAM_NAMES = {}"
  by (simp add: HTTP_KEYS_def PARAM_NAMES_def)

lemma dset_append_new: "k \<notin> set (dkeys d) \<Longrightarrow> dset d k v = d @ [(k, v)]"
  by (induction d k v rule: dset.induct) (auto simp: dkeys_def)

lemma split_kwargs_http:
  "set (dkeys kw) \<subseteq> set HTTP_KEYS \<Longrightarrow> distinct (dkeys rk @ dkeys kw) \<Longrightarrow>
   split_kwargs rk cu (kw @ kw') = split_kwargs (rk @ kw) cu kw'"
proof (induction kw arbitrary: rk)
  case (Cons kv kw)
  obtain k v where kv: "kv = (k, v)" by (cases kv)
  have "k \<in> set HTTP_KEYS" and "k \<notin> set (dkeys rk)" using Cons.prems kv by (auto simp: dkeys_def)
  then show ?case using Cons.IH [of "rk @ [(k, v)]"] Cons.prems kv by (simp add: dset_append_new dkeys_def)
qed simp

lemma split_kwargs_custom:
  "set (dkeys kw) \<inter> set HTTP_KEYS = {} \<Longrightarrow> distinct (dkeys cu @ dkeys kw) \<Longrightarrow>
   split_kwargs rk cu kw = (rk, cu @ kw)"
proof (induction kw arbitrary: cu)
  case (Cons kv kw)
  obtain k v where kv: "kv = (k, v)" by (cases kv)
  have "k \<notin> set HTTP_KEYS" and "k \<notin> set (dkeys cu)" using Cons.prems kv by (auto simp: dkeys_def)
  then show ?case using Cons.IH [of "cu @ [(k, v)]"] Cons.prems kv by (simp add: dset_append_new dkeys_def)
qed simp

lemma split_kwargs_wf:
  assumes "wf_request r"
  shows "split_kwargs [] [] (requests_kwargs r @ custom r) = (requests_kwargs r, custom r)"
proof -
  have "split_kwargs [] [] (requests_kwargs r @ custom r) = split_kwargs (requests_kwargs r) [] (custom r)"
    using assms by (subst split_kwargs_http) (auto simp: wf_request_def dkeys_def)
  also have "\<dots> = (requests_kwargs r, custom r)"
    using assms by (subst split_kwargs_custom) (auto simp: wf_request_def dkeys_def)
  finally show ?thesis .
qed

lemma get_opt_v [simp]:
  "get_opt get_str (v_str x) = Inr x" "get_opt get_int (v_int y) = Inr y" "get_opt get_bool (v_bool z) = Inr z"
  by (cases x; simp add: get_opt_def v_str_def; fail) (cases y; simp add: get_opt_def v_int_def; fail | cases z; simp add: get_opt_def v_bool_def)+

lemma fields_to_dict:
  "dget (to_dict r) ''url'' = Some (VStr (url r))"
  "field (to_dict r) ''method'' get_str df1 = Inr (http_method r)"
  "field (to_dict r) ''callback'' (get_opt get_str) df2 = Inr (callback_name r)"
  "field (to_dict r) ''priority'' get_int df3 = Inr (priority r)"
  "field (to_dict r) ''retry_times'' get_int df4 = Inr (retry_times r)"
  "field (to_dict r) ''filter_repeat'' get_bool df5 = Inr (filter_repeat r)"
  "field (to_dict r) ''auto_request'' get_bool df6 = Inr (auto_request r)"
  "field (to_dict r) ''use_session'' (get_opt get_bool) df7 = Inr (use_session r)"
  "field (to_dict r) ''random_user_agent'' (get_opt get_bool) df8 = Inr (random_user_agent r)"
  "field (to_dict r) ''impersonate'' (get_opt get_str) df9 = Inr (impersonate r)"
  "field (to_dict r) ''render'' get_bool df10 = Inr (render r)"
  "field (to_dict r) ''render_time'' (get_opt get_int) df11 = Inr (render_time r)"
  "field (to_dict r) ''wait_for'' (get_opt get_str) df12 = Inr (wait_for r)"
  "field (to_dict r) ''download_midware'' (get_opt get_str) df13 = Inr (download_midware r)"
  "field (to_dict r) ''parser_name'' (get_opt get_str) df14 = Inr (parser_name r)"
  "field (to_dict r) ''cb_kwargs'' get_dict df15 = Inr (cb_kwargs r)"
  "field (to_dict r) ''requests_kwargs'' get_dict df16 = Inr (requests_kwargs r)"
  "field (to_dict r) ''custom'' get_dict df17 = Inr (custom r)"
  by (simp_all add: to_dict_def field_def)

lemma from_to_dict: "wf_request r \<Longrightarrow> from_dict o' (to_dict r) = Inr (wire_request o' r)"
proof -
  assume wf: "wf_request r"
  have d: "distinct (dkeys (requests_kwargs r) @ dkeys (custom r))"
    using wf by (auto simp: wf_request_def)
  have p: "(set (dkeys (requests_kwargs r)) \<union> set (dkeys (custom r))) \<inter> set PARAM_NAMES = {}"
    using wf HTTP_PARAM_disjoint by (auto simp: wf_request_def)
  have m: "str_upper (http_method r) = http_method r" using wf by (simp add: wf_request_def)
  show ?thesis
    unfolding from_dict_def fields_to_dict option.case sum.case get_str.simps
    using d p m split_kwargs_wf [OF wf]
    by (simp add: new_request_def wire_request_def request_defaults_def)
qed

section \<open>Properties\<close>

text \<open>A request that crosses the wire keeps every field the crawler reads.  Writing a well-formed
  request as JSON text (what \<open>RedisTaskQueue.put\<close> and the failed-request file do), reading the text back
  and rebuilding the request gives the same URL, method, priority, retry count, de-duplication flag and
  dictionaries; only what is bound to the process (identity, lease token, attached account, callables)
  is dropped, and a callable callback comes back as its name.\<close>

theorem request_json_roundtrip:
  assumes "wf_request r"
  shows "bind_res (loads_json (dumps_json (VDict (to_dict r)))) (\<lambda>v. bind_res (get_dict v) (from_dict o'))
           = Inr (wire_request o' r)"
  unfolding loads_dumps sum.case get_dict.simps by (rule from_to_dict [OF assms])

theorem request_json_roundtrip_witness:
  "wf_request ((request_defaults ''http://a/'')\<lparr>retry_times := 2, requests_kwargs := [(''data'', VStr ''q'')]\<rparr>)
   \<and> bind_res (loads_json (dumps_json (VDict (to_dict
        ((request_defaults ''http://a/'')\<lparr>retry_times := 2, requests_kwargs := [(''data'', VStr ''q'')]\<rparr>)))))
       (\<lambda>v. bind_res (get_dict v) (from_dict 7))
     = Inr ((request_defaults ''http://a/'')\<lparr>oid := 7, retry_times := 2, requests_kwargs := [(''data'', VStr ''q'')]\<rparr>)"
proof -
  let ?r = "(request_defaults ''http://a/'')\<lparr>retry_times := 2, requests_kwargs := [(''data'', VStr ''q'')]\<rparr>"
  have wf: "wf_request ?r"
    by (simp add: wf_request_def request_defaults_def dkeys_def HTTP_KEYS_def str_upper_def upper_char_def)
  show ?thesis
    using wf request_json_roundtrip [OF wf, of 7]
    by (simp add: wire_request_def request_defaults_def callback_name_def)
qed

lemma sort_keys_perm:
  assumes "mset d = mset d'" and "distinct (dkeys d)"
  shows "sort_keys (VDict d) = sort_keys (VDict d')"
proof -
  let ?f = "\<lambda>(k, v). (k, sort_keys v)"
  have eq: "mset (map ?f d) = mset (map ?f d')" using assms(1) by simp
  have "distinct (map fst (map ?f d))" using assms(2) by (simp add: dkeys_def comp_def case_prod_unfold)
  then have "inj_on fst (set (map ?f d))" by (simp only: distinct_map)
  moreover have "mset (map ?f d) = mset (sort_key fst (map ?f d'))" using eq by simp
  ultimately have "sort_key fst (map ?f d) = sort_key fst (map ?f d')"
    by (intro sort_key_inj_key_eq) auto
  then show ?thesis by simp
qed

text \<open>The fingerprint does not depend on the order in which the fields of a JSON or form body were
  inserted: two requests whose bodies are the same dictionary up to order are the same page to the
  de-duplication filter, whatever MD5 and the URL normalisation do.\<close>

theorem fingerprint_body_order:
  assumes "mset d = mset d'" and "distinct (dkeys d)" and "k \<in> {''data'', ''json'', ''params''}"
    and "requests_kwargs r = [(k, VDict d)]"
  shows "fingerprint md5 canon r = fingerprint md5 canon (r\<lparr>requests_kwargs := [(k, VDict d')]\<rparr>)"
proof -
  have e: "d = [] \<longleftrightarrow> d' = []" using assms(1) by auto
  have "stringify (VDict d) = stringify (VDict d')"
    using sort_keys_perm [OF assms(1,2)] by (simp only: stringify.simps)
  then show ?thesis
    using assms(3,4) e by (auto simp: fingerprint_def get_fingerprint_def Let_def)
qed

theorem fingerprint_body_order_witness:
  "fingerprint (\<lambda>s. s) (\<lambda>u. u) ((request_defaults ''u'')\<lparr>requests_kwargs := [(''json'', VDict [(''a'', VInt 1), (''b'', VInt 2)])]\<rparr>)
   = fingerprint (\<lambda>s. s) (\<lambda>u. u) ((request_defaults ''u'')\<lparr>requests_kwargs := [(''json'', VDict [(''b'', VInt 2), (''a'', VInt 1)])]\<rparr>)"
  using fingerprint_body_order [of "[(''a'', VInt 1), (''b'', VInt 2)]" "[(''b'', VInt 2), (''a'', VInt 1)]" "''json''"
      "(request_defaults ''u'')\<lparr>requests_kwargs := [(''json'', VDict [(''a'', VInt 1), (''b'', VInt 2)])]\<rparr>" "\<lambda>s. s" "\<lambda>u. u"]
  by (simp add: dkeys_def)

end
