(* ===== verification/Redis_Interface.thy ===== *)
theory Redis_Interface
  imports Netspy_Prelude
begin

text \<open>
  The Redis server is not part of the repository: it is an argument of every definition that calls
  it.  A client is a record of commands over an opaque server state \<open>'s\<close> (what
  \<^verbatim>\<open>self._redis\<close> / \<^verbatim>\<open>self._r\<close> is to the code); the locale \<open>redis_server\<close> states the documented
  effect of each command on a view of the state (sorted sets, strings with expiry, hashes, lists, sets,
  bit arrays, the server clock).  \<open>rcall\<close> is one client call: it may fail before it reaches the server, or
  after the server has run it (the reply is lost); the client sees an exception in both cases.  A Lua script is one call whose body runs the commands
  atomically.  The theory \<open>Redis_Mini\<close> holds a reference server that satisfies the laws.
\<close>

section \<open>Commands\<close>

datatype outcome = Answered | Unreached | ReplyLost

record 's redis =
  conn :: "'s \<Rightarrow> outcome \<times> 's"
  zadd :: "string \<Rightarrow> string \<Rightarrow> real \<Rightarrow> 's \<Rightarrow> 's"
  zadd_nx :: "string \<Rightarrow> string \<Rightarrow> real \<Rightarrow> 's \<Rightarrow> 's"
  zadd_xx_ch :: "string \<Rightarrow> string \<Rightarrow> real \<Rightarrow> 's \<Rightarrow> nat \<times> 's"
  zrem :: "string \<Rightarrow> string \<Rightarrow> 's \<Rightarrow> 's"
  zpopmin :: "string \<Rightarrow> nat \<Rightarrow> 's \<Rightarrow> (string \<times> real) list \<times> 's"
  zrangebyscore :: "string \<Rightarrow> real \<Rightarrow> nat \<Rightarrow> 's \<Rightarrow> string list"
  zcard :: "string \<Rightarrow> 's \<Rightarrow> nat"
  get_cmd :: "string \<Rightarrow> 's \<Rightarrow> string option"
  set_ex :: "string \<Rightarrow> string \<Rightarrow> real \<Rightarrow> 's \<Rightarrow> 's"
  set_nx_ex :: "string \<Rightarrow> string \<Rightarrow> real \<Rightarrow> 's \<Rightarrow> bool \<times> 's"
  expire_cmd :: "string \<Rightarrow> real \<Rightarrow> 's \<Rightarrow> bool \<times> 's"
  del_cmd :: "string \<Rightarrow> 's \<Rightarrow> bool \<times> 's"
  hset_cmd :: "string \<Rightarrow> string \<Rightarrow> string \<Rightarrow> 's \<Rightarrow> 's"
  hdel_cmd :: "string \<Rightarrow> string \<Rightarrow> 's \<Rightarrow> 's"
  hvals_cmd :: "string \<Rightarrow> 's \<Rightarrow> string list"
  rpush_cmd :: "string \<Rightarrow> string list \<Rightarrow> 's \<Rightarrow> 's"
  lpop_cmd :: "string \<Rightarrow> nat \<Rightarrow> 's \<Rightarrow> string list \<times> 's"
  lrange_all :: "string \<Rightarrow> 's \<Rightarrow> string list"
  rename_cmd :: "string \<Rightarrow> string \<Rightarrow> 's \<Rightarrow> bool \<times> 's"
  sadd_cmd :: "string \<Rightarrow> string \<Rightarrow> 's \<Rightarrow> bool \<times> 's"
  sismember_cmd :: "string \<Rightarrow> string \<Rightarrow> 's \<Rightarrow> bool"
  getbit_cmd :: "string \<Rightarrow> nat \<Rightarrow> 's \<Rightarrow> bool"
  setbit_cmd :: "string \<Rightarrow> nat \<Rightarrow> 's \<Rightarrow> 's"
  counter_cmd :: "string \<Rightarrow> 's \<Rightarrow> nat"
  incr_cmd :: "string \<Rightarrow> 's \<Rightarrow> nat \<times> 's"
  time_cmd :: "'s \<Rightarrow> real"

text \<open>One client call of a command (or script) \<open>f\<close>.\<close>

definition rcall :: "'s redis \<Rightarrow> ('s \<Rightarrow> 'a \<times> 's) \<Rightarrow> 's \<Rightarrow> 'a res \<times> 's" where
  "rcall R f s =
     (case conn R s of (out, s1) \<Rightarrow>
        (case out of
           Answered \<Rightarrow> (case f s1 of (a, s2) \<Rightarrow> (Inr a, s2))
         | Unreached \<Rightarrow> (Inl (raise_of RedisCallError), s1)
         | ReplyLost \<Rightarrow> (Inl (raise_of RedisCallError), snd (f s1))))"

abbreviation rdo :: "('s \<Rightarrow> 's) \<Rightarrow> 's \<Rightarrow> unit \<times> 's" where
  "rdo f s \<equiv> ((), f s)"

abbreviation rask :: "('s \<Rightarrow> 'a) \<Rightarrow> 's \<Rightarrow> 'a \<times> 's" where
  "rask f s \<equiv> (f s, s)"

section \<open>What the server documents\<close>

type_synonym zset_view = "string \<rightharpoonup> real"

record rview =
  zsets :: "string \<Rightarrow> zset_view"
  strs :: "string \<Rightarrow> (string \<times> real) option"
  hashes :: "string \<Rightarrow> string \<rightharpoonup> string"
  rlists :: "string \<Rightarrow> string list"
  rsets :: "string \<Rightarrow> string set"
  bits :: "string \<Rightarrow> nat set"
  counters :: "string \<Rightarrow> nat"
  clock :: real

text \<open>A string key is live until its expiry time.\<close>

definition live_str :: "rview \<Rightarrow> string \<Rightarrow> string option" where
  "live_str v k = (case strs v k of Some (x, e) \<Rightarrow> if clock v < e then Some x else None | None \<Rightarrow> None)"

locale redis_server =
  fixes R :: "'s redis" and view :: "'s \<Rightarrow> rview"
  assumes conn_view: "view (snd (conn R s)) = view s"
    and zadd_view: "view (zadd R k m x s) = (view s)\<lparr>zsets := (zsets (view s))(k := (zsets (view s) k)(m \<mapsto> x))\<rparr>"
    and zadd_nx_view: "view (zadd_nx R k m x s) =
          (if m \<in> dom (zsets (view s) k) then view s
           else (view s)\<lparr>zsets := (zsets (view s))(k := (zsets (view s) k)(m \<mapsto> x))\<rparr>)"
    and zadd_xx_view: "view (snd (zadd_xx_ch R k m x s)) =
          (if m \<in> dom (zsets (view s) k)
           then (view s)\<lparr>zsets := (zsets (view s))(k := (zsets (view s) k)(m \<mapsto> x))\<rparr> else view s)"
    and zadd_xx_val: "fst (zadd_xx_ch R k m x s) =
          (if m \<in> dom (zsets (view s) k) \<and> zsets (view s) k m \<noteq> Some x then 1 else 0)"
    and zrem_view: "view (zrem R k m s) = (view s)\<lparr>zsets := (zsets (view s))(k := (zsets (view s) k)(m := None))\<rparr>"
    and zpopmin_view: "view (snd (zpopmin R k n s)) = (view s)\<lparr>zsets := (zsets (view s))(k :=
          zsets (view s) k |` (- set (map fst (fst (zpopmin R k n s)))))\<rparr>"
    and zpopmin_rows: "(m, x) \<in> set (fst (zpopmin R k n s)) \<Longrightarrow> zsets (view s) k m = Some x"
    and zpopmin_distinct: "distinct (map fst (fst (zpopmin R k n s)))"
    and zpopmin_length: "length (fst (zpopmin R k n s)) = min n (card (dom (zsets (view s) k)))"
    and zpopmin_sorted: "sorted (map snd (fst (zpopmin R k n s)))"
    and zpopmin_least: "(m, x) \<in> set (fst (zpopmin R k n s)) \<Longrightarrow> zsets (view s) k m' = Some y \<Longrightarrow>
          m' \<notin> set (map fst (fst (zpopmin R k n s))) \<Longrightarrow> x \<le> y"
    and zrange_distinct: "distinct (zrangebyscore R k x n s)"
    and zrange_set: "m \<in> set (zrangebyscore R k x n s) \<Longrightarrow> \<exists>y\<le>x. zsets (view s) k m = Some y"
    and zrange_length: "length (zrangebyscore R k x n s) =
          min n (card {m. \<exists>y\<le>x. zsets (view s) k m = Some y})"
    and zcard_val: "zcard R k s = card (dom (zsets (view s) k))"
    and zfinite: "finite (dom (zsets (view s) k))"
    and get_val: "get_cmd R k s = live_str (view s) k"
    and set_ex_view: "view (set_ex R k v t s) = (view s)\<lparr>strs := (strs (view s))(k \<mapsto> (v, clock (view s) + t))\<rparr>"
    and set_nx_val: "fst (set_nx_ex R k v t s) = (live_str (view s) k = None)"
    and set_nx_view: "view (snd (set_nx_ex R k v t s)) =
          (if live_str (view s) k = None
           then (view s)\<lparr>strs := (strs (view s))(k \<mapsto> (v, clock (view s) + t))\<rparr> else view s)"
    and expire_val: "fst (expire_cmd R k t s) = (live_str (view s) k \<noteq> None)"
    and expire_view: "view (snd (expire_cmd R k t s)) =
          (case live_str (view s) k of None \<Rightarrow> view s
           | Some v \<Rightarrow> (view s)\<lparr>strs := (strs (view s))(k \<mapsto> (v, clock (view s) + t))\<rparr>)"
    and del_val: "fst (del_cmd R k s) = (live_str (view s) k \<noteq> None \<or> rlists (view s) k \<noteq> [])"
    and del_view: "view (snd (del_cmd R k s)) =
          (view s)\<lparr>strs := (strs (view s))(k := None), rlists := (rlists (view s))(k := [])\<rparr>"
    and hset_view: "view (hset_cmd R k f v s) =
          (view s)\<lparr>hashes := (hashes (view s))(k := (hashes (view s) k)(f \<mapsto> v))\<rparr>"
    and hdel_view: "view (hdel_cmd R k f s) =
          (view s)\<lparr>hashes := (hashes (view s))(k := (hashes (view s) k)(f := None))\<rparr>"
    and hvals_val: "set (hvals_cmd R k s) = ran (hashes (view s) k)"
    and rpush_view: "view (rpush_cmd R k xs s) = (view s)\<lparr>rlists := (rlists (view s))(k := rlists (view s) k @ xs)\<rparr>"
    and lpop_val: "fst (lpop_cmd R k n s) = take n (rlists (view s) k)"
    and lpop_view: "view (snd (lpop_cmd R k n s)) = (view s)\<lparr>rlists := (rlists (view s))(k := drop n (rlists (view s) k))\<rparr>"
    and lrange_val: "lrange_all R k s = rlists (view s) k"
    and rename_val: "fst (rename_cmd R k k' s) = (rlists (view s) k \<noteq> [])"
    and rename_view: "view (snd (rename_cmd R k k' s)) =
          (if rlists (view s) k = [] then view s
           else (view s)\<lparr>rlists := (rlists (view s))(k := [], k' := rlists (view s) k)\<rparr>)"
    and sadd_val: "fst (sadd_cmd R k m s) = (m \<notin> rsets (view s) k)"
    and sadd_view: "view (snd (sadd_cmd R k m s)) = (view s)\<lparr>rsets := (rsets (view s))(k := insert m (rsets (view s) k))\<rparr>"
    and sismember_val: "sismember_cmd R k m s = (m \<in> rsets (view s) k)"
    and getbit_val: "getbit_cmd R k i s = (i \<in> bits (view s) k)"
    and setbit_view: "view (setbit_cmd R k i s) = (view s)\<lparr>bits := (bits (view s))(k := insert i (bits (view s) k))\<rparr>"
    and counter_val: "counter_cmd R k s = counters (view s) k"
    and incr_val: "fst (incr_cmd R k s) = Suc (counters (view s) k)"
    and incr_view: "view (snd (incr_cmd R k s)) = (view s)\<lparr>counters := (counters (view s))(k := Suc (counters (view s) k))\<rparr>"
    and time_val: "time_cmd R s = clock (view s)"
begin

lemmas views = conn_view zadd_view zadd_nx_view zadd_xx_view zrem_view zpopmin_view set_ex_view set_nx_view
  expire_view del_view hset_view hdel_view rpush_view lpop_view rename_view sadd_view setbit_view incr_view

lemmas vals = zadd_xx_val zcard_val get_val set_nx_val expire_val del_val hvals_val lpop_val lrange_val rename_val
  sadd_val sismember_val getbit_val counter_val incr_val time_val

text \<open>A call that fails has left the server as it was, or has run there.\<close>

lemma rcall_Inl: "rcall R f s = (Inl e, s') \<Longrightarrow>
    e = raise_of RedisCallError \<and> (view s' = view s \<or> (\<exists>s1. view s1 = view s \<and> s' = snd (f s1)))"
  using conn_view [of s] by (auto simp: rcall_def split: prod.splits outcome.splits)

lemma rcall_Inr: "rcall R f s = (Inr a, s') \<Longrightarrow> \<exists>s1. view s1 = view s \<and> f s1 = (a, s')"
  using conn_view [of s] by (auto simp: rcall_def split: prod.splits outcome.splits)

text \<open>Whatever the client sees, the call ran once or not at all.\<close>

lemma rcall_view: "view (snd (rcall R f s)) = view s \<or> (\<exists>s1. view s1 = view s \<and> snd (rcall R f s) = snd (f s1))"
  using conn_view [of s] by (auto simp: rcall_def split: prod.splits outcome.splits)

lemma rcall_answered:
  assumes "fst (conn R s) = Answered"
  obtains s1 where "view s1 = view s" "rcall R f s = (Inr (fst (f s1)), snd (f s1))"
proof (rule that)
  show "rcall R f s = (Inr (fst (f (snd (conn R s)))), snd (f (snd (conn R s))))"
    using assms by (cases "conn R s") (simp add: rcall_def split: prod.splits)
qed (rule conn_view)

text \<open>A query changes nothing.\<close>

lemma rcall_ask_view: "(\<And>st. view (snd (f st)) = view st) \<Longrightarrow> view (snd (rcall R f s)) = view s"
  using rcall_view [of f s] by auto

lemma zset_empty_iff: "zcard R k s = 0 \<longleftrightarrow> zsets (view s) k = Map.empty"
  using zfinite [of s k] by (auto simp: zcard_val)

lemma zpopmin_nonempty: "zsets (view s) k \<noteq> Map.empty \<Longrightarrow> 0 < n \<Longrightarrow> fst (zpopmin R k n s) \<noteq> []"
proof -
  assume ne: "zsets (view s) k \<noteq> Map.empty" and n: "0 < n"
  have "0 < card (dom (zsets (view s) k))"
    using ne zfinite [of s k] by (simp add: card_gt_0_iff)
  then have "0 < length (fst (zpopmin R k n s))" using n by (simp add: zpopmin_length)
  then show ?thesis by auto
qed

text \<open>A range query with a large enough limit returns every member up to the bound.\<close>

lemma zrange_complete:
  assumes "zsets (view s) k m = Some y" "y \<le> x" "card (dom (zsets (view s) k)) \<le> n"
  shows "m \<in> set (zrangebyscore R k x n s)"
proof -
  let ?S = "{m. \<exists>y\<le>x. zsets (view s) k m = Some y}" and ?L = "zrangebyscore R k x n s"
  have fin: "finite ?S" by (rule finite_subset [OF _ zfinite [of s k]]) auto
  have "card ?S \<le> card (dom (zsets (view s) k))" by (rule card_mono [OF zfinite]) auto
  then have "length ?L = card ?S" using assms(3) by (simp add: zrange_length)
  then have "card (set ?L) = card ?S" using zrange_distinct by (simp add: distinct_card)
  moreover have "set ?L \<subseteq> ?S" using zrange_set by auto
  ultimately have "set ?L = ?S" by (intro card_subset_eq [OF fin])
  then show ?thesis using assms by auto
qed

lemma zrange_nonempty:
  assumes "zsets (view s) k m = Some y" "y \<le> x" "0 < n"
  shows "zrangebyscore R k x n s \<noteq> []"
proof -
  let ?S = "{m. \<exists>y\<le>x. zsets (view s) k m = Some y}"
  have "finite ?S" by (rule finite_subset [OF _ zfinite [of s k]]) auto
  moreover have "m \<in> ?S" using assms by auto
  ultimately have "0 < card ?S" by (auto simp: card_gt_0_iff)
  then have "0 < length (zrangebyscore R k x n s)" using assms(3) by (simp add: zrange_length)
  then show ?thesis by auto
qed

end

end
