(* ===== verification/Redis_Mini.thy ===== *)
theory Redis_Mini
  imports Redis_Interface "HOL-Library.AList"
begin

text \<open>
  A reference Redis server on association lists, and the proof that it obeys the laws of
  \<open>redis_server\<close>.  It shows that the laws can hold together, and it is the server on which the witnesses run
  the client code.
\<close>

section \<open>A reference server\<close>

text \<open>
  The server on association lists.  \<open>faults\<close> is the fate of the coming calls; beyond its end every
  call is answered.
\<close>

record mini_redis =
  mz :: "string \<Rightarrow> (string \<times> real) list"
  mstr :: "string \<Rightarrow> (string \<times> real) option"
  mh :: "string \<Rightarrow> (string \<times> string) list"
  ml :: "string \<Rightarrow> string list"
  mset_of :: "string \<Rightarrow> string set"
  mbit :: "string \<Rightarrow> nat set"
  mcount :: "string \<Rightarrow> nat"
  mclock :: real
  faults :: "outcome list"

definition mini_empty :: mini_redis where
  "mini_empty = \<lparr>mz = (\<lambda>_. []), mstr = (\<lambda>_. None), mh = (\<lambda>_. []), ml = (\<lambda>_. []), mset_of = (\<lambda>_. {}),
     mbit = (\<lambda>_. {}), mcount = (\<lambda>_. 0), mclock = 0, faults = []\<rparr>"

definition mini_view :: "mini_redis \<Rightarrow> rview" where
  "mini_view s = \<lparr>zsets = (\<lambda>k. map_of (mz s k)), strs = mstr s, hashes = (\<lambda>k. map_of (mh s k)), rlists = ml s,
     rsets = mset_of s, bits = mbit s, counters = mcount s, clock = mclock s\<rparr>"

definition mini_live :: "mini_redis \<Rightarrow> string \<Rightarrow> string option" where
  "mini_live s k = (case mstr s k of Some (x, e) \<Rightarrow> if mclock s < e then Some x else None | None \<Rightarrow> None)"

definition zsorted :: "mini_redis \<Rightarrow> string \<Rightarrow> (string \<times> real) list" where
  "zsorted s k = sort_key snd (AList.clearjunk (mz s k))"

abbreviation mz_upd :: "string \<Rightarrow> ((string \<times> real) list \<Rightarrow> (string \<times> real) list) \<Rightarrow> mini_redis \<Rightarrow> mini_redis" where
  "mz_upd k f s \<equiv> s\<lparr>mz := (mz s)(k := f (mz s k))\<rparr>"

definition mini_conn :: "mini_redis \<Rightarrow> outcome \<times> mini_redis" where
  "mini_conn = (\<lambda>s. case faults s of [] \<Rightarrow> (Answered, s) | b # bs \<Rightarrow> (b, s\<lparr>faults := bs\<rparr>))"

definition mini_zadd :: "string \<Rightarrow> string \<Rightarrow> real \<Rightarrow> mini_redis \<Rightarrow> mini_redis" where
  "mini_zadd = (\<lambda>k m x s. mz_upd k (AList.update m x) s)"

definition mini_zadd_nx :: "string \<Rightarrow> string \<Rightarrow> real \<Rightarrow> mini_redis \<Rightarrow> mini_redis" where
  "mini_zadd_nx = (\<lambda>k m x s. if m \<in> fst ` set (mz s k) then s else mz_upd k (AList.update m x) s)"

definition mini_zadd_xx_ch :: "string \<Rightarrow> string \<Rightarrow> real \<Rightarrow> mini_redis \<Rightarrow> nat \<times> mini_redis" where
  "mini_zadd_xx_ch = (\<lambda>k m x s. if m \<in> fst ` set (mz s k)
        then (if map_of (mz s k) m \<noteq> Some x then 1 else 0, mz_upd k (AList.update m x) s) else (0, s))"

definition mini_zrem :: "string \<Rightarrow> string \<Rightarrow> mini_redis \<Rightarrow> mini_redis" where
  "mini_zrem = (\<lambda>k m s. mz_upd k (AList.delete m) s)"

definition mini_zpopmin :: "string \<Rightarrow> nat \<Rightarrow> mini_redis \<Rightarrow> (string \<times> real) list \<times> mini_redis" where
  "mini_zpopmin = (\<lambda>k n s. let rows = take n (zsorted s k)
        in (rows, mz_upd k (filter (\<lambda>(m, x). m \<notin> set (map fst rows))) s))"

definition mini_zrangebyscore :: "string \<Rightarrow> real \<Rightarrow> nat \<Rightarrow> mini_redis \<Rightarrow> string list" where
  "mini_zrangebyscore = (\<lambda>k x n s. take n (map fst (filter (\<lambda>(m, y). y \<le> x) (zsorted s k))))"

definition mini_zcard :: "string \<Rightarrow> mini_redis \<Rightarrow> nat" where
  "mini_zcard = (\<lambda>k s. length (AList.clearjunk (mz s k)))"

definition mini_get_cmd :: "string \<Rightarrow> mini_redis \<Rightarrow> string option" where
  "mini_get_cmd = (\<lambda>k s. mini_live s k)"

definition mini_set_ex :: "string \<Rightarrow> string \<Rightarrow> real \<Rightarrow> mini_redis \<Rightarrow> mini_redis" where
  "mini_set_ex = (\<lambda>k v t s. s\<lparr>mstr := (mstr s)(k \<mapsto> (v, mclock s + t))\<rparr>)"

definition mini_set_nx_ex :: "string \<Rightarrow> string \<Rightarrow> real \<Rightarrow> mini_redis \<Rightarrow> bool \<times> mini_redis" where
  "mini_set_nx_ex = (\<lambda>k v t s. if mini_live s k = None
        then (True, s\<lparr>mstr := (mstr s)(k \<mapsto> (v, mclock s + t))\<rparr>) else (False, s))"

definition mini_expire_cmd :: "string \<Rightarrow> real \<Rightarrow> mini_redis \<Rightarrow> bool \<times> mini_redis" where
  "mini_expire_cmd = (\<lambda>k t s. case mini_live s k of None \<Rightarrow> (False, s)
        | Some v \<Rightarrow> (True, s\<lparr>mstr := (mstr s)(k \<mapsto> (v, mclock s + t))\<rparr>))"

definition mini_del_cmd :: "string \<Rightarrow> mini_redis \<Rightarrow> bool \<times> mini_redis" where
  "mini_del_cmd = (\<lambda>k s. (mini_live s k \<noteq> None \<or> ml s k \<noteq> [],
        s\<lparr>mstr := (mstr s)(k := None), ml := (ml s)(k := [])\<rparr>))"

definition mini_hset_cmd :: "string \<Rightarrow> string \<Rightarrow> string \<Rightarrow> mini_redis \<Rightarrow> mini_redis" where
  "mini_hset_cmd = (\<lambda>k f v s. s\<lparr>mh := (mh s)(k := AList.update f v (mh s k))\<rparr>)"

definition mini_hdel_cmd :: "string \<Rightarrow> string \<Rightarrow> mini_redis \<Rightarrow> mini_redis" where
  "mini_hdel_cmd = (\<lambda>k f s. s\<lparr>mh := (mh s)(k := AList.delete f (mh s k))\<rparr>)"

definition mini_hvals_cmd :: "string \<Rightarrow> mini_redis \<Rightarrow> string list" where
  "mini_hvals_cmd = (\<lambda>k s. map snd (AList.clearjunk (mh s k)))"

definition mini_rpush_cmd :: "string \<Rightarrow> string list \<Rightarrow> mini_redis \<Rightarrow> mini_redis" where
  "mini_rpush_cmd = (\<lambda>k xs s. s\<lparr>ml := (ml s)(k := ml s k @ xs)\<rparr>)"

definition mini_lpop_cmd :: "string \<Rightarrow> nat \<Rightarrow> mini_redis \<Rightarrow> string list \<times> mini_redis" where
  "mini_lpop_cmd = (\<lambda>k n s. (take n (ml s k), s\<lparr>ml := (ml s)(k := drop n (ml s k))\<rparr>))"

definition mini_lrange_all :: "string \<Rightarrow> mini_redis \<Rightarrow> string list" where
  "mini_lrange_all = (\<lambda>k s. ml s k)"

definition mini_rename_cmd :: "string \<Rightarrow> string \<Rightarrow> mini_redis \<Rightarrow> bool \<times> mini_redis" where
  "mini_rename_cmd = (\<lambda>k k' s. if ml s k = [] then (False, s) else (True, s\<lparr>ml := (ml s)(k := [], k' := ml s k)\<rparr>))"

definition mini_sadd_cmd :: "string \<Rightarrow> string \<Rightarrow> mini_redis \<Rightarrow> bool \<times> mini_redis" where
  "mini_sadd_cmd = (\<lambda>k m s. (m \<notin> mset_of s k, s\<lparr>mset_of := (mset_of s)(k := insert m (mset_of s k))\<rparr>))"

definition mini_sismember_cmd :: "string \<Rightarrow> string \<Rightarrow> mini_redis \<Rightarrow> bool" where
  "mini_sismember_cmd = (\<lambda>k m s. m \<in> mset_of s k)"

definition mini_getbit_cmd :: "string \<Rightarrow> nat \<Rightarrow> mini_redis \<Rightarrow> bool" where
  "mini_getbit_cmd = (\<lambda>k i s. i \<in> mbit s k)"

definition mini_setbit_cmd :: "string \<Rightarrow> nat \<Rightarrow> mini_redis \<Rightarrow> mini_redis" where
  "mini_setbit_cmd = (\<lambda>k i s. s\<lparr>mbit := (mbit s)(k := insert i (mbit s k))\<rparr>)"

definition mini_counter_cmd :: "string \<Rightarrow> mini_redis \<Rightarrow> nat" where
  "mini_counter_cmd = (\<lambda>k s. mcount s k)"

definition mini_incr_cmd :: "string \<Rightarrow> mini_redis \<Rightarrow> nat \<times> mini_redis" where
  "mini_incr_cmd = (\<lambda>k s. (Suc (mcount s k), s\<lparr>mcount := (mcount s)(k := Suc (mcount s k))\<rparr>))"

definition mini_time_cmd :: "mini_redis \<Rightarrow> real" where
  "mini_time_cmd = mclock"

definition mini :: "mini_redis redis" where
  "mini = \<lparr>
     conn = mini_conn, zadd = mini_zadd, zadd_nx = mini_zadd_nx,
     zadd_xx_ch = mini_zadd_xx_ch, zrem = mini_zrem, zpopmin = mini_zpopmin,
     zrangebyscore = mini_zrangebyscore, zcard = mini_zcard, get_cmd = mini_get_cmd,
     set_ex = mini_set_ex, set_nx_ex = mini_set_nx_ex, expire_cmd = mini_expire_cmd,
     del_cmd = mini_del_cmd, hset_cmd = mini_hset_cmd, hdel_cmd = mini_hdel_cmd,
     hvals_cmd = mini_hvals_cmd, rpush_cmd = mini_rpush_cmd, lpop_cmd = mini_lpop_cmd,
     lrange_all = mini_lrange_all, rename_cmd = mini_rename_cmd, sadd_cmd = mini_sadd_cmd,
     sismember_cmd = mini_sismember_cmd, getbit_cmd = mini_getbit_cmd, setbit_cmd = mini_setbit_cmd,
     counter_cmd = mini_counter_cmd, incr_cmd = mini_incr_cmd, time_cmd = mini_time_cmd \<rparr>"

lemma mini_sel [simp]:
  "conn mini = mini_conn"
  "zadd mini = mini_zadd"
  "zadd_nx mini = mini_zadd_nx"
  "zadd_xx_ch mini = mini_zadd_xx_ch"
  "zrem mini = mini_zrem"
  "zpopmin mini = mini_zpopmin"
  "zrangebyscore mini = mini_zrangebyscore"
  "zcard mini = mini_zcard"
  "get_cmd mini = mini_get_cmd"
  "set_ex mini = mini_set_ex"
  "set_nx_ex mini = mini_set_nx_ex"
  "expire_cmd mini = mini_expire_cmd"
  "del_cmd mini = mini_del_cmd"
  "hset_cmd mini = mini_hset_cmd"
  "hdel_cmd mini = mini_hdel_cmd"
  "hvals_cmd mini = mini_hvals_cmd"
  "rpush_cmd mini = mini_rpush_cmd"
  "lpop_cmd mini = mini_lpop_cmd"
  "lrange_all mini = mini_lrange_all"
  "rename_cmd mini = mini_rename_cmd"
  "sadd_cmd mini = mini_sadd_cmd"
  "sismember_cmd mini = mini_sismember_cmd"
  "getbit_cmd mini = mini_getbit_cmd"
  "setbit_cmd mini = mini_setbit_cmd"
  "counter_cmd mini = mini_counter_cmd"
  "incr_cmd mini = mini_incr_cmd"
  "time_cmd mini = mini_time_cmd"
  by (simp_all add: mini_def)

lemmas mini_cmd_defs =
  mini_conn_def mini_zadd_def mini_zadd_nx_def mini_zadd_xx_ch_def mini_zrem_def
  mini_zpopmin_def mini_zrangebyscore_def mini_zcard_def mini_get_cmd_def mini_set_ex_def
  mini_set_nx_ex_def mini_expire_cmd_def mini_del_cmd_def mini_hset_cmd_def mini_hdel_cmd_def
  mini_hvals_cmd_def mini_rpush_cmd_def mini_lpop_cmd_def mini_lrange_all_def mini_rename_cmd_def
  mini_sadd_cmd_def mini_sismember_cmd_def mini_getbit_cmd_def mini_setbit_cmd_def mini_counter_cmd_def
  mini_incr_cmd_def mini_time_cmd_def

lemma mini_view_simps [simp]:
  "zsets (mini_view s) = (\<lambda>k. map_of (mz s k))" "strs (mini_view s) = mstr s"
  "hashes (mini_view s) = (\<lambda>k. map_of (mh s k))" "rlists (mini_view s) = ml s" "rsets (mini_view s) = mset_of s"
  "bits (mini_view s) = mbit s" "counters (mini_view s) = mcount s" "clock (mini_view s) = mclock s"
  by (simp_all add: mini_view_def)

lemma live_str_mini [simp]: "live_str (mini_view s) k = mini_live s k"
  by (simp add: live_str_def mini_live_def split: option.splits)

lemma zsorted_facts:
  "distinct (map fst (zsorted s k))" "map_of (zsorted s k) = map_of (mz s k)" "sorted (map snd (zsorted s k))"
proof -
  let ?z = "AList.clearjunk (mz s k)"
  have m: "mset (zsorted s k) = mset ?z" by (simp add: zsorted_def)
  have d: "distinct (map fst ?z)" by (rule distinct_clearjunk)
  have "mset (map fst (zsorted s k)) = mset (map fst ?z)" using m by simp
  then show dz: "distinct (map fst (zsorted s k))" using d by (metis mset_eq_imp_distinct_iff)
  have "set (zsorted s k) = set ?z" using m by (rule mset_eq_setD)
  then have "map_of (zsorted s k) = map_of ?z" using dz d by (metis map_of_inject_set)
  then show "map_of (zsorted s k) = map_of (mz s k)" by (simp add: map_of_clearjunk)
  show "sorted (map snd (zsorted s k))" by (simp add: zsorted_def)
qed

lemma mini_pop_view:
  "map_of (filter (\<lambda>(m, x). m \<notin> S) xs) = map_of xs |` (- S)"
  by (induction xs) (auto simp: fun_eq_iff restrict_map_def)

lemma take_sorted_least:
  assumes "sorted (map f xs)" "x \<in> set (take n xs)" "y \<in> set (drop n xs)"
  shows "f x \<le> (f y :: real)"
proof -
  have "sorted (map f (take n xs) @ map f (drop n xs))" using assms(1) by (metis append_take_drop_id map_append)
  then show ?thesis using assms(2,3) by (auto simp: sorted_append)
qed

lemma zsorted_Some: "map_of (mz s k) m = Some y \<longleftrightarrow> (m, y) \<in> set (zsorted s k)"
  using zsorted_facts [of s k] by (metis map_of_eq_Some_iff)

lemma card_dom_zsorted: "card (dom (map_of (mz s k))) = length (zsorted s k)"
proof -
  have "dom (map_of (mz s k)) = set (map fst (zsorted s k))"
    using zsorted_facts(2) [of s k] by (metis dom_map_of_conv_image_fst set_map)
  then show ?thesis using zsorted_facts(1) [of s k] by (metis distinct_card length_map)
qed

lemma zrange_card:
  "card {m. \<exists>y\<le>x. map_of (mz s k) m = Some y} = length (filter (\<lambda>(m, y). y \<le> x) (zsorted s k))"
proof -
  let ?L = "map fst (filter (\<lambda>(m, y). y \<le> x) (zsorted s k))"
  have "{m. \<exists>y\<le>x. map_of (mz s k) m = Some y} = set ?L"
    unfolding zsorted_Some by (auto simp: image_iff)
  moreover have "distinct ?L"
    by (rule distinct_map_filter [OF zsorted_facts(1)])
  then have "card (set ?L) = length ?L" by (rule distinct_card)
  ultimately show ?thesis by simp
qed

lemma mini_view_mz:
  "mini_view (mz_upd k f s) = (mini_view s)\<lparr>zsets := (\<lambda>j. map_of (mz s j))(k := map_of (f (mz s k)))\<rparr>"
  by (simp add: mini_view_def fun_eq_iff)

interpretation mini: redis_server mini mini_view
proof (unfold_locales, goal_cases)
  case 1 show ?case by (simp add: mini_conn_def mini_view_def split: list.splits)
next
  case 2 show ?case by (simp add: mini_zadd_def mini_view_mz update_conv')
next
  case 3 show ?case by (simp add: mini_zadd_nx_def mini_view_mz update_conv' dom_map_of_conv_image_fst)
next
  case 4 show ?case by (simp add: mini_zadd_xx_ch_def mini_view_mz update_conv' dom_map_of_conv_image_fst)
next
  case 5 show ?case by (simp add: mini_zadd_xx_ch_def dom_map_of_conv_image_fst)
next
  case 6 show ?case by (simp add: mini_zrem_def mini_view_mz delete_conv')
next
  case 7 show ?case by (simp add: mini_zpopmin_def Let_def mini_view_mz mini_pop_view)
next
  case (8 m x k n s) then show ?case by (auto simp: mini_zpopmin_def Let_def zsorted_Some dest: in_set_takeD)
next
  case (9 k n s) show ?case
    using zsorted_facts(1) [of s k] by (simp add: mini_zpopmin_def Let_def take_map [symmetric])
next
  case 10 show ?case by (simp add: mini_zpopmin_def Let_def card_dom_zsorted min.commute)
next
  case (11 k n s) show ?case
    using zsorted_facts(3) [of s k] by (simp add: mini_zpopmin_def Let_def take_map [symmetric] sorted_wrt_take)
next
  case (12 m x k n s m' y)
  then have x: "(m, x) \<in> set (take n (zsorted s k))" and y: "(m', y) \<in> set (zsorted s k)"
    and n: "m' \<notin> fst ` set (take n (zsorted s k))"
    by (auto simp: mini_zpopmin_def Let_def zsorted_Some)
  then have "(m', y) \<in> set (drop n (zsorted s k))"
    by (metis Un_iff append_take_drop_id fst_conv image_eqI set_append)
  then show ?case using take_sorted_least [OF zsorted_facts(3) x] by force
next
  case (13 k x n s) show ?case
    using zsorted_facts(1) [of s k] by (simp add: mini_zrangebyscore_def distinct_map_filter)
next
  case (14 m k x n s) then show ?case
    by (auto simp: mini_zrangebyscore_def zsorted_Some dest!: in_set_takeD) blast
next
  case 15 show ?case by (simp add: mini_zrangebyscore_def zrange_card min.commute)
next
  case (16 k s) show ?case
    by (simp add: mini_zcard_def card_dom_zsorted) (simp add: zsorted_def)
next
  case 17 show ?case by (simp add: finite_dom_map_of)
next
  case 26 show ?case by (simp add: mini_hset_cmd_def mini_view_def update_conv' fun_eq_iff)
next
  case 27 show ?case by (simp add: mini_hdel_cmd_def mini_view_def delete_conv' fun_eq_iff)
next
  case (28 k s) show ?case
    by (simp add: mini_hvals_cmd_def) (metis distinct_clearjunk map_of_clearjunk ran_distinct)
qed (auto simp: mini_get_cmd_def mini_set_ex_def mini_set_nx_ex_def mini_expire_cmd_def mini_del_cmd_def
    mini_rpush_cmd_def mini_lpop_cmd_def mini_lrange_all_def mini_rename_cmd_def mini_sadd_cmd_def
    mini_sismember_cmd_def mini_getbit_cmd_def mini_setbit_cmd_def mini_counter_cmd_def mini_incr_cmd_def
    mini_time_cmd_def mini_view_def live_str_def mini_live_def split: option.splits)

declare mini_sel [simp del] and mini_view_simps [simp del] and live_str_mini [simp del]

end
