(* ===== verification/Task_Queue.thy ===== *)
theory Task_Queue
  imports Net_Request Redis_Interface Redis_Mini "HOL-Library.Product_Lexorder"
begin

text \<open>
  \<^verbatim>\<open>netspy/core/task_queue.py\<close>: the in-process priority queue and the Redis queue with leases.

  A Redis task is the JSON text of a request in the sorted set \<^verbatim>\<open><name>:z_requests\<close> (score = priority);
  taking it moves the text to \<^verbatim>\<open><name>:z_inflight\<close> with the lease deadline as score, in one Lua
  script.  The interface \<open>put_queue\<close> is what the request buffer and the schedulers rely on; both queues
  provide it.
\<close>

section \<open>MemoryTaskQueue\<close>

text \<open>
  \<open>queue.PriorityQueue\<close> returns the least entry.  The sequence number makes entries distinct, so requests
  themselves are never compared.  The queue is kept as the sorted list of its entries.
\<close>

record mem_queue =
  mq_entries :: "((int \<times> nat) \<times> request) list"
  mq_seq :: nat

definition mem_new :: mem_queue where
  "mem_new = \<lparr>mq_entries = [], mq_seq = 0\<rparr>"

definition mem_put :: "request \<Rightarrow> mem_queue \<Rightarrow> mem_queue" where
  "mem_put r q = \<lparr>mq_entries = insort_key fst ((priority r, mq_seq q), r) (mq_entries q), mq_seq = Suc (mq_seq q)\<rparr>"

text \<open>\<open>get\<close> once the timeout is over or an entry is there: \<open>None\<close> for \<open>queue.Empty\<close>.\<close>

definition mem_get :: "mem_queue \<Rightarrow> request option \<times> mem_queue" where
  "mem_get q = (case mq_entries q of [] \<Rightarrow> (None, q) | e # es \<Rightarrow> (Some (snd e), q\<lparr>mq_entries := es\<rparr>))"

fun mem_get_loop :: "nat \<Rightarrow> mem_queue \<Rightarrow> request list \<times> mem_queue" where
  "mem_get_loop 0 q = ([], q)"
| "mem_get_loop (Suc n) q =
     (case mem_get q of
        (None, q1) \<Rightarrow> ([], q1)
      | (Some r, q1) \<Rightarrow> (case mem_get_loop n q1 of (rs, q2) \<Rightarrow> (r # rs, q2)))"

definition mem_get_batch :: "int \<Rightarrow> mem_queue \<Rightarrow> request list \<times> mem_queue" where
  "mem_get_batch cnt q = mem_get_loop (nat (max 1 cnt)) q"

definition mem_qsize :: "mem_queue \<Rightarrow> nat" where
  "mem_qsize q = length (mq_entries q)"

definition mem_empty :: "mem_queue \<Rightarrow> bool" where
  "mem_empty q = (mq_entries q = [])"

section \<open>RedisTaskQueue\<close>

definition queue_key :: "string \<Rightarrow> string" where
  "queue_key name = name @ '':z_requests''"

definition inflight_key :: "string \<Rightarrow> string" where
  "inflight_key name = name @ '':z_inflight''"

definition payload :: "request \<Rightarrow> string" where
  "payload r = dumps_json (VDict (to_dict r))"

definition rq_put :: "'s redis \<Rightarrow> string \<Rightarrow> request \<Rightarrow> 's \<Rightarrow> unit res \<times> 's" where
  "rq_put R name r = rcall R (rdo (zadd R (queue_key name) (payload r) (of_int (priority r))))"

text \<open>The script \<open>_TAKE_LUA\<close>.\<close>

definition take_lua :: "'s redis \<Rightarrow> string \<Rightarrow> string \<Rightarrow> nat \<Rightarrow> real \<Rightarrow> 's \<Rightarrow> string list \<times> 's" where
  "take_lua R queue inflight cnt deadline s =
     (let (rows, s1) = zpopmin R queue cnt s; out = map fst rows
      in (out, if 0 < deadline then fold (\<lambda>m. zadd R inflight m deadline) out s1 else s1))"

text \<open>The script \<open>_RENEW_LUA\<close>: \<open>ZADD XX\<close> never adds a member.\<close>

fun renew_lua :: "'s redis \<Rightarrow> string \<Rightarrow> real \<Rightarrow> string list \<Rightarrow> 's \<Rightarrow> nat \<times> 's" where
  "renew_lua R inflight deadline [] s = (0, s)"
| "renew_lua R inflight deadline (m # ms) s =
     (let (c, s1) = zadd_xx_ch R inflight m deadline s; (n, s2) = renew_lua R inflight deadline ms s1
      in (if c = 1 then Suc n else n, s2))"

text \<open>The script \<open>_RECLAIM_LUA\<close>.\<close>

definition reclaim_lua :: "'s redis \<Rightarrow> string \<Rightarrow> string \<Rightarrow> real \<Rightarrow> nat \<Rightarrow> 's \<Rightarrow> nat \<times> 's" where
  "reclaim_lua R inflight queue now limit s =
     (let expired = zrangebyscore R inflight now limit s
      in (length expired, fold (\<lambda>m st. zadd R queue m 0 (zrem R inflight m st)) expired s))"

text \<open>\<open>dict(data)\<close> of what \<open>json.loads\<close> returned.\<close>

fun as_dict :: "pyval \<Rightarrow> (string, pyval) pydict res" where
  "as_dict (VDict d) = Inr d"
| "as_dict _ = Inl (raise_of PyTypeError)"

text \<open>
  \<open>_decode\<close>.  It returns \<open>None\<close> only for a member that is \<open>None\<close>, which a Redis reply never holds, so
  the caller's \<open>request is None\<close> branch is not reachable; bad JSON and a missing \<open>url\<close> raise.
\<close>

definition decode :: "nat \<Rightarrow> string \<Rightarrow> request res" where
  "decode o' member = bind_res (loads_json member) (\<lambda>v. bind_res (as_dict v) (from_dict o'))"

text \<open>The loop of \<open>_take\<close> over the members; object identities are handed out from \<open>o'\<close>.\<close>

fun decode_all :: "nat \<Rightarrow> string list \<Rightarrow> request list res" where
  "decode_all o' [] = Inr []"
| "decode_all o' (m # ms) =
     bind_res (decode o' m) (\<lambda>r. bind_res (decode_all (Suc o') ms) (\<lambda>rs. Inr (r\<lparr>lease_token := Some m\<rparr> # rs)))"

definition rq_take :: "'s redis \<Rightarrow> setting \<Rightarrow> string \<Rightarrow> time \<Rightarrow> nat \<Rightarrow> int \<Rightarrow> 's \<Rightarrow> request list res \<times> 's" where
  "rq_take R cfg name now o' cnt s =
     (let lease = SPIDER_TASK_LEASE cfg; n = nat (max 1 cnt);
          reply = (if lease \<le> 0
                   then rcall R (\<lambda>st. case zpopmin R (queue_key name) n st of (rows, st') \<Rightarrow> (map fst rows, st')) s
                   else rcall R (take_lua R (queue_key name) (inflight_key name) n (fmt3 (now + lease))) s)
      in case reply of (Inl e, s1) \<Rightarrow> (Inl e, s1) | (Inr members, s1) \<Rightarrow> (decode_all o' members, s1))"

text \<open>
  \<open>get\<close>: an atomic take, then (with a timeout) a blocking pop whose lease is recorded in a second
  call; \<open>now2\<close> is the time of that second call, and \<open>env\<close> is what the other clients do to the server
  while this one is blocked.
\<close>

definition rq_get :: "'s redis \<Rightarrow> setting \<Rightarrow> string \<Rightarrow> time \<Rightarrow> time \<Rightarrow> ('s \<Rightarrow> 's) \<Rightarrow> bool \<Rightarrow> nat \<Rightarrow> 's
    \<Rightarrow> request option res \<times> 's" where
  "rq_get R cfg name now now2 env timeout o' s =
     (case rq_take R cfg name now o' 1 s of
        (Inl e, s1) \<Rightarrow> (Inl e, s1)
      | (Inr (r # _), s1) \<Rightarrow> (Inr (Some r), s1)
      | (Inr [], s1) \<Rightarrow>
          if \<not> timeout then (Inr None, s1)
          else (case rcall R (\<lambda>st. zpopmin R (queue_key name) 1 (env st)) s1 of
             (Inl e, s2) \<Rightarrow> (Inl e, s2)
           | (Inr [], s2) \<Rightarrow> (Inr None, s2)
           | (Inr ((m, _) # _), s2) \<Rightarrow>
               (case decode o' m of
                  Inl e \<Rightarrow> (Inl e, s2)
                | Inr r \<Rightarrow>
                    if 0 < SPIDER_TASK_LEASE cfg
                    then (case rcall R (rdo (zadd R (inflight_key name) m (now2 + SPIDER_TASK_LEASE cfg))) s2 of
                            (Inl e, s3) \<Rightarrow> (Inl e, s3)
                          | (Inr _, s3) \<Rightarrow> (Inr (Some (r\<lparr>lease_token := Some m\<rparr>)), s3))
                    else (Inr (Some (r\<lparr>lease_token := Some m\<rparr>)), s2))))"

text \<open>\<open>done_member\<close> swallows a failing call.\<close>

definition done_member :: "'s redis \<Rightarrow> string \<Rightarrow> string \<Rightarrow> 's \<Rightarrow> 's" where
  "done_member R name m s = snd (rcall R (rdo (zrem R (inflight_key name) m)) s)"

definition rq_done :: "'s redis \<Rightarrow> string \<Rightarrow> request \<Rightarrow> 's \<Rightarrow> 's" where
  "rq_done R name r s =
     (case lease_token r of None \<Rightarrow> s | Some t \<Rightarrow> if t = [] then s else done_member R name t s)"

definition rq_reclaim_expired :: "'s redis \<Rightarrow> setting \<Rightarrow> string \<Rightarrow> time \<Rightarrow> int \<Rightarrow> 's \<Rightarrow> nat \<times> 's" where
  "rq_reclaim_expired R cfg name now limit s =
     (if SPIDER_TASK_LEASE cfg \<le> 0 then (0, s)
      else case rcall R (reclaim_lua R (inflight_key name) (queue_key name) (fmt3 now) (nat (max 1 limit))) s of
             (Inl _, s1) \<Rightarrow> (0, s1) | (Inr n, s1) \<Rightarrow> (n, s1))"

definition lease_tokens :: "request list \<Rightarrow> string list" where
  "lease_tokens rs = concat (map (\<lambda>r. case lease_token r of Some t \<Rightarrow> if t = [] then [] else [t] | None \<Rightarrow> []) rs)"

definition rq_renew :: "'s redis \<Rightarrow> setting \<Rightarrow> string \<Rightarrow> time \<Rightarrow> request list \<Rightarrow> 's \<Rightarrow> nat \<times> 's" where
  "rq_renew R cfg name now rs s =
     (if SPIDER_TASK_LEASE cfg \<le> 0 \<or> rs = [] then (0, s)
      else if lease_tokens rs = [] then (0, s)
      else case rcall R (renew_lua R (inflight_key name) (fmt3 (now + SPIDER_TASK_LEASE cfg)) (lease_tokens rs)) s of
             (Inl _, s1) \<Rightarrow> (0, s1) | (Inr n, s1) \<Rightarrow> (n, s1))"

definition rq_inflight_count :: "'s redis \<Rightarrow> string \<Rightarrow> 's \<Rightarrow> nat res \<times> 's" where
  "rq_inflight_count R name = rcall R (rask (zcard R (inflight_key name)))"

definition rq_qsize :: "'s redis \<Rightarrow> string \<Rightarrow> 's \<Rightarrow> nat res \<times> 's" where
  "rq_qsize R name = rcall R (rask (zcard R (queue_key name)))"

definition rq_empty :: "'s redis \<Rightarrow> string \<Rightarrow> 's \<Rightarrow> bool res \<times> 's" where
  "rq_empty R name s = (case rq_qsize R name s of (n, s1) \<Rightarrow> (map_sum id (\<lambda>n. n = 0) n, s1))"

section \<open>What the scripts do to the two sorted sets\<close>

lemma queue_inflight_keys [simp]: "queue_key n \<noteq> inflight_key m" "inflight_key m \<noteq> queue_key n"
  by (auto simp: queue_key_def inflight_key_def append_eq_append_conv2 Cons_eq_append_conv append_eq_Cons_conv)

lemma fmt3_pos: "1 \<le> x \<Longrightarrow> 0 < fmt3 x"
  using fmt3_bound [of x] unfolding abs_le_iff by linarith

lemma decode_payload: "wf_request r \<Longrightarrow> decode o' (payload r) = Inr (wire_request o' r)"
  unfolding decode_def payload_def loads_dumps sum.case as_dict.simps by (rule from_to_dict)

text \<open>The members known to the server under a spider's name: waiting or leased.\<close>

definition tasks_of :: "rview \<Rightarrow> string \<Rightarrow> string set" where
  "tasks_of v name = dom (zsets v (queue_key name)) \<union> dom (zsets v (inflight_key name))"

context redis_server
begin

lemma fold_zadd_view:
  "view (fold (\<lambda>m. zadd R k m x) ms s) = (view s)\<lparr>zsets := (zsets (view s))(k :=
     (\<lambda>m. if m \<in> set ms then Some x else zsets (view s) k m))\<rparr>"
  by (induction ms arbitrary: s) (auto simp: zadd_view fun_eq_iff intro!: rview.equality)

lemma take_lua_view:
  assumes "q \<noteq> i" "0 < d" "take_lua R q i n d s = (out, s')"
  shows "view s' = (view s)\<lparr>zsets := (zsets (view s))(q := zsets (view s) q |` (- set out),
           i := (\<lambda>m. if m \<in> set out then Some d else zsets (view s) i m))\<rparr>"
proof -
  obtain rows s1 where r: "zpopmin R q n s = (rows, s1)" by force
  with assms have out: "out = map fst rows" and s': "s' = fold (\<lambda>m. zadd R i m d) out s1"
    by (auto simp: take_lua_def Let_def)
  have "view s1 = (view s)\<lparr>zsets := (zsets (view s))(q := zsets (view s) q |` (- set out))\<rparr>"
    using zpopmin_view [of q n s] r out by simp
  then show ?thesis using \<open>q \<noteq> i\<close> by (simp add: s' fold_zadd_view cong: if_cong)
qed

lemma take_lua_out:
  assumes "take_lua R q i n d s = (out, s')"
  shows "distinct out" "set out \<subseteq> dom (zsets (view s) q)"
    "length out = min n (card (dom (zsets (view s) q)))"
    "m \<in> set out \<Longrightarrow> m' \<in> dom (zsets (view s) q) - set out \<Longrightarrow> the (zsets (view s) q m) \<le> the (zsets (view s) q m')"
    "sorted (map (\<lambda>m. the (zsets (view s) q m)) out)"
proof -
  obtain rows where rows: "fst (zpopmin R q n s) = rows" "out = map fst rows"
    using assms by (auto simp: take_lua_def Let_def split: prod.splits)
  have score: "(m, x) \<in> set rows \<Longrightarrow> zsets (view s) q m = Some x" for m x
    using zpopmin_rows [of m x q n s] rows by simp
  show "distinct out" using zpopmin_distinct [of q n s] rows by simp
  show "set out \<subseteq> dom (zsets (view s) q)" using score rows by auto
  show "length out = min n (card (dom (zsets (view s) q)))" using zpopmin_length [of q n s] rows by simp
  show "the (zsets (view s) q m) \<le> the (zsets (view s) q m')"
    if "m \<in> set out" "m' \<in> dom (zsets (view s) q) - set out"
    using that rows score zpopmin_least [of m _ q n s m'] by fastforce
  have "map (\<lambda>m. the (zsets (view s) q m)) out = map snd rows"
    using score rows by (auto simp: comp_def)
  then show "sorted (map (\<lambda>m. the (zsets (view s) q m)) out)" using zpopmin_sorted [of q n s] rows(1) by metis
qed

lemma renew_lua_view:
  "view (snd (renew_lua R k d ms s)) = (view s)\<lparr>zsets := (zsets (view s))(k :=
     (\<lambda>m. if m \<in> set ms \<and> m \<in> dom (zsets (view s) k) then Some d else zsets (view s) k m))\<rparr>"
proof (induction ms arbitrary: s)
  case (Cons a ms)
  let ?s1 = "snd (zadd_xx_ch R k a d s)"
  have step: "snd (renew_lua R k d (a # ms) s) = snd (renew_lua R k d ms ?s1)"
    by (simp add: Let_def split: prod.splits)
  show ?case
  proof (cases "a \<in> dom (zsets (view s) k)")
    case True
    then have "view ?s1 = (view s)\<lparr>zsets := (zsets (view s))(k := (zsets (view s) k)(a \<mapsto> d))\<rparr>"
      by (simp add: zadd_xx_view)
    then show ?thesis using True
      unfolding step Cons.IH by (auto simp: fun_eq_iff intro!: rview.equality)
  next
    case False
    then have "view ?s1 = view s" by (simp add: zadd_xx_view)
    then show ?thesis using False unfolding step Cons.IH by (auto simp: fun_eq_iff intro!: rview.equality)
  qed
qed simp

lemma reclaim_fold_view:
  "i \<noteq> q \<Longrightarrow> view (fold (\<lambda>m st. zadd R q m 0 (zrem R i m st)) ms s) = (view s)\<lparr>zsets := (zsets (view s))(
     i := zsets (view s) i |` (- set ms),
     q := (\<lambda>m. if m \<in> set ms then Some 0 else zsets (view s) q m))\<rparr>"
  by (induction ms arbitrary: s)
    (auto simp: zadd_view zrem_view fun_eq_iff restrict_map_def intro!: rview.equality)

text \<open>Every outcome of \<open>_take\<close> with leases on: the script did not run, or it ran.\<close>

lemma rq_take_cases:
  assumes "rq_take R cfg name now o' n s = (res, s')" "0 < SPIDER_TASK_LEASE cfg"
  obtains (unreached) "res = Inl (raise_of RedisCallError)" "view s' = view s"
  | (ran) s1 out where "view s1 = view s"
      "take_lua R (queue_key name) (inflight_key name) (nat (max 1 n)) (fmt3 (now + SPIDER_TASK_LEASE cfg)) s1 = (out, s')"
      "res = decode_all o' out \<or> res = Inl (raise_of RedisCallError)"
proof -
  let ?f = "take_lua R (queue_key name) (inflight_key name) (nat (max 1 n)) (fmt3 (now + SPIDER_TASK_LEASE cfg))"
  obtain r where r: "rcall R ?f s = (r, s')"
    "res = (case r of Inl e \<Rightarrow> Inl e | Inr ms \<Rightarrow> decode_all o' ms)"
    using assms by (auto simp: rq_take_def Let_def split: prod.splits sum.splits)
  show thesis
  proof (cases r)
    case (Inl e)
    with rcall_Inl [of ?f s e s'] r obtain s1 where
      "e = raise_of RedisCallError" "view s' = view s \<or> (view s1 = view s \<and> s' = snd (?f s1))" by auto
    with Inl r show thesis using unreached ran [of s1 "fst (?f s1)"] by auto
  next
    case (Inr ms)
    with rcall_Inr [of ?f s ms s'] r show thesis using ran by auto
  qed
qed

lemma rq_take_tasks:
  assumes "rq_take R cfg name now o' n s = (res, s')" "0 < SPIDER_TASK_LEASE cfg" "1 \<le> now"
  shows "tasks_of (view s') name = tasks_of (view s) name"
proof -
  have d: "0 < fmt3 (now + SPIDER_TASK_LEASE cfg)" using assms by (intro fmt3_pos) simp
  show ?thesis
  proof (rule rq_take_cases [OF assms(1,2)])
    fix s1 out
    assume a: "view s1 = view s"
      "take_lua R (queue_key name) (inflight_key name) (nat (max 1 n)) (fmt3 (now + SPIDER_TASK_LEASE cfg)) s1 = (out, s')"
    show ?thesis
      using take_lua_view [OF queue_inflight_keys(1) d a(2)] take_lua_out(2) [OF a(2)]
      by (auto simp: a(1) tasks_of_def dom_def restrict_map_def split: if_splits)
  qed simp
qed

text \<open>A queue with one member hands it out.\<close>

lemma take_single:
  assumes q: "zsets (view s) (queue_key name) = [payload r \<mapsto> x]" and wf: "wf_request r"
    and c: "fst (conn R s) = Answered" and l: "0 < SPIDER_TASK_LEASE cfg"
  shows "\<exists>s'. rq_take R cfg name now o' n s = (Inr [(wire_request o' r)\<lparr>lease_token := Some (payload r)\<rparr>], s')"
proof -
  let ?f = "take_lua R (queue_key name) (inflight_key name) (nat (max 1 n)) (fmt3 (now + SPIDER_TASK_LEASE cfg))"
  obtain s1 where s1: "view s1 = view s" "rcall R ?f s = (Inr (fst (?f s1)), snd (?f s1))"
    using rcall_answered [OF c, of ?f] by metis
  obtain out s' where out: "?f s1 = (out, s')" by force
  have "set out \<subseteq> {payload r}" "length out = 1"
    using take_lua_out(2,3) [OF out] by (simp_all add: s1(1) q)
  then have "out = [payload r]" by (auto simp: length_Suc_conv)
  then show ?thesis using l s1(2) out by (simp add: rq_take_def Let_def decode_payload [OF wf])
qed

lemma rq_done_view:
  "view (rq_done R name r s) = view s \<or>
   (\<exists>t. lease_token r = Some t \<and> view (rq_done R name r s) = (view s)\<lparr>zsets := (zsets (view s))(
      inflight_key name := (zsets (view s) (inflight_key name))(t := None))\<rparr>)"
proof (cases "lease_token r")
  case (Some t)
  then show ?thesis
    using rcall_view [of "rdo (zrem R (inflight_key name) t)" s]
    by (auto simp: rq_done_def done_member_def zrem_view)
qed (simp add: rq_done_def)

lemma rq_renew_view:
  "view (snd (rq_renew R cfg name now rs s)) = view s \<or>
   view (snd (rq_renew R cfg name now rs s)) = (view s)\<lparr>zsets := (zsets (view s))(inflight_key name :=
     (\<lambda>m. if m \<in> set (lease_tokens rs) \<and> m \<in> dom (zsets (view s) (inflight_key name))
          then Some (fmt3 (now + SPIDER_TASK_LEASE cfg)) else zsets (view s) (inflight_key name) m))\<rparr>"
proof -
  let ?f = "renew_lua R (inflight_key name) (fmt3 (now + SPIDER_TASK_LEASE cfg)) (lease_tokens rs)"
  have "snd (rq_renew R cfg name now rs s) = s \<or> snd (rq_renew R cfg name now rs s) = snd (rcall R ?f s)"
    by (auto simp: rq_renew_def split: prod.splits sum.splits)
  with rcall_view [of ?f s] show ?thesis by (auto simp: renew_lua_view cong: if_cong)
qed

lemma rq_reclaim_view:
  assumes "rq_reclaim_expired R cfg name now limit s = (k, s')"
  obtains (unreached) "view s' = view s" "k = 0"
  | (ran) out where "set out \<subseteq> {m. \<exists>x\<le>fmt3 now. zsets (view s) (inflight_key name) m = Some x}"
      "length out = min (nat (max 1 limit)) (card {m. \<exists>x\<le>fmt3 now. zsets (view s) (inflight_key name) m = Some x})"
      "distinct out" "k = length out \<or> k = 0"
      "view s' = (view s)\<lparr>zsets := (zsets (view s))(
         inflight_key name := zsets (view s) (inflight_key name) |` (- set out),
         queue_key name := (\<lambda>m. if m \<in> set out then Some 0 else zsets (view s) (queue_key name) m))\<rparr>"
proof -
  let ?f = "reclaim_lua R (inflight_key name) (queue_key name) (fmt3 now) (nat (max 1 limit))"
  have "(s' = s \<and> k = 0) \<or> (\<exists>e. rcall R ?f s = (Inl e, s') \<and> k = 0) \<or> rcall R ?f s = (Inr k, s')"
    using assms by (auto simp: rq_reclaim_expired_def split: prod.splits sum.splits if_splits)
  moreover have ?thesis if ran': "view s1 = view s" "s' = snd (?f s1)" "k = 0 \<or> k = fst (?f s1)" for s1
  proof (rule ran [of "zrangebyscore R (inflight_key name) (fmt3 now) (nat (max 1 limit)) s1"])
    show "set (zrangebyscore R (inflight_key name) (fmt3 now) (nat (max 1 limit)) s1)
      \<subseteq> {m. \<exists>x\<le>fmt3 now. zsets (view s) (inflight_key name) m = Some x}"
      using zrange_set [of _ "inflight_key name" "fmt3 now" _ s1] ran'(1) by auto
  qed (use ran' in \<open>auto simp: zrange_length zrange_distinct reclaim_lua_def Let_def reclaim_fold_view cong: if_cong\<close>)
  ultimately show ?thesis
    using unreached rcall_Inl [of ?f s _ s'] rcall_Inr [of ?f s k s'] by (metis fst_conv snd_conv)
qed

lemma rq_reclaim_tasks:
  "tasks_of (view (snd (rq_reclaim_expired R cfg name now limit s))) name = tasks_of (view s) name"
proof -
  obtain k s' where r: "rq_reclaim_expired R cfg name now limit s = (k, s')" by force
  show ?thesis
  proof (rule rq_reclaim_view [OF r])
    fix out
    assume "set out \<subseteq> {m. \<exists>x\<le>fmt3 now. zsets (view s) (inflight_key name) m = Some x}"
      and "view s' = (view s)\<lparr>zsets := (zsets (view s))(
         inflight_key name := zsets (view s) (inflight_key name) |` (- set out),
         queue_key name := (\<lambda>m. if m \<in> set out then Some 0 else zsets (view s) (queue_key name) m))\<rparr>"
    then show ?thesis by (auto simp: r tasks_of_def restrict_map_def dom_def split: if_splits)
  qed (simp add: r)
qed

lemma rq_renew_tasks: "tasks_of (view (snd (rq_renew R cfg name now rs s))) name = tasks_of (view s) name"
  using rq_renew_view [of cfg name now rs s] by (auto simp: tasks_of_def dom_def split: if_splits)

text \<open>An answered renewal, for one lease.\<close>

lemma renew_lease:
  assumes "fst (conn R s) = Answered" "0 < SPIDER_TASK_LEASE cfg" "m \<in> set (lease_tokens rs)" "m \<in> dom (zsets (view s) (inflight_key name))"
  shows "zsets (view (snd (rq_renew R cfg name now rs s))) (inflight_key name) m = Some (fmt3 (now + SPIDER_TASK_LEASE cfg))"
proof -
  let ?f = "renew_lua R (inflight_key name) (fmt3 (now + SPIDER_TASK_LEASE cfg)) (lease_tokens rs)"
  obtain s1 where s1: "view s1 = view s" "rcall R ?f s = (Inr (fst (?f s1)), snd (?f s1))"
    using rcall_answered [OF assms(1), of ?f] by metis
  have ne: "lease_tokens rs \<noteq> []" using assms(3) by force
  moreover from this have "rs \<noteq> []" by (auto simp: lease_tokens_def)
  ultimately have "snd (rq_renew R cfg name now rs s) = snd (?f s1)" using assms(2) s1(2) by (simp add: rq_renew_def)
  then show ?thesis using assms(3,4) s1(1) by (simp add: renew_lua_view)
qed

text \<open>What an answered reclaim with a large enough limit does to one lease.\<close>

lemma reclaim_lease:
  assumes "0 < SPIDER_TASK_LEASE cfg" and "fst (conn R s) = Answered"
    and "int (card (dom (zsets (view s) (inflight_key name)))) \<le> limit"
    and m: "zsets (view s) (inflight_key name) m = Some x"
  shows "if x \<le> fmt3 now
     then zsets (view (snd (rq_reclaim_expired R cfg name now limit s))) (queue_key name) m = Some 0
       \<and> zsets (view (snd (rq_reclaim_expired R cfg name now limit s))) (inflight_key name) m = None
     else zsets (view (snd (rq_reclaim_expired R cfg name now limit s))) (inflight_key name) m = Some x"
proof -
  let ?f = "reclaim_lua R (inflight_key name) (queue_key name) (fmt3 now) (nat (max 1 limit))"
  obtain s1 where s1: "view s1 = view s" "rcall R ?f s = (Inr (fst (?f s1)), snd (?f s1))"
    using rcall_answered [OF assms(2), of ?f] by metis
  let ?e = "zrangebyscore R (inflight_key name) (fmt3 now) (nat (max 1 limit)) s1"
  have s': "snd (rq_reclaim_expired R cfg name now limit s) = snd (?f s1)"
    using s1 assms(1) by (simp add: rq_reclaim_expired_def)
  have "card (dom (zsets (view s1) (inflight_key name))) \<le> nat (max 1 limit)" using assms(3) s1(1) by simp
  then have e: "m \<in> set ?e \<longleftrightarrow> x \<le> fmt3 now"
    using zrange_complete [of s1 "inflight_key name" m x] zrange_set [of m "inflight_key name" _ _ s1] m s1(1) by fastforce
  show ?thesis
    using e m by (auto simp: s' reclaim_lua_def Let_def reclaim_fold_view s1(1))
qed

lemma rq_put_tasks:
  "tasks_of (view (snd (rq_put R name r s))) name \<in>
     {tasks_of (view s) name, insert (payload r) (tasks_of (view s) name)}"
  using rcall_view [of "rdo (zadd R (queue_key name) (payload r) (of_int (priority r)))" s]
  unfolding rq_put_def by (elim disjE exE conjE) (simp_all add: zadd_view tasks_of_def)

lemma rq_done_tasks:
  "tasks_of (view (rq_done R name r s)) name \<supseteq> tasks_of (view s) name - set_option (lease_token r)"
  using rq_done_view [of name r s] by (auto simp: tasks_of_def)

end

section \<open>The in-process queue as a stable priority queue\<close>

definition mem_inv :: "mem_queue \<Rightarrow> bool" where
  "mem_inv q \<longleftrightarrow> sorted (map fst (mq_entries q)) \<and> (\<forall>e\<in>set (mq_entries q). snd (fst e) < mq_seq q
     \<and> fst (fst e) = priority (snd e))"

definition mem_abs :: "mem_queue \<Rightarrow> request list" where
  "mem_abs q = map snd (mq_entries q)"

lemma mem_new_inv [simp]: "mem_inv mem_new" "mem_abs mem_new = []"
  by (simp_all add: mem_inv_def mem_abs_def mem_new_def)

lemma mem_put_inv: "mem_inv q \<Longrightarrow> mem_inv (mem_put r q)"
  by (auto simp: mem_inv_def mem_put_def set_insort_key sorted_insort_key)

lemma mem_get_inv: "mem_inv q \<Longrightarrow> mem_inv (snd (mem_get q))"
  by (auto simp: mem_inv_def mem_get_def split: list.splits)

text \<open>A new entry goes behind the waiting ones of the same priority.\<close>

lemma insort_entry:
  assumes "\<forall>e\<in>set es. snd (fst e) < n \<and> fst (fst e) = priority (snd e)"
  shows "map snd (insort_key fst ((priority r, n), r) es)
    = takeWhile (\<lambda>x. priority x \<le> priority r) (map snd es) @ r # dropWhile (\<lambda>x. priority x \<le> priority r) (map snd es)"
  using assms by (induction es) (auto simp: less_eq_prod_def)

lemma mem_put_abs:
  "mem_inv q \<Longrightarrow> mem_abs (mem_put r q) = takeWhile (\<lambda>x. priority x \<le> priority r) (mem_abs q)
     @ r # dropWhile (\<lambda>x. priority x \<le> priority r) (mem_abs q)"
  unfolding mem_abs_def mem_put_def using insort_entry [of "mq_entries q" "mq_seq q" r] by (simp add: mem_inv_def)

lemma mem_abs_sorted: "mem_inv q \<Longrightarrow> sorted (map priority (mem_abs q))"
proof -
  assume inv: "mem_inv q"
  then have "map priority (mem_abs q) = map fst (map fst (mq_entries q))"
    by (auto simp: mem_abs_def mem_inv_def)
  moreover have "sorted (map fst (map fst (mq_entries q)))"
    using inv by (auto simp: mem_inv_def sorted_map less_eq_prod_def elim: sorted_wrt_mono_rel [rotated])
  ultimately show ?thesis by simp
qed

lemma stable_insert_filter:
  fixes f :: "'a \<Rightarrow> 'b::linorder"
  assumes "sorted (map f l)"
  shows "filter (\<lambda>x. k = f x) (takeWhile (\<lambda>x. f x \<le> f r) l @ r # dropWhile (\<lambda>x. f x \<le> f r) l)
    = filter (\<lambda>x. k = f x) l @ (if k = f r then [r] else [])"
  using assms
proof (induction l)
  case (Cons a l)
  show ?case
  proof (cases "f a \<le> f r")
    case False
    then have "\<forall>x\<in>set (a # l). f r < f x" using Cons.prems by auto
    then have "k = f r \<Longrightarrow> filter (\<lambda>x. k = f x) (a # l) = []" by (auto simp: filter_empty_conv)
    then show ?thesis using False by auto
  qed (use Cons in auto)
qed simp

lemma mem_put_all:
  "mem_inv q \<Longrightarrow> mem_inv (fold mem_put rs q) \<and> mset (mem_abs (fold mem_put rs q)) = mset (mem_abs q) + mset rs
     \<and> filter (\<lambda>x. k = priority x) (mem_abs (fold mem_put rs q))
       = filter (\<lambda>x. k = priority x) (mem_abs q) @ filter (\<lambda>x. k = priority x) rs"
proof (induction rs arbitrary: q)
  case (Cons r rs)
  have "mset (mem_abs (mem_put r q)) = mset (mem_abs q) + {#r#}"
    unfolding mem_put_abs [OF Cons.prems]
    by (metis mset_append mset.simps(2) add_mset_add_single takeWhile_dropWhile_id union_mset_add_mset_right)
  moreover have "filter (\<lambda>x. k = priority x) (mem_abs (mem_put r q))
      = filter (\<lambda>x. k = priority x) (mem_abs q) @ (if k = priority r then [r] else [])"
    unfolding mem_put_abs [OF Cons.prems] by (rule stable_insert_filter [OF mem_abs_sorted [OF Cons.prems]])
  ultimately show ?case using Cons.IH [OF mem_put_inv [OF Cons.prems]] by simp
qed simp

lemma mem_get_loop_take: "map_prod id mem_abs (mem_get_loop n q) = (take n (mem_abs q), drop n (mem_abs q))"
proof (induction n arbitrary: q)
  case (Suc n)
  show ?case
  proof (cases "mq_entries q")
    case (Cons e es)
    then show ?thesis using Suc [of "q\<lparr>mq_entries := es\<rparr>"]
      by (auto simp: mem_get_def mem_abs_def map_prod_def split: prod.splits)
  qed (simp add: mem_get_def mem_abs_def)
qed simp

lemma decode_all_nth:
  "decode_all o' ms = Inr rs \<Longrightarrow> map lease_token rs = map Some ms
     \<and> (\<forall>i<length ms. \<exists>r. decode (o' + i) (ms ! i) = Inr r \<and> rs ! i = r\<lparr>lease_token := Some (ms ! i)\<rparr>)"
proof (induction ms arbitrary: o' rs)
  case (Cons m ms)
  then obtain r rs' where r: "decode o' m = Inr r" "decode_all (Suc o') ms = Inr rs'"
    "rs = r\<lparr>lease_token := Some m\<rparr> # rs'"
    by (auto split: sum.splits)
  then show ?case using Cons.IH [OF r(2)] by (auto simp: nth_Cons split: nat.splits)
qed simp

section \<open>The interface of a task queue\<close>

text \<open>
  What the request buffer and the schedulers rely on: a successful \<open>put\<close> is in the queue, and no \<open>put\<close>,
  failing or not, removes another task.
\<close>

locale put_queue =
  fixes put :: "request \<Rightarrow> 'q \<Rightarrow> unit res \<times> 'q" and holds :: "'q \<Rightarrow> request \<Rightarrow> bool"
  assumes put_ok: "put r q = (Inr u, q') \<Longrightarrow> holds q' r"
    and put_keep: "holds q r' \<Longrightarrow> holds (snd (put r q)) r'"

definition mem_put_res :: "request \<Rightarrow> mem_queue \<Rightarrow> unit res \<times> mem_queue" where
  "mem_put_res r q = (Inr (), mem_put r q)"

definition mem_holds :: "mem_queue \<Rightarrow> request \<Rightarrow> bool" where
  "mem_holds q r \<longleftrightarrow> r \<in> set (mem_abs q)"

definition rq_holds :: "('s \<Rightarrow> rview) \<Rightarrow> string \<Rightarrow> 's \<Rightarrow> request \<Rightarrow> bool" where
  "rq_holds view name s r \<longleftrightarrow> payload r \<in> dom (zsets (view s) (queue_key name))"

interpretation mem_q: put_queue mem_put_res mem_holds
  by unfold_locales (auto simp: mem_put_res_def mem_holds_def mem_abs_def mem_put_def set_insort_key)

sublocale redis_server \<subseteq> rq: put_queue "rq_put R name" "rq_holds view name" for name
proof (unfold_locales, goal_cases)
  case (1 r q u q')
  then show ?case
    using rcall_Inr [of "rdo (zadd R (queue_key name) (payload r) (of_int (priority r)))" q u q']
    by (auto simp: rq_put_def rq_holds_def zadd_view)
next
  case (2 q r' r)
  then show ?case
    using rcall_view [of "rdo (zadd R (queue_key name) (payload r) (of_int (priority r)))" q]
    by (auto simp: rq_put_def rq_holds_def zadd_view)
qed

section \<open>Properties\<close>

text \<open>C31: The in-process queue is a stable priority queue: after any sequence of \<open>put\<close>s into an empty queue,
  \<open>get_batch(n)\<close> returns the first \<open>max(1, n)\<close> requests of the stable sort by \<open>priority\<close> (smaller first,
  first-in first-out among equals), and leaves the rest.\<close>

theorem mem_queue_stable_sort:
  "map_prod id mem_abs (mem_get_batch n (fold mem_put rs mem_new))
   = (take (nat (max 1 n)) (sort_key priority rs), drop (nat (max 1 n)) (sort_key priority rs))"
proof -
  have "sort_key priority rs = mem_abs (fold mem_put rs mem_new)"
  proof (rule properties_for_sort_key)
    show "sorted (map priority (mem_abs (fold mem_put rs mem_new)))"
      by (rule mem_abs_sorted) (use mem_put_all [OF mem_new_inv(1)] in blast)
  qed (use mem_put_all [OF mem_new_inv(1)] in simp_all)
  then show ?thesis by (simp add: mem_get_batch_def mem_get_loop_take)
qed

text \<open>Taking tasks from the Redis queue never loses one.  With leases on, every member that was
  waiting or leased before \<open>_take\<close> is waiting or leased after it (and nothing appears), whether the
  call succeeds, fails on the way, or raises while decoding a malformed member.\<close>

theorem take_conserves_tasks:
  assumes "redis_server R view" and "0 < SPIDER_TASK_LEASE cfg" and "1 \<le> now"
  shows "tasks_of (view (snd (rq_take R cfg name now o' n s))) name = tasks_of (view s) name"
  using redis_server.rq_take_tasks [OF assms(1) _ assms(2,3)] by (metis prod.collapse)

definition two_task_server :: mini_redis where
  "two_task_server = mini_empty\<lparr>mz := (\<lambda>_. [])(''s:z_requests'' := [(''x'', 5), (''y'', 3)])\<rparr>"

theorem take_conserves_tasks_witness:
  "tasks_of (mini_view (snd (rq_take mini default_setting ''s'' 1000 0 1 two_task_server))) ''s'' = {''x'', ''y''}"
proof -
  have "tasks_of (mini_view two_task_server) ''s'' = {''x'', ''y''}"
    by (auto simp: tasks_of_def mini_view_def two_task_server_def queue_key_def inflight_key_def mini_empty_def
        split: if_splits)
  then show ?thesis
    using take_conserves_tasks [OF mini.redis_server_axioms, of default_setting 1000 "''s''" 0 1 two_task_server]
    by (simp add: default_setting_def)
qed

text \<open>What a successful take hands out.  The requests carry distinct lease tokens, which are the
  members popped from the queue in priority order, at most \<open>max(1, n)\<close> and as many as there are; no
  member left behind has a smaller priority value; each request is the decoding of its token; and
  each token is leased until the take's deadline, rounded to milliseconds.\<close>

theorem take_hands_out_leased:
  assumes "redis_server R view" and "0 < SPIDER_TASK_LEASE cfg" and "1 \<le> now"
    and "rq_take R cfg name now o' n s = (Inr rs, s')"
  shows "\<exists>ms. map lease_token rs = map Some ms \<and> distinct ms
      \<and> length ms = min (nat (max 1 n)) (card (dom (zsets (view s) (queue_key name))))
      \<and> sorted (map (\<lambda>m. the (zsets (view s) (queue_key name) m)) ms)
      \<and> (\<forall>m\<in>set ms. \<forall>m'\<in>dom (zsets (view s') (queue_key name)).
            the (zsets (view s) (queue_key name) m) \<le> the (zsets (view s) (queue_key name) m'))
      \<and> (\<forall>i<length ms. \<exists>r. decode (o' + i) (ms ! i) = Inr r \<and> rs ! i = r\<lparr>lease_token := Some (ms ! i)\<rparr>)
      \<and> zsets (view s') (queue_key name) = zsets (view s) (queue_key name) |` (- set ms)
      \<and> (\<forall>m\<in>set ms. m \<in> dom (zsets (view s) (queue_key name))
            \<and> zsets (view s') (inflight_key name) m = Some (fmt3 (now + SPIDER_TASK_LEASE cfg)))"
proof -
  have d: "0 < fmt3 (now + SPIDER_TASK_LEASE cfg)" using assms by (intro fmt3_pos) simp
  show ?thesis
  proof (rule redis_server.rq_take_cases [OF assms(1) assms(4,2)])
    fix s1 ms
    assume v: "view s1 = view s"
      and t: "take_lua R (queue_key name) (inflight_key name) (nat (max 1 n)) (fmt3 (now + SPIDER_TASK_LEASE cfg)) s1 = (ms, s')"
      and "Inr rs = decode_all o' ms \<or> Inr rs = Inl (raise_of RedisCallError)"
    then have dec: "decode_all o' ms = Inr rs" by simp
    note tv = redis_server.take_lua_view [OF assms(1) queue_inflight_keys(1) d t]
    note out = redis_server.take_lua_out [OF assms(1) t, unfolded v]
    show ?thesis
      using out(1,2,3,5) decode_all_nth [OF dec] tv out(4)
      by (intro exI [of _ ms]) (auto simp: v restrict_map_def dom_def split: if_splits)
  qed simp
qed

text \<open>The member that \<open>put\<close> writes for a plain request.\<close>

definition req_a :: request where
  "req_a = (request_defaults ''http://a/'')\<lparr>priority := 5\<rparr>"

definition one_task_server :: mini_redis where
  "one_task_server = snd (rq_put mini ''s'' req_a mini_empty)"

lemma req_a_wf: "wf_request req_a"
  by (simp add: wf_request_def req_a_def request_defaults_def dkeys_def str_upper_def upper_char_def)

lemma one_task_server_queue: "zsets (mini_view one_task_server) (queue_key ''s'') = [payload req_a \<mapsto> 5]"
  by (simp add: one_task_server_def rq_put_def rcall_def mini_sel mini_cmd_defs mini_empty_def mini_view_def)
    (simp add: req_a_def)

lemma one_task_server_conn [simp]: "fst (conn mini one_task_server) = Answered"
  by (simp add: one_task_server_def rq_put_def rcall_def mini_sel mini_cmd_defs mini_empty_def)

theorem take_hands_out_leased_witness:
  "\<exists>s'. rq_take mini default_setting ''s'' 1000 7 10 one_task_server
       = (Inr [(wire_request 7 req_a)\<lparr>lease_token := Some (payload req_a)\<rparr>], s')
     \<and> zsets (mini_view s') (inflight_key ''s'') (payload req_a) = Some 1600"
proof -
  have l: "0 < SPIDER_TASK_LEASE default_setting" by (simp add: default_setting_def)
  obtain s' where t: "rq_take mini default_setting ''s'' 1000 7 10 one_task_server
       = (Inr [(wire_request 7 req_a)\<lparr>lease_token := Some (payload req_a)\<rparr>], s')"
    using mini.take_single [OF one_task_server_queue req_a_wf one_task_server_conn l] by blast
  from take_hands_out_leased [OF mini.redis_server_axioms l _ t]
  have "zsets (mini_view s') (inflight_key ''s'') (payload req_a) = Some (fmt3 1600)"
    by (auto simp: default_setting_def)
  then show ?thesis using t by (simp add: fmt3_def round_half_even_def)
qed

text \<open>Put, then take.  On an empty queue, with both calls answered, the request that was put comes back
  from \<open>get_batch\<close> with every serialised field intact, carrying the text it was stored as as its lease
  token.\<close>

theorem put_take_roundtrip:
  assumes "redis_server R view" and "0 < SPIDER_TASK_LEASE cfg"
    and "zsets (view s) (queue_key name) = Map.empty" and "wf_request r"
    and "fst (conn R s) = Answered" and "fst (conn R (snd (rq_put R name r s))) = Answered"
  shows "fst (rq_take R cfg name now o' n (snd (rq_put R name r s)))
           = Inr [(wire_request o' r)\<lparr>lease_token := Some (payload r)\<rparr>]"
proof -
  have "zsets (view (snd (rq_put R name r s))) (queue_key name) = [payload r \<mapsto> of_int (priority r)]"
    by (rule redis_server.rcall_answered [OF assms(1,5), of "rdo (zadd R (queue_key name) (payload r) (of_int (priority r)))"])
      (simp add: rq_put_def redis_server.zadd_view [OF assms(1)] assms(3))
  from redis_server.take_single [OF assms(1) this assms(4,6,2), of now o' n] show ?thesis by auto
qed

theorem put_take_roundtrip_witness:
  "fst (rq_take mini default_setting ''s'' 1000 7 3 (snd (rq_put mini ''s'' req_a mini_empty)))
   = Inr [(wire_request 7 req_a)\<lparr>lease_token := Some (payload req_a)\<rparr>]"
  by (rule put_take_roundtrip [OF mini.redis_server_axioms _ _ req_a_wf])
    (simp_all add: default_setting_def mini_empty_def mini_view_def mini_sel mini_cmd_defs rq_put_def rcall_def)

text \<open>Renewing leases never resurrects a task.  Whatever happens to the call, \<open>renew\<close> leaves the queue
  and the set of leased members as they are, so a task that was acknowledged or reclaimed meanwhile is
  not put back; and an answered call moves the deadline of every held task that is still leased to
  now + lease.\<close>

theorem renew_never_resurrects:
  assumes "redis_server R view"
  shows "dom (zsets (view (snd (rq_renew R cfg name now rs s))) (inflight_key name)) = dom (zsets (view s) (inflight_key name))
    \<and> zsets (view (snd (rq_renew R cfg name now rs s))) (queue_key name) = zsets (view s) (queue_key name)
    \<and> (fst (conn R s) = Answered \<longrightarrow> 0 < SPIDER_TASK_LEASE cfg \<longrightarrow>
        (\<forall>m \<in> set (lease_tokens rs) \<inter> dom (zsets (view s) (inflight_key name)).
           zsets (view (snd (rq_renew R cfg name now rs s))) (inflight_key name) m = Some (fmt3 (now + SPIDER_TASK_LEASE cfg))))"
proof (intro conjI impI ballI)
  show "dom (zsets (view (snd (rq_renew R cfg name now rs s))) (inflight_key name)) = dom (zsets (view s) (inflight_key name))"
    and "zsets (view (snd (rq_renew R cfg name now rs s))) (queue_key name) = zsets (view s) (queue_key name)"
    using redis_server.rq_renew_view [OF assms, of cfg name now rs s] by (auto split: if_splits)
next
  fix m
  assume "fst (conn R s) = Answered" "0 < SPIDER_TASK_LEASE cfg"
    and "m \<in> set (lease_tokens rs) \<inter> dom (zsets (view s) (inflight_key name))"
  then show "zsets (view (snd (rq_renew R cfg name now rs s))) (inflight_key name) m = Some (fmt3 (now + SPIDER_TASK_LEASE cfg))"
    using redis_server.renew_lease [OF assms] by blast
qed

definition leased_server :: mini_redis where
  "leased_server = mini_empty\<lparr>mz := (\<lambda>_. [])(''s:z_inflight'' := [(''x'', 5)], ''s:z_requests'' := [(''y'', 3)])\<rparr>"

lemma leased_server_facts:
  "zsets (mini_view leased_server) (inflight_key ''s'') = [''x'' \<mapsto> 5]"
  "fst (conn mini leased_server) = Answered"
  by (simp_all add: leased_server_def mini_view_def inflight_key_def mini_sel mini_cmd_defs mini_empty_def)

theorem renew_never_resurrects_witness:
  "zsets (mini_view (snd (rq_renew mini default_setting ''s'' 10
      [req_a\<lparr>lease_token := Some ''x''\<rparr>, req_a\<lparr>lease_token := Some ''gone''\<rparr>] leased_server))) (inflight_key ''s'') ''x'' = Some 610
   \<and> zsets (mini_view (snd (rq_renew mini default_setting ''s'' 10
      [req_a\<lparr>lease_token := Some ''x''\<rparr>, req_a\<lparr>lease_token := Some ''gone''\<rparr>] leased_server))) (inflight_key ''s'') ''gone'' = None"
proof -
  let ?rs = "[req_a\<lparr>lease_token := Some ''x''\<rparr>, req_a\<lparr>lease_token := Some ''gone''\<rparr>]"
  let ?i = "zsets (mini_view (snd (rq_renew mini default_setting ''s'' 10 ?rs leased_server))) (inflight_key ''s'')"
  have t: "lease_tokens ?rs = [''x'', ''gone'']" by (simp add: lease_tokens_def)
  have "dom ?i = {''x''}" "?i ''x'' = Some (fmt3 610)"
    using renew_never_resurrects [OF mini.redis_server_axioms, of default_setting "''s''" 10 ?rs leased_server]
    by (simp_all add: leased_server_facts t default_lease)
  moreover from this(1) have "?i ''gone'' = None" using domIff [of "''gone''" ?i] by simp
  ultimately show ?thesis by (simp add: fmt3_def round_half_even_def)
qed

text \<open>Reclaiming returns the tasks of dead nodes.  Once a lease is over, an answered \<open>reclaim_expired\<close> whose
  limit covers the expired leases moves every one of them back to the queue at score 0 and out of the
  in-flight set, and leaves every other lease alone.\<close>

theorem reclaim_returns_expired:
  assumes "redis_server R view" and "0 < SPIDER_TASK_LEASE cfg" and "fst (conn R s) = Answered"
    and "int (card (dom (zsets (view s) (inflight_key name)))) \<le> limit"
    and "zsets (view s) (inflight_key name) m = Some x"
  shows "if x \<le> fmt3 now
     then zsets (view (snd (rq_reclaim_expired R cfg name now limit s))) (queue_key name) m = Some 0
       \<and> zsets (view (snd (rq_reclaim_expired R cfg name now limit s))) (inflight_key name) m = None
     else zsets (view (snd (rq_reclaim_expired R cfg name now limit s))) (inflight_key name) m = Some x"
  by (rule redis_server.reclaim_lease [OF assms])

theorem reclaim_returns_expired_witness:
  "zsets (mini_view (snd (rq_reclaim_expired mini default_setting ''s'' 10 500 leased_server))) (queue_key ''s'') ''x'' = Some 0"
  using reclaim_returns_expired [OF mini.redis_server_axioms _ leased_server_facts(2), of default_setting "''s''" 500 "''x''" 5 10]
  by (simp add: leased_server_facts default_lease fmt3_def round_half_even_def)

end
