(* ===== verification/Dedup.thy ===== *)
theory Dedup
  imports Net_Request Redis_Interface Redis_Mini
begin

text \<open>
  \<^verbatim>\<open>netspy/dedup\<close>: the exact in-process filter, the Bloom filter and its layered form, the two Redis
  filters and the facade \<open>Dedup\<close> that picks one.  The digests \<open>md5\<close> and \<open>sha1\<close> (as integers) are
  arguments.  The locale \<open>dedup_filter\<close> is the protocol class \<open>Filter\<close>: what \<open>add\<close> answers, and that a
  fingerprint once added is never forgotten; \<open>exact_filter\<close> adds that nothing else is
  remembered.  Every filter of the package is an instance.
\<close>

section \<open>LiteFilter\<close>

type_synonym lite_filter = "string list"

definition lite_add :: "string \<Rightarrow> lite_filter \<Rightarrow> bool \<times> lite_filter" where
  "lite_add key seen = (if key \<in> set seen then (False, seen) else (True, key # seen))"

definition lite_contains :: "lite_filter \<Rightarrow> string \<Rightarrow> bool" where
  "lite_contains seen key = (key \<in> set seen)"

section \<open>MemoryBloomFilter\<close>

definition optimal_size :: "int \<Rightarrow> real \<Rightarrow> int" where
  "optimal_size capacity error_rate = max \<lceil>- of_int capacity * ln error_rate / (ln 2)\<^sup>2\<rceil> 8"

definition optimal_hashes :: "int \<Rightarrow> int \<Rightarrow> int" where
  "optimal_hashes sz capacity = max 1 (round_half_even (of_int sz / of_int capacity * ln 2))"

text \<open>The digests of a key as integers; the second is made odd by \<open>| 1\<close>.\<close>

type_synonym digests = "(string \<Rightarrow> int) \<times> (string \<Rightarrow> int)"

definition bit_positions :: "digests \<Rightarrow> string \<Rightarrow> int \<Rightarrow> int \<Rightarrow> nat list" where
  "bit_positions dg key sz num_hashes =
     (let h1 = fst dg key; s = snd dg key; h2 = (if even s then s + 1 else s)
      in map (\<lambda>i. nat ((h1 + int i * h2) mod sz)) [0..<nat num_hashes])"

record bloom =
  bf_capacity :: int
  bf_error_rate :: real
  bf_size :: int
  bf_num_hashes :: int
  bf_bits :: "bool list"
  bf_count :: int
  bf_warned :: bool

definition new_bloom :: "int \<Rightarrow> real \<Rightarrow> bloom res" where
  "new_bloom capacity error_rate =
     (if \<not> (0 < error_rate \<and> error_rate < 1) then Inl (raise_of PyValueError)
      else let cap = max 1 capacity; sz = optimal_size cap error_rate
        in Inr \<lparr>bf_capacity = cap, bf_error_rate = error_rate, bf_size = sz, bf_num_hashes = optimal_hashes sz cap,
                bf_bits = replicate (nat sz) False, bf_count = 0, bf_warned = False\<rparr>)"

abbreviation bf_positions :: "digests \<Rightarrow> bloom \<Rightarrow> string \<Rightarrow> nat list" where
  "bf_positions dg b key \<equiv> bit_positions dg key (bf_size b) (bf_num_hashes b)"

definition bloom_contains :: "digests \<Rightarrow> bloom \<Rightarrow> string \<Rightarrow> bool" where
  "bloom_contains dg b key = list_all (\<lambda>p. bf_bits b ! p) (bf_positions dg b key)"

definition bloom_add :: "digests \<Rightarrow> string \<Rightarrow> bloom \<Rightarrow> bool \<times> bloom" where
  "bloom_add dg key b =
     (if list_all (\<lambda>p. bf_bits b ! p) (bf_positions dg b key) then (False, b)
      else (True, b\<lparr>bf_bits := fold (\<lambda>p bs. bs[p := True]) (bf_positions dg b key) (bf_bits b),
                    bf_count := bf_count b + 1,
                    bf_warned := bf_warned b \<or> bf_count b + 1 > bf_capacity b\<rparr>))"

section \<open>ScalableBloomFilter\<close>

definition layer_params :: "nat \<Rightarrow> int \<Rightarrow> real \<Rightarrow> real \<Rightarrow> real \<Rightarrow> int \<times> real" where
  "layer_params index capacity error_rate growth ratio =
     (max 1 \<lfloor>of_int capacity * growth ^ index\<rfloor>, error_rate * ratio ^ index)"

record scalable =
  sb_base_capacity :: int
  sb_error_rate :: real
  sb_max_layers :: int
  sb_growth :: real
  sb_ratio :: real
  sb_layers :: "bloom list"
  sb_warned :: bool

definition make_layer :: "int \<Rightarrow> real \<Rightarrow> real \<Rightarrow> real \<Rightarrow> nat \<Rightarrow> bloom res" where
  "make_layer base err growth ratio index =
     (case layer_params index base err growth ratio of (cap, e) \<Rightarrow>
        bind_res (new_bloom cap e) (\<lambda>b. Inr (b\<lparr>bf_warned := True\<rparr>)))"

definition new_scalable :: "int \<Rightarrow> real \<Rightarrow> int \<Rightarrow> real \<Rightarrow> real \<Rightarrow> scalable res" where
  "new_scalable capacity error_rate max_layers growth ratio =
     (if \<not> (0 < ratio \<and> ratio < 1) then Inl (raise_of PyValueError)
      else if growth < 1 then Inl (raise_of PyValueError)
      else bind_res (make_layer (max 1 capacity) error_rate growth ratio 0) (\<lambda>l.
        Inr \<lparr>sb_base_capacity = max 1 capacity, sb_error_rate = error_rate, sb_max_layers = max 1 max_layers,
             sb_growth = growth, sb_ratio = ratio, sb_layers = [l], sb_warned = False\<rparr>))"

definition sb_capacity :: "scalable \<Rightarrow> int" where
  "sb_capacity sb = (\<Sum>i<nat (sb_max_layers sb).
     fst (layer_params i (sb_base_capacity sb) (sb_error_rate sb) (sb_growth sb) (sb_ratio sb)))"

definition sb_count :: "scalable \<Rightarrow> int" where
  "sb_count sb = sum_list (map bf_count (sb_layers sb))"

definition scalable_contains :: "digests \<Rightarrow> scalable \<Rightarrow> string \<Rightarrow> bool" where
  "scalable_contains dg sb key = list_ex (\<lambda>b. bloom_contains dg b key) (sb_layers sb)"

definition grow_layers :: "scalable \<Rightarrow> bloom list res" where
  "grow_layers sb =
     (let ls = sb_layers sb; top = last ls
      in if bf_count top \<ge> bf_capacity top \<and> int (length ls) < sb_max_layers sb
         then bind_res (make_layer (sb_base_capacity sb) (sb_error_rate sb) (sb_growth sb) (sb_ratio sb) (length ls))
                (\<lambda>l. Inr (ls @ [l]))
         else Inr ls)"

definition scalable_add :: "digests \<Rightarrow> string \<Rightarrow> scalable \<Rightarrow> bool res \<times> scalable" where
  "scalable_add dg key sb =
     (if scalable_contains dg sb key then (Inr False, sb)
      else case grow_layers sb of
        Inl e \<Rightarrow> (Inl e, sb)
      | Inr ls \<Rightarrow>
          let top = snd (bloom_add dg key (last ls)); ls' = butlast ls @ [top];
              saturated = int (length ls') \<ge> sb_max_layers sb \<and> bf_count top > bf_capacity top
          in (Inr True, sb\<lparr>sb_layers := ls', sb_warned := sb_warned sb \<or> saturated\<rparr>))"

section \<open>RedisSetFilter\<close>

definition set_key :: "string \<Rightarrow> string" where
  "set_key name = name @ '':dedup:set''"

definition rset_add :: "'s redis \<Rightarrow> string \<Rightarrow> string \<Rightarrow> 's \<Rightarrow> bool res \<times> 's" where
  "rset_add R name key = rcall R (sadd_cmd R (set_key name) key)"

definition rset_contains :: "'s redis \<Rightarrow> string \<Rightarrow> string \<Rightarrow> 's \<Rightarrow> bool res \<times> 's" where
  "rset_contains R name key = rcall R (rask (sismember_cmd R (set_key name) key))"

section \<open>RedisBloomFilter\<close>

text \<open>A layer as the constructor lays it out: key, sz, number of hashes, cumulative capacity.\<close>

record rlayer =
  rl_key :: string
  rl_size :: int
  rl_hashes :: int
  rl_cum :: int

record rbloom =
  rb_count_key :: string
  rb_layers :: "rlayer list"
  rb_warned :: bool

definition bloom_base :: "string \<Rightarrow> string" where
  "bloom_base name = name @ '':dedup:bloom''"

definition layer_key :: "string \<Rightarrow> nat \<Rightarrow> string" where
  "layer_key name i = (if i = 0 then bloom_base name else bloom_base name @ '':'' @ show_int (int i))"

definition rb_layer :: "string \<Rightarrow> int \<Rightarrow> real \<Rightarrow> real \<Rightarrow> real \<Rightarrow> nat \<Rightarrow> rlayer" where
  "rb_layer name base err growth ratio i =
     (case layer_params i base err growth ratio of (cap, e) \<Rightarrow>
        \<lparr>rl_key = layer_key name i, rl_size = optimal_size cap e, rl_hashes = optimal_hashes (optimal_size cap e) cap,
         rl_cum = (\<Sum>j\<le>i. fst (layer_params j base err growth ratio))\<rparr>)"

definition new_rbloom :: "string \<Rightarrow> int \<Rightarrow> real \<Rightarrow> int \<Rightarrow> real \<Rightarrow> real \<Rightarrow> rbloom res" where
  "new_rbloom name capacity error_rate max_layers growth ratio =
     (if \<not> (0 < error_rate \<and> error_rate < 1) then Inl (raise_of PyValueError)
      else if \<not> (0 < ratio \<and> ratio < 1) then Inl (raise_of PyValueError)
      else Inr \<lparr>rb_count_key = bloom_base name @ '':count'',
                rb_layers = map (rb_layer name (max 1 capacity) error_rate growth ratio) [0..<nat (max 1 max_layers)],
                rb_warned = False\<rparr>)"

definition rb_capacity :: "rbloom \<Rightarrow> int" where
  "rb_capacity rb = rl_cum (last (rb_layers rb))"

definition rl_positions :: "digests \<Rightarrow> string \<Rightarrow> rlayer \<Rightarrow> nat list" where
  "rl_positions dg key l = bit_positions dg key (rl_size l) (rl_hashes l)"

text \<open>The script \<open>_ADD_LUA\<close>: the top layer from the shared counter, then look up and set.\<close>

fun top_layer :: "int \<Rightarrow> rlayer list \<Rightarrow> nat" where
  "top_layer n [] = 0"
| "top_layer n [l] = 0"
| "top_layer n (l # ls) = (if n < rl_cum l then 0 else Suc (top_layer n ls))"

definition rl_has :: "'s redis \<Rightarrow> digests \<Rightarrow> string \<Rightarrow> rlayer \<Rightarrow> 's \<Rightarrow> bool" where
  "rl_has R dg key l s = list_all (\<lambda>p. getbit_cmd R (rl_key l) p s) (rl_positions dg key l)"

definition add_lua :: "'s redis \<Rightarrow> digests \<Rightarrow> rbloom \<Rightarrow> string \<Rightarrow> 's \<Rightarrow> (bool \<times> nat) \<times> 's" where
  "add_lua R dg rb key s =
     (let n = counter_cmd R (rb_count_key rb) s; top = top_layer (int n) (rb_layers rb)
      in if list_ex (\<lambda>l. rl_has R dg key l s) (take (Suc top) (rb_layers rb)) then ((False, n), s)
         else let l = rb_layers rb ! top;
                  s1 = fold (setbit_cmd R (rl_key l)) (rl_positions dg key l) s;
                  (n', s2) = incr_cmd R (rb_count_key rb) s1
              in ((True, n'), s2))"

definition rbloom_add :: "'s redis \<Rightarrow> digests \<Rightarrow> string \<Rightarrow> rbloom \<times> 's \<Rightarrow> bool res \<times> rbloom \<times> 's" where
  "rbloom_add R dg key st =
     (case st of (rb, s) \<Rightarrow>
        (case rcall R (add_lua R dg rb key) s of
           (Inl e, s1) \<Rightarrow> (Inl e, rb, s1)
         | (Inr (fresh, n), s1) \<Rightarrow>
             (Inr fresh, rb\<lparr>rb_warned := rb_warned rb \<or> int n > rb_capacity rb\<rparr>, s1)))"

definition rbloom_contains :: "'s redis \<Rightarrow> digests \<Rightarrow> rbloom \<Rightarrow> string \<Rightarrow> 's \<Rightarrow> bool res \<times> 's" where
  "rbloom_contains R dg rb key = rcall R (rask (\<lambda>s. list_ex (\<lambda>l. rl_has R dg key l s) (rb_layers rb)))"

section \<open>The facade\<close>

datatype filter_obj = FLite lite_filter | FBloom bloom | FScalable scalable | FRedisBloom rbloom | FRedisSet string

definition make_filter :: "setting \<Rightarrow> string \<Rightarrow> int \<Rightarrow> real \<Rightarrow> string \<Rightarrow> filter_obj res" where
  "make_filter cfg filter_type capacity error_rate name =
     (if filter_type = ''lite'' then Inr (FLite [])
      else if filter_type \<in> {''memory'', ''bloom''} then
        (if DEDUP_MAX_LAYERS cfg > 1
         then map_sum id FScalable (new_scalable capacity error_rate (DEDUP_MAX_LAYERS cfg) 2 (1 / 2))
         else map_sum id FBloom (new_bloom capacity error_rate))
      else if filter_type \<in> {''redis'', ''redis-bloom''} then
        map_sum id FRedisBloom (new_rbloom name capacity error_rate (DEDUP_MAX_LAYERS cfg) 2 (1 / 2))
      else if filter_type = ''redis-set'' then Inr (FRedisSet name)
      else Inl (raise_of ConfigError))"

text \<open>\<open>Dedup.add\<close> on a key that is not hashed again (\<open>to_md5=False\<close>, both of the framework's uses).\<close>

fun filter_add :: "'s redis \<Rightarrow> digests \<Rightarrow> string \<Rightarrow> filter_obj \<times> 's \<Rightarrow> bool res \<times> filter_obj \<times> 's" where
  "filter_add R dg key (FLite f, s) = (case lite_add key f of (b, f') \<Rightarrow> (Inr b, FLite f', s))"
| "filter_add R dg key (FBloom f, s) = (case bloom_add dg key f of (b, f') \<Rightarrow> (Inr b, FBloom f', s))"
| "filter_add R dg key (FScalable f, s) = (case scalable_add dg key f of (b, f') \<Rightarrow> (b, FScalable f', s))"
| "filter_add R dg key (FRedisBloom f, s) = (case rbloom_add R dg key (f, s) of (b, f', s') \<Rightarrow> (b, FRedisBloom f', s'))"
| "filter_add R dg key (FRedisSet n, s) = (case rset_add R n key s of (b, s') \<Rightarrow> (b, FRedisSet n, s'))"

fun filter_contains :: "'s redis \<Rightarrow> digests \<Rightarrow> string \<Rightarrow> filter_obj \<times> 's \<Rightarrow> bool res \<times> 's" where
  "filter_contains R dg key (FLite f, s) = (Inr (lite_contains f key), s)"
| "filter_contains R dg key (FBloom f, s) = (Inr (bloom_contains dg f key), s)"
| "filter_contains R dg key (FScalable f, s) = (Inr (scalable_contains dg f key), s)"
| "filter_contains R dg key (FRedisBloom f, s) = rbloom_contains R dg f key s"
| "filter_contains R dg key (FRedisSet n, s) = rset_contains R n key s"

definition dedup_key :: "(string \<Rightarrow> string) \<Rightarrow> bool \<Rightarrow> pyval \<Rightarrow> string" where
  "dedup_key md5 to_md5 v =
     (let text = (case v of VStr t \<Rightarrow> t | _ \<Rightarrow> dumps_json (sort_keys v)) in if to_md5 then md5 text else text)"

definition redis_keys :: "filter_obj \<Rightarrow> string list" where
  "redis_keys f = (case f of FRedisBloom rb \<Rightarrow> rb_count_key rb # map rl_key (rb_layers rb)
     | FRedisSet n \<Rightarrow> [set_key n] | _ \<Rightarrow> [])"

section \<open>The protocol \<open>Filter\<close>\<close>

text \<open>A sequence of adds, from whichever threads and nodes, with the answers.\<close>

fun run_adds :: "(string \<Rightarrow> 'f \<Rightarrow> bool res \<times> 'f) \<Rightarrow> string list \<Rightarrow> 'f \<Rightarrow> bool res list \<times> 'f" where
  "run_adds add [] f = ([], f)"
| "run_adds add (k # ks) f = (case add k f of (b, f1) \<Rightarrow> (case run_adds add ks f1 of (bs, f2) \<Rightarrow> (b # bs, f2)))"

lemma run_adds_Cons [simp]:
  "add k f = (r, f1) \<Longrightarrow> run_adds add (k # ks) f = (r # fst (run_adds add ks f1), snd (run_adds add ks f1))"
  by (simp split: prod.splits)

lemma length_run_adds [simp]: "length (fst (run_adds add ks f)) = length ks"
  by (induction ks arbitrary: f) (simp_all add: case_prod_unfold)

declare run_adds.simps(2) [simp del]

locale dedup_filter =
  fixes add :: "string \<Rightarrow> 'f \<Rightarrow> bool res \<times> 'f" and has :: "'f \<Rightarrow> string \<Rightarrow> bool" and ok :: "'f \<Rightarrow> bool"
  assumes add_ok: "ok f \<Longrightarrow> ok (snd (add k f))"
    and add_fresh: "ok f \<Longrightarrow> add k f = (Inr b, f') \<Longrightarrow> b = (\<not> has f k)"
    and add_has: "ok f \<Longrightarrow> add k f = (Inr b, f') \<Longrightarrow> has f' k"
    and add_mono: "ok f \<Longrightarrow> has f k' \<Longrightarrow> has (snd (add k f)) k'"
begin

lemma adds_ok: "ok f \<Longrightarrow> ok (snd (run_adds add ks f))"
proof (induction ks arbitrary: f)
  case (Cons k ks)
  then show ?case using add_ok [OF Cons.prems, of k] by (cases "add k f") simp
qed simp

lemma adds_mono: "ok f \<Longrightarrow> has f k' \<Longrightarrow> has (snd (run_adds add ks f)) k'"
proof (induction ks arbitrary: f)
  case (Cons k ks)
  obtain b f1 where a: "add k f = (b, f1)" by force
  then have "ok f1" "has f1 k'" using add_ok [of f k] add_mono [of f k' k] Cons.prems by auto
  then show ?case using Cons.IH a by auto
qed simp

text \<open>A key that is known is never reported fresh again.\<close>

lemma known_not_fresh: "ok f \<Longrightarrow> has f k \<Longrightarrow> (k, Inr True) \<notin> set (zip ks (fst (run_adds add ks f)))"
proof (induction ks arbitrary: f)
  case (Cons k1 ks)
  obtain b f1 where a: "add k1 f = (b, f1)" by force
  then have "ok f1" "has f1 k" using add_ok [of f k1] add_mono [of f k k1] Cons.prems by auto
  then have "(k, Inr True) \<notin> set (zip ks (fst (run_adds add ks f1)))" by (rule Cons.IH)
  moreover have "k1 = k \<Longrightarrow> b \<noteq> Inr True" using add_fresh [of f k1 True f1] a Cons.prems by auto
  ultimately show ?case using a by auto
qed simp

text \<open>However the adds of all nodes interleave, a fingerprint is fresh at most once.\<close>

lemma fresh_at_most_once:
  "ok f \<Longrightarrow> i < j \<Longrightarrow> j < length ks \<Longrightarrow> ks ! i = ks ! j \<Longrightarrow> fst (run_adds add ks f) ! i = Inr b \<Longrightarrow> fst (run_adds add ks f) ! j \<noteq> Inr True"
proof (induction ks arbitrary: f i j)
  case (Cons k ks)
  obtain r f1 where a: "add k f = (r, f1)" by force
  have ok1: "ok f1" using add_ok [of f k] a Cons.prems by auto
  obtain j' where j: "j = Suc j'" "j' < length ks" using Cons.prems by (cases j) auto
  have tl: "fst (run_adds add (k # ks) f) = r # fst (run_adds add ks f1)" using a by simp
  show ?case
  proof (cases i)
    case 0
    then have "has f1 k" using add_has [of f k b f1] a Cons.prems tl by auto
    from known_not_fresh [OF ok1 this, of ks] show ?thesis
      using 0 j Cons.prems a by (auto simp: in_set_conv_nth)
  next
    case (Suc i')
    then show ?thesis using Cons.IH [OF ok1, of i' j'] Cons.prems j by (auto simp: tl)
  qed
qed simp

text \<open>No false negative: a key whose add was answered is known for ever after.\<close>

lemma adds_has: "ok f \<Longrightarrow> i < length ks \<Longrightarrow> fst (run_adds add ks f) ! i = Inr b \<Longrightarrow> has (snd (run_adds add ks f)) (ks ! i)"
proof (induction ks arbitrary: f i)
  case (Cons k ks)
  obtain r f1 where a: "add k f = (r, f1)" by force
  have ok1: "ok f1" using add_ok [of f k] a Cons.prems by auto
  show ?case
  proof (cases i)
    case 0
    then have "has f1 k" using add_has [of f k b f1] a Cons.prems by auto
    then show ?thesis using 0 a adds_mono [OF ok1] by auto
  next
    case (Suc i')
    then show ?thesis using Cons.IH [OF ok1, of i'] Cons.prems a by auto
  qed
qed simp

end

locale exact_filter = dedup_filter +
  assumes add_only: "ok f \<Longrightarrow> has (snd (add k f)) k' \<Longrightarrow> has f k' \<or> k' = k"
begin

lemma adds_only: "ok f \<Longrightarrow> has (snd (run_adds add ks f)) k' \<Longrightarrow> has f k' \<or> k' \<in> set ks"
proof (induction ks arbitrary: f)
  case (Cons k ks)
  obtain r f1 where a: "add k f = (r, f1)" by force
  have ok1: "ok f1" using add_ok [of f k] a Cons.prems by auto
  show ?case using Cons.IH [OF ok1] Cons.prems add_only [of f k k'] a by auto
qed simp

text \<open>No false positive: a key is reported known only if it was there or was added before.\<close>

lemma duplicate_was_added:
  "ok f \<Longrightarrow> j < length ks \<Longrightarrow> fst (run_adds add ks f) ! j = Inr False \<Longrightarrow> has f (ks ! j) \<or> ks ! j \<in> set (take j ks)"
proof (induction ks arbitrary: f j)
  case (Cons k ks)
  obtain r f1 where a: "add k f = (r, f1)" by force
  have ok1: "ok f1" using add_ok [of f k] a Cons.prems by auto
  show ?case
  proof (cases j)
    case 0
    then show ?thesis using Cons.prems a add_fresh [of f k False f1] by auto
  next
    case (Suc j')
    then have "has f1 (ks ! j') \<or> ks ! j' \<in> set (take j' ks)"
      using Cons.IH [OF ok1, of j'] Cons.prems a by auto
    then show ?thesis using Suc add_only [of f k "ks ! j'"] a Cons.prems by auto
  qed
qed simp

end

section \<open>The in-process filters are instances\<close>

definition lite_add_res :: "string \<Rightarrow> lite_filter \<Rightarrow> bool res \<times> lite_filter" where
  "lite_add_res k f = map_prod Inr id (lite_add k f)"

interpretation lite: exact_filter lite_add_res lite_contains "\<lambda>_. True"
  by unfold_locales (auto simp: lite_add_res_def lite_add_def lite_contains_def split: if_splits)

definition bloom_ok :: "bloom \<Rightarrow> bool" where
  "bloom_ok b \<longleftrightarrow> 0 < bf_size b \<and> length (bf_bits b) = nat (bf_size b) \<and> 0 < bf_num_hashes b"

lemma bit_positions_less: "0 < sz \<Longrightarrow> p \<in> set (bit_positions dg key sz k) \<Longrightarrow> p < nat sz"
  by (auto simp: bit_positions_def Let_def)

lemma bit_positions_nonempty: "0 < k \<Longrightarrow> bit_positions dg key sz k \<noteq> []"
  by (simp add: bit_positions_def Let_def)

lemma length_set_bits [simp]: "length (fold (\<lambda>p bs. bs[p := True]) ps bs) = length bs"
  by (induction ps arbitrary: bs) simp_all

lemma nth_set_bits: "p < length bs \<Longrightarrow> fold (\<lambda>p bs. bs[p := True]) ps bs ! p = (p \<in> set ps \<or> bs ! p)"
proof (induction ps arbitrary: bs)
  case (Cons a ps)
  then show ?case by (cases "a = p") auto
qed simp

definition bloom_add_res :: "digests \<Rightarrow> string \<Rightarrow> bloom \<Rightarrow> bool res \<times> bloom" where
  "bloom_add_res dg k b = map_prod Inr id (bloom_add dg k b)"

lemma bloom_add_frame [simp]:
  "bf_size (snd (bloom_add dg k b)) = bf_size b" "bf_num_hashes (snd (bloom_add dg k b)) = bf_num_hashes b"
  "bf_capacity (snd (bloom_add dg k b)) = bf_capacity b" "bf_error_rate (snd (bloom_add dg k b)) = bf_error_rate b"
  by (simp_all add: bloom_add_def)

lemma bloom_add_ok [simp]: "bloom_ok (snd (bloom_add dg k b)) = bloom_ok b"
  by (simp add: bloom_ok_def bloom_add_def)

lemma bloom_add_mono: "bloom_ok b \<Longrightarrow> bloom_contains dg b k' \<Longrightarrow> bloom_contains dg (snd (bloom_add dg k b)) k'"
  using bit_positions_less [of "bf_size b"]
  by (auto simp: bloom_contains_def list_all_iff bloom_add_def bloom_ok_def nth_set_bits)

lemma bloom_add_contains: "bloom_ok b \<Longrightarrow> bloom_contains dg (snd (bloom_add dg k b)) k"
  using bit_positions_less [of "bf_size b" _ dg k]
  by (auto simp: bloom_contains_def list_all_iff bloom_add_def bloom_ok_def nth_set_bits)

interpretation bloom: dedup_filter "bloom_add_res dg" "bloom_contains dg" bloom_ok for dg
proof (unfold_locales, goal_cases)
  case (2 f k b f') then show ?case
    by (auto simp: bloom_add_res_def bloom_add_def bloom_contains_def split: if_splits)
next
  case (3 f k b f') then show ?case using bloom_add_contains [of f dg k] by (cases "bloom_add dg k f") (auto simp: bloom_add_res_def)
qed (auto simp: bloom_add_res_def bloom_add_mono)

lemma optimal_size_pos: "0 < optimal_size cap e"
  by (simp add: optimal_size_def)

lemma optimal_hashes_pos: "0 < optimal_hashes sz cap"
  by (simp add: optimal_hashes_def)

lemma new_bloom_ok: "new_bloom cap e = Inr b \<Longrightarrow> bloom_ok b \<and> bf_count b = 0 \<and> bf_capacity b = max 1 cap \<and> 0 < e \<and> e < 1"
  by (auto simp: new_bloom_def Let_def bloom_ok_def optimal_size_pos optimal_hashes_pos split: if_splits)

definition scalable_ok :: "scalable \<Rightarrow> bool" where
  "scalable_ok sb \<longleftrightarrow> sb_layers sb \<noteq> [] \<and> (\<forall>b\<in>set (sb_layers sb). bloom_ok b)
     \<and> int (length (sb_layers sb)) \<le> sb_max_layers sb
     \<and> 0 < sb_error_rate sb \<and> sb_error_rate sb < 1 \<and> 0 < sb_ratio sb \<and> sb_ratio sb < 1"

lemma make_layer_ok: "make_layer base e g r i = Inr b \<Longrightarrow> bloom_ok b \<and> bf_count b = 0"
  using new_bloom_ok [of "fst (layer_params i base e g r)" "snd (layer_params i base e g r)"]
  by (auto simp: make_layer_def bloom_ok_def split: prod.splits sum.splits)

lemma make_layer_total:
  "0 < e \<Longrightarrow> e < 1 \<Longrightarrow> 0 < r \<Longrightarrow> r < 1 \<Longrightarrow> \<exists>b. make_layer base e g r i = Inr b"
proof -
  assume a: "0 < e" "e < 1" "0 < r" "r < 1"
  then have "r ^ i \<le> 1" by (simp add: power_le_one)
  then have "e * r ^ i < 1" using a by (meson le_less_trans mult_right_le_one_le less_imp_le zero_le_power)
  moreover have "0 < e * r ^ i" using a by simp
  ultimately show ?thesis by (simp add: make_layer_def layer_params_def new_bloom_def Let_def)
qed

lemma grow_layers_ok:
  assumes "scalable_ok sb"
  obtains ls where "grow_layers sb = Inr ls" "ls \<noteq> []" "\<forall>b\<in>set ls. bloom_ok b" "set (sb_layers sb) \<subseteq> set ls"
    "int (length ls) \<le> sb_max_layers sb"
proof (cases "bf_count (last (sb_layers sb)) \<ge> bf_capacity (last (sb_layers sb)) \<and> int (length (sb_layers sb)) < sb_max_layers sb")
  case True
  obtain l where l: "make_layer (sb_base_capacity sb) (sb_error_rate sb) (sb_growth sb) (sb_ratio sb) (length (sb_layers sb)) = Inr l"
    using make_layer_total [of "sb_error_rate sb" "sb_ratio sb"] assms unfolding scalable_ok_def by blast
  show thesis
    by (rule that [of "sb_layers sb @ [l]"])
      (use True l make_layer_ok [OF l] assms in \<open>auto simp: grow_layers_def Let_def scalable_ok_def\<close>)
next
  case False
  show thesis
    by (rule that [of "sb_layers sb"]) (use False assms in \<open>auto simp: grow_layers_def Let_def scalable_ok_def\<close>)
qed

lemma scalable_add_cases:
  assumes "scalable_ok sb"
  obtains (known) "scalable_contains dg sb k" "scalable_add dg k sb = (Inr False, sb)"
  | (fresh) ls w where "\<not> scalable_contains dg sb k" "ls \<noteq> []" "\<forall>b\<in>set ls. bloom_ok b" "set (sb_layers sb) \<subseteq> set ls"
      "int (length ls) \<le> sb_max_layers sb"
      "scalable_add dg k sb = (Inr True, sb\<lparr>sb_layers := butlast ls @ [snd (bloom_add dg k (last ls))], sb_warned := w\<rparr>)"
proof (cases "scalable_contains dg sb k")
  case False
  obtain ls where "grow_layers sb = Inr ls" "ls \<noteq> []" "\<forall>b\<in>set ls. bloom_ok b" "set (sb_layers sb) \<subseteq> set ls"
    "int (length ls) \<le> sb_max_layers sb"
    using grow_layers_ok [OF assms] by metis
  then show thesis using fresh False by (auto simp: scalable_add_def Let_def)
qed (use known in \<open>simp add: scalable_add_def\<close>)

lemma scalable_contains_upd:
  assumes "ls \<noteq> []" "\<forall>b\<in>set ls. bloom_ok b" "bl \<in> set ls" "bloom_contains dg bl k'"
  shows "list_ex (\<lambda>b. bloom_contains dg b k') (butlast ls @ [snd (bloom_add dg k (last ls))])"
proof (cases "bl = last ls")
  case True
  then show ?thesis using assms bloom_add_mono [of bl dg k' k] by simp
next
  case False
  then have "bl \<in> set (butlast ls)" using assms(1,3) by (metis append_butlast_last_id Un_iff set_append set_ConsD empty_iff empty_set)
  then show ?thesis using assms(4) by (auto simp: list_ex_iff)
qed

interpretation scalable: dedup_filter "scalable_add dg" "scalable_contains dg" scalable_ok for dg
proof (unfold_locales, goal_cases)
  case (1 f k)
  show ?case
  proof (rule scalable_add_cases [OF 1, of dg k])
    fix ls w
    assume "ls \<noteq> []" "\<forall>b\<in>set ls. bloom_ok b" "int (length ls) \<le> sb_max_layers f"
      "scalable_add dg k f = (Inr True, f\<lparr>sb_layers := butlast ls @ [snd (bloom_add dg k (last ls))], sb_warned := w\<rparr>)"
    then show ?thesis using 1 by (auto simp: scalable_ok_def dest: in_set_butlastD)
  qed (use 1 in simp)
next
  case (2 f k b f') then show ?case by (auto intro: scalable_add_cases [OF 2(1), of dg k])
next
  case (3 f k b f')
  show ?case
    by (rule scalable_add_cases [OF 3(1), of dg k])
      (use 3 in \<open>auto simp: scalable_contains_def intro!: bloom_add_contains\<close>)
next
  case (4 f k' k)
  show ?case
    by (rule scalable_add_cases [OF 4(1), of dg k])
      (use 4 scalable_contains_upd [of _ _ dg k' k] in \<open>fastforce simp: scalable_contains_def list_ex_iff\<close>)+
qed

lemma new_scalable_ok: "new_scalable cap e m g r = Inr sb \<Longrightarrow> scalable_ok sb"
  using make_layer_ok [of "max 1 cap" e g r 0] new_bloom_ok
  by (auto simp: new_scalable_def scalable_ok_def make_layer_def layer_params_def split: if_splits sum.splits)

section \<open>The Redis filters are instances\<close>

definition rset_has :: "('s \<Rightarrow> rview) \<Rightarrow> string \<Rightarrow> 's \<Rightarrow> string \<Rightarrow> bool" where
  "rset_has view name s k \<longleftrightarrow> k \<in> rsets (view s) (set_key name)"

sublocale redis_server \<subseteq> rset: exact_filter "rset_add R name" "rset_has view name" "\<lambda>_. True" for name
proof (unfold_locales, goal_cases)
  case (2 f k b f') then show ?case
    using rcall_Inr [of "sadd_cmd R (set_key name) k" f b f'] sadd_val
    by (auto simp: rset_add_def rset_has_def) (metis fst_conv)+
next
  case (3 f k b f') then show ?case
    using rcall_Inr [of "sadd_cmd R (set_key name) k" f b f']
    by (metis rset_add_def rset_has_def sadd_view snd_conv rview.select_convs(5) rview.surjective rview.update_convs(5)
        fun_upd_same insertI1)
next
  case (4 f k' k) then show ?case
    using rcall_view [of "sadd_cmd R (set_key name) k" f] by (auto simp: rset_add_def rset_has_def sadd_view)
next
  case (5 f k k') then show ?case
    using rcall_view [of "sadd_cmd R (set_key name) k" f] by (auto simp: rset_add_def rset_has_def sadd_view)
qed simp

definition rb_has :: "('s \<Rightarrow> rview) \<Rightarrow> digests \<Rightarrow> rbloom \<times> 's \<Rightarrow> string \<Rightarrow> bool" where
  "rb_has view dg st k \<longleftrightarrow>
     (\<exists>l\<in>set (rb_layers (fst st)). set (rl_positions dg k l) \<subseteq> bits (view (snd st)) (rl_key l))"

text \<open>The layers above the one the counter points to are still empty.\<close>

definition rb_ok :: "('s \<Rightarrow> rview) \<Rightarrow> rbloom \<times> 's \<Rightarrow> bool" where
  "rb_ok view st \<longleftrightarrow> rb_layers (fst st) \<noteq> [] \<and> distinct (map rl_key (rb_layers (fst st)))
     \<and> (\<forall>l\<in>set (rb_layers (fst st)). 0 < rl_hashes l)
     \<and> (\<forall>i. top_layer (int (counters (view (snd st)) (rb_count_key (fst st)))) (rb_layers (fst st)) < i \<longrightarrow>
            i < length (rb_layers (fst st)) \<longrightarrow> bits (view (snd st)) (rl_key (rb_layers (fst st) ! i)) = {})"

lemma top_layer_less: "ls \<noteq> [] \<Longrightarrow> top_layer n ls < length ls"
  by (induction n ls rule: top_layer.induct) auto

lemma top_layer_mono: "n \<le> n' \<Longrightarrow> top_layer n ls \<le> top_layer n' ls"
  by (induction n ls rule: top_layer.induct) auto

lemma rl_positions_nonempty: "0 < rl_hashes l \<Longrightarrow> rl_positions dg k l \<noteq> []"
  by (simp add: rl_positions_def bit_positions_nonempty)

context redis_server
begin

lemma rl_has_view: "rl_has R dg k l s \<longleftrightarrow> set (rl_positions dg k l) \<subseteq> bits (view s) (rl_key l)"
  by (auto simp: rl_has_def list_all_iff getbit_val)

lemma fold_setbit_view:
  "view (fold (setbit_cmd R k) ps s) = (view s)\<lparr>bits := (bits (view s))(k := bits (view s) k \<union> set ps)\<rparr>"
  by (induction ps arbitrary: s) (auto simp: setbit_view fun_eq_iff intro!: rview.equality)

lemma rb_has_iff: "rb_has view dg (rb, s) k \<longleftrightarrow> list_ex (\<lambda>l. rl_has R dg k l s) (rb_layers rb)"
  by (auto simp: rb_has_def list_ex_iff rl_has_view)

text \<open>Looking only at the layers up to the top one is enough.\<close>

lemma rb_lookup:
  assumes "rb_ok view (rb, s)" "view s1 = view s"
  shows "list_ex (\<lambda>l. rl_has R dg k l s1)
      (take (Suc (top_layer (int (counter_cmd R (rb_count_key rb) s1)) (rb_layers rb))) (rb_layers rb))
    \<longleftrightarrow> rb_has view dg (rb, s) k"
proof
  let ?t = "top_layer (int (counter_cmd R (rb_count_key rb) s1)) (rb_layers rb)"
  assume "rb_has view dg (rb, s) k"
  then obtain i where i: "i < length (rb_layers rb)" "rl_has R dg k (rb_layers rb ! i) s1"
    using assms(2) by (auto simp: rb_has_iff list_ex_iff in_set_conv_nth rl_has_view)
  have "i \<le> ?t"
  proof (rule ccontr)
    assume "\<not> i \<le> ?t"
    then have "bits (view s) (rl_key (rb_layers rb ! i)) = {}"
      using assms i by (auto simp: rb_ok_def counter_val)
    moreover have "rl_positions dg k (rb_layers rb ! i) \<noteq> []"
      using assms(1) i by (auto simp: rb_ok_def intro!: rl_positions_nonempty)
    ultimately show False using i assms(2) by (simp add: rl_has_view)
  qed
  then show "list_ex (\<lambda>l. rl_has R dg k l s1) (take (Suc ?t) (rb_layers rb))"
    using i by (auto simp: list_ex_iff in_set_conv_nth intro!: bexI [of _ "rb_layers rb ! i"] exI [of _ i])
qed (auto simp: rb_has_iff list_ex_iff rl_has_view assms(2) dest: in_set_takeD)

lemma add_lua_cases:
  assumes ok: "rb_ok view (rb, s)" and v: "view s1 = view s" and a: "add_lua R dg rb k s1 = ((b, n), s2)"
  obtains (known) "\<not> b" "rb_has view dg (rb, s) k" "view s2 = view s"
  | (fresh) t where "b" "\<not> rb_has view dg (rb, s) k" "t = top_layer (int (counters (view s) (rb_count_key rb))) (rb_layers rb)"
      "view s2 = (view s)\<lparr>bits := (bits (view s))(rl_key (rb_layers rb ! t) :=
          bits (view s) (rl_key (rb_layers rb ! t)) \<union> set (rl_positions dg k (rb_layers rb ! t))),
         counters := (counters (view s))(rb_count_key rb := Suc (counters (view s) (rb_count_key rb)))\<rparr>"
proof (cases "rb_has view dg (rb, s) k")
  case True
  then show thesis using known a rb_lookup [OF ok v, of dg k] v by (auto simp: add_lua_def Let_def)
next
  case False
  let ?t = "top_layer (int (counters (view s) (rb_count_key rb))) (rb_layers rb)"
  let ?l = "rb_layers rb ! ?t"
  let ?s = "fold (setbit_cmd R (rl_key ?l)) (rl_positions dg k ?l) s1"
  have "b" "s2 = snd (incr_cmd R (rb_count_key rb) ?s)"
    using a False rb_lookup [OF ok v, of dg k] v by (auto simp: add_lua_def Let_def counter_val split: prod.splits)
  then show thesis using fresh [of ?t] False v by (simp add: incr_view fold_setbit_view)
qed

text \<open>What one execution of the script does to the filter, whether or not its reply arrives.\<close>

lemma rb_step:
  assumes ok: "rb_ok view (rb, s)" and v: "view s1 = view s" and a: "add_lua R dg rb k s1 = ((b, n), s2)"
  shows "rb_ok view (rb, s2)" "b = (\<not> rb_has view dg (rb, s) k)" "rb_has view dg (rb, s2) k"
    "rb_has view dg (rb, s) k' \<Longrightarrow> rb_has view dg (rb, s2) k'"
proof -
  let ?t = "top_layer (int (counters (view s) (rb_count_key rb))) (rb_layers rb)"
  let ?ls = "rb_layers rb"
  have t: "?t < length ?ls" using ok by (simp add: rb_ok_def top_layer_less)
  have key: "rl_key (?ls ! i) \<noteq> rl_key (?ls ! ?t)" if "?t < i" "i < length ?ls" for i
    using ok that t nth_eq_iff_index_eq [of "map rl_key ?ls" i ?t] by (simp add: rb_ok_def)
  have mono: "?t \<le> top_layer (1 + int (counters (view s) (rb_count_key rb))) ?ls" by (rule top_layer_mono) simp
  show "rb_ok view (rb, s2)"
    by (rule add_lua_cases [OF ok v a]) (use ok mono key in \<open>auto simp: rb_ok_def\<close>)
  show "b = (\<not> rb_has view dg (rb, s) k)"
    by (rule add_lua_cases [OF ok v a]) auto
  show "rb_has view dg (rb, s2) k"
    by (rule add_lua_cases [OF ok v a]) (use t in \<open>auto simp: rb_has_def intro!: bexI [of _ "?ls ! ?t"]\<close>)
  show "rb_has view dg (rb, s) k' \<Longrightarrow> rb_has view dg (rb, s2) k'"
    by (rule add_lua_cases [OF ok v a]) (fastforce simp: rb_has_def)+
qed

lemma rb_warned_irrelevant [simp]:
  "rb_ok view (rb\<lparr>rb_warned := w\<rparr>, s) = rb_ok view (rb, s)"
  "rb_has view dg (rb\<lparr>rb_warned := w\<rparr>, s) k = rb_has view dg (rb, s) k"
  by (simp_all add: rb_ok_def rb_has_def)

lemma rbloom_add_state:
  obtains (unreached) w s2 where "snd (rbloom_add R dg k (rb, s)) = (rb\<lparr>rb_warned := w\<rparr>, s2)" "view s2 = view s"
  | (ran) w s1 b n s2 where "snd (rbloom_add R dg k (rb, s)) = (rb\<lparr>rb_warned := w\<rparr>, s2)" "view s1 = view s"
      "add_lua R dg rb k s1 = ((b, n), s2)"
proof -
  obtain r s2 where r: "rcall R (add_lua R dg rb k) s = (r, s2)" by force
  have "\<exists>w. snd (rbloom_add R dg k (rb, s)) = (rb\<lparr>rb_warned := w\<rparr>, s2)"
    by (cases r) (auto simp: rbloom_add_def r intro: exI [of _ "rb_warned rb"])
  then obtain w where w: "snd (rbloom_add R dg k (rb, s)) = (rb\<lparr>rb_warned := w\<rparr>, snd (rcall R (add_lua R dg rb k) s))"
    using r by auto
  show thesis
    using rcall_view [of "add_lua R dg rb k" s] w unreached ran by (metis prod.collapse)
qed

end

sublocale redis_server \<subseteq> rbloom: dedup_filter "rbloom_add R dg" "rb_has view dg" "rb_ok view" for dg
proof (unfold_locales, goal_cases)
  case (1 f k)
  obtain rb s where f: "f = (rb, s)" by force
  show ?case unfolding f
    by (rule rbloom_add_state [of dg k rb s])
      (use 1 rb_step(1) [of rb s _ dg k] in \<open>auto simp: f rb_ok_def\<close>)
next
  case (2 f k b f')
  then obtain rb s n w s2 where "f = (rb, s)" "rcall R (add_lua R dg rb k) s = (Inr (b, n), s2)"
    by (auto simp: rbloom_add_def split: prod.splits sum.splits)
  then show ?case using rcall_Inr rb_step(2) 2(1) by metis
next
  case (3 f k b f')
  then obtain rb s n w s2 where "f = (rb, s)" "rcall R (add_lua R dg rb k) s = (Inr (b, n), s2)" "f' = (rb\<lparr>rb_warned := w\<rparr>, s2)"
    by (auto simp: rbloom_add_def split: prod.splits sum.splits)
  then show ?case using rcall_Inr rb_step(3) 3(1) by (metis rb_warned_irrelevant(2))
next
  case (4 f k' k)
  obtain rb s where f: "f = (rb, s)" by force
  show ?case unfolding f
    by (rule rbloom_add_state [of dg k rb s])
      (use 4 rb_step(4) [of rb s _ dg k] in \<open>auto simp: f rb_has_def\<close>)
qed

section \<open>The facade is an instance\<close>

fun filter_has :: "('s \<Rightarrow> rview) \<Rightarrow> digests \<Rightarrow> filter_obj \<times> 's \<Rightarrow> string \<Rightarrow> bool" where
  "filter_has view dg (FLite f, s) k = lite_contains f k"
| "filter_has view dg (FBloom f, s) k = bloom_contains dg f k"
| "filter_has view dg (FScalable f, s) k = scalable_contains dg f k"
| "filter_has view dg (FRedisBloom f, s) k = rb_has view dg (f, s) k"
| "filter_has view dg (FRedisSet n, s) k = rset_has view n s k"

fun filter_ok :: "('s \<Rightarrow> rview) \<Rightarrow> filter_obj \<times> 's \<Rightarrow> bool" where
  "filter_ok view (FBloom f, s) = bloom_ok f"
| "filter_ok view (FScalable f, s) = scalable_ok f"
| "filter_ok view (FRedisBloom f, s) = rb_ok view (f, s)"
| "filter_ok view (_, s) = True"

sublocale redis_server \<subseteq> dedup: dedup_filter "filter_add R dg" "filter_has view dg" "filter_ok view" for dg
proof (unfold_locales, goal_cases)
  case (1 f k)
  obtain fo s where f: "f = (fo, s)" by force
  show ?case
    using 1 bloom.add_ok [of _ dg k] scalable.add_ok [of _ dg k] rbloom.add_ok [of _ dg k]
    by (cases fo) (auto simp: f bloom_add_res_def case_prod_unfold)
next
  case (2 f k b f')
  obtain fo s where f: "f = (fo, s)" by force
  show ?case
    using 2 lite.add_fresh bloom.add_fresh [of _ dg k] scalable.add_fresh [of _ dg k] rbloom.add_fresh [of _ dg k]
      rset.add_fresh [where f = s]
    by (cases fo) (auto simp: f bloom_add_res_def lite_add_res_def split: prod.splits)
next
  case (3 f k b f')
  obtain fo s where f: "f = (fo, s)" by force
  show ?case
    using 3 bloom.add_has [of _ dg k] scalable.add_has [of _ dg k] rbloom.add_has [of _ dg k]
      rset.add_has [where f = s]
    by (cases fo) (auto simp: f bloom_add_res_def lite_add_res_def lite_add_def lite_contains_def split: prod.splits if_splits)
next
  case (4 f k' k)
  obtain fo s where f: "f = (fo, s)" by force
  show ?case
    using 4 lite.add_mono [where k = k] bloom.add_mono [of _ dg k' k] scalable.add_mono [of _ dg k' k]
      rbloom.add_mono [of _ dg k' k] rset.add_mono [where f = s]
    by (cases fo) (auto simp: f bloom_add_res_def lite_add_res_def case_prod_unfold)
qed

text \<open>A filter fresh from \<open>_make_filter\<close> is in order, given that no bit of its layers is set yet.\<close>

lemma show_int_inj: "show_int i = show_int j \<Longrightarrow> i = j"
  using dumps_json_inject [of "VInt i" "VInt j"] by simp

lemma layer_key_inj: "inj (layer_key name)"
proof (rule injI)
  fix i j
  assume "layer_key name i = layer_key name j"
  then show "i = j" by (auto simp: layer_key_def dest: show_int_inj split: if_splits)
qed

lemma new_rbloom_ok:
  assumes "new_rbloom name cap e m g r = Inr rb" and "\<forall>l\<in>set (rb_layers rb). bits (view s) (rl_key l) = {}"
  shows "rb_ok view (rb, s)"
proof -
  let ?f = "rb_layer name (max 1 cap) e g r"
  have ls: "rb_layers rb = map ?f [0..<nat (max 1 m)]"
    using assms(1) by (auto simp: new_rbloom_def split: if_splits)
  have "map rl_key (rb_layers rb) = map (layer_key name) [0..<nat (max 1 m)]"
    by (simp add: ls rb_layer_def case_prod_unfold)
  then have "distinct (map rl_key (rb_layers rb))"
    using layer_key_inj [of name] by (simp only: distinct_map distinct_upt) (meson inj_on_subset subset_UNIV)
  moreover have "\<forall>l\<in>set (rb_layers rb). 0 < rl_hashes l"
    by (auto simp: ls rb_layer_def case_prod_unfold optimal_hashes_pos)
  moreover have "rb_layers rb \<noteq> []" by (simp add: ls)
  ultimately show ?thesis using assms(2) by (auto simp: rb_ok_def)
qed

lemma make_filter_ok:
  assumes "make_filter cfg t cap e name = Inr f"
    and "\<forall>k\<in>set (redis_keys f). bits (view s) k = {}"
  shows "filter_ok view (f, s)"
proof (cases f)
  case (FBloom b)
  then have "new_bloom cap e = Inr b" using assms(1) by (simp add: make_filter_def map_sum_Inr_iff split: if_splits)
  then show ?thesis using FBloom new_bloom_ok by simp
next
  case (FScalable b)
  then have "new_scalable cap e (DEDUP_MAX_LAYERS cfg) 2 (1 / 2) = Inr b"
    using assms(1) by (simp add: make_filter_def map_sum_Inr_iff split: if_splits)
  then show ?thesis using FScalable new_scalable_ok by simp
next
  case (FRedisBloom b)
  then have "new_rbloom name cap e (DEDUP_MAX_LAYERS cfg) 2 (1 / 2) = Inr b"
    using assms(1) by (simp add: make_filter_def map_sum_Inr_iff split: if_splits)
  then show ?thesis using FRedisBloom assms(2) by (simp add: redis_keys_def new_rbloom_ok)
qed simp_all

context redis_server
begin

text \<open>The query reports what the filter holds.\<close>

lemma contains_agrees:
  assumes "filter_has view dg (f, s) k" "filter_contains R dg k (f, s) = (Inr c, s')"
  shows c
proof (cases f)
  case (FRedisBloom rb)
  then show ?thesis
    using assms rcall_Inr [of "rask (\<lambda>s. list_ex (\<lambda>l. rl_has R dg k l s) (rb_layers rb))" s c s']
    by (auto simp: rbloom_contains_def rb_has_iff list_ex_iff rl_has_view)
next
  case (FRedisSet n)
  then show ?thesis
    using assms rcall_Inr [of "rask (sismember_cmd R (set_key n) k)" s c s']
    by (auto simp: rset_contains_def rset_has_def sismember_val)
qed (use assms in auto)

lemma run_adds_lite:
  "run_adds (filter_add R dg) ks (FLite f, s)
   = (fst (run_adds lite_add_res ks f), FLite (snd (run_adds lite_add_res ks f)), s)"
  by (induction ks arbitrary: f) (simp_all add: run_adds.simps(2) lite_add_res_def case_prod_unfold)

lemma run_adds_rset:
  "run_adds (filter_add R dg) ks (FRedisSet n, s)
   = (fst (run_adds (rset_add R n) ks s), FRedisSet n, snd (run_adds (rset_add R n) ks s))"
  by (induction ks arbitrary: s) (simp_all add: run_adds.simps(2) case_prod_unfold)

lemma exact_duplicate:
  assumes "f = FLite g \<or> f = FRedisSet name" "j < length ks"
    and "fst (run_adds (filter_add R dg) ks (f, s)) ! j = Inr False"
  shows "filter_has view dg (f, s) (ks ! j) \<or> ks ! j \<in> set (take j ks)"
  using assms lite.duplicate_was_added [of j ks g] rset.duplicate_was_added [of j ks name s]
  by (auto simp: run_adds_lite run_adds_rset)

lemma filter_contract: "dedup_filter (filter_add R dg) (filter_has view dg) (filter_ok view)"
  by (rule dedup.dedup_filter_axioms)

end

section \<open>Properties\<close>

text \<open>A fingerprint is new at most once.  Whatever filter \<open>DEDUP_FILTER\<close> selects, and however the adds of
  all workers and nodes interleave and fail, once an \<open>add\<close> of a fingerprint has been answered, no later \<open>add\<close>
  of it answers \<open>True\<close>: no page is fetched twice because the filter forgot it.\<close>

theorem dedup_fresh_once:
  assumes "redis_server R view" and "make_filter cfg t cap e name = Inr f"
    and "\<forall>k\<in>set (redis_keys f). bits (view s) k = {}"
    and "i < j" and "j < length ks" and "ks ! i = ks ! j"
    and "fst (run_adds (filter_add R dg) ks (f, s)) ! i = Inr b"
  shows "fst (run_adds (filter_add R dg) ks (f, s)) ! j \<noteq> Inr True"
proof -
  have "dedup_filter (filter_add R dg) (filter_has view dg) (filter_ok view)"
    by (rule redis_server.filter_contract [OF assms(1)])
  from dedup_filter.fresh_at_most_once [OF this make_filter_ok [where view = view, OF assms(2,3)] assms(4-7)] show ?thesis .
qed

text \<open>Stand-ins for the two digests in the witnesses.\<close>

definition toy_digests :: digests where
  "toy_digests = (\<lambda>k. int (length k), \<lambda>k. of_char (hd k))"

theorem dedup_fresh_once_witness:
  "fst (run_adds (filter_add mini toy_digests) [''a'', ''b'', ''a''] (FLite [], mini_empty)) ! 2 \<noteq> Inr True"
  by (rule dedup_fresh_once [OF mini.redis_server_axioms, of default_setting "''lite''" 1 "1/2" "''n''" _ _ 0 _ _ _ True])
    (simp_all add: make_filter_def redis_keys_def lite_add_def)

text \<open>C26: No false negative.  If the \<open>add\<close> of a fingerprint was answered, then after any further adds a
  \<open>contains\<close> query that is answered says yes, for every filter of the package.\<close>

theorem dedup_never_forgets:
  assumes "redis_server R view" and "make_filter cfg t cap e name = Inr f"
    and "\<forall>k\<in>set (redis_keys f). bits (view s) k = {}"
    and "i < length ks" and "fst (run_adds (filter_add R dg) ks (f, s)) ! i = Inr b"
    and "fst (filter_contains R dg (ks ! i) (snd (run_adds (filter_add R dg) ks (f, s)))) = Inr c"
  shows c
proof -
  obtain f' s' where f': "snd (run_adds (filter_add R dg) ks (f, s)) = (f', s')" by force
  have "filter_has view dg (f', s') (ks ! i)"
    using dedup_filter.adds_has [OF redis_server.filter_contract [OF assms(1)]
        make_filter_ok [where view = view, OF assms(2,3)] assms(4,5)] f' by simp
  moreover obtain s'' where "filter_contains R dg (ks ! i) (f', s') = (Inr c, s'')"
    using assms(6) f' by (metis prod.collapse)
  ultimately show c by (rule redis_server.contains_agrees [OF assms(1)])
qed

theorem dedup_never_forgets_witness:
  "\<exists>c. fst (filter_contains mini toy_digests ''a''
      (snd (run_adds (filter_add mini toy_digests) [''a'', ''b''] (FLite [], mini_empty)))) = Inr c \<and> c"
proof -
  obtain c where c: "fst (filter_contains mini toy_digests ''a''
      (snd (run_adds (filter_add mini toy_digests) [''a'', ''b''] (FLite [], mini_empty)))) = Inr c"
    by (simp add: lite_add_def)
  have c
    by (rule dedup_never_forgets [OF mini.redis_server_axioms, of default_setting "''lite''" 1 "1/2" "''n''"
          "FLite []" mini_empty 0 "[''a'', ''b'']" toy_digests True])
      (use c in \<open>simp_all add: make_filter_def redis_keys_def lite_add_def\<close>)
  with c show ?thesis by blast
qed

text \<open>The exact filters drop nothing by mistake.  With \<open>LiteFilter\<close> or \<open>RedisSetFilter\<close>, an \<open>add\<close> that
  answers \<open>False\<close> (the request is dropped) means the same fingerprint was in the filter at the start or was
  passed to an earlier \<open>add\<close> of the sequence.\<close>

theorem exact_dedup_no_false_positive:
  assumes "redis_server R view" and "f = FLite [] \<or> f = FRedisSet name" and "j < length ks"
    and "fst (run_adds (filter_add R dg) ks (f, s)) ! j = Inr False"
  shows "filter_has view dg (f, s) (ks ! j) \<or> ks ! j \<in> set (take j ks)"
  using redis_server.exact_duplicate [OF assms(1) _ assms(3,4)] assms(2) by (cases f) auto

theorem exact_dedup_no_false_positive_witness:
  "fst (run_adds (filter_add mini toy_digests) [''a'', ''a''] (FLite [], mini_empty)) ! 1 = Inr False
   \<and> (''a'' \<in> set (take 1 [''a'', ''a'']))"
  using exact_dedup_no_false_positive [OF mini.redis_server_axioms, of "FLite []" "''n''" 1 "[''a'', ''a'']" toy_digests mini_empty]
  by (simp add: lite_add_def lite_contains_def)

text \<open>The shape the layers keep: layer \<open>i\<close> has error rate \<open>e \<cdot> r^i\<close>, and a layer is closed only when full.\<close>

definition scalable_shape :: "scalable \<Rightarrow> bool" where
  "scalable_shape sb \<longleftrightarrow> map bf_error_rate (sb_layers sb) = map (\<lambda>i. sb_error_rate sb * sb_ratio sb ^ i) [0..<length (sb_layers sb)]
     \<and> (\<forall>b\<in>set (butlast (sb_layers sb)). bf_capacity b \<le> bf_count b)"

lemma make_layer_rate: "make_layer base e g r i = Inr b \<Longrightarrow> bf_error_rate b = e * r ^ i"
  by (auto simp: make_layer_def layer_params_def new_bloom_def Let_def split: if_splits)

lemma map_butlast_last: "ls \<noteq> [] \<Longrightarrow> f x = f (last ls) \<Longrightarrow> map f (butlast ls @ [x]) = map f ls"
  by (metis append_butlast_last_id list.simps(8) list.simps(9) map_append)

lemma grow_layers_shape:
  assumes "scalable_ok sb" "scalable_shape sb" "grow_layers sb = Inr ls"
  shows "map bf_error_rate ls = map (\<lambda>i. sb_error_rate sb * sb_ratio sb ^ i) [0..<length ls]
    \<and> (\<forall>b\<in>set (butlast ls). bf_capacity b \<le> bf_count b)"
proof (cases "bf_count (last (sb_layers sb)) \<ge> bf_capacity (last (sb_layers sb)) \<and> int (length (sb_layers sb)) < sb_max_layers sb")
  case True
  then obtain l where l: "make_layer (sb_base_capacity sb) (sb_error_rate sb) (sb_growth sb) (sb_ratio sb) (length (sb_layers sb)) = Inr l"
    "ls = sb_layers sb @ [l]"
    using assms(3) by (auto simp: grow_layers_def Let_def split: sum.splits)
  have "\<forall>b\<in>set (sb_layers sb). bf_capacity b \<le> bf_count b"
    using assms(1,2) True
    by (metis (no_types, lifting) append_butlast_last_id Un_iff empty_iff empty_set scalable_ok_def scalable_shape_def
        set_ConsD set_append)
  then show ?thesis using l make_layer_rate [OF l(1)] assms(2) by (simp add: scalable_shape_def)
next
  case False
  then show ?thesis using assms by (auto simp: grow_layers_def Let_def scalable_shape_def)
qed

lemma scalable_add_params [simp]:
  "sb_error_rate (snd (scalable_add dg k sb)) = sb_error_rate sb" "sb_ratio (snd (scalable_add dg k sb)) = sb_ratio sb"
  "sb_max_layers (snd (scalable_add dg k sb)) = sb_max_layers sb"
  by (auto simp: scalable_add_def Let_def split: sum.splits)

lemma scalable_add_shape:
  assumes "scalable_ok sb" "scalable_shape sb"
  shows "scalable_shape (snd (scalable_add dg k sb))"
proof (cases "scalable_contains dg sb k")
  case False
  obtain ls where ls: "grow_layers sb = Inr ls" "ls \<noteq> []" using grow_layers_ok [OF assms(1)] by metis
  have m: "map bf_error_rate (butlast ls @ [snd (bloom_add dg k (last ls))]) = map bf_error_rate ls"
    by (rule map_butlast_last) (simp_all add: ls)
  have "length (butlast ls @ [snd (bloom_add dg k (last ls))]) = length ls" using ls by simp
  then show ?thesis
    using False ls m grow_layers_shape [OF assms ls(1)]
    by (simp add: scalable_add_def Let_def scalable_shape_def del: length_append map_append)
qed (use assms in \<open>simp add: scalable_add_def\<close>)

lemma scalable_run:
  assumes "scalable_ok sb" "scalable_shape sb"
  shows "let sb' = snd (run_adds (scalable_add dg) ks sb) in scalable_ok sb' \<and> scalable_shape sb'
    \<and> sb_error_rate sb' = sb_error_rate sb \<and> sb_ratio sb' = sb_ratio sb \<and> sb_max_layers sb' = sb_max_layers sb"
  using assms
proof (induction ks arbitrary: sb)
  case (Cons k ks)
  have "scalable_ok (snd (scalable_add dg k sb))" by (rule scalable.add_ok [OF Cons.prems(1)])
  from Cons.IH [OF this scalable_add_shape [OF Cons.prems]] show ?case
    by (simp add: run_adds.simps(2) case_prod_unfold Let_def)
qed simp

lemma geometric_bound: "0 < r \<Longrightarrow> r < 1 \<Longrightarrow> 0 < e \<Longrightarrow> sum_list (map (\<lambda>i. e * r ^ i) [0..<n]) \<le> e / (1 - r)"
  for r :: real
proof -
  assume r: "0 < r" "r < 1" and e: "0 < e"
  have "sum_list (map (\<lambda>i. e * r ^ i) [0..<n]) = e * (\<Sum>i<n. r ^ i)"
    by (simp add: interv_sum_list_conv_sum_set_nat sum_distrib_left lessThan_atLeast0)
  also have "\<dots> = e * ((1 - r ^ n) / (1 - r))" using r by (simp add: sum_gp_strict)
  also have "\<dots> \<le> e / (1 - r)" using r e by (simp add: field_simps)
  finally show ?thesis .
qed

text \<open>C27: The layered Bloom filter keeps its promise on size and error.  After any sequence of adds, it has at
  most \<open>max_layers\<close> layers (memory is bounded), the error rates of its layers add up to at most
  \<open>error_rate / (1 - ratio)\<close> (twice the target at the default ratio), and a further layer was opened only
  once every earlier one held its capacity.\<close>

theorem scalable_bloom_bounds:
  assumes "new_scalable cap e m g r = Inr sb"
  shows "let sb' = snd (run_adds (scalable_add dg) ks sb) in
    int (length (sb_layers sb')) \<le> max 1 m
    \<and> sum_list (map bf_error_rate (sb_layers sb')) \<le> e / (1 - r)
    \<and> (\<forall>b\<in>set (butlast (sb_layers sb')). bf_capacity b \<le> bf_count b)"
proof -
  have p: "sb_error_rate sb = e" "sb_ratio sb = r" "sb_max_layers sb = max 1 m" "scalable_shape sb"
    using assms make_layer_rate [of "max 1 cap" e g r 0]
    by (auto simp: new_scalable_def scalable_shape_def split: if_splits sum.splits)
  have "0 < e" "0 < r" "r < 1" using new_scalable_ok [OF assms] p by (auto simp: scalable_ok_def)
  then show ?thesis
    using scalable_run [OF new_scalable_ok [OF assms] p(4), of dg ks] p geometric_bound [of r e]
    by (simp add: Let_def scalable_ok_def scalable_shape_def)
qed

theorem scalable_bloom_bounds_witness:
  "\<exists>sb. new_scalable 100 (1 / 10) 3 2 (1 / 2) = Inr sb
     \<and> sum_list (map bf_error_rate (sb_layers (snd (run_adds (scalable_add toy_digests) [''a'', ''b''] sb)))) \<le> 2 / 10"
proof -
  obtain sb where sb: "new_scalable 100 (1 / 10) 3 2 (1 / 2) = Inr sb"
    using make_layer_total [of "1/10" "1/2" 100 2 0] by (auto simp: new_scalable_def)
  show ?thesis using sb scalable_bloom_bounds [OF sb, of toy_digests "[''a'', ''b'']"] by (simp add: Let_def)
qed

end
