(* ===== verification/Request_Buffer.thy ===== *)
theory Request_Buffer
  imports Task_Queue Dedup
begin

text \<open>
  \<^verbatim>\<open>netspy/buffer/request_buffer.py\<close> (and the counters of \<^verbatim>\<open>netspy/utils/stats.py\<close>): the requests that
  callbacks yield wait in \<open>_pending\<close>; \<open>flush\<close> takes the whole list, de-duplicates and queues one request
  after the other, and puts back what it could not queue.

  The filter and the queue may live on one Redis server, so both act on one world \<open>'w\<close>.  The locale
  \<open>buffer_backend\<close> joins the contracts \<open>dedup_filter\<close> and \<open>put_queue\<close> and adds that the two do not disturb each other;
  it is instantiated for the Redis queue and for the in-process queue with the filter facade.
\<close>

section \<open>Stats\<close>

type_synonym stats = "(string, int) pydict"

definition stats_get :: "stats \<Rightarrow> string \<Rightarrow> int" where
  "stats_get st k = (case dget st k of None \<Rightarrow> 0 | Some n \<Rightarrow> n)"

definition stats_incr :: "string \<Rightarrow> int \<Rightarrow> stats \<Rightarrow> stats" where
  "stats_incr k n st = dset st k (stats_get st k + n)"

lemma stats_get_incr [simp]: "stats_get (stats_incr k n st) k' = stats_get st k' + (if k' = k then n else 0)"
  by (simp add: stats_get_def stats_incr_def)

definition summary_keys :: "(string \<times> string) list" where
  "summary_keys = [(''request_ok'', ''request_ok''), (''request_failed'', ''request_failed''), (''retry'', ''retry''),
     (''dropped'', ''dropped''), (''robots_dropped'', ''robots_dropped''), (''content_type_dropped'', ''content_type_dropped''),
     (''dedup_dropped'', ''dedup_dropped''), (''parse_error'', ''parse_error''), (''items'', ''item''),
     (''item_dedup_dropped'', ''item_dedup_dropped''), (''item_failed'', ''item_failed''), (''dedup_degraded'', ''dedup_degraded'')]"

text \<open>\<open>as_summary_dict\<close>: the integer fields, then elapsed time and rate rounded to three decimals.\<close>

definition as_summary_dict :: "stats \<Rightarrow> time \<Rightarrow> (string \<times> int) list \<times> real \<times> real" where
  "as_summary_dict st elapsed =
     ((''schema'', 1) # map (\<lambda>(field, k). (field, stats_get st k)) summary_keys,
      fmt3 elapsed, if elapsed = 0 then 0 else fmt3 (of_int (stats_get st ''request_ok'') / elapsed))"

section \<open>RequestBuffer\<close>

text \<open>
  The loop of \<open>flush\<close>.  \<open>Some (e, rest)\<close>: the exception \<open>e\<close> stopped it and \<open>rest\<close> goes back to the
  buffer, its first request with \<open>filter_repeat\<close> cleared when its fingerprint had been written.
\<close>

fun flush_loop :: "(string \<Rightarrow> 'w \<Rightarrow> bool res \<times> 'w) \<Rightarrow> (request \<Rightarrow> 'w \<Rightarrow> unit res \<times> 'w) \<Rightarrow> (request \<Rightarrow> string)
    \<Rightarrow> request list \<Rightarrow> stats \<Rightarrow> 'w \<Rightarrow> (exn \<times> request list) option \<times> stats \<times> 'w" where
  "flush_loop add put fp [] st w = (None, st, w)"
| "flush_loop add put fp (r # rs) st w =
     (case (if filter_repeat r then add (fp r) w else (Inr True, w)) of
        (Inl e, w1) \<Rightarrow> (Some (e, r # rs), st, w1)
      | (Inr False, w1) \<Rightarrow> flush_loop add put fp rs (stats_incr ''dedup_dropped'' 1 st) w1
      | (Inr True, w1) \<Rightarrow>
          (case put r w1 of
             (Inl e, w2) \<Rightarrow> (Some (e, r\<lparr>filter_repeat := False\<rparr> # rs), st, w2)
           | (Inr _, w2) \<Rightarrow> flush_loop add put fp rs st w2))"

record rbuf =
  rb_pending :: "request list"
  rb_stats :: stats

text \<open>
  \<open>flush\<close>: \<open>arrived\<close> are the requests other threads put while the loop ran (the lock is not held);
  \<open>_requeue\<close> inserts in front of them.
\<close>

definition rbuf_flush :: "(string \<Rightarrow> 'w \<Rightarrow> bool res \<times> 'w) \<Rightarrow> (request \<Rightarrow> 'w \<Rightarrow> unit res \<times> 'w) \<Rightarrow> (request \<Rightarrow> string)
    \<Rightarrow> request list \<Rightarrow> rbuf \<times> 'w \<Rightarrow> unit res \<times> rbuf \<times> 'w" where
  "rbuf_flush add put fp arrived bw =
     (case bw of (b, w) \<Rightarrow>
        (case flush_loop add put fp (rb_pending b) (rb_stats b) w of
           (None, st, w') \<Rightarrow> (Inr (), \<lparr>rb_pending = arrived, rb_stats = st\<rparr>, w')
         | (Some (e, rest), st, w') \<Rightarrow> (Inl e, \<lparr>rb_pending = rest @ arrived, rb_stats = st\<rparr>, w')))"

definition rbuf_put :: "setting \<Rightarrow> (string \<Rightarrow> 'w \<Rightarrow> bool res \<times> 'w) \<Rightarrow> (request \<Rightarrow> 'w \<Rightarrow> unit res \<times> 'w)
    \<Rightarrow> (request \<Rightarrow> string) \<Rightarrow> request \<Rightarrow> rbuf \<times> 'w \<Rightarrow> unit res \<times> rbuf \<times> 'w" where
  "rbuf_put cfg add put fp r bw =
     (case bw of (b, w) \<Rightarrow>
        let b1 = b\<lparr>rb_pending := rb_pending b @ [r]\<rparr>
        in if int (length (rb_pending b1)) \<ge> REQUEST_BUFFER_MAX_CACHED cfg then rbuf_flush add put fp [] (b1, w)
           else (Inr (), b1, w))"

definition rbuf_put_retry :: "setting \<Rightarrow> (string \<Rightarrow> 'w \<Rightarrow> bool res \<times> 'w) \<Rightarrow> (request \<Rightarrow> 'w \<Rightarrow> unit res \<times> 'w)
    \<Rightarrow> (request \<Rightarrow> string) \<Rightarrow> request \<Rightarrow> rbuf \<times> 'w \<Rightarrow> unit res \<times> rbuf \<times> 'w" where
  "rbuf_put_retry cfg add put fp r = rbuf_put cfg add put fp (r\<lparr>filter_repeat := False\<rparr>)"

definition rbuf_drain :: "rbuf \<Rightarrow> request list \<times> rbuf" where
  "rbuf_drain b = (rb_pending b, b\<lparr>rb_pending := []\<rparr>)"

definition rbuf_is_empty :: "rbuf \<Rightarrow> bool" where
  "rbuf_is_empty b = (rb_pending b = [])"

text \<open>
  The buffer thread: \<open>_flush_guarded\<close> keeps the exception to itself; \<open>run\<close> flushes once per round and once
  more at the end.  \<open>rounds\<close> lists what arrives during each flush.
\<close>

fun rbuf_rounds :: "(string \<Rightarrow> 'w \<Rightarrow> bool res \<times> 'w) \<Rightarrow> (request \<Rightarrow> 'w \<Rightarrow> unit res \<times> 'w) \<Rightarrow> (request \<Rightarrow> string)
    \<Rightarrow> request list list \<Rightarrow> rbuf \<times> 'w \<Rightarrow> rbuf \<times> 'w" where
  "rbuf_rounds add put fp [] bw = bw"
| "rbuf_rounds add put fp (arrived # rounds) bw = rbuf_rounds add put fp rounds (snd (rbuf_flush add put fp arrived bw))"

section \<open>What the buffer relies on\<close>

locale buffer_backend = dedup_filter add has ok + put_queue put holds
  for add :: "string \<Rightarrow> 'w \<Rightarrow> bool res \<times> 'w" and has :: "'w \<Rightarrow> string \<Rightarrow> bool" and ok :: "'w \<Rightarrow> bool"
    and put :: "request \<Rightarrow> 'w \<Rightarrow> unit res \<times> 'w" and holds :: "'w \<Rightarrow> request \<Rightarrow> bool" +
  assumes add_holds: "ok w \<Longrightarrow> holds w r \<Longrightarrow> holds (snd (add k w)) r"
    and put_has: "ok w \<Longrightarrow> has (snd (put r w)) k \<longleftrightarrow> has w k"
    and put_inv: "ok w \<Longrightarrow> ok (snd (put r w))"
begin

lemma put_state:
  assumes "ok w" "put r w = (x, w2)"
  shows "ok w2" "has w2 k \<longleftrightarrow> has w k" "holds w r' \<Longrightarrow> holds w2 r'"
  using assms put_has [of w r k] put_inv [of w r] put_keep [of w r' r] by auto

lemma add_state:
  assumes "ok w" "add k w = (x, w1)"
  shows "ok w1" "has w k' \<Longrightarrow> has w1 k'" "holds w r' \<Longrightarrow> holds w1 r'"
  using assms add_ok [of w k] add_mono [of w k' k] add_holds [of w r' k] by auto

lemma flush_loop_state:
  assumes "ok w" "flush_loop add put fp rs st w = (out, st', w')"
  shows "ok w' \<and> (holds w r' \<longrightarrow> holds w' r') \<and> (has w k \<longrightarrow> has w' k)"
  using assms
proof (induction rs arbitrary: st w)
  case (Cons r rs)
  obtain a w1 where a: "(if filter_repeat r then add (fp r) w else (Inr True, w)) = (a, w1)" by force
  have w1: "ok w1" "holds w r' \<longrightarrow> holds w1 r'" "has w k \<longrightarrow> has w1 k"
    using a add_state [OF Cons.prems(1), of "fp r" a w1] Cons.prems(1) by (auto split: if_splits)
  obtain p w2 where p: "put r w1 = (p, w2)" by force
  note w2 = put_state [OF w1(1) p]
  show ?case
    using Cons.prems(2) Cons.IH [OF w1(1)] Cons.IH [OF w2(1)] w1 w2 a p
    by (auto split: sum.splits bool.splits)
qed auto

text \<open>Where each request of the batch went.\<close>

lemma flush_loop_places:
  assumes "ok w" "flush_loop add put fp rs st w = (out, st', w')" "r \<in> set rs"
  shows "holds w' r \<or> (\<exists>e rest. out = Some (e, rest) \<and> (r \<in> set rest \<or> r\<lparr>filter_repeat := False\<rparr> \<in> set rest))
    \<or> (filter_repeat r \<and> has w' (fp r))"
  using assms
proof (induction rs arbitrary: st w)
  case (Cons x xs)
  obtain a w1 where a: "(if filter_repeat x then add (fp x) w else (Inr True, w)) = (a, w1)" by force
  have w1: "ok w1" using a add_state [OF Cons.prems(1), of "fp x" a w1] Cons.prems(1) by (auto split: if_splits)
  obtain p w2 where p: "put x w1 = (p, w2)" by force
  note w2 = put_state [OF w1 p]
  show ?case
  proof (cases a)
    case (Inl e)
    then show ?thesis using Cons.prems a by (auto simp: prod_eq_iff)
  next
    case (Inr b)
    show ?thesis
    proof (cases b)
      case False
      then have step: "flush_loop add put fp xs (stats_incr ''dedup_dropped'' 1 st) w1 = (out, st', w')"
        and fr: "filter_repeat x" "add (fp x) w = (Inr False, w1)"
        using Cons.prems(2) a Inr by (auto split: if_splits)
      have "has w1 (fp x)" using add_has [OF Cons.prems(1) fr(2)] .
      then have "has w' (fp x)" using flush_loop_state [OF w1 step] by simp
      then show ?thesis using Cons.IH [OF w1 step] Cons.prems(3) fr by auto
    next
      case True
      show ?thesis
      proof (cases p)
        case (Inl e)
        then show ?thesis using Cons.prems a \<open>a = Inr b\<close> True p by (auto simp: prod_eq_iff)
      next
        case (Inr u)
        then have step: "flush_loop add put fp xs st w2 = (out, st', w')"
          using Cons.prems(2) a \<open>a = Inr b\<close> True p by auto
        have "holds w2 x" using put_ok [of x w1 u w2] p Inr by simp
        then have "holds w' x" using flush_loop_state [OF w2(1) step] by simp
        then show ?thesis using Cons.IH [OF w2(1) step] Cons.prems(3) by auto
      qed
    qed
  qed
qed simp

end

text \<open>
  An exact filter whose failing calls leave no trace.  A request of a page is live when it can still
  reach the queue: it waits and will pass the filter, or a request of the page is in the queue.
\<close>

locale exact_backend = buffer_backend add has ok put holds + exact_filter add has ok
  for add :: "string \<Rightarrow> 'w \<Rightarrow> bool res \<times> 'w" and has :: "'w \<Rightarrow> string \<Rightarrow> bool" and ok :: "'w \<Rightarrow> bool"
    and put :: "request \<Rightarrow> 'w \<Rightarrow> unit res \<times> 'w" and holds :: "'w \<Rightarrow> request \<Rightarrow> bool" +
  assumes add_atomic: "ok w \<Longrightarrow> add k w = (Inl e, w') \<Longrightarrow> has w' k' \<longleftrightarrow> has w k'"
begin

lemma flush_loop_page:
  assumes fp: "\<And>r b. fp (r\<lparr>filter_repeat := b\<rparr>) = fp r"
    and "ok w" "flush_loop add put fp rs st w = (out, st', w')"
    and "\<exists>r\<in>set rs. fp r = k \<and> (\<not> filter_repeat r \<or> \<not> has w k)"
  shows "(\<exists>e rest. out = Some (e, rest) \<and> (\<exists>r\<in>set rest. fp r = k \<and> (\<not> filter_repeat r \<or> \<not> has w' k)))
    \<or> (\<exists>r. fp r = k \<and> holds w' r)"
  using assms(2-)
proof (induction rs arbitrary: st w)
  case (Cons x xs)
  obtain a w1 where a: "(if filter_repeat x then add (fp x) w else (Inr True, w)) = (a, w1)" by force
  have w1: "ok w1" using a add_state [OF Cons.prems(1), of "fp x" a w1] Cons.prems(1) by (auto split: if_splits)
  have only: "has w1 k \<Longrightarrow> has w k \<or> k = fp x"
    using a add_only [OF Cons.prems(1), of "fp x" k] by (auto split: if_splits)
  obtain p w2 where p: "put x w1 = (p, w2)" by force
  note w2 = put_state [OF w1 p]
  show ?case
  proof (cases a)
    case (Inl e)
    then have "has w1 k = has w k" "out = Some (e, x # xs)" "w' = w1"
      using a add_atomic [OF Cons.prems(1), of "fp x" e w1 k] Cons.prems(2) by (auto split: if_splits)
    then show ?thesis using Cons.prems(3) by auto
  next
    case (Inr b)
    show ?thesis
    proof (cases b)
      case False
      then have step: "flush_loop add put fp xs (stats_incr ''dedup_dropped'' 1 st) w1 = (out, st', w')"
        and fr: "filter_repeat x" "add (fp x) w = (Inr False, w1)"
        using Cons.prems(2) a Inr by (auto split: if_splits)
      have "has w (fp x)" using add_fresh [OF Cons.prems(1) fr(2)] by simp
      then have "\<exists>r\<in>set xs. fp r = k \<and> (\<not> filter_repeat r \<or> \<not> has w1 k)" using Cons.prems(3) fr only by auto
      then show ?thesis by (rule Cons.IH [OF w1 step])
    next
      case True
      show ?thesis
      proof (cases p)
        case (Inl e)
        then have out: "out = Some (e, x\<lparr>filter_repeat := False\<rparr> # xs)" "w' = w2"
          using Cons.prems(2) a \<open>a = Inr b\<close> True p by auto
        show ?thesis
          using Cons.prems(3) only out fp [of False x] w2(2) [of k] by (cases "fp x = k") auto
      next
        case (Inr u)
        then have step: "flush_loop add put fp xs st w2 = (out, st', w')"
          using Cons.prems(2) a \<open>a = Inr b\<close> True p by auto
        have hx: "holds w' x"
          using put_ok [of x w1 u w2] p Inr flush_loop_state [OF w2(1) step, of x] by simp
        show ?thesis
        proof (cases "fp x = k")
          case False
          then have "\<exists>r\<in>set xs. fp r = k \<and> (\<not> filter_repeat r \<or> \<not> has w2 k)"
            using Cons.prems(3) only w2(2) [of k] by auto
          then show ?thesis by (rule Cons.IH [OF w2(1) step])
        qed (use hx in blast)
      qed
    qed
  qed
qed simp

definition page_live :: "(request \<Rightarrow> string) \<Rightarrow> string \<Rightarrow> rbuf \<times> 'w \<Rightarrow> bool" where
  "page_live fp k bw \<longleftrightarrow> (\<exists>r\<in>set (rb_pending (fst bw)). fp r = k \<and> (\<not> filter_repeat r \<or> \<not> has (snd bw) k))
     \<or> (\<exists>r. fp r = k \<and> holds (snd bw) r)"

lemma flush_page_live:
  assumes fp: "\<And>r b. fp (r\<lparr>filter_repeat := b\<rparr>) = fp r" and "ok (snd bw)" and "page_live fp k bw"
  shows "page_live fp k (snd (rbuf_flush add put fp arrived bw))" "ok (snd (snd (rbuf_flush add put fp arrived bw)))"
proof -
  obtain b w where bw: "bw = (b, w)" by force
  obtain out st' w' where f: "flush_loop add put fp (rb_pending b) (rb_stats b) w = (out, st', w')" by (metis prod_cases3)
  have ok: "ok w" using assms(2) bw by simp
  note st = flush_loop_state [OF ok f]
  show "page_live fp k (snd (rbuf_flush add put fp arrived bw))"
    using assms(3) st flush_loop_page [OF fp ok f, of k]
    by (auto simp: bw page_live_def rbuf_flush_def f split: option.splits)
  show "ok (snd (snd (rbuf_flush add put fp arrived bw)))"
    using st by (auto simp: bw rbuf_flush_def f split: option.splits)
qed

lemma rounds_page_live:
  assumes fp: "\<And>r b. fp (r\<lparr>filter_repeat := b\<rparr>) = fp r" and "ok (snd bw)" and "page_live fp k bw"
  shows "page_live fp k (rbuf_rounds add put fp rounds bw)"
  using assms(2,3)
proof (induction rounds arbitrary: bw)
  case (Cons a rounds)
  then show ?case using flush_page_live [OF fp Cons.prems, of a] by simp
qed simp

end

section \<open>The backends of the two schedulers\<close>

lemma filter_has_cong:
  assumes "bits (view s') = bits (view s)" "rsets (view s') = rsets (view s)" "counters (view s') = counters (view s)"
  shows "filter_has view dg (f, s') k = filter_has view dg (f, s) k" "filter_ok view (f, s') = filter_ok view (f, s)"
  using assms by (cases f; simp add: rb_has_def rset_has_def rb_ok_def)+

text \<open>Distributed: filter and queue on the server.\<close>

definition rds_put :: "'s redis \<Rightarrow> string \<Rightarrow> request \<Rightarrow> filter_obj \<times> 's \<Rightarrow> unit res \<times> filter_obj \<times> 's" where
  "rds_put R name r w = (case w of (f, s) \<Rightarrow> (case rq_put R name r s of (x, s') \<Rightarrow> (x, f, s')))"

definition rds_holds :: "('s \<Rightarrow> rview) \<Rightarrow> string \<Rightarrow> filter_obj \<times> 's \<Rightarrow> request \<Rightarrow> bool" where
  "rds_holds view name w = rq_holds view name (snd w)"

text \<open>Single process: the in-process queue beside the filter.\<close>

definition air_add :: "'s redis \<Rightarrow> digests \<Rightarrow> string \<Rightarrow> (filter_obj \<times> 's) \<times> mem_queue \<Rightarrow> bool res \<times> (filter_obj \<times> 's) \<times> mem_queue" where
  "air_add R dg k w = (case w of (fs, q) \<Rightarrow> (case filter_add R dg k fs of (b, fs') \<Rightarrow> (b, fs', q)))"

definition air_put :: "request \<Rightarrow> (filter_obj \<times> 's) \<times> mem_queue \<Rightarrow> unit res \<times> (filter_obj \<times> 's) \<times> mem_queue" where
  "air_put r w = (case w of (fs, q) \<Rightarrow> (Inr (), fs, mem_put r q))"

context redis_server
begin

lemma rq_put_other:
  "bits (view (snd (rq_put R name r s))) = bits (view s)" "rsets (view (snd (rq_put R name r s))) = rsets (view s)"
  "counters (view (snd (rq_put R name r s))) = counters (view s)"
  using rcall_view [of "rdo (zadd R (queue_key name) (payload r) (of_int (priority r)))" s]
  by (auto simp: rq_put_def zadd_view)

lemma add_lua_zsets: "zsets (view (snd (add_lua R dg rb k s))) = zsets (view s)"
  by (simp add: add_lua_def Let_def case_prod_unfold incr_view fold_setbit_view)

lemma filter_add_zsets: "zsets (view (snd (snd (filter_add R dg k (f, s))))) = zsets (view s)"
proof (cases f)
  case (FRedisBloom rb)
  have "snd (snd (rbloom_add R dg k (rb, s))) = snd (rcall R (add_lua R dg rb k) s)"
    by (auto simp: rbloom_add_def split: prod.splits sum.splits)
  then show ?thesis
    using FRedisBloom rcall_view [of "add_lua R dg rb k" s] by (auto simp: case_prod_unfold add_lua_zsets)
next
  case (FRedisSet n)
  then show ?thesis
    using rcall_view [of "sadd_cmd R (set_key n) k" s] by (auto simp: case_prod_unfold rset_add_def sadd_view)
qed (auto simp: case_prod_unfold)

end

sublocale redis_server \<subseteq> rds: buffer_backend "filter_add R dg" "filter_has view dg" "filter_ok view"
    "rds_put R name" "rds_holds view name" for dg name
proof (unfold_locales, goal_cases)
  case (1 r q u q') then show ?case
    using rq.put_ok [of name r "snd q" u "snd q'"] by (auto simp: rds_put_def rds_holds_def split: prod.splits)
next
  case (2 q r' r) then show ?case
    using rq.put_keep [of name "snd q" r' r] by (auto simp: rds_put_def rds_holds_def case_prod_unfold)
next
  case (3 w r k) then show ?case
    using filter_add_zsets [of dg k "fst w" "snd w"] by (auto simp: rds_holds_def rq_holds_def)
next
  case (4 w r k) then show ?case
    using filter_has_cong(1) [of view "snd (rq_put R name r (snd w))" "snd w" dg "fst w" k]
    by (simp add: rds_put_def case_prod_unfold rq_put_other)
next
  case (5 w r) then show ?case
    using filter_has_cong(2) [of view "snd (rq_put R name r (snd w))" "snd w" "fst w"]
    by (simp add: rds_put_def case_prod_unfold rq_put_other)
qed

sublocale redis_server \<subseteq> air: buffer_backend "air_add R dg" "\<lambda>w. filter_has view dg (fst w)" "\<lambda>w. filter_ok view (fst w)"
    air_put "\<lambda>w. mem_holds (snd w)" for dg
proof (unfold_locales, goal_cases)
  case (1 f k) then show ?case using dedup.add_ok [of "fst f" dg k] by (simp add: air_add_def case_prod_unfold)
next
  case (2 f k b f') then show ?case
    using dedup.add_fresh [of "fst f" dg k b "fst f'"] by (auto simp: air_add_def split: prod.splits)
next
  case (3 f k b f') then show ?case
    using dedup.add_has [of "fst f" dg k b "fst f'"] by (auto simp: air_add_def split: prod.splits)
next
  case (4 f k' k) then show ?case using dedup.add_mono [of "fst f" dg k' k] by (simp add: air_add_def case_prod_unfold)
qed (auto simp: air_add_def air_put_def mem_holds_def mem_abs_def mem_put_def set_insort_key case_prod_unfold)

text \<open>Exact filters: the in-process set, and the Redis set on a connection that never loses a reply.\<close>

context redis_server
begin

lemma rds_backend: "buffer_backend (filter_add R dg) (filter_has view dg) (filter_ok view) (rds_put R name) (rds_holds view name)"
  by (rule rds.buffer_backend_axioms)

end

locale reliable_server = redis_server +
  assumes reply_kept: "fst (conn R s) \<noteq> ReplyLost"
begin

lemma rcall_Inl_reliable: "rcall R f s = (Inl e, s') \<Longrightarrow> view s' = view s"
  using conn_view [of s] reply_kept [of s] by (auto simp: rcall_def split: prod.splits outcome.splits)

end

fun exact_obj :: "filter_obj \<Rightarrow> bool" where
  "exact_obj (FLite f) = True"
| "exact_obj (FRedisSet n) = True"
| "exact_obj f = False"

definition mini_safe :: "mini_redis redis" where
  "mini_safe = mini\<lparr>conn := (\<lambda>s. case mini_conn s of (ReplyLost, s') \<Rightarrow> (Unreached, s') | x \<Rightarrow> x)\<rparr>"

lemma exact_add_ok: "exact_obj (fst w) \<Longrightarrow> exact_obj (fst (snd (filter_add R dg k w)))"
  by (cases w; cases "fst w") (auto simp: case_prod_unfold)

lemma exact_filter_ok: "exact_obj (fst w) \<Longrightarrow> filter_ok view w"
  by (cases w; cases "fst w") auto

context redis_server
begin

lemma exact_add_only:
  "exact_obj (fst w) \<Longrightarrow> filter_has view dg (snd (filter_add R dg k w)) k' \<Longrightarrow> filter_has view dg w k' \<or> k' = k"
  using lite.add_only [of k _ k'] rset.add_only [of _ k "snd w" k']
  by (cases w; cases "fst w") (auto simp: case_prod_unfold lite_add_res_def)

end

sublocale reliable_server \<subseteq> rdsx: exact_backend "filter_add R dg" "filter_has view dg" "\<lambda>w. exact_obj (fst w)"
    "rds_put R name" "rds_holds view name" for dg name
proof (unfold_locales, goal_cases)
  case (1 f k) then show ?case by (rule exact_add_ok)
next
  case (2 f k b f') then show ?case using dedup.add_fresh exact_filter_ok by blast
next
  case (3 f k b f') then show ?case using dedup.add_has exact_filter_ok by blast
next
  case (4 f k' k) then show ?case using dedup.add_mono exact_filter_ok by blast
next
  case (5 w r k) then show ?case using rds.add_holds exact_filter_ok by blast
next
  case (6 w r k) then show ?case using rds.put_has exact_filter_ok by blast
next
  case (7 w r) then show ?case by (simp add: rds_put_def case_prod_unfold)
next
  case (8 f k k') then show ?case by (rule exact_add_only)
next
  case (9 w k e w' k')
  obtain f s where w: "w = (f, s)" by force
  show ?case
  proof (cases f)
    case (FRedisSet n)
    then obtain s' where s': "rcall R (sadd_cmd R (set_key n) k) s = (Inl e, s')" "w' = (FRedisSet n, s')"
      using 9 w by (auto simp: rset_add_def split: prod.splits)
    then show ?thesis using rcall_Inl_reliable [OF s'(1)] FRedisSet w by (simp add: rset_has_def)
  qed (use 9 w in \<open>auto simp: case_prod_unfold\<close>)
qed

context reliable_server
begin

lemma rdsx_backend:
  "exact_backend (filter_add R dg) (filter_has view dg) (\<lambda>w. exact_obj (fst w)) (rds_put R name) (rds_holds view name)"
  by (rule rdsx.exact_backend_axioms)

end

sublocale redis_server \<subseteq> airx: exact_backend "air_add R dg" "\<lambda>w. filter_has view dg (fst w)"
    "\<lambda>w. \<exists>f. fst (fst w) = FLite f" air_put "\<lambda>w. mem_holds (snd w)" for dg
proof (unfold_locales, goal_cases)
  case (8 f k k') then show ?case
    using exact_add_only [of "fst f" dg k k'] by (cases f) (auto simp: air_add_def case_prod_unfold)
qed (auto simp: air_add_def air_put_def mem_holds_def mem_abs_def mem_put_def set_insort_key case_prod_unfold
    lite_add_def lite_contains_def split: if_splits)

lemma mini_safe_server: "redis_server mini_safe mini_view"
proof -
  have c: "\<forall>s. mini_view (snd (conn mini_safe s)) = mini_view s"
  proof
    fix s show "mini_view (snd (conn mini_safe s)) = mini_view s"
      using mini.conn_view [of s]
      by (cases "mini_conn s"; cases "fst (mini_conn s)") (simp_all add: mini_safe_def mini_sel)
  qed
  show ?thesis
    using mini.redis_server_axioms c unfolding redis_server_def by (simp add: mini_safe_def)
qed

interpretation mini_safe: reliable_server mini_safe mini_view
  by (intro reliable_server.intro mini_safe_server reliable_server_axioms.intro)
    (auto simp: mini_safe_def split: prod.splits outcome.splits)

section \<open>Properties\<close>

lemma fingerprint_filter_repeat: "fingerprint md5 canon (r\<lparr>filter_repeat := b\<rparr>) = fingerprint md5 canon r"
  by (simp add: fingerprint_def)

text \<open>\<open>flush\<close> accounts for every request, for the Redis queue and any filter.  Whatever fails and
  whatever other threads put meanwhile, each request of the flushed batch is afterwards in the queue, or
  back in the buffer (perhaps with \<open>filter_repeat\<close> cleared), or was subject to de-duplication and its fingerprint
  is in the filter; and the requests that arrived meanwhile are all in the buffer.\<close>

theorem flush_accounts_for_all:
  assumes "redis_server R view" and "filter_ok view (f, s)"
    and "rbuf_flush (filter_add R dg) (rds_put R name) fp arrived (b, (f, s)) = (out, b', f', s')"
  shows "set arrived \<subseteq> set (rb_pending b') \<and> (\<forall>r\<in>set (rb_pending b).
    rds_holds view name (f', s') r \<or> r \<in> set (rb_pending b') \<or> r\<lparr>filter_repeat := False\<rparr> \<in> set (rb_pending b')
    \<or> (filter_repeat r \<and> filter_has view dg (f', s') (fp r)))"
proof -
  obtain o' st' f1 s1 where l: "flush_loop (filter_add R dg) (rds_put R name) fp (rb_pending b) (rb_stats b) (f, s) = (o', st', f1, s1)"
    by (metis prod_cases4)
  have e: "f1 = f'" "s1 = s'"
    "rb_pending b' = (case o' of None \<Rightarrow> arrived | Some (e, rest) \<Rightarrow> rest @ arrived)"
    using assms(3) l by (auto simp: rbuf_flush_def split: option.splits)
  have p: "rds_holds view name (f', s') r \<or> (\<exists>e rest. o' = Some (e, rest) \<and> (r \<in> set rest \<or> r\<lparr>filter_repeat := False\<rparr> \<in> set rest))
      \<or> (filter_repeat r \<and> filter_has view dg (f', s') (fp r))" if "r \<in> set (rb_pending b)" for r
    using buffer_backend.flush_loop_places [OF redis_server.rds_backend [OF assms(1)] assms(2) l that] e by simp
  show ?thesis using p by (fastforce simp: e split: option.splits)
qed

theorem flush_accounts_for_all_witness:
  "\<exists>out b' f' s'. rbuf_flush (filter_add mini toy_digests) (rds_put mini ''s'') url [] (\<lparr>rb_pending = [req_a], rb_stats = []\<rparr>,
      (FLite [], mini_empty)) = (out, b', f', s') \<and> (rds_holds mini_view ''s'' (f', s') req_a \<or> req_a \<in> set (rb_pending b')
        \<or> req_a\<lparr>filter_repeat := False\<rparr> \<in> set (rb_pending b') \<or> (filter_repeat req_a \<and> filter_has mini_view toy_digests (f', s') (url req_a)))"
proof -
  obtain out b' f' s' where r: "rbuf_flush (filter_add mini toy_digests) (rds_put mini ''s'') url []
      (\<lparr>rb_pending = [req_a], rb_stats = []\<rparr>, (FLite [], mini_empty)) = (out, b', f', s')" by (metis prod_cases4)
  show ?thesis using flush_accounts_for_all [OF mini.redis_server_axioms _ r] r by auto
qed

text \<open>C6: No page is lost by failing flushes.  On a connection that never loses a reply, with the Redis set
  filter (or the in-process set), a request whose fingerprint is new when it sits in the buffer stays live through
  any number of flush rounds, whichever calls fail: after each, a request of the same page is in the
  queue, or still waits in the buffer and will not be dropped as its own duplicate.\<close>

theorem flush_never_loses_a_page:
  assumes "reliable_server R view" and "exact_obj f" and "r \<in> set (rb_pending b)"
    and "\<not> filter_has view dg (f, s) (fingerprint md5 canon r)"
  shows "case rbuf_rounds (filter_add R dg) (rds_put R name) (fingerprint md5 canon) rounds (b, (f, s)) of (b', f', s') \<Rightarrow>
     (\<exists>r'. fingerprint md5 canon r' = fingerprint md5 canon r \<and> (rds_holds view name (f', s') r'
        \<or> (r' \<in> set (rb_pending b') \<and> (\<not> filter_repeat r' \<or> \<not> filter_has view dg (f', s') (fingerprint md5 canon r)))))"
proof -
  let ?fp = "fingerprint md5 canon"
  note be = reliable_server.rdsx_backend [OF assms(1), of dg name]
  note live = exact_backend.page_live_def [OF be]
  have "exact_backend.page_live (filter_has view dg) (rds_holds view name) ?fp (?fp r) (b, (f, s))"
    using assms(3,4) by (auto simp: live)
  from exact_backend.rounds_page_live [OF be fingerprint_filter_repeat _ this, of rounds] assms(2)
  show ?thesis by (auto simp: live split: prod.splits)
qed

theorem flush_never_loses_a_page_witness:
  "case rbuf_rounds (filter_add mini_safe toy_digests) (rds_put mini_safe ''s'') (fingerprint id id) [[], []]
      (\<lparr>rb_pending = [req_a], rb_stats = []\<rparr>, (FRedisSet ''s'', mini_empty\<lparr>faults := [Answered, Unreached]\<rparr>)) of (b', f', s') \<Rightarrow>
     (\<exists>r'. fingerprint id id r' = fingerprint id id req_a \<and> (rds_holds mini_view ''s'' (f', s') r'
        \<or> (r' \<in> set (rb_pending b') \<and> (\<not> filter_repeat r' \<or> \<not> filter_has mini_view toy_digests (f', s') (fingerprint id id req_a)))))"
  by (rule flush_never_loses_a_page [OF mini_safe.reliable_server_axioms])
    (simp_all add: rset_has_def mini_view_def mini_empty_def)

text \<open>
  The comment in \<open>flush\<close> says of a failing \<open>dedup.add\<close> that the fingerprint was not written.  When the reply of
  the call is lost it was: the request goes back with \<open>filter_repeat\<close> set, and the next flush drops it as a
  duplicate of itself.
\<close>

lemma lost_reply_drops_request:
  "rbuf_rounds (filter_add mini toy_digests) (rds_put mini ''s'') url [[], []]
      (\<lparr>rb_pending = [req_a], rb_stats = []\<rparr>, (FRedisSet ''s'', mini_empty\<lparr>faults := [ReplyLost]\<rparr>))
   = (\<lparr>rb_pending = [], rb_stats = [(''dedup_dropped'', 1)]\<rparr>,
      FRedisSet ''s'', mini_empty\<lparr>mset_of := (\<lambda>_. {})(''s:dedup:set'' := {''http://a/''})\<rparr>)"
  by (simp add: rbuf_flush_def rset_add_def rcall_def mini_sel mini_conn_def mini_sadd_cmd_def mini_empty_def set_key_def
      req_a_def request_defaults_def stats_incr_def stats_get_def)

end
