(* ===== verification/Collector.thy ===== *)
theory Collector
  imports Request_Buffer
begin

text \<open>
  \<^verbatim>\<open>netspy/core/collector.py\<close>: the buffer between the task queue and the worker threads of a node, and the ledger of
  the tasks the node still answers for.  The collector is written against any queue object: the record \<open>tqueue\<close> holds
  the operations it (and the schedulers) call, \<open>mem_tq\<close> and \<open>redis_tq\<close> are the two queues of the program, and the
  locale \<open>work_queue\<close> says what a client may rely on.
\<close>

section \<open>The queue object\<close>

record 'q tqueue =
  tq_put :: "request \<Rightarrow> 'q \<Rightarrow> unit res \<times> 'q"
  tq_get :: "'q \<Rightarrow> request option res \<times> 'q"
  tq_get_batch :: "int \<Rightarrow> 'q \<Rightarrow> request list res \<times> 'q"
  tq_done :: "(request \<Rightarrow> 'q \<Rightarrow> 'q) option"
  tq_empty :: "'q \<Rightarrow> bool res \<times> 'q"

definition mem_tq :: "mem_queue tqueue" where
  "mem_tq = \<lparr>tq_put = mem_put_res, tq_get = (\<lambda>q. apfst Inr (mem_get q)), tq_get_batch = (\<lambda>n q. apfst Inr (mem_get_batch n q)),
     tq_done = None, tq_empty = (\<lambda>q. (Inr (mem_empty q), q))\<rparr>"

text \<open>
  The Redis queue as one worker of a node sees it, beside the filter object of the node: \<open>now\<close> is its clock, \<open>o'\<close> the next
  free object identity; while its \<open>get\<close> is blocked, \<open>dt\<close> passes and the other clients do \<open>env\<close> to the server.
\<close>

definition on_srv :: "('s \<Rightarrow> 'a \<times> 's) \<Rightarrow> filter_obj \<times> 's \<Rightarrow> 'a \<times> filter_obj \<times> 's" where
  "on_srv f w = (case w of (fo, s) \<Rightarrow> (case f s of (x, s') \<Rightarrow> (x, fo, s')))"

definition redis_tq :: "'s redis \<Rightarrow> setting \<Rightarrow> string \<Rightarrow> time \<Rightarrow> time \<Rightarrow> ('s \<Rightarrow> 's) \<Rightarrow> nat \<Rightarrow> (filter_obj \<times> 's) tqueue" where
  "redis_tq R cfg name now dt env o' = \<lparr>
     tq_put = rds_put R name,
     tq_get = on_srv (rq_get R cfg name now (now + dt) env True o'),
     tq_get_batch = (\<lambda>n. on_srv (rq_take R cfg name (now + dt) (Suc o') n)),
     tq_done = Some (\<lambda>r w. (fst w, rq_done R name r (snd w))),
     tq_empty = on_srv (rq_empty R name)\<rparr>"

section \<open>Collector\<close>

record coll =
  co_buffer :: "request list"
  co_in_progress :: "(nat, request) pydict"

definition new_coll :: coll where
  "new_coll = \<lparr>co_buffer = [], co_in_progress = []\<rparr>"

definition mark_in_progress :: "request \<Rightarrow> coll \<Rightarrow> coll" where
  "mark_in_progress r c = c\<lparr>co_in_progress := dset (co_in_progress c) (oid r) r\<rparr>"

text \<open>\<open>get_request\<close>; the lock is not held during the two calls of the queue: \<open>others\<close> is what the other workers do to
  the collector meanwhile.\<close>

definition get_request :: "setting \<Rightarrow> 'q tqueue \<Rightarrow> (coll \<Rightarrow> coll) \<Rightarrow> coll \<Rightarrow> 'q \<Rightarrow> request option res \<times> coll \<times> 'q" where
  "get_request cfg Q others c q =
     (case co_buffer c of
        r # rs \<Rightarrow> (Inr (Some r), mark_in_progress r (c\<lparr>co_buffer := rs\<rparr>), q)
      | [] \<Rightarrow>
          (case tq_get Q q of
             (Inl e, q1) \<Rightarrow> (Inl e, others c, q1)
           | (Inr None, q1) \<Rightarrow> (Inr None, others c, q1)
           | (Inr (Some first), q1) \<Rightarrow>
               (case tq_get_batch Q (COLLECTOR_TASK_COUNT cfg - 1) q1 of
                  (Inl e, q2) \<Rightarrow> (Inl e, others c, q2)
                | (Inr extra, q2) \<Rightarrow>
                    (Inr (Some first), mark_in_progress first ((others c)\<lparr>co_buffer := co_buffer (others c) @ extra\<rparr>), q2))))"

text \<open>\<open>done\<close> of the queue, where it has one.\<close>

definition finish_in :: "'q tqueue \<Rightarrow> request \<Rightarrow> 'q \<Rightarrow> 'q" where
  "finish_in Q r q = (case tq_done Q of None \<Rightarrow> q | Some dn \<Rightarrow> dn r q)"

definition coll_done :: "'q tqueue \<Rightarrow> request \<Rightarrow> coll \<Rightarrow> 'q \<Rightarrow> coll \<times> 'q" where
  "coll_done Q r c q =
     (c\<lparr>co_in_progress := ddel (co_in_progress c) (oid r)\<rparr>, finish_in Q r q)"

definition held_requests :: "coll \<Rightarrow> request list" where
  "held_requests c = co_buffer c @ map snd (co_in_progress c)"

definition coll_is_empty :: "'q tqueue \<Rightarrow> coll \<Rightarrow> 'q \<Rightarrow> bool res \<times> 'q" where
  "coll_is_empty Q c q = (if co_buffer c \<noteq> [] \<or> co_in_progress c \<noteq> [] then (Inr False, q) else tq_empty Q q)"

definition buffered_count :: "coll \<Rightarrow> nat" where
  "buffered_count c = length (co_buffer c)"

definition coll_drain :: "coll \<Rightarrow> request list \<times> coll" where
  "coll_drain c = (co_buffer c, c\<lparr>co_buffer := []\<rparr>)"

section \<open>What the node answers for\<close>

text \<open>The ledger is keyed by object identity; the tasks a node holds are distinct objects.\<close>

definition coll_inv :: "coll \<Rightarrow> bool" where
  "coll_inv c \<longleftrightarrow> distinct (map oid (held_requests c)) \<and> (\<forall>(k, r)\<in>set (co_in_progress c). oid r = k)"

lemma coll_inv_keys: "coll_inv c \<Longrightarrow> map oid (map snd (co_in_progress c)) = dkeys (co_in_progress c)"
  by (auto simp: coll_inv_def dkeys_def)

lemma mark_held:
  assumes "coll_inv c" "oid r \<notin> oid ` set (held_requests c)"
  shows "held_requests (mark_in_progress r c) = held_requests c @ [r]" "coll_inv (mark_in_progress r c)"
proof -
  have "oid r \<notin> set (dkeys (co_in_progress c))"
    using assms(2) coll_inv_keys [OF assms(1), symmetric] by (auto simp: held_requests_def)
  then have e: "co_in_progress (mark_in_progress r c) = co_in_progress c @ [(oid r, r)]" "co_buffer (mark_in_progress r c) = co_buffer c"
    by (simp_all add: mark_in_progress_def dset_append_new)
  then show "held_requests (mark_in_progress r c) = held_requests c @ [r]" by (simp add: held_requests_def)
  with assms show "coll_inv (mark_in_progress r c)" unfolding coll_inv_def e by auto
qed

text \<open>What a successful \<open>get_request\<close> hands over or stores is held, each once.\<close>

lemma get_request_held:
  assumes "get_request cfg Q others c q = (Inr (Some r), c', q')" "coll_inv c" "coll_inv (others c)"
    and fresh: "\<And>first q1 extra q2. co_buffer c = [] \<Longrightarrow> tq_get Q q = (Inr (Some first), q1)
      \<Longrightarrow> tq_get_batch Q (COLLECTOR_TASK_COUNT cfg - 1) q1 = (Inr extra, q2)
      \<Longrightarrow> distinct (map oid (first # extra @ held_requests (others c)))"
  shows "coll_inv c' \<and> r \<in> set (map snd (co_in_progress c'))
    \<and> (co_buffer c \<noteq> [] \<and> mset (held_requests c') = mset (held_requests c)
       \<or> (\<exists>q1 extra. tq_get Q q = (Inr (Some r), q1) \<and> tq_get_batch Q (COLLECTOR_TASK_COUNT cfg - 1) q1 = (Inr extra, q')
            \<and> mset (held_requests c') = mset (held_requests (others c)) + mset (r # extra)))"
proof (cases "co_buffer c")
  case Nil
  then obtain q1 extra where g: "tq_get Q q = (Inr (Some r), q1)" "tq_get_batch Q (COLLECTOR_TASK_COUNT cfg - 1) q1 = (Inr extra, q')"
    and c': "c' = mark_in_progress r ((others c)\<lparr>co_buffer := co_buffer (others c) @ extra\<rparr>)"
    using assms(1) by (auto simp: get_request_def split: sum.splits prod.splits option.splits)
  let ?c = "(others c)\<lparr>co_buffer := co_buffer (others c) @ extra\<rparr>"
  note d = fresh [OF Nil g]
  have "mset (map oid (held_requests ?c)) = mset (map oid (extra @ held_requests (others c)))" by (simp add: held_requests_def)
  then have "distinct (map oid (held_requests ?c))" "set (map oid (held_requests ?c)) = set (map oid (extra @ held_requests (others c)))"
    using d by (metis distinct.simps(2) list.simps(9) mset_eq_imp_distinct_iff, metis mset_eq_setD)
  then have "coll_inv ?c" "oid r \<notin> oid ` set (held_requests ?c)" using d assms(3) by (auto simp: coll_inv_def)
  note m = mark_held [OF this]
  have "r \<in> set (map snd (co_in_progress c'))"
    unfolding c' mark_in_progress_def using dget_Some_in [of "dset (co_in_progress ?c) (oid r) r" "oid r" r] by force
  moreover have "mset (held_requests c') = mset (held_requests (others c)) + mset (r # extra)"
    unfolding c' m(1) by (simp add: held_requests_def)
  ultimately show ?thesis using m(2) g unfolding c' by blast
next
  case (Cons x xs)
  then have e: "r = x" "c' = mark_in_progress x (c\<lparr>co_buffer := xs\<rparr>)" using assms(1) by (auto simp: get_request_def)
  have "coll_inv (c\<lparr>co_buffer := xs\<rparr>)" "oid x \<notin> oid ` set (held_requests (c\<lparr>co_buffer := xs\<rparr>))"
    using assms(2) Cons by (auto simp: coll_inv_def held_requests_def)
  note m = mark_held [OF this]
  have "r \<in> set (map snd (co_in_progress c'))"
    unfolding e mark_in_progress_def using dget_Some_in [of "dset (co_in_progress (c\<lparr>co_buffer := xs\<rparr>)) (oid x) x" "oid x" x] by force
  moreover have "mset (held_requests c') = mset (held_requests c)" unfolding e m(1) using Cons by (simp add: held_requests_def)
  moreover have "co_buffer c \<noteq> []" using Cons by simp
  ultimately show ?thesis using m(2) unfolding e by (intro conjI disjI1)
qed

lemma ddel_map_snd: "distinct (dkeys d) \<Longrightarrow> (k, v) \<in> set d \<Longrightarrow> mset (map snd (ddel d k)) = mset (map snd d) - {#v#}"
proof (induction d)
  case (Cons e d)
  obtain k' v' where e: "e = (k', v')" by (cases e)
  show ?case
  proof (cases "k' = k")
    case True
    then have "v' = v" "k \<notin> fst ` set d" using Cons.prems by (auto simp: e dkeys_def image_iff)
    then have "ddel (e # d) k = d" using True by (force simp: e ddel_def intro: filter_True)
    then show ?thesis using \<open>v' = v\<close> by (simp add: e)
  next
    case False
    then have "(k, v) \<in> set d" using Cons.prems by (auto simp: e)
    then have "v \<in># mset (map snd d)" by force
    then show ?thesis using Cons False by (simp add: e ddel_def dkeys_def)
  qed
qed simp

text \<open>\<open>done\<close> takes exactly the finished task off the ledger; draining takes exactly the buffered ones.\<close>

lemma coll_done_held:
  assumes "coll_inv c" "r \<in> set (map snd (co_in_progress c))"
  shows "mset (held_requests (fst (coll_done Q r c q))) = mset (held_requests c) - {#r#}" "coll_inv (fst (coll_done Q r c q))"
proof -
  let ?ip = "co_in_progress c"
  have dist: "distinct (map oid (co_buffer c @ map snd ?ip))" and keys: "\<forall>(k, x)\<in>set ?ip. oid x = k"
    using assms(1) unfolding coll_inv_def held_requests_def by blast+
  have k: "(oid r, r) \<in> set ?ip" using assms(2) keys by auto
  have d: "distinct (dkeys ?ip)" using dist unfolding coll_inv_keys [OF assms(1), symmetric] map_append distinct_append by blast
  have c: "fst (coll_done Q r c q) = c\<lparr>co_in_progress := ddel ?ip (oid r)\<rparr>"
    "held_requests (fst (coll_done Q r c q)) = co_buffer c @ map snd (ddel ?ip (oid r))"
    by (simp_all add: coll_done_def held_requests_def)
  have r: "{#r#} \<subseteq># mset (map snd ?ip)" using assms(2) by simp
  show "mset (held_requests (fst (coll_done Q r c q))) = mset (held_requests c) - {#r#}"
    unfolding c(2) held_requests_def [of c] mset_append ddel_map_snd [OF d k] using multiset_diff_union_assoc [OF r] by simp
  have "distinct (map oid (map snd (ddel ?ip (oid r))))"
    using dist unfolding ddel_def map_append distinct_append map_map by (intro distinct_map_filter) blast
  moreover have "set (ddel ?ip (oid r)) \<subseteq> set ?ip" by (auto simp: ddel_def)
  ultimately show "coll_inv (fst (coll_done Q r c q))"
    using dist keys unfolding c(1) coll_inv_def held_requests_def by (auto 0 3)
qed

lemma coll_drain_held:
  "coll_drain c = (out, c') \<Longrightarrow> mset (held_requests c) = mset out + mset (held_requests c') \<and> (coll_inv c \<longrightarrow> coll_inv c')"
  by (auto simp: coll_drain_def held_requests_def coll_inv_def)

section \<open>What the schedulers rely on\<close>

text \<open>A queue that takes tasks back: \<open>done\<close> never removes a waiting task.\<close>

locale work_queue = put_queue put holds
  for put :: "request \<Rightarrow> 'q \<Rightarrow> unit res \<times> 'q" and holds :: "'q \<Rightarrow> request \<Rightarrow> bool" +
  fixes finish :: "request \<Rightarrow> 'q \<Rightarrow> 'q"
  assumes finish_keep: "holds q r' \<Longrightarrow> holds (finish r q) r'"

interpretation mem_wq: work_queue "tq_put mem_tq" mem_holds "finish_in mem_tq"
  by unfold_locales (use mem_q.put_ok mem_q.put_keep in \<open>auto simp: mem_tq_def finish_in_def\<close>)

context redis_server
begin

lemma rq_done_holds: "rq_holds view name s r' \<Longrightarrow> rq_holds view name (rq_done R name r s) r'"
  using rq_done_view [of name r s] by (auto simp: rq_holds_def)

end

sublocale redis_server \<subseteq> rwq: work_queue "tq_put (redis_tq R cfg name now dt env o')" "rds_holds view name"
    "finish_in (redis_tq R cfg name now dt env o')" for cfg name now dt env o'
  by unfold_locales (use rds.put_ok rds.put_keep rq_done_holds in \<open>auto simp: redis_tq_def finish_in_def rds_holds_def\<close>)

end
