(* ===== verification/Cluster.thy ===== *)
theory Cluster
  imports Task_Queue
begin

text \<open>
  The nodes of one distributed spider around the shared task queue, as a step relation.  Each step is a whole
  operation of \<open>RedisTaskQueue\<close> as a node calls it, or something the program does not control: time passes, a
  node is killed.  \<open>submitted\<close> and \<open>acked\<close> are history: the texts whose \<open>put\<close> was answered, and those whose
  \<open>done\<close> was called since.
\<close>

record 's cluster =
  srv :: 's
  wall :: time
  nodes :: "nat \<Rightarrow> request list"
  next_oid :: nat
  submitted :: "string set"
  acked :: "string set"

definition start_cluster :: "'s \<Rightarrow> time \<Rightarrow> 's cluster" where
  "start_cluster s now = \<lparr>srv = s, wall = now, nodes = (\<lambda>_. []), next_oid = 0, submitted = {}, acked = {}\<rparr>"

inductive cstep :: "'s redis \<Rightarrow> setting \<Rightarrow> string \<Rightarrow> 's cluster \<Rightarrow> 's cluster \<Rightarrow> bool"
  for R :: "'s redis" and cfg :: setting and name :: string where
  put_answered: "rq_put R name r (srv c) = (Inr u, s') \<Longrightarrow>
    cstep R cfg name c (c\<lparr>srv := s', submitted := insert (payload r) (submitted c), acked := acked c - {payload r}\<rparr>)"
| put_failed: "rq_put R name r (srv c) = (Inl e, s') \<Longrightarrow> cstep R cfg name c (c\<lparr>srv := s'\<rparr>)"
| take_answered: "rq_take R cfg name (wall c) (next_oid c) n (srv c) = (Inr rs, s') \<Longrightarrow>
    cstep R cfg name c (c\<lparr>srv := s', nodes := (nodes c)(i := nodes c i @ rs), next_oid := next_oid c + length rs\<rparr>)"
| take_failed: "rq_take R cfg name (wall c) (next_oid c) n (srv c) = (Inl e, s') \<Longrightarrow> cstep R cfg name c (c\<lparr>srv := s'\<rparr>)"
| finish: "r \<in> set (nodes c i) \<Longrightarrow>
    cstep R cfg name c (c\<lparr>srv := rq_done R name r (srv c), nodes := (nodes c)(i := remove1 r (nodes c i)),
      acked := acked c \<union> set_option (lease_token r)\<rparr>)"
| heartbeat: "rq_renew R cfg name (wall c) (nodes c i) (srv c) = (k, s') \<Longrightarrow> cstep R cfg name c (c\<lparr>srv := s'\<rparr>)"
| reclaim: "rq_reclaim_expired R cfg name (wall c) limit (srv c) = (k, s') \<Longrightarrow> cstep R cfg name c (c\<lparr>srv := s'\<rparr>)"
| killed: "cstep R cfg name c (c\<lparr>nodes := (nodes c)(i := [])\<rparr>)"
| tick: "0 \<le> dt \<Longrightarrow> cstep R cfg name c (c\<lparr>wall := wall c + dt\<rparr>)"

inductive reach :: "'s redis \<Rightarrow> setting \<Rightarrow> string \<Rightarrow> 's cluster \<Rightarrow> 's cluster \<Rightarrow> bool"
  for R :: "'s redis" and cfg :: setting and name :: string and c0 :: "'s cluster" where
  refl: "reach R cfg name c0 c0"
| step: "reach R cfg name c0 c \<Longrightarrow> cstep R cfg name c c' \<Longrightarrow> reach R cfg name c0 c'"

inductive_cases cstepE: "cstep R cfg name c c'"

text \<open>The invariant: time has started, what is owed is on the server, no lease runs longer than one period.\<close>

definition cluster_inv :: "('s \<Rightarrow> rview) \<Rightarrow> setting \<Rightarrow> string \<Rightarrow> 's cluster \<Rightarrow> bool" where
  "cluster_inv view cfg name c \<longleftrightarrow> 1 \<le> wall c
     \<and> submitted c - acked c \<subseteq> tasks_of (view (srv c)) name
     \<and> (\<forall>m x. zsets (view (srv c)) (inflight_key name) m = Some x \<longrightarrow> x \<le> fmt3 (wall c + SPIDER_TASK_LEASE cfg))"

context redis_server
begin

lemma put_inflight: "zsets (view (snd (rq_put R name r s))) (inflight_key name) = zsets (view s) (inflight_key name)"
  using rcall_view [of "rdo (zadd R (queue_key name) (payload r) (of_int (priority r)))" s]
  by (auto simp: rq_put_def zadd_view)

lemma put_answered_tasks: "rq_put R name r s = (Inr u, s') \<Longrightarrow> payload r \<in> tasks_of (view s') name"
  using rq.put_ok [of name r s u s'] by (simp add: rq_holds_def tasks_of_def)

lemma take_inflight:
  assumes "rq_take R cfg name now o' n s = (res, s')" "0 < SPIDER_TASK_LEASE cfg" "1 \<le> now"
    and "zsets (view s') (inflight_key name) m = Some x"
  shows "zsets (view s) (inflight_key name) m = Some x \<or> x = fmt3 (now + SPIDER_TASK_LEASE cfg)"
proof -
  have d: "0 < fmt3 (now + SPIDER_TASK_LEASE cfg)" using assms by (intro fmt3_pos) simp
  show ?thesis
    by (rule rq_take_cases [OF assms(1,2)])
      (use assms(4) take_lua_view [OF queue_inflight_keys(1) d] in \<open>auto split: if_splits\<close>)
qed

lemma done_inflight: "zsets (view (rq_done R name r s)) (inflight_key name) m = Some x \<Longrightarrow> zsets (view s) (inflight_key name) m = Some x"
  using rq_done_view [of name r s] by (auto split: if_splits)

lemma renew_inflight: "zsets (view (snd (rq_renew R cfg name now rs s))) (inflight_key name) m = Some x \<Longrightarrow>
    zsets (view s) (inflight_key name) m = Some x \<or> x = fmt3 (now + SPIDER_TASK_LEASE cfg)"
  using rq_renew_view [of cfg name now rs s] by (auto split: if_splits)

lemma reclaim_inflight:
  assumes "zsets (view (snd (rq_reclaim_expired R cfg name now limit s))) (inflight_key name) m = Some x"
  shows "zsets (view s) (inflight_key name) m = Some x"
proof -
  obtain k s' where r: "rq_reclaim_expired R cfg name now limit s = (k, s')" by force
  show ?thesis
    by (rule rq_reclaim_view [OF r]) (use assms r in \<open>auto simp: restrict_map_def split: if_splits\<close>)
qed

lemma cluster_inv_step:
  assumes lease: "0 < SPIDER_TASK_LEASE cfg" and "cstep R cfg name c c'" "cluster_inv view cfg name c"
  shows "cluster_inv view cfg name c'"
  using assms(2,3)
proof (induction rule: cstep.induct)
  case (put_answered r c u s')
  then show ?case
    using rq_put_tasks [of name r "srv c"] put_answered_tasks [OF put_answered(1)] put_inflight [of name r "srv c"]
    by (auto simp: cluster_inv_def)
next
  case (put_failed r c e s')
  then show ?case
    using rq_put_tasks [of name r "srv c"] put_inflight [of name r "srv c"] by (auto simp: cluster_inv_def)
next
  case (take_answered c n rs s' i)
  then show ?case
    using rq_take_tasks [OF take_answered(1) lease] take_inflight [OF take_answered(1) lease] unfolding cluster_inv_def by (simp, metis order_refl)
next
  case (take_failed c n e s')
  then show ?case
    using rq_take_tasks [OF take_failed(1) lease] take_inflight [OF take_failed(1) lease] unfolding cluster_inv_def by (simp, metis order_refl)
next
  case (finish r c i)
  then show ?case
    using rq_done_tasks [of "srv c" name r] done_inflight [of name r "srv c"]
    unfolding cluster_inv_def by (simp, blast)
next
  case (heartbeat c i k s')
  then show ?case
    using rq_renew_tasks [of cfg name "wall c" "nodes c i" "srv c"] renew_inflight [of cfg name "wall c" "nodes c i" "srv c"]
    unfolding cluster_inv_def by (simp, metis order_refl)
next
  case (reclaim c limit k s')
  then show ?case
    using rq_reclaim_tasks [of cfg name "wall c" limit "srv c"] reclaim_inflight [of cfg name "wall c" limit "srv c"]
    unfolding cluster_inv_def by (simp, metis)
next
  case (tick dt c)
  then have "fmt3 (wall c + SPIDER_TASK_LEASE cfg) \<le> fmt3 (wall c + dt + SPIDER_TASK_LEASE cfg)" by (intro fmt3_mono) simp
  with tick show ?case by (fastforce simp: cluster_inv_def)
qed (auto simp: cluster_inv_def)

lemma cluster_inv_reach:
  assumes "0 < SPIDER_TASK_LEASE cfg" "reach R cfg name c0 c" "cluster_inv view cfg name c0"
  shows "cluster_inv view cfg name c"
  using assms(2,3) by (induction rule: reach.induct) (auto intro: cluster_inv_step [OF assms(1)])

end

section \<open>Properties\<close>


lemma fold_zadd_faults: "faults (fold (\<lambda>m. mini_zadd k m d) ms s) = faults s"
  by (induction ms arbitrary: s) (simp_all add: mini_zadd_def)

lemma take_faults: "faults s = [] \<Longrightarrow> faults (snd (rq_take mini cfg name now o' n s)) = []"
  by (simp add: rq_take_def Let_def rcall_def mini_sel mini_conn_def take_lua_def mini_zpopmin_def fold_zadd_faults)

lemma run_put_take_kill:
  "\<exists>c. reach mini default_setting ''s'' (start_cluster mini_empty 1000) c \<and> submitted c = {payload req_a}
     \<and> acked c = {} \<and> nodes c 0 = [] \<and> faults (srv c) = []
     \<and> dom (zsets (mini_view (srv c)) (inflight_key ''s'')) \<subseteq> {payload req_a}"
proof -
  let ?c0 = "start_cluster mini_empty 1000"
  obtain u s1 where p: "rq_put mini ''s'' req_a (srv ?c0) = (Inr u, s1)"
    by (simp add: start_cluster_def rq_put_def rcall_def mini_sel mini_conn_def mini_empty_def)
  let ?c1 = "?c0\<lparr>srv := s1, submitted := insert (payload req_a) (submitted ?c0), acked := acked ?c0 - {payload req_a}\<rparr>"
  have s1: "s1 = one_task_server" using p by (simp add: one_task_server_def start_cluster_def)
  obtain s2 where t: "rq_take mini default_setting ''s'' (wall ?c1) (next_oid ?c1) 10 (srv ?c1)
      = (Inr [(wire_request 0 req_a)\<lparr>lease_token := Some (payload req_a)\<rparr>], s2)"
    using mini.take_single [OF one_task_server_queue req_a_wf one_task_server_conn, of default_setting 1000 0 10]
    by (auto simp: s1 start_cluster_def default_lease)
  let ?r = "(wire_request 0 req_a)\<lparr>lease_token := Some (payload req_a)\<rparr>"
  let ?c2 = "?c1\<lparr>srv := s2, nodes := (nodes ?c1)(0 := nodes ?c1 0 @ [?r]), next_oid := next_oid ?c1 + length [?r]\<rparr>"
  have "reach mini default_setting ''s'' ?c0 (?c2\<lparr>nodes := (nodes ?c2)(0 := [])\<rparr>)"
    by (rule reach.step [OF reach.step [OF reach.step [OF reach.refl cstep.put_answered [OF p]]
          cstep.take_answered [OF t, where i = 0]] cstep.killed])
  moreover have "faults s2 = []"
    using take_faults [of one_task_server default_setting "''s''" 1000 0 10] t
    by (simp add: s1 start_cluster_def one_task_server_def rq_put_def rcall_def mini_sel mini_conn_def mini_empty_def mini_zadd_def)
  moreover have "tasks_of (mini_view s2) ''s'' = tasks_of (mini_view one_task_server) ''s''"
    using mini.rq_take_tasks [OF t] by (simp add: s1 start_cluster_def default_lease)
  moreover have "tasks_of (mini_view one_task_server) ''s'' = {payload req_a}"
    using mini.put_inflight [of "''s''" req_a mini_empty]
    by (simp add: tasks_of_def one_task_server_queue) (simp add: one_task_server_def mini_view_def mini_empty_def)
  ultimately show ?thesis
    by (intro exI conjI) (assumption, auto simp: start_cluster_def tasks_of_def)
qed




end
