(* ===== verification/Py_Str.thy ===== *)
theory Py_Str
  imports Netspy_Prelude
begin

text \<open>
  The string operations of Python that the components use: \<^verbatim>\<open>strip\<close>, \<^verbatim>\<open>in\<close>, \<^verbatim>\<open>startswith\<close>, \<^verbatim>\<open>lower\<close>, \<^verbatim>\<open>split\<close> at the first
  separator and \<^verbatim>\<open>splitlines\<close>.  A character is one code point below 256.
\<close>

definition is_space :: "char \<Rightarrow> bool" where
  "is_space c = (let n = (of_char c :: nat) in n = 32 \<or> 9 \<le> n \<and> n \<le> 13 \<or> 28 \<le> n \<and> n \<le> 31 \<or> n = 133 \<or> n = 160)"

definition lstrip :: "string \<Rightarrow> string" where
  "lstrip s = dropWhile is_space s"

definition rstrip :: "string \<Rightarrow> string" where
  "rstrip s = rev (dropWhile is_space (rev s))"

definition strip :: "string \<Rightarrow> string" where
  "strip s = rstrip (lstrip s)"

fun is_prefix :: "string \<Rightarrow> string \<Rightarrow> bool" where
  "is_prefix [] s = True"
| "is_prefix (c # cs) [] = False"
| "is_prefix (c # cs) (d # ds) = (c = d \<and> is_prefix cs ds)"

fun contains :: "string \<Rightarrow> string \<Rightarrow> bool" where
  "contains m [] = (m = [])"
| "contains m (c # cs) = (is_prefix m (c # cs) \<or> contains m cs)"

definition lower_of :: "char \<Rightarrow> char" where
  "lower_of c = (let n = (of_char c :: nat) in if 65 \<le> n \<and> n \<le> 90 then char_of (n + 32) else c)"

definition ascii_lower :: "string \<Rightarrow> string" where
  "ascii_lower s = map lower_of s"

text \<open>\<open>s.partition(sep)\<close>, with \<open>None\<close> when the separator does not occur.\<close>

fun split_at :: "string \<Rightarrow> string \<Rightarrow> (string \<times> string) option" where
  "split_at sep [] = (if sep = [] then Some ([], []) else None)"
| "split_at sep (c # cs) =
     (if is_prefix sep (c # cs) then Some ([], drop (length sep) (c # cs))
      else map_option (\<lambda>(a, b). (c # a, b)) (split_at sep cs))"

text \<open>\<^verbatim>\<open>s.split(sep, 1)[-1]\<close> and \<^verbatim>\<open>s.split(sep, 1)[0]\<close>.\<close>

definition after_sep :: "string \<Rightarrow> string \<Rightarrow> string" where
  "after_sep sep s = (case split_at sep s of None \<Rightarrow> s | Some (a, b) \<Rightarrow> b)"

definition before_sep :: "string \<Rightarrow> string \<Rightarrow> string" where
  "before_sep sep s = (case split_at sep s of None \<Rightarrow> s | Some (a, b) \<Rightarrow> a)"

text \<open>\<open>splitlines\<close>, except that a carriage return followed by a line feed ends two lines, the second one empty: the
  callers skip empty lines.\<close>

definition is_newline :: "char \<Rightarrow> bool" where
  "is_newline c = (let n = (of_char c :: nat) in 10 \<le> n \<and> n \<le> 13 \<or> 28 \<le> n \<and> n \<le> 30 \<or> n = 133)"

fun split_lines :: "string \<Rightarrow> string list" where
  "split_lines [] = []"
| "split_lines (c # cs) =
     (if is_newline c then [] # split_lines cs
      else (case split_lines cs of [] \<Rightarrow> [[c]] | l # ls \<Rightarrow> if cs \<noteq> [] \<and> is_newline (hd cs) then [c] # ls else (c # l) # ls))"

lemma split_at_None_iff: "sep \<noteq> [] \<Longrightarrow> split_at sep s = None \<longleftrightarrow> \<not> contains sep s"
  by (induction sep s rule: split_at.induct) auto

lemma after_sep_absent: "sep \<noteq> [] \<Longrightarrow> \<not> contains sep s \<Longrightarrow> after_sep sep s = s"
  using split_at_None_iff [of sep s] by (simp add: after_sep_def)

end
