(* ===== verification/Py_Num.thy ===== *)
theory Py_Num
  imports Py_Json Py_Str
begin

text \<open>
  Numbers as text: \<^verbatim>\<open>f"{x:.3f}"\<close>, which the heartbeats and the lease deadlines are written with, and \<^verbatim>\<open>int(s)\<close>, \<^verbatim>\<open>float(s)\<close>, which read
  heartbeats and environment variables.  The main fact is that a written time reads back as its value to the millisecond.
\<close>

section \<open>Reading and writing numbers\<close>

text \<open>\<^verbatim>\<open>f"{x:.3f}"\<close> as text, for the rounded number of thousandths.\<close>

definition pad3 :: "nat \<Rightarrow> string" where
  "pad3 n = [digit_char (n div 100 mod 10), digit_char (n div 10 mod 10), digit_char (n mod 10)]"

definition show_fixed3 :: "real \<Rightarrow> string" where
  "show_fixed3 x =
     (let m = round_half_even (x * 1000); a = nat \<bar>m\<bar>
      in (if m < 0 then ''-'' else []) @ show_nat (a div 1000) @ ''.'' @ pad3 (a mod 1000))"

text \<open>\<open>int(s)\<close> and \<open>float(s)\<close> (\<open>None\<close>: \<open>ValueError\<close>): surrounding white space, a sign, digits with single underscores between them,
  and for \<open>float\<close> a fraction and an exponent.  Digits outside ASCII and the words for infinity and \<^verbatim>\<open>nan\<close> are not read.\<close>

definition read_digits :: "string \<Rightarrow> nat option" where
  "read_digits s =
     (if s \<noteq> [] \<and> list_all (\<lambda>c. is_digit c \<or> c = CHR ''_'') s \<and> is_digit (hd s) \<and> is_digit (last s) \<and> \<not> contains ''__'' s
      then Some (read_nat (filter is_digit s)) else None)"

definition split_sign :: "string \<Rightarrow> bool \<times> string" where
  "split_sign s = (case s of [] \<Rightarrow> (False, []) | c # cs \<Rightarrow> if c = CHR ''-'' then (True, cs) else if c = CHR ''+'' then (False, cs) else (False, s))"

definition py_int :: "string \<Rightarrow> int option" where
  "py_int s = (case split_sign (strip s) of (neg, ds) \<Rightarrow> map_option (\<lambda>n. if neg then - int n else int n) (read_digits ds))"

definition read_decimal :: "string \<Rightarrow> real option" where
  "read_decimal ds =
     (case split_at ''.'' ds of
        None \<Rightarrow> map_option real (read_digits ds)
      | Some (a, b) \<Rightarrow>
          if a = [] \<and> b = [] then None
          else (case (if a = [] then Some 0 else read_digits a, if b = [] then Some 0 else read_digits b) of
             (Some m, Some k) \<Rightarrow> Some (real m + real k / 10 ^ length (filter is_digit b))
           | _ \<Rightarrow> None))"

definition read_exponent :: "string \<Rightarrow> int option" where
  "read_exponent s = (case split_sign s of (neg, ds) \<Rightarrow> map_option (\<lambda>n. if neg then - int n else int n) (read_digits ds))"

definition py_float :: "string \<Rightarrow> real option" where
  "py_float s =
     (case split_sign (ascii_lower (strip s)) of (neg, ds) \<Rightarrow>
        map_option (\<lambda>x. if neg then - x else x)
          (case split_at ''e'' ds of
             None \<Rightarrow> read_decimal ds
           | Some (m, x) \<Rightarrow>
               (case (read_decimal m, read_exponent x) of
                  (Some v, Some e) \<Rightarrow> Some (if e < 0 then v / 10 ^ nat (- e) else v * 10 ^ nat e)
                | _ \<Rightarrow> None)))"

lemma digit_facts:
  assumes "is_digit c"
  shows "\<not> is_space c" "c \<noteq> CHR ''.''" "c \<noteq> CHR ''-''" "c \<noteq> CHR ''+''" "c \<noteq> CHR '':''" "c \<noteq> CHR ''e''" "c \<noteq> CHR ''_''" "lower_of c = c"
  using assms by (auto simp: is_digit_def is_space_def lower_of_def Let_def)

lemma strip_id: "\<not> is_space (hd s) \<Longrightarrow> \<not> is_space (last s) \<Longrightarrow> strip s = s"
  using dropWhile_eq_self_iff [of is_space s] dropWhile_eq_self_iff [of is_space "rev s"]
  by (simp add: strip_def lstrip_def rstrip_def hd_rev)

lemma split_sign_digit: "s \<noteq> [] \<Longrightarrow> is_digit (hd s) \<Longrightarrow> split_sign s = (False, s)"
  using digit_facts(3,4) [of "hd s"] by (cases s) (auto simp: split_sign_def)

lemma split_at_char: "c \<notin> set a \<Longrightarrow> split_at [c] (a @ c # b) = Some (a, b)"
  by (induction a) auto

lemma pad3_digits: "list_all is_digit (pad3 n)" "length (pad3 n) = 3" "n < 1000 \<Longrightarrow> read_nat (pad3 n) = n"
proof -
  show "list_all is_digit (pad3 n)" "length (pad3 n) = 3" by (simp_all add: pad3_def)
  assume "n < 1000"
  then have q: "n div 100 mod 10 = n div 100" by simp
  moreover have "n div 10 = n div 100 * 10 + n div 10 mod 10" using div_mult_mod_eq [of "n div 10" 10] by (simp add: div_mult2_eq [symmetric])
  moreover have "n = n div 10 * 10 + n mod 10" by simp
  ultimately have "(n div 100 mod 10 * 10 + n div 10 mod 10) * 10 + n mod 10 = n" by metis
  then show "read_nat (pad3 n) = n" unfolding read_nat_def pad3_def foldl.simps using q by simp
qed

lemma contains_char: "contains m s \<Longrightarrow> m \<noteq> [] \<Longrightarrow> hd m \<in> set s"
  by (induction m s rule: contains.induct) (auto elim: is_prefix.elims)

lemma read_digits_plain: "s \<noteq> [] \<Longrightarrow> list_all is_digit s \<Longrightarrow> read_digits s = Some (read_nat s)"
proof -
  assume s: "s \<noteq> []" "list_all is_digit s"
  then have d: "\<forall>c\<in>set s. is_digit c" by (simp add: list_all_iff)
  then have "\<not> contains ''__'' s" using contains_char [of "''__''" s] digit_facts(7) by auto
  moreover have "filter is_digit s = s" using d by (auto intro: filter_True)
  moreover have "list_all (\<lambda>c. is_digit c \<or> c = CHR ''_'') s" using d by (simp add: list_all_iff)
  ultimately show ?thesis using s d by (simp add: read_digits_def)
qed

lemma show_fixed3_parts:
  assumes "0 \<le> x"
  defines "a \<equiv> nat (round_half_even (x * 1000))"
  shows "show_fixed3 x = show_nat (a div 1000) @ ''.'' @ pad3 (a mod 1000)" "fmt3 x = real a / 1000"
proof -
  have "0 \<le> round_half_even (x * 1000)" using assms(1) round_half_even_mono [of 0 "x * 1000"] by (simp add: round_half_even_def)
  then show "show_fixed3 x = show_nat (a div 1000) @ ''.'' @ pad3 (a mod 1000)" "fmt3 x = real a / 1000"
    by (simp_all add: show_fixed3_def fmt3_def a_def Let_def)
qed

lemma py_float_show_fixed3:
  assumes "0 \<le> x"
  shows "py_float (show_fixed3 x) = Some (fmt3 x)" "CHR '':'' \<notin> set (show_fixed3 x)"
proof -
  define a where "a = nat (round_half_even (x * 1000))"
  note p = show_fixed3_parts [OF assms, folded a_def]
  let ?i = "show_nat (a div 1000)" and ?f = "pad3 (a mod 1000)"
  have di: "\<forall>c\<in>set ?i. is_digit c" "\<forall>c\<in>set ?f. is_digit c"
    using show_nat_digits [of "a div 1000"] pad3_digits(1) [of "a mod 1000"] by (simp_all add: list_all_iff)
  show "CHR '':'' \<notin> set (show_fixed3 x)" unfolding p(1) using di digit_facts(5) by fastforce
  have hd: "is_digit (hd (?i @ ''.'' @ ?f))" using di show_nat_nonempty [of "a div 1000"] by (simp add: hd_append)
  have la: "is_digit (last (?i @ ''.'' @ ?f))" by (simp add: pad3_def)
  have lo: "ascii_lower (?i @ ''.'' @ ?f) = ?i @ ''.'' @ ?f"
    unfolding ascii_lower_def using di digit_facts(8) by (intro map_idI) (auto simp: lower_of_def)
  have s: "strip (show_fixed3 x) = ?i @ ''.'' @ ?f" unfolding p(1) using hd la digit_facts(1) by (intro strip_id) auto
  have g: "split_sign (?i @ ''.'' @ ?f) = (False, ?i @ ''.'' @ ?f)"
    by (rule split_sign_digit [OF _ hd]) simp
  have noe: "split_at ''e'' (?i @ ''.'' @ ?f) = None"
    using split_at_None_iff [of "''e''"] contains_char [of "''e''" "?i @ ''.'' @ ?f"] di digit_facts(6) by fastforce
  have dot: "split_at ''.'' (?i @ ''.'' @ ?f) = Some (?i, ?f)" using split_at_char [of "CHR ''.''" ?i ?f] di digit_facts(2) by auto
  have ne0: "?f \<noteq> []" using pad3_digits(2) [of "a mod 1000"] by force
  have r: "read_digits ?i = Some (a div 1000)" "read_digits ?f = Some (a mod 1000)"
    unfolding read_digits_plain [OF show_nat_nonempty show_nat_digits] read_digits_plain [OF ne0 pad3_digits(1)]
    by (simp_all add: read_show_nat pad3_digits(3))
  have ne: "?f \<noteq> []" "length (filter is_digit ?f) = 3" by (simp_all add: pad3_def)
  have "real a = real (a div 1000) * 1000 + real (a mod 1000)" by (metis div_mult_mod_eq of_nat_add of_nat_mult of_nat_numeral)
  then have "real (a div 1000) + real (a mod 1000) / 10 ^ length (filter is_digit ?f) = fmt3 x" by (simp add: p(2) ne(2) field_simps)
  then show "py_float (show_fixed3 x) = Some (fmt3 x)" unfolding py_float_def s lo g using noe dot r ne by (simp add: read_decimal_def)
qed

lemma py_int_show_int: "py_int (show_int i) = Some i"
proof -
  have d: "\<forall>c\<in>set (show_nat n). is_digit c" for n using show_nat_digits [of n] by (simp add: list_all_iff)
  have l: "is_digit (last (show_nat n))" for n using d [of n] last_in_set [OF show_nat_nonempty [of n]] by blast
  have h: "is_digit (hd (show_nat n))" for n by (rule hd_show_nat_digit)
  have s: "strip (show_int i) = show_int i"
    by (rule strip_id) (use h l digit_facts(1) in \<open>auto simp: show_int_def is_space_def Let_def\<close>)
  have g: "split_sign (show_nat n) = (False, show_nat n)" for n
    by (rule split_sign_digit [OF show_nat_nonempty h])
  have r: "read_digits (show_nat n) = Some n" for n
    using read_digits_plain [OF show_nat_nonempty show_nat_digits [of n]] by (simp add: read_show_nat)
  show ?thesis unfolding py_int_def s by (auto simp: show_int_def g r) (simp add: split_sign_def r)
qed

end
