(* ===== verification/Heartbeat.thy ===== *)
theory Heartbeat
  imports Collector Cluster Request_Buffer Py_Num
begin

text \<open>
  The node table of a distributed spider (\<^verbatim>\<open>netspy/core/redis_scheduler.py\<close>): every node writes
  \<^verbatim>\<open><time with three decimals>:<pending>\<close> into the hash \<^verbatim>\<open><ns>:heartbeat\<close> and renews its leases; the others read the
  table to see who is alive and who still has work.
\<close>

section \<open>Names\<close>

text \<open>What \<open>RedisScheduler.__init__\<close> fixes for a node: the namespaces of the job and of the run, the scope of the
  de-duplication and the name of the node.\<close>

record sched =
  sc_job_ns :: string
  sc_run_id :: string
  sc_ns :: string
  sc_scope :: string
  sc_keep_alive :: bool
  sc_node :: string

definition resolve_dedup_scope :: "setting \<Rightarrow> string \<Rightarrow> string res" where
  "resolve_dedup_scope cfg run_id =
     (let scope = ascii_lower (strip (if DEDUP_SCOPE cfg = [] then ''auto'' else DEDUP_SCOPE cfg))
      in if scope = ''auto'' then Inr (if run_id \<noteq> [] then ''run'' else ''spider'')
         else if scope \<notin> {''run'', ''spider''} then Inl (raise_of ConfigError)
         else if scope = ''run'' \<and> run_id = [] then Inr ''spider''
         else Inr scope)"

definition new_sched :: "setting \<Rightarrow> string \<Rightarrow> string \<Rightarrow> bool option \<Rightarrow> string option \<Rightarrow> string \<Rightarrow> sched res" where
  "new_sched cfg prefix redis_key keep_alive run_id node =
     (let job = prefix @ '':'' @ redis_key; run = (case run_id of None \<Rightarrow> RUN_ID cfg | Some i \<Rightarrow> i)
      in bind_res (resolve_dedup_scope cfg run) (\<lambda>scope.
           Inr \<lparr>sc_job_ns = job, sc_run_id = run, sc_ns = (if run \<noteq> [] then job @ '':run:'' @ run else job), sc_scope = scope,
             sc_keep_alive = (case keep_alive of None \<Rightarrow> SPIDER_KEEP_ALIVE cfg | Some b \<Rightarrow> b), sc_node = node\<rparr>))"

definition dedup_ns :: "sched \<Rightarrow> string" where
  "dedup_ns sc = (if sc_scope sc = ''run'' then sc_ns sc else sc_job_ns sc)"

text \<open>The name of the item filter; \<open>None\<close>: the item buffer makes its own, under the global name.\<close>

definition item_dedup_ns :: "setting \<Rightarrow> sched \<Rightarrow> string option" where
  "item_dedup_ns cfg sc = (if \<not> ITEM_FILTER_ENABLE cfg \<or> sc_scope sc \<noteq> ''run'' then None else Some (sc_ns sc @ '':items''))"

definition heartbeat_key :: "sched \<Rightarrow> string" where "heartbeat_key sc = sc_ns sc @ '':heartbeat''"
definition seed_key :: "sched \<Rightarrow> string" where "seed_key sc = sc_ns sc @ '':lock:seed''"
definition failed_key :: "sched \<Rightarrow> string" where "failed_key sc = sc_ns sc @ '':failed_requests''"
definition runs_key :: "sched \<Rightarrow> string" where "runs_key sc = sc_job_ns sc @ '':runs''"

definition replay_staging_key :: "sched \<Rightarrow> string" where
  "replay_staging_key sc = failed_key sc @ '':replaying:'' @ sc_node sc"

definition run_keys :: "sched \<Rightarrow> filter_obj list \<Rightarrow> string list" where
  "run_keys sc dedups =
     [queue_key (sc_ns sc), inflight_key (sc_ns sc), seed_key sc, failed_key sc, replay_staging_key sc, runs_key sc]
     @ (if sc_scope sc = ''run'' then concat (map redis_keys dedups) else [])"

section \<open>One beat\<close>

text \<open>\<open>_touch_run_keys\<close>: one transaction; a failure is ignored.  (Expiry of keys that are not strings has no effect on
  the view of the server: the model covers the time in which a node of the run is alive.)\<close>

definition touch_run_keys :: "'s redis \<Rightarrow> setting \<Rightarrow> sched \<Rightarrow> filter_obj list \<Rightarrow> 's \<Rightarrow> 's" where
  "touch_run_keys R cfg sc dedups s =
     (if sc_run_id sc = [] then s
      else snd (rcall R (rdo (fold (\<lambda>k st. snd (expire_cmd R k (of_int (RUN_TTL cfg)) st)) (run_keys sc dedups))) s))"

definition register_run :: "'s redis \<Rightarrow> sched \<Rightarrow> time \<Rightarrow> 's \<Rightarrow> 's" where
  "register_run R sc now s = (if sc_run_id sc = [] then s else snd (rcall R (rdo (zadd_nx R (runs_key sc) (sc_run_id sc) now)) s))"

definition beat_value :: "time \<Rightarrow> nat \<Rightarrow> string" where
  "beat_value now pending = show_fixed3 now @ '':'' @ show_int (int pending)"

definition renew_leases :: "'s redis \<Rightarrow> setting \<Rightarrow> sched \<Rightarrow> time \<Rightarrow> coll \<Rightarrow> 's \<Rightarrow> nat \<times> 's" where
  "renew_leases R cfg sc now c s = rq_renew R cfg (sc_ns sc) now (held_requests c) s"

definition write_beat :: "'s redis \<Rightarrow> setting \<Rightarrow> sched \<Rightarrow> time \<Rightarrow> nat \<Rightarrow> 's \<Rightarrow> 's" where
  "write_beat R cfg sc now pending s =
     (case rcall R (rdo (hset_cmd R (heartbeat_key sc) (sc_node sc) (beat_value now pending))) s of
        (Inl _, s1) \<Rightarrow> s1
      | (Inr _, s1) \<Rightarrow> snd (rcall R (expire_cmd R (heartbeat_key sc) (of_int (max 2 \<lfloor>HEARTBEAT_STALE cfg * 4\<rfloor>))) s1))"

definition beat :: "'s redis \<Rightarrow> setting \<Rightarrow> sched \<Rightarrow> filter_obj list \<Rightarrow> time \<Rightarrow> nat \<Rightarrow> coll \<Rightarrow> 's \<Rightarrow> 's" where
  "beat R cfg sc dedups now pending c s =
     touch_run_keys R cfg sc dedups (snd (renew_leases R cfg sc now c (write_beat R cfg sc now pending s)))"

section \<open>Reading the node table\<close>

definition partition_colon :: "string \<Rightarrow> string \<times> string" where
  "partition_colon raw = (case split_at '':'' raw of None \<Rightarrow> (raw, []) | Some (a, b) \<Rightarrow> (a, b))"

definition beat_alive :: "setting \<Rightarrow> time \<Rightarrow> string \<Rightarrow> bool" where
  "beat_alive cfg now raw = (case py_float (fst (partition_colon raw)) of None \<Rightarrow> False | Some t \<Rightarrow> now - t \<le> HEARTBEAT_STALE cfg)"

text \<open>A live node that still has work; an entry that does not parse is skipped.\<close>

definition beat_blocks :: "setting \<Rightarrow> time \<Rightarrow> string \<Rightarrow> bool" where
  "beat_blocks cfg now raw =
     (case py_float (fst (partition_colon raw)) of None \<Rightarrow> False
      | Some t \<Rightarrow> if now - t > HEARTBEAT_STALE cfg then False
                  else (case py_int (snd (partition_colon raw)) of None \<Rightarrow> False | Some n \<Rightarrow> n > 0))"

definition live_node_count :: "'s redis \<Rightarrow> setting \<Rightarrow> sched \<Rightarrow> time \<Rightarrow> 's \<Rightarrow> nat res \<times> 's" where
  "live_node_count R cfg sc now s =
     (case rcall R (rask (hvals_cmd R (heartbeat_key sc))) s of
        (Inl e, s1) \<Rightarrow> (Inl e, s1) | (Inr vs, s1) \<Rightarrow> (Inr (length (filter (beat_alive cfg now) vs)), s1))"

definition all_nodes_idle :: "'s redis \<Rightarrow> setting \<Rightarrow> sched \<Rightarrow> time \<Rightarrow> 's \<Rightarrow> bool \<times> 's" where
  "all_nodes_idle R cfg sc now s =
     (case rcall R (rask (hvals_cmd R (heartbeat_key sc))) s of
        (Inl _, s1) \<Rightarrow> (False, s1) | (Inr vs, s1) \<Rightarrow> (\<not> list_ex (beat_blocks cfg now) vs, s1))"

section \<open>What a beat does\<close>

text \<open>The entry of a node says to every reader what the node meant, to the millisecond.\<close>

lemma partition_beat: "0 \<le> t \<Longrightarrow> partition_colon (beat_value t n) = (show_fixed3 t, show_int (int n))"
  using split_at_char [OF py_float_show_fixed3(2), of t "show_int (int n)"] by (simp add: partition_colon_def beat_value_def)

lemma beat_value_read:
  assumes "0 \<le> t"
  shows "beat_alive cfg now (beat_value t n) \<longleftrightarrow> now - fmt3 t \<le> HEARTBEAT_STALE cfg"
    "beat_blocks cfg now (beat_value t n) \<longleftrightarrow> now - fmt3 t \<le> HEARTBEAT_STALE cfg \<and> 0 < n"
  using py_float_show_fixed3(1) [OF assms] by (auto simp: beat_alive_def beat_blocks_def partition_beat [OF assms] py_int_show_int)

context redis_server
begin

lemma touch_zsets: "zsets (view (touch_run_keys R cfg sc dedups s)) = zsets (view s)"
    "hashes (view (touch_run_keys R cfg sc dedups s)) = hashes (view s)"
proof -
  have f: "zsets (view (fold (\<lambda>k st. snd (expire_cmd R k t st)) ks st)) = zsets (view st)
    \<and> hashes (view (fold (\<lambda>k st. snd (expire_cmd R k t st)) ks st)) = hashes (view st)" for ks st t
    by (induction ks arbitrary: st) (auto simp: expire_view split: option.splits)
  show "zsets (view (touch_run_keys R cfg sc dedups s)) = zsets (view s)"
    "hashes (view (touch_run_keys R cfg sc dedups s)) = hashes (view s)"
    using rcall_view [of "rdo (fold (\<lambda>k st. snd (expire_cmd R k (of_int (RUN_TTL cfg)) st)) (run_keys sc dedups))" s] f
    by (auto simp: touch_run_keys_def)
qed

lemma write_beat_zsets: "zsets (view (write_beat R cfg sc now pending s)) = zsets (view s)"
proof -
  let ?h = "rdo (hset_cmd R (heartbeat_key sc) (sc_node sc) (beat_value now pending))"
  obtain x s1 where h: "rcall R ?h s = (x, s1)" by force
  have "zsets (view s1) = zsets (view s)" using rcall_view [of ?h s] h by (auto simp: hset_view)
  moreover have "zsets (view (snd (rcall R (expire_cmd R k t) s1))) = zsets (view s1)" for k t
    using rcall_view [of "expire_cmd R k t" s1] by (auto simp: expire_view split: option.splits)
  ultimately show ?thesis by (simp add: write_beat_def h split: sum.splits)
qed

text \<open>A beat never adds to or removes from the two sorted sets of the queue.\<close>

lemma beat_queue: "zsets (view (beat R cfg sc dedups now pending c s)) (queue_key (sc_ns sc)) = zsets (view s) (queue_key (sc_ns sc))"
    "dom (zsets (view (beat R cfg sc dedups now pending c s)) (inflight_key (sc_ns sc))) = dom (zsets (view s) (inflight_key (sc_ns sc)))"
  using rq_renew_view [of cfg "sc_ns sc" now "held_requests c" "write_beat R cfg sc now pending s"]
  by (auto simp: beat_def renew_leases_def touch_zsets write_beat_zsets split: if_splits)

lemma reclaim_keeps_running:
  assumes "zsets (view s) (inflight_key name) m = Some x" "fmt3 now < x"
  shows "zsets (view (snd (rq_reclaim_expired R cfg name now limit s))) (inflight_key name) m = Some x"
proof -
  obtain k s' where r: "rq_reclaim_expired R cfg name now limit s = (k, s')" by force
  show ?thesis by (rule rq_reclaim_view [OF r]) (use assms r in \<open>auto simp: restrict_map_def\<close>)
qed

end

section \<open>Property\<close>

text \<open>C9: A live node keeps its tasks.  Whatever a node holds, buffered in the collector or handed to a worker, and still
  has on lease, keeps its lease through the beat: if the renewing call is answered at time \<open>now\<close>, no node that reclaims
  before \<open>now\<close> + lease gives the task back to the queue, and the beat itself changes neither the waiting tasks nor the set
  of tasks in flight.\<close>

theorem heartbeat_protects_held:
  assumes "redis_server R view" and "0 < SPIDER_TASK_LEASE cfg"
    and "fst (conn R (write_beat R cfg sc now pending s)) = Answered"
    and "r \<in> set (held_requests c)" and "lease_token r = Some m" and "m \<noteq> []"
    and "m \<in> dom (zsets (view s) (inflight_key (sc_ns sc)))"
    and "fmt3 later < fmt3 (now + SPIDER_TASK_LEASE cfg)"
  shows "zsets (view (snd (rq_reclaim_expired R cfg' (sc_ns sc) later limit (beat R cfg sc dedups now pending c s)))) (inflight_key (sc_ns sc)) m
      = Some (fmt3 (now + SPIDER_TASK_LEASE cfg))
    \<and> zsets (view (beat R cfg sc dedups now pending c s)) (queue_key (sc_ns sc)) = zsets (view s) (queue_key (sc_ns sc))
    \<and> dom (zsets (view (beat R cfg sc dedups now pending c s)) (inflight_key (sc_ns sc))) = dom (zsets (view s) (inflight_key (sc_ns sc)))"
proof -
  let ?w = "write_beat R cfg sc now pending s"
  have t: "m \<in> set (lease_tokens (held_requests c))" using assms(4-6) by (force simp: lease_tokens_def)
  have d: "m \<in> dom (zsets (view ?w) (inflight_key (sc_ns sc)))" using assms(7) redis_server.write_beat_zsets [OF assms(1)] by metis
  have "zsets (view (beat R cfg sc dedups now pending c s)) (inflight_key (sc_ns sc)) m = Some (fmt3 (now + SPIDER_TASK_LEASE cfg))"
    unfolding beat_def redis_server.touch_zsets [OF assms(1)] renew_leases_def
    by (rule redis_server.renew_lease [OF assms(1,3,2) t d])
  from redis_server.reclaim_keeps_running [OF assms(1) this assms(8)] show ?thesis
    using redis_server.beat_queue [OF assms(1)] by blast
qed

definition demo_sched :: sched where
  "demo_sched = \<lparr>sc_job_ns = ''s'', sc_run_id = [], sc_ns = ''s'', sc_scope = ''spider'', sc_keep_alive = False, sc_node = ''n1''\<rparr>"

theorem heartbeat_protects_held_witness:
  "zsets (mini_view (snd (rq_reclaim_expired mini default_setting ''s'' 500 500 (beat mini default_setting demo_sched [] 10 1
      \<lparr>co_buffer = [], co_in_progress = [(0, req_a\<lparr>lease_token := Some ''x''\<rparr>)]\<rparr> leased_server)))) (inflight_key ''s'') ''x'' = Some (fmt3 610)"
proof -
  let ?c = "\<lparr>co_buffer = [], co_in_progress = [(0, req_a\<lparr>lease_token := Some ''x''\<rparr>)]\<rparr>"
  have a: "fst (conn mini (write_beat mini default_setting demo_sched 10 1 leased_server)) = Answered"
    by (simp add: write_beat_def rcall_def mini_sel mini_conn_def leased_server_def mini_empty_def mini_hset_cmd_def mini_expire_cmd_def
        mini_live_def)
  have ns: "sc_ns demo_sched = ''s''" by (simp add: demo_sched_def)
  have "fmt3 500 < fmt3 (10 + SPIDER_TASK_LEASE default_setting)" by (simp add: default_lease fmt3_def round_half_even_def)
  from heartbeat_protects_held [OF mini.redis_server_axioms _ a, of "req_a\<lparr>lease_token := Some ''x''\<rparr>" ?c "''x''" 500 default_setting 500 "[]"] this
  show ?thesis unfolding ns by (simp add: held_requests_def leased_server_facts default_lease)
qed

end
