(* ===== verification/Net_Item.thy ===== *)
theory Net_Item
  imports Net_Request
begin

text \<open>
  \<^verbatim>\<open>netspy/network/item.py\<close>: the data objects a callback yields, their table name and their
  fingerprint.  \<open>repr\<close> of a value and \<open>md5\<close> are arguments.
\<close>

definition is_upper :: "char \<Rightarrow> bool" where
  "is_upper c = (let n = (of_char c :: nat) in 65 \<le> n \<and> n \<le> 90)"

definition lower_char :: "char \<Rightarrow> char" where
  "lower_char c = (if is_upper c then char_of (of_char c + 32 :: nat) else c)"

text \<open>\<open>re.sub\<close> of the boundary before every capital but the first character, then \<open>lower()\<close>.\<close>

definition to_snake :: "string \<Rightarrow> string" where
  "to_snake name = map lower_char
     (case name of [] \<Rightarrow> [] | c # cs \<Rightarrow> c # concat (map (\<lambda>d. if is_upper d then [CHR ''_'', d] else [d]) cs))"

text \<open>An attribute set on the object: a value or a callable.\<close>

datatype attr = AVal pyval | ACallable nat

text \<open>
  \<open>it_cls_\<dots>\<close> are the class attributes \<^verbatim>\<open>__table_name__\<close>, \<^verbatim>\<open>__unique_key__\<close>, \<^verbatim>\<open>__update_key__\<close>,
  \<^verbatim>\<open>__pipelines__\<close>; \<open>it_table\<close> and \<open>it_pipes\<close> are set on the instance; \<open>it_update\<close> says whether the class
  is an \<open>UpdateItem\<close>.
\<close>

record item =
  it_class :: string
  it_update :: bool
  it_cls_table :: "string option"
  it_cls_unique :: "string list option"
  it_cls_update :: "string list option"
  it_cls_pipes :: "string list option"
  it_table :: "string option"
  it_pipes :: "string list option"
  it_attrs :: "(string, attr) pydict"

definition ends_item :: "string \<Rightarrow> bool" where
  "ends_item s = (length s \<ge> 5 \<and> drop (length s - 5) s = ''_item'')"

definition table_name :: "item \<Rightarrow> string" where
  "table_name it =
     (case it_table it of Some (c # cs) \<Rightarrow> c # cs | _ \<Rightarrow>
       (case it_cls_table it of Some (c # cs) \<Rightarrow> c # cs | _ \<Rightarrow>
         (let snake = to_snake (it_class it) in if ends_item snake then take (length snake - 5) snake else snake)))"

definition item_pipelines :: "item \<Rightarrow> string list option" where
  "item_pipelines it = (case it_pipes it of Some p \<Rightarrow> Some p | None \<Rightarrow> it_cls_pipes it)"

definition update_key :: "item \<Rightarrow> string list" where
  "update_key it = (case it_cls_update it of Some (k # ks) \<Rightarrow> k # ks | _ \<Rightarrow>
     (case it_cls_unique it of Some ks \<Rightarrow> ks | None \<Rightarrow> []))"

definition fingerprint_keys :: "item \<Rightarrow> string list option" where
  "fingerprint_keys it = (if it_update it then None else it_cls_unique it)"

definition item_dict :: "item \<Rightarrow> (string, pyval) pydict" where
  "item_dict it = concat (map (\<lambda>(k, a). case a of AVal v \<Rightarrow> if take 1 k = ''_'' then [] else [(k, v)] | ACallable _ \<Rightarrow> []) (it_attrs it))"

definition item_parts :: "(pyval \<Rightarrow> string) \<Rightarrow> item \<Rightarrow> string list" where
  "item_parts repr it =
     (let data = item_dict it; keys = (case fingerprint_keys it of Some (k # ks) \<Rightarrow> k # ks | _ \<Rightarrow> sort (dkeys data));
          parts = concat (map (\<lambda>k. case dget data k of None \<Rightarrow> []
                     | Some v \<Rightarrow> if v = VNone \<or> v = VStr '''' then [] else [k @ ''='' @ repr v]) (sort keys))
      in if parts = [] then map (\<lambda>(k, v). k @ ''='' @ repr v) (sort_key fst data) else parts)"

definition item_fingerprint :: "(string \<Rightarrow> string) \<Rightarrow> (pyval \<Rightarrow> string) \<Rightarrow> item \<Rightarrow> string" where
  "item_fingerprint md5 repr it = get_fingerprint md5 (VStr (table_name it) # map VStr (item_parts repr it))"

text \<open>What \<open>_to_snake\<close> and the derived table name give, on the examples of the documentation.\<close>

lemma to_snake_examples: "to_snake ''NewsItem'' = ''news_item''" "to_snake ''Book'' = ''book''"
  by code_simp+

lemma table_name_examples:
  "it_table it = None \<Longrightarrow> it_cls_table it = None \<Longrightarrow> it_class it = ''NewsItem'' \<Longrightarrow> table_name it = ''news''"
  "it_table it = None \<Longrightarrow> it_cls_table it = None \<Longrightarrow> it_class it = ''Book'' \<Longrightarrow> table_name it = ''book''"
  by (simp_all add: table_name_def to_snake_examples ends_item_def Let_def)

text \<open>
  An \<open>UpdateItem\<close> is fingerprinted over all its non-empty fields: two updates of the same table whose
  \<open>key=value\<close> parts differ are hashed from different part lists, whatever \<^verbatim>\<open>__unique_key__\<close> says.
\<close>

lemma update_item_parts:
  assumes "it_update it" "\<exists>k v. dget (item_dict it) k = Some v \<and> v \<noteq> VNone \<and> v \<noteq> VStr ''''"
  shows "item_parts repr it = concat (map (\<lambda>k. case dget (item_dict it) k of None \<Rightarrow> []
     | Some v \<Rightarrow> if v = VNone \<or> v = VStr '''' then [] else [k @ ''='' @ repr v]) (sort (dkeys (item_dict it))))"
proof -
  obtain k v where "dget (item_dict it) k = Some v" "v \<noteq> VNone" "v \<noteq> VStr ''''" using assms(2) by blast
  moreover from this have "k \<in> set (dkeys (item_dict it))" using dget_None_iff [of "item_dict it" k] by auto
  ultimately have "concat (map (\<lambda>k. case dget (item_dict it) k of None \<Rightarrow> []
     | Some v \<Rightarrow> if v = VNone \<or> v = VStr '''' then [] else [k @ ''='' @ repr v]) (sort (dkeys (item_dict it)))) \<noteq> []"
    by (auto intro!: bexI [of _ k])
  then show ?thesis using assms(1) by (auto simp: item_parts_def Let_def fingerprint_keys_def sorted_sort_id)
qed

end
