(* ===== verification/Item_Buffer.thy ===== *)
theory Item_Buffer
  imports Net_Item Request_Buffer
begin

text \<open>
  \<^verbatim>\<open>netspy/buffer/item_buffer.py\<close>: yielded data waits in \<open>_pending\<close> with the request that produced it;
  \<open>flush\<close> normalises, de-duplicates, groups by (table, update, pipelines), writes each group to its pipelines or
  dumps it to the failed-items file, and only then acknowledges the producing requests.

  Pipelines, the item filter, the file system, user hooks and the acknowledgement act on a world \<open>'w\<close> and are
  passed as a record.  The locale \<open>item_store\<close> states what flush relies on: a write that returns \<open>True\<close> has
  stored its rows, a dump that returns has appended its lines, and nothing stored is taken back.
\<close>

section \<open>Objects, rows\<close>

datatype yobj = OItem item | ODict "(string, pyval) pydict" | OOther nat

record norm =
  n_table :: string
  n_update :: bool
  n_data :: "(string, pyval) pydict"
  n_fp :: "string option"
  n_keys :: "string list"
  n_pipes :: "string list option"

record 'w item_env =
  e_md5 :: "string \<Rightarrow> string"
  e_repr :: "pyval \<Rightarrow> string"
  e_pre :: "item \<Rightarrow> item res"
  e_get :: "string \<Rightarrow> 'w \<Rightarrow> bool res \<times> 'w"
  e_add :: "string \<Rightarrow> 'w \<Rightarrow> bool res \<times> 'w"
  e_load :: "string \<Rightarrow> 'w \<Rightarrow> unit res \<times> 'w"
  e_write :: "string \<Rightarrow> string \<Rightarrow> bool \<Rightarrow> (string, pyval) pydict list \<Rightarrow> string list \<Rightarrow> 'w \<Rightarrow> bool res \<times> 'w"
  e_dump :: "string list \<Rightarrow> 'w \<Rightarrow> unit res \<times> 'w"
  e_hook :: "nat \<Rightarrow> 'w \<Rightarrow> unit res \<times> 'w"
  e_ack :: "(request \<Rightarrow> 'w \<Rightarrow> unit res \<times> 'w) option"
  e_handler :: "(yobj list \<Rightarrow> 'w \<Rightarrow> unit res \<times> 'w) option"

text \<open>\<open>_normalize\<close>; \<open>pre_to_db\<close> is the user's hook and may raise.\<close>

definition normalize_obj :: "setting \<Rightarrow> 'w item_env \<Rightarrow> yobj \<Rightarrow> norm res" where
  "normalize_obj cfg E ob =
     (case ob of
        OItem it0 \<Rightarrow> bind_res (e_pre E it0) (\<lambda>it. Inr \<lparr>n_table = table_name it, n_update = it_update it, n_data = item_dict it,
           n_fp = (if ITEM_FILTER_ENABLE cfg then Some (item_fingerprint (e_md5 E) (e_repr E) it) else None),
           n_keys = (if it_update it then update_key it else []),
           n_pipes = (case item_pipelines it of Some (p # ps) \<Rightarrow> Some (p # ps) | _ \<Rightarrow> None)\<rparr>)
      | ODict d \<Rightarrow> Inr \<lparr>n_table = ITEM_DEFAULT_TABLE cfg, n_update = False, n_data = d, n_fp = None, n_keys = [], n_pipes = None\<rparr>
      | OOther _ \<Rightarrow> Inl (raise_of ItemError))"

type_synonym gkey = "string \<times> bool \<times> string list option"

definition group_key :: "norm \<Rightarrow> gkey" where
  "group_key n = (n_table n, n_update n, n_pipes n)"

definition group_add :: "norm \<Rightarrow> (gkey, norm list) pydict \<Rightarrow> (gkey, norm list) pydict" where
  "group_add n gs = dset gs (group_key n) ((case dget gs (group_key n) of None \<Rightarrow> [] | Some rows \<Rightarrow> rows) @ [n])"

section \<open>\<open>_persist\<close>\<close>

text \<open>Is a fingerprint a duplicate?  A failing query counts as no, and marks the batch degraded.\<close>

definition is_duplicate :: "'w item_env \<Rightarrow> string \<Rightarrow> string list \<Rightarrow> 'w \<Rightarrow> (bool \<times> bool) \<times> 'w" where
  "is_duplicate E fp seen w =
     (if fp \<in> set seen then ((True, False), w)
      else case e_get E fp w of (Inl _, w1) \<Rightarrow> ((False, True), w1) | (Inr d, w1) \<Rightarrow> ((d, False), w1))"

fun group_rows :: "setting \<Rightarrow> 'w item_env \<Rightarrow> yobj list \<Rightarrow> string list \<Rightarrow> (gkey, norm list) pydict \<Rightarrow> bool \<Rightarrow> stats \<Rightarrow> 'w
    \<Rightarrow> ((gkey, norm list) pydict \<times> bool) res \<times> stats \<times> 'w" where
  "group_rows cfg E [] seen gs deg st w = (Inr (gs, deg), st, w)"
| "group_rows cfg E (ob # obs) seen gs deg st w =
     (case normalize_obj cfg E ob of
        Inl e \<Rightarrow> (Inl e, st, w)
      | Inr n \<Rightarrow>
          (case n_fp n of
             None \<Rightarrow> group_rows cfg E obs seen (group_add n gs) deg st w
           | Some fp \<Rightarrow>
               (case is_duplicate E fp seen w of ((dup, d), w1) \<Rightarrow>
                  if dup then group_rows cfg E obs seen gs (deg \<or> d) (stats_incr ''item_dedup_dropped'' 1 st) w1
                  else group_rows cfg E obs (fp # seen) (group_add n gs) (deg \<or> d) st w1)))"

text \<open>\<open>all(self._write(...) for pipeline in pipelines)\<close>: stops at the first failure; \<open>_write\<close> catches.\<close>

fun write_all :: "'w item_env \<Rightarrow> string list \<Rightarrow> string \<Rightarrow> bool \<Rightarrow> (string, pyval) pydict list \<Rightarrow> string list \<Rightarrow> 'w \<Rightarrow> bool \<times> 'w" where
  "write_all E [] t u ds ks w = (True, w)"
| "write_all E (p # ps) t u ds ks w =
     (case e_write E p t u ds ks w of (Inr True, w1) \<Rightarrow> write_all E ps t u ds ks w1 | (_, w1) \<Rightarrow> (False, w1))"

fun add_fps :: "'w item_env \<Rightarrow> norm list \<Rightarrow> 'w \<Rightarrow> bool \<times> 'w" where
  "add_fps E [] w = (False, w)"
| "add_fps E (n # ns) w =
     (case n_fp n of None \<Rightarrow> add_fps E ns w
      | Some fp \<Rightarrow> (case e_add E fp w of (Inl _, w1) \<Rightarrow> (True, w1) | (Inr _, w1) \<Rightarrow> add_fps E ns w1))"

text \<open>One line of the failed-items file, with what a replay needs.\<close>

definition dump_line :: "string \<Rightarrow> string list \<Rightarrow> string list option \<Rightarrow> (string, pyval) pydict \<Rightarrow> string" where
  "dump_line t uks pipes d = dumps_json (VDict ([(''table'', VStr t), (''data'', VDict d)]
      @ (if uks = [] then [] else [(''update_keys'', VList (map VStr uks))])
      @ (case pipes of Some (p # ps) \<Rightarrow> [(''pipelines'', VList (map VStr (p # ps)))] | _ \<Rightarrow> [])))"

text \<open>\<open>_resolve_pipelines\<close>: the instances are built once per path tuple.\<close>

definition pipe_paths :: "setting \<Rightarrow> string list option \<Rightarrow> string list option \<Rightarrow> string list" where
  "pipe_paths cfg own paths = (case paths of Some ps \<Rightarrow> ps | None \<Rightarrow> (case own of Some ps \<Rightarrow> ps | None \<Rightarrow> ITEM_PIPELINES cfg))"

fun load_all :: "'w item_env \<Rightarrow> string list \<Rightarrow> 'w \<Rightarrow> unit res \<times> 'w" where
  "load_all E [] w = (Inr (), w)"
| "load_all E (p # ps) w = (case e_load E p w of (Inl e, w1) \<Rightarrow> (Inl e, w1) | (Inr _, w1) \<Rightarrow> load_all E ps w1)"

record ibuf =
  ib_pending :: "(yobj \<times> request option) list"
  ib_after :: "(nat, nat list) pydict"
  ib_cache :: "string list list"
  ib_paths :: "string list option"
  ib_stats :: stats

definition resolve_pipelines :: "'w item_env \<Rightarrow> string list \<Rightarrow> ibuf \<Rightarrow> 'w \<Rightarrow> unit res \<times> ibuf \<times> 'w" where
  "resolve_pipelines E key b w =
     (if key \<in> set (ib_cache b) then (Inr (), b, w)
      else case load_all E key w of
        (Inl e, w1) \<Rightarrow> (Inl e, b, w1)
      | (Inr _, w1) \<Rightarrow> (Inr (), b\<lparr>ib_cache := key # ib_cache b\<rparr>, w1))"

fun save_groups :: "setting \<Rightarrow> 'w item_env \<Rightarrow> (gkey, norm list) pydict \<Rightarrow> bool \<Rightarrow> ibuf \<Rightarrow> 'w \<Rightarrow> bool res \<times> ibuf \<times> 'w" where
  "save_groups cfg E [] deg b w = (Inr deg, b, w)"
| "save_groups cfg E (((t, u, pp), rows) # gs) deg b w =
     (let ds = map n_data rows; uks = n_keys (hd rows); paths = pipe_paths cfg (ib_paths b) pp
      in case resolve_pipelines E paths b w of
           (Inl e, b1, w1) \<Rightarrow> (Inl e, b1, w1)
         | (Inr _, b1, w1) \<Rightarrow>
             (case write_all E paths t u ds uks w1 of
                (True, w2) \<Rightarrow>
                  let b2 = b1\<lparr>ib_stats := stats_incr ''item'' (int (length ds)) (ib_stats b1)\<rparr>
                  in if ITEM_FILTER_ENABLE cfg
                     then (case add_fps E rows w2 of (d, w3) \<Rightarrow> save_groups cfg E gs (deg \<or> d) b2 w3)
                     else save_groups cfg E gs deg b2 w2
              | (False, w2) \<Rightarrow>
                  (case e_dump E (map (dump_line t (if u then uks else []) pp) ds) w2 of
                     (Inl e, w3) \<Rightarrow> (Inl e, b1, w3)
                   | (Inr _, w3) \<Rightarrow>
                       save_groups cfg E gs deg (b1\<lparr>ib_stats := stats_incr ''item_failed'' (int (length ds)) (ib_stats b1)\<rparr>) w3)))"

definition persist :: "setting \<Rightarrow> 'w item_env \<Rightarrow> yobj list \<Rightarrow> ibuf \<Rightarrow> 'w \<Rightarrow> unit res \<times> ibuf \<times> 'w" where
  "persist cfg E obs b w =
     (case group_rows cfg E obs [] [] False (ib_stats b) w of
        (Inl e, st, w1) \<Rightarrow> (Inl e, b\<lparr>ib_stats := st\<rparr>, w1)
      | (Inr (gs, deg), st, w1) \<Rightarrow>
          (case save_groups cfg E gs deg (b\<lparr>ib_stats := st\<rparr>) w1 of
             (Inl e, b2, w2) \<Rightarrow> (Inl e, b2, w2)
           | (Inr deg', b2, w2) \<Rightarrow>
               (Inr (), if deg' then b2\<lparr>ib_stats := stats_incr ''dedup_degraded'' 1 (ib_stats b2)\<rparr> else b2, w2)))"

section \<open>\<open>flush\<close>\<close>

fun run_hooks :: "'w item_env \<Rightarrow> nat list \<Rightarrow> 'w \<Rightarrow> 'w" where
  "run_hooks E [] w = w"
| "run_hooks E (h # hs) w = run_hooks E hs (snd (e_hook E h w))"

text \<open>\<open>_ack_all\<close>: per owner the hooks registered for it, then the acknowledgement; both swallow exceptions.\<close>

fun ack_all :: "'w item_env \<Rightarrow> request list \<Rightarrow> ibuf \<Rightarrow> 'w \<Rightarrow> ibuf \<times> 'w" where
  "ack_all E [] b w = (b, w)"
| "ack_all E (r # rs) b w =
     (let w1 = run_hooks E (case dget (ib_after b) (oid r) of None \<Rightarrow> [] | Some hs \<Rightarrow> hs) w;
          w2 = (case e_ack E of None \<Rightarrow> w1 | Some ack \<Rightarrow> snd (ack r w1))
      in ack_all E rs (b\<lparr>ib_after := ddel (ib_after b) (oid r)\<rparr>) w2)"

text \<open>\<open>{id(owner): owner \<dots>}\<close>: one entry per producing request.\<close>

fun owners_of :: "(yobj \<times> request option) list \<Rightarrow> (nat, request) pydict \<Rightarrow> (nat, request) pydict" where
  "owners_of [] acc = acc"
| "owners_of ((ob, None) # bs) acc = owners_of bs acc"
| "owners_of ((ob, Some r) # bs) acc = owners_of bs (dset acc (oid r) r)"

definition batch_owners :: "(yobj \<times> request option) list \<Rightarrow> request list" where
  "batch_owners batch = map snd (owners_of batch [])"

definition ibuf_flush :: "setting \<Rightarrow> 'w item_env \<Rightarrow> ibuf \<Rightarrow> 'w \<Rightarrow> unit res \<times> ibuf \<times> 'w" where
  "ibuf_flush cfg E b w =
     (let batch = ib_pending b; b0 = b\<lparr>ib_pending := []\<rparr>; obs = map fst batch; owners = batch_owners batch
      in if batch = [] then (Inr (), b0, w)
         else case e_handler E of
           Some handler \<Rightarrow>
             (case handler obs w of
                (Inl e, w1) \<Rightarrow> (Inl e, b0, w1)
              | (Inr _, w1) \<Rightarrow>
                  (case ack_all E owners (b0\<lparr>ib_stats := stats_incr ''item'' (int (length obs)) (ib_stats b0)\<rparr>) w1 of
                     (b1, w2) \<Rightarrow> (Inr (), b1, w2)))
         | None \<Rightarrow>
             (case persist cfg E obs b0 w of
                (Inl _, b1, w1) \<Rightarrow> (Inr (), b1, w1)
              | (Inr _, b1, w1) \<Rightarrow> (case ack_all E owners b1 w1 of (b2, w2) \<Rightarrow> (Inr (), b2, w2))))"

definition ibuf_put :: "setting \<Rightarrow> 'w item_env \<Rightarrow> yobj \<Rightarrow> request option \<Rightarrow> ibuf \<Rightarrow> 'w \<Rightarrow> unit res \<times> ibuf \<times> 'w" where
  "ibuf_put cfg E ob owner b w =
     (let b1 = b\<lparr>ib_pending := ib_pending b @ [(ob, owner)]\<rparr>
      in if int (length (ib_pending b1)) \<ge> ITEM_MAX_CACHED_COUNT cfg then ibuf_flush cfg E b1 w else (Inr (), b1, w))"

definition ibuf_owns :: "request \<Rightarrow> ibuf \<Rightarrow> bool" where
  "ibuf_owns r b = list_ex (\<lambda>(_, o'). case o' of None \<Rightarrow> False | Some r' \<Rightarrow> oid r' = oid r) (ib_pending b)"

definition after_persist :: "request \<Rightarrow> nat \<Rightarrow> ibuf \<Rightarrow> ibuf" where
  "after_persist r h b = b\<lparr>ib_after := dset (ib_after b) (oid r) ((case dget (ib_after b) (oid r) of None \<Rightarrow> [] | Some hs \<Rightarrow> hs) @ [h])\<rparr>"

definition after_persist_if_pending :: "request \<Rightarrow> nat \<Rightarrow> ibuf \<Rightarrow> bool \<times> ibuf" where
  "after_persist_if_pending r h b = (if ibuf_owns r b then (True, after_persist r h b) else (False, b))"

definition ibuf_is_empty :: "ibuf \<Rightarrow> bool" where
  "ibuf_is_empty b = (ib_pending b = [])"

definition ibuf_pending_count :: "ibuf \<Rightarrow> nat" where
  "ibuf_pending_count b = length (ib_pending b)"

text \<open>\<open>close\<close>: every cached pipeline list is closed, one pipeline after the other, whatever a \<open>close\<close> raises.\<close>

definition ibuf_close :: "(string \<Rightarrow> 'w \<Rightarrow> unit res \<times> 'w) \<Rightarrow> ibuf \<Rightarrow> 'w \<Rightarrow> ibuf \<times> 'w" where
  "ibuf_close close_pipe b w =
     (b\<lparr>ib_cache := []\<rparr>, fold (\<lambda>p w. snd (close_pipe p w)) (concat (rev (ib_cache b))) w)"

lemma ibuf_close_keeps_pending: "ib_pending (fst (ibuf_close cl b w)) = ib_pending b"
  by (simp add: ibuf_close_def)

section \<open>What \<open>flush\<close> relies on\<close>

locale item_store =
  fixes E :: "'w item_env" and saved :: "'w \<Rightarrow> string \<Rightarrow> string \<Rightarrow> (string, pyval) pydict \<Rightarrow> bool"
    and dumped :: "'w \<Rightarrow> string \<Rightarrow> bool" and has :: "'w \<Rightarrow> string \<Rightarrow> bool"
  assumes write_saved: "e_write E p t u ds ks w = (Inr True, w') \<Longrightarrow> d \<in> set ds \<Longrightarrow> saved w' p t d"
    and dump_dumped: "e_dump E ls w = (Inr x, w') \<Longrightarrow> l \<in> set ls \<Longrightarrow> dumped w' l"
    and get_has: "e_get E fp w = (Inr True, w') \<Longrightarrow> has w' fp"
    and saved_keep: "saved w p t d \<Longrightarrow> saved (snd (e_write E p' t' u ds ks w)) p t d"
      "saved w p t d \<Longrightarrow> saved (snd (e_dump E ls w)) p t d" "saved w p t d \<Longrightarrow> saved (snd (e_get E fp w)) p t d"
      "saved w p t d \<Longrightarrow> saved (snd (e_add E fp w)) p t d" "saved w p t d \<Longrightarrow> saved (snd (e_load E p' w)) p t d"
    and dumped_keep: "dumped w l \<Longrightarrow> dumped (snd (e_write E p' t' u ds ks w)) l"
      "dumped w l \<Longrightarrow> dumped (snd (e_dump E ls w)) l" "dumped w l \<Longrightarrow> dumped (snd (e_get E fp w)) l"
      "dumped w l \<Longrightarrow> dumped (snd (e_add E fp w)) l" "dumped w l \<Longrightarrow> dumped (snd (e_load E p' w)) l"
    and has_keep: "has w k \<Longrightarrow> has (snd (e_write E p' t' u ds ks w)) k"
      "has w k \<Longrightarrow> has (snd (e_dump E ls w)) k" "has w k \<Longrightarrow> has (snd (e_get E fp w)) k"
      "has w k \<Longrightarrow> has (snd (e_add E fp w)) k" "has w k \<Longrightarrow> has (snd (e_load E p' w)) k"

definition rows_of :: "(gkey, norm list) pydict \<Rightarrow> norm set" where
  "rows_of gs = (\<Union>(k, rows)\<in>set gs. set rows)"

definition well_grouped :: "(gkey, norm list) pydict \<Rightarrow> bool" where
  "well_grouped gs \<longleftrightarrow> (\<forall>(k, rows)\<in>set gs. \<forall>n\<in>set rows. group_key n = k)"

lemma set_dset: "set (dset d k v) \<subseteq> insert (k, v) (set d)" "(k, v) \<in> set (dset d k v)"
  by (induction d k v rule: dset.induct) auto

lemma set_dset_other: "(k', v') \<in> set d \<Longrightarrow> k' \<noteq> k \<Longrightarrow> (k', v') \<in> set (dset d k v)"
  by (induction d k v rule: dset.induct) auto

lemma set_dset_keys: "distinct (dkeys d) \<Longrightarrow> (k, v0) \<in> set d \<Longrightarrow> dget d k = Some v0"
  by (rule dget_in_set)

lemma group_add_grouped: "well_grouped gs \<Longrightarrow> well_grouped (group_add n gs)"
  using set_dset(1) [of gs "group_key n"] dget_Some_in [of gs "group_key n"]
  unfolding group_add_def well_grouped_def by (fastforce split: option.splits)

lemma group_add_distinct: "distinct (dkeys (group_add n gs)) = distinct (dkeys gs)"
  by (simp add: group_add_def)

lemma rows_ofI: "(k, rows) \<in> set gs \<Longrightarrow> x \<in> set rows \<Longrightarrow> x \<in> rows_of gs"
  by (force simp: rows_of_def)

lemma group_add_rows: "distinct (dkeys gs) \<Longrightarrow> insert n (rows_of gs) \<subseteq> rows_of (group_add n gs)"
proof
  fix x
  assume d: "distinct (dkeys gs)" and x: "x \<in> insert n (rows_of gs)"
  let ?old = "case dget gs (group_key n) of None \<Rightarrow> [] | Some rows \<Rightarrow> rows"
  have new: "(group_key n, ?old @ [n]) \<in> set (group_add n gs)" unfolding group_add_def by (rule set_dset(2))
  show "x \<in> rows_of (group_add n gs)"
  proof (cases "x = n")
    case False
    then obtain k rows where k: "(k, rows) \<in> set gs" "x \<in> set rows" using x by (auto simp: rows_of_def)
    show ?thesis
    proof (cases "k = group_key n")
      case True
      then have "?old = rows" using dget_in_set [OF d] k by simp
      then show ?thesis using rows_ofI [OF new, of x] k by simp
    next
      case False
      then have "(k, rows) \<in> set (group_add n gs)" unfolding group_add_def by (rule set_dset_other [OF k(1)])
      then show ?thesis using k(2) by (rule rows_ofI)
    qed
  qed (use rows_ofI [OF new, of x] in simp)
qed

text \<open>A row is stored: in every pipeline of its group, or in the failed-items file.\<close>

definition row_stored :: "('w \<Rightarrow> string \<Rightarrow> string \<Rightarrow> (string, pyval) pydict \<Rightarrow> bool) \<Rightarrow> ('w \<Rightarrow> string \<Rightarrow> bool)
    \<Rightarrow> setting \<Rightarrow> string list option \<Rightarrow> 'w \<Rightarrow> norm \<Rightarrow> bool" where
  "row_stored saved dumped cfg own w n \<longleftrightarrow> (\<forall>p\<in>set (pipe_paths cfg own (n_pipes n)). saved w p (n_table n) (n_data n))
     \<or> (\<exists>ks. dumped w (dump_line (n_table n) ks (n_pipes n) (n_data n)))"

text \<open>What an acknowledged batch owes each of its objects: it is stored, or it duplicates a known or stored one.\<close>

definition obj_safe :: "('w \<Rightarrow> string \<Rightarrow> string \<Rightarrow> (string, pyval) pydict \<Rightarrow> bool) \<Rightarrow> ('w \<Rightarrow> string \<Rightarrow> bool) \<Rightarrow> ('w \<Rightarrow> string \<Rightarrow> bool)
    \<Rightarrow> setting \<Rightarrow> 'w item_env \<Rightarrow> string list option \<Rightarrow> 'w \<Rightarrow> yobj \<Rightarrow> bool" where
  "obj_safe saved dumped has cfg E own w ob \<longleftrightarrow> (\<exists>n. normalize_obj cfg E ob = Inr n \<and> (row_stored saved dumped cfg own w n
     \<or> (\<exists>fp. n_fp n = Some fp \<and> (has w fp \<or> (\<exists>n'. n_fp n' = Some fp \<and> row_stored saved dumped cfg own w n')))))"

context item_store
begin

text \<open>Predicates of the world that every storage operation keeps.\<close>

definition kept :: "('w \<Rightarrow> bool) \<Rightarrow> bool" where
  "kept P \<longleftrightarrow> (\<forall>w. P w \<longrightarrow> (\<forall>p t u ds ks. P (snd (e_write E p t u ds ks w))) \<and> (\<forall>ls. P (snd (e_dump E ls w)))
     \<and> (\<forall>fp. P (snd (e_get E fp w))) \<and> (\<forall>fp. P (snd (e_add E fp w))) \<and> (\<forall>p. P (snd (e_load E p w))))"

lemma kept_facts: "kept (\<lambda>w. saved w p t d)" "kept (\<lambda>w. dumped w l)" "kept (\<lambda>w. has w k)"
  using saved_keep dumped_keep has_keep by (auto simp: kept_def)

lemma kept_ops:
  assumes "kept P" "P w"
  shows "e_write E p t u ds ks w = (r1, w1) \<Longrightarrow> P w1" "e_dump E ls w = (r2, w1) \<Longrightarrow> P w1"
    "e_get E fp w = (r3, w1) \<Longrightarrow> P w1" "e_add E fp w = (r4, w1) \<Longrightarrow> P w1" "e_load E p w = (r5, w1) \<Longrightarrow> P w1"
  using assms unfolding kept_def by (metis snd_conv)+

lemma kept_write_all: "kept P \<Longrightarrow> P w \<Longrightarrow> P (snd (write_all E ps t u ds ks w))"
proof (induction ps arbitrary: w)
  case (Cons p ps)
  obtain r w1 where r: "e_write E p t u ds ks w = (r, w1)" by force
  then have "P w1" using kept_ops(1) Cons.prems by blast
  then show ?case using Cons r by (auto split: sum.splits bool.splits)
qed simp

lemma kept_add_fps: "kept P \<Longrightarrow> P w \<Longrightarrow> P (snd (add_fps E ns w))"
proof (induction ns arbitrary: w)
  case (Cons n ns)
  show ?case
  proof (cases "n_fp n")
    case (Some fp)
    obtain r w1 where r: "e_add E fp w = (r, w1)" by force
    then have "P w1" using kept_ops(4) Cons.prems by blast
    then show ?thesis using Cons r Some by (auto split: sum.splits)
  qed (use Cons in simp)
qed simp

lemma kept_load_all: "kept P \<Longrightarrow> P w \<Longrightarrow> P (snd (load_all E ps w))"
proof (induction ps arbitrary: w)
  case (Cons p ps)
  obtain r w1 where r: "e_load E p w = (r, w1)" by force
  then have "P w1" using kept_ops(5) Cons.prems by blast
  then show ?case using Cons r by (auto split: sum.splits)
qed simp

lemma resolve_facts:
  assumes "resolve_pipelines E key b w = (r, b1, w1)"
  shows "kept P \<Longrightarrow> P w \<Longrightarrow> P w1" "ib_paths b1 = ib_paths b"
  using assms kept_load_all [of P w key] by (auto simp: resolve_pipelines_def split: if_splits prod.splits sum.splits)

lemma write_all_saved:
  "write_all E ps t u ds ks w = (True, w') \<Longrightarrow> p \<in> set ps \<Longrightarrow> d \<in> set ds \<Longrightarrow> saved w' p t d"
proof (induction ps arbitrary: w)
  case (Cons q ps)
  then obtain w1 where w1: "e_write E q t u ds ks w = (Inr True, w1)" "write_all E ps t u ds ks w1 = (True, w')"
    by (auto split: prod.splits sum.splits bool.splits)
  have "saved w1 q t d" using write_saved [OF w1(1) Cons.prems(3)] .
  then have "saved w' q t d" using kept_write_all [OF kept_facts(1), of w1 q t d ps] w1(2) by (metis snd_conv)
  then show ?case using Cons.IH [OF w1(2)] Cons.prems by auto
qed simp

abbreviation stored :: "setting \<Rightarrow> string list option \<Rightarrow> 'w \<Rightarrow> norm \<Rightarrow> bool" where
  "stored \<equiv> row_stored saved dumped"

lemma kept_stored: "kept (\<lambda>w. stored cfg own w n)"
  using kept_facts unfolding row_stored_def kept_def by fast

lemma save_groups_kept:
  assumes "kept P" "P w" "save_groups cfg E gs deg b w = (r, b', w')"
  shows "P w'"
  using assms(2,3)
proof (induction gs arbitrary: deg b w)
  case (Cons g gs)
  obtain t u pp rows where g: "g = ((t, u, pp), rows)" by (metis prod_cases3 prod.collapse)
  let ?paths = "pipe_paths cfg (ib_paths b) pp"
  obtain x b1 w1 where res: "resolve_pipelines E ?paths b w = (x, b1, w1)" by (metis prod_cases3)
  have P1: "P w1" using resolve_facts(1) [OF res assms(1) Cons.prems(1)] .
  obtain y w2 where wr: "write_all E ?paths t u (map n_data rows) (n_keys (hd rows)) w1 = (y, w2)" by force
  have P2: "P w2" using kept_write_all [OF assms(1) P1] wr by (metis snd_conv)
  have P3: "P (snd (add_fps E rows w2))" "P (snd (e_dump E ls w2))" for ls
    using kept_add_fps [OF assms(1) P2] kept_ops(2) [OF assms(1) P2] by (metis prod.collapse)+
  show ?case
    using Cons.prems(2) P1 P2 P3 Cons.IH
    by (auto simp: g res wr Let_def case_prod_unfold split: sum.splits bool.splits if_splits)
qed simp

lemma save_groups_stored:
  assumes "save_groups cfg E gs deg b w = (Inr deg', b', w')" "well_grouped gs" "n \<in> rows_of gs"
  shows "stored cfg (ib_paths b) w' n"
  using assms
proof (induction gs arbitrary: deg b w)
  case (Cons g gs)
  obtain t u pp rows where g: "g = ((t, u, pp), rows)" by (metis prod_cases3 prod.collapse)
  let ?paths = "pipe_paths cfg (ib_paths b) pp" and ?ks = "n_keys (hd rows)"
  obtain x b1 w1 where res: "resolve_pipelines E ?paths b w = (Inr x, b1, w1)"
    using Cons.prems(1) by (cases "resolve_pipelines E ?paths b w") (auto simp: g Let_def split: sum.splits)
  have b1: "ib_paths b1 = ib_paths b" by (rule resolve_facts(2) [OF res])
  obtain y w2 where wr: "write_all E ?paths t u (map n_data rows) ?ks w1 = (y, w2)" by force
  have wg: "well_grouped gs" using Cons.prems(2) by (simp add: well_grouped_def)
  have here: "n_table n = t \<and> n_pipes n = pp \<and> n_data n \<in> set (map n_data rows)" if "n \<in> set rows"
    using that Cons.prems(2) by (auto simp: g well_grouped_def group_key_def)
  show ?case
  proof (cases y)
    case True
    then obtain deg1 b2 w3 where rest: "save_groups cfg E gs deg1 b2 w3 = (Inr deg', b', w')" "ib_paths b2 = ib_paths b"
      "w3 = w2 \<or> w3 = snd (add_fps E rows w2)"
      using Cons.prems(1) by (auto simp: g res wr b1 Let_def case_prod_unfold split: if_splits)
    have "stored cfg (ib_paths b) w' n" if "n \<in> set rows"
    proof -
      have "stored cfg (ib_paths b) w2 n"
        using write_all_saved [of ?paths t u "map n_data rows" ?ks w1 w2] wr True here [OF that] by (auto simp: row_stored_def)
      then have "stored cfg (ib_paths b) w3 n" using kept_add_fps [OF kept_stored] rest(3) by blast
      then show ?thesis by (rule save_groups_kept [OF kept_stored _ rest(1)])
    qed
    then show ?thesis using Cons.IH [OF rest(1) wg] rest(2) Cons.prems(3) by (auto simp: g rows_of_def)
  next
    case False
    then obtain z b2 w3 where rest: "save_groups cfg E gs deg b2 w3 = (Inr deg', b', w')" "ib_paths b2 = ib_paths b"
      and d: "e_dump E (map (dump_line t (if u then ?ks else []) pp) (map n_data rows)) w2 = (Inr z, w3)"
      using Cons.prems(1) by (auto simp: g res wr b1 Let_def split: prod.splits sum.splits)
    have "stored cfg (ib_paths b) w' n" if "n \<in> set rows"
    proof -
      have "dumped w3 (dump_line t (if u then ?ks else []) pp (n_data n))"
        by (rule dump_dumped [OF d]) (use here [OF that] in auto)
      then have "stored cfg (ib_paths b) w3 n" using here [OF that] by (auto simp: row_stored_def)
      then show ?thesis by (rule save_groups_kept [OF kept_stored _ rest(1)])
    qed
    then show ?thesis using Cons.IH [OF rest(1) wg] rest(2) Cons.prems(3) by (auto simp: g rows_of_def)
  qed
qed (simp add: rows_of_def)

text \<open>Every object of the batch became a row, or its fingerprint is in the filter or on an earlier row.\<close>

lemma group_rows_cover:
  assumes "group_rows cfg E obs seen gs deg st w = (Inr (gs', deg'), st', w')"
    and "distinct (dkeys gs)" "well_grouped gs" "\<forall>fp\<in>set seen. \<exists>n\<in>rows_of gs. n_fp n = Some fp"
  shows "well_grouped gs' \<and> rows_of gs \<subseteq> rows_of gs' \<and> (\<forall>k. has w k \<longrightarrow> has w' k) \<and>
    (\<forall>ob\<in>set obs. \<exists>n. normalize_obj cfg E ob = Inr n \<and> (n \<in> rows_of gs'
       \<or> (\<exists>fp. n_fp n = Some fp \<and> (has w' fp \<or> (\<exists>n'\<in>rows_of gs'. n_fp n' = Some fp)))))"
  using assms
proof (induction obs arbitrary: seen gs deg st w)
  case (Cons ob obs)
  obtain n where n: "normalize_obj cfg E ob = Inr n" using Cons.prems(1) by (auto split: sum.splits)
  note ga = group_add_rows [OF Cons.prems(2), of n] group_add_grouped [OF Cons.prems(3), of n] group_add_distinct [of n gs]
  show ?case
  proof (cases "n_fp n")
    case None
    have step: "group_rows cfg E obs seen (group_add n gs) deg st w = (Inr (gs', deg'), st', w')"
      using Cons.prems(1) n None by simp
    have "\<forall>k\<in>set seen. \<exists>n\<in>rows_of (group_add n gs). n_fp n = Some k" using ga(1) Cons.prems(4) by auto
    from Cons.IH [OF step _ ga(2) this] show ?thesis using ga(1,3) Cons.prems(2) n by (auto 4 4)
  next
    case (Some fp)
    obtain dup d w1 where q: "is_duplicate E fp seen w = ((dup, d), w1)" by (metis prod.collapse)
    have k1: "has w k \<Longrightarrow> has w1 k" for k
      using q has_keep(3) [of w k fp] by (auto simp: is_duplicate_def split: if_splits prod.splits sum.splits)
    show ?thesis
    proof (cases dup)
      case True
      have step: "group_rows cfg E obs seen gs (deg \<or> d) (stats_incr ''item_dedup_dropped'' 1 st) w1 = (Inr (gs', deg'), st', w')"
        using Cons.prems(1) n Some q True by simp
      have known: "fp \<in> set seen \<or> has w1 fp"
        using q True get_has [of fp w w1] by (auto simp: is_duplicate_def split: if_splits prod.splits sum.splits)
      show ?thesis using Cons.IH [OF step Cons.prems(2,3,4)] known k1 n Some Cons.prems(4) by (auto 4 4)
    next
      case False
      have step: "group_rows cfg E obs (fp # seen) (group_add n gs) (deg \<or> d) st w1 = (Inr (gs', deg'), st', w')"
        using Cons.prems(1) n Some q False by simp
      have "\<forall>k\<in>set (fp # seen). \<exists>n\<in>rows_of (group_add n gs). n_fp n = Some k"
        using ga(1) Some Cons.prems(4) by auto
      from Cons.IH [OF step _ ga(2) this] show ?thesis using ga(1,3) Cons.prems(2) k1 n by (auto 4 4)
    qed
  qed
qed auto

text \<open>After a successful \<open>_persist\<close> every object is stored, or is the duplicate of a stored or known one.\<close>

lemma persist_stores:
  assumes "persist cfg E obs b w = (Inr x, b', w')" "ob \<in> set obs"
  shows "obj_safe saved dumped has cfg E (ib_paths b) w' ob"
proof -
  obtain gs deg st w1 deg' b2 where g: "group_rows cfg E obs [] [] False (ib_stats b) w = (Inr (gs, deg), st, w1)"
    and sv: "save_groups cfg E gs deg (b\<lparr>ib_stats := st\<rparr>) w1 = (Inr deg', b2, w')"
    using assms(1) by (auto simp: persist_def split: prod.splits sum.splits)
  have cov: "well_grouped gs" "\<exists>n. normalize_obj cfg E ob = Inr n \<and> (n \<in> rows_of gs
       \<or> (\<exists>fp. n_fp n = Some fp \<and> (has w1 fp \<or> (\<exists>n'\<in>rows_of gs. n_fp n' = Some fp))))"
    using group_rows_cover [OF g] assms(2) by (auto simp: well_grouped_def dkeys_def)
  have st: "stored cfg (ib_paths b) w' n" if "n \<in> rows_of gs" for n
    using save_groups_stored [OF sv cov(1) that] by simp
  have hs: "has w' k" if "has w1 k" for k by (rule save_groups_kept [OF kept_facts(3) that sv])
  show ?thesis unfolding obj_safe_def using cov(2) st hs by blast
qed

lemma flush_stores_then_acks:
  assumes "e_handler E = None" "ib_pending b \<noteq> []" "ibuf_flush cfg E b w = (res, b', w')"
  shows "(\<exists>b1 w1. (\<forall>x\<in>set (ib_pending b). obj_safe saved dumped has cfg E (ib_paths b) w1 (fst x))
            \<and> (b', w') = ack_all E (batch_owners (ib_pending b)) b1 w1)
    \<or> (\<exists>e. persist cfg E (map fst (ib_pending b)) (b\<lparr>ib_pending := []\<rparr>) w = (Inl e, b', w'))"
proof (cases "persist cfg E (map fst (ib_pending b)) (b\<lparr>ib_pending := []\<rparr>) w")
  case (fields r b1 w1)
  show ?thesis
  proof (cases r)
    case (Inr x)
    then have "\<forall>x\<in>set (ib_pending b). obj_safe saved dumped has cfg E (ib_paths b) w1 (fst x)"
      using persist_stores [of cfg "map fst (ib_pending b)" "b\<lparr>ib_pending := []\<rparr>" w x b1 w1] fields by auto
    moreover have "(b', w') = ack_all E (batch_owners (ib_pending b)) b1 w1"
      using assms fields Inr by (auto simp: ibuf_flush_def Let_def split: prod.splits)
    ultimately show ?thesis by blast
  qed (use assms fields in \<open>auto simp: ibuf_flush_def Let_def\<close>)
qed

end

end
