(* ===== verification/Pipelines.thy ===== *)
theory Pipelines
  imports Item_Buffer
begin

text \<open>
  \<^verbatim>\<open>netspy/pipelines/csv.py\<close>, \<^verbatim>\<open>console.py\<close> and \<^verbatim>\<open>base.py\<close> over a model of the files they write, the instance
  of \<open>item_store\<close> they give, the properties of the item buffer, and \<^verbatim>\<open>netspy/commands/retry.py\<close>, which replays
  the failed-items file.
\<close>

section \<open>The files\<close>

text \<open>
  \<open>sk_csv t\<close>: the rows of \<^verbatim>\<open><table>.csv\<close> (cells; quoting is the csv module's); \<open>sk_writers t\<close>: the field names of the
  open writer; \<open>sk_disk\<close>: whether the coming file operations succeed (beyond its end they do).
\<close>

record sink =
  sk_csv :: "string \<Rightarrow> string list list"
  sk_writers :: "string \<Rightarrow> string list option"
  sk_log :: "string list"
  sk_dump :: "string list"
  sk_filter :: lite_filter
  sk_acked :: "nat list"
  sk_disk :: "bool list"

definition disk_op :: "(sink \<Rightarrow> sink) \<Rightarrow> sink \<Rightarrow> unit res \<times> sink" where
  "disk_op f w = (case sk_disk w of [] \<Rightarrow> (Inr (), f w)
     | ok # rest \<Rightarrow> if ok then (Inr (), f (w\<lparr>sk_disk := rest\<rparr>)) else (Inl (raise_of PyOSError), w\<lparr>sk_disk := rest\<rparr>))"

section \<open>CsvPipeline\<close>

text \<open>A cell: \<open>DictWriter\<close> writes \<open>str(value)\<close>, nothing for \<open>None\<close>, and \<open>restval\<close> (empty) for a missing field.\<close>

definition csv_cell :: "(string, pyval) pydict \<Rightarrow> string \<Rightarrow> string" where
  "csv_cell d f = (case dget d f of None \<Rightarrow> [] | Some VNone \<Rightarrow> [] | Some v \<Rightarrow> stringify v)"

definition csv_row :: "string list \<Rightarrow> (string, pyval) pydict \<Rightarrow> string list" where
  "csv_row flds d = map (csv_cell d) flds"

text \<open>\<open>_writer\<close>: the first batch of the process fixes the flds; an empty file gets a header.\<close>

definition csv_writer :: "string \<Rightarrow> (string, pyval) pydict \<Rightarrow> sink \<Rightarrow> string list \<times> sink" where
  "csv_writer t sample w =
     (case sk_writers w t of
        Some flds \<Rightarrow> (flds, w)
      | None \<Rightarrow>
          let flds = dkeys sample; w1 = w\<lparr>sk_writers := (sk_writers w)(t \<mapsto> flds)\<rparr>
          in (flds, if sk_csv w t = [] then w1\<lparr>sk_csv := (sk_csv w1)(t := [flds])\<rparr> else w1))"

definition csv_save_items :: "string \<Rightarrow> (string, pyval) pydict list \<Rightarrow> sink \<Rightarrow> bool res \<times> sink" where
  "csv_save_items t ds w =
     (case ds of [] \<Rightarrow> (Inr True, w)
      | d # _ \<Rightarrow>
          (case disk_op id w of
             (Inl e, w1) \<Rightarrow> (Inl e, w1)
           | (Inr _, w1) \<Rightarrow>
               (case csv_writer t d w1 of (flds, w2) \<Rightarrow>
                  (Inr True, w2\<lparr>sk_csv := (sk_csv w2)(t := sk_csv w2 t @ map (csv_row flds) ds)\<rparr>))))"

definition csv_close :: "sink \<Rightarrow> sink" where
  "csv_close w = w\<lparr>sk_writers := (\<lambda>_. None)\<rparr>"

section \<open>ConsolePipeline and the base class\<close>

definition console_line :: "string \<Rightarrow> (string, pyval) pydict \<Rightarrow> string" where
  "console_line t d = ''['' @ t @ ''] '' @ dumps_json (VDict d)"

definition upsert_line :: "string \<Rightarrow> string list \<Rightarrow> (string, pyval) pydict \<Rightarrow> string" where
  "upsert_line t ks d = ''['' @ t @ ''] upsert(by='' @ dumps_json (VList (map VStr ks)) @ '') '' @ dumps_json (VDict d)"

definition console_save_items :: "string \<Rightarrow> (string, pyval) pydict list \<Rightarrow> sink \<Rightarrow> bool res \<times> sink" where
  "console_save_items t ds w = (Inr True, w\<lparr>sk_log := sk_log w @ map (console_line t) ds\<rparr>)"

definition console_update_items :: "string \<Rightarrow> (string, pyval) pydict list \<Rightarrow> string list \<Rightarrow> sink \<Rightarrow> bool res \<times> sink" where
  "console_update_items t ds ks w = (Inr True, w\<lparr>sk_log := sk_log w @ map (upsert_line t ks) ds\<rparr>)"

definition CSV_PATH :: string where "CSV_PATH = ''netspy.pipelines.csv.CsvPipeline''"

definition CONSOLE_PATH :: string where "CONSOLE_PATH = ''netspy.pipelines.console.ConsolePipeline''"

text \<open>\<open>update_items\<close> of a pipeline that does not override it raises \<open>NotImplementedError\<close>.\<close>

definition pipeline_write :: "string \<Rightarrow> string \<Rightarrow> bool \<Rightarrow> (string, pyval) pydict list \<Rightarrow> string list \<Rightarrow> sink \<Rightarrow> bool res \<times> sink" where
  "pipeline_write p t u ds ks w =
     (if p = CSV_PATH then (if u then (Inl (raise_of PyNotImplementedError), w) else csv_save_items t ds w)
      else if p = CONSOLE_PATH then (if u then console_update_items t ds ks w else console_save_items t ds w)
      else (Inl (raise_of PyOtherError), w))"

definition std_env :: "(string \<Rightarrow> string) \<Rightarrow> (pyval \<Rightarrow> string) \<Rightarrow> sink item_env" where
  "std_env md5 repr = \<lparr>
     e_md5 = md5, e_repr = repr, e_pre = Inr,
     e_get = (\<lambda>fp w. (Inr (lite_contains (sk_filter w) fp), w)),
     e_add = (\<lambda>fp w. case lite_add fp (sk_filter w) of (b, f) \<Rightarrow> (Inr b, w\<lparr>sk_filter := f\<rparr>)),
     e_load = (\<lambda>p w. if p = CSV_PATH \<or> p = CONSOLE_PATH then (Inr (), w) else (Inl (raise_of PyValueError), w)),
     e_write = pipeline_write,
     e_dump = (\<lambda>ls. disk_op (\<lambda>w. w\<lparr>sk_dump := sk_dump w @ ls\<rparr>)),
     e_hook = (\<lambda>_ w. (Inr (), w)),
     e_ack = Some (\<lambda>r w. (Inr (), w\<lparr>sk_acked := oid r # sk_acked w\<rparr>)),
     e_handler = None \<rparr>"

text \<open>Stored in a pipeline: a row under the writer's flds, or a log line.\<close>

definition sk_saved :: "sink \<Rightarrow> string \<Rightarrow> string \<Rightarrow> (string, pyval) pydict \<Rightarrow> bool" where
  "sk_saved w p t d \<longleftrightarrow>
     (p = CSV_PATH \<and> (\<exists>flds. sk_writers w t = Some flds \<and> csv_row flds d \<in> set (sk_csv w t)))
   \<or> (p = CONSOLE_PATH \<and> (console_line t d \<in> set (sk_log w) \<or> (\<exists>ks. upsert_line t ks d \<in> set (sk_log w))))"

definition sk_dumped :: "sink \<Rightarrow> string \<Rightarrow> bool" where
  "sk_dumped w l \<longleftrightarrow> l \<in> set (sk_dump w)"

definition sk_has :: "sink \<Rightarrow> string \<Rightarrow> bool" where
  "sk_has w k \<longleftrightarrow> lite_contains (sk_filter w) k"

lemma disk_op_cases:
  assumes "disk_op f w = (r, w')"
  obtains (finished) rest where "r = Inr ()" "w' = f (w\<lparr>sk_disk := rest\<rparr>)"
  | (failed) e rest where "r = Inl e" "w' = w\<lparr>sk_disk := rest\<rparr>"
proof (cases "sk_disk w")
  case Nil
  then have eq: "w\<lparr>sk_disk := []\<rparr> = w" by simp
  show thesis using finished [of "[]", unfolded eq] assms Nil by (auto simp: disk_op_def)
qed (use assms finished failed in \<open>auto simp: disk_op_def split: if_splits\<close>)

lemma csv_writer_facts:
  assumes "csv_writer t d w = (flds, w')"
  shows "sk_writers w' t = Some flds" "sk_writers w t' = Some f' \<Longrightarrow> sk_writers w' t' = Some f'"
    "set (sk_csv w t') \<subseteq> set (sk_csv w' t')" "sk_log w' = sk_log w" "sk_dump w' = sk_dump w" "sk_filter w' = sk_filter w"
  using assms by (auto simp: csv_writer_def Let_def split: option.splits if_splits)

lemma csv_save_facts:
  assumes "csv_save_items t ds w = (r, w')"
  shows "r = Inr True \<Longrightarrow> d \<in> set ds \<Longrightarrow> sk_saved w' CSV_PATH t d"
    "sk_saved w p t' d' \<Longrightarrow> sk_saved w' p t' d'" "sk_log w' = sk_log w" "sk_dump w' = sk_dump w" "sk_filter w' = sk_filter w"
proof -
  have all: "(r = Inr True \<and> d \<in> set ds \<longrightarrow> sk_saved w' CSV_PATH t d) \<and> (sk_saved w p t' d' \<longrightarrow> sk_saved w' p t' d')
      \<and> sk_log w' = sk_log w \<and> sk_dump w' = sk_dump w \<and> sk_filter w' = sk_filter w"
  proof (cases ds)
    case (Cons x xs)
    obtain r1 w1 where d1: "disk_op id w = (r1, w1)" by force
    show ?thesis
    proof (cases rule: disk_op_cases [OF d1])
      case (1 rest)
      obtain flds w2 where w2: "csv_writer t x w1 = (flds, w2)" by force
      note f = csv_writer_facts [OF w2]
      have w': "w' = w2\<lparr>sk_csv := (sk_csv w2)(t := sk_csv w2 t @ map (csv_row flds) ds)\<rparr>"
        using assms Cons d1 1 w2 by (simp add: csv_save_items_def)
      have keep: "sk_saved w p t' d' \<longrightarrow> sk_saved w' p t' d'"
        using f(2) [of t'] f(3) [of t'] f(4) 1(2) by (fastforce simp: sk_saved_def w')
      show ?thesis using f(1,4,5,6) keep 1(2) by (auto simp: w' sk_saved_def)
    next
      case (2 e rest)
      then show ?thesis using assms Cons d1 by (auto simp: csv_save_items_def sk_saved_def)
    qed
  qed (use assms in \<open>simp add: csv_save_items_def\<close>)
  then show "r = Inr True \<Longrightarrow> d \<in> set ds \<Longrightarrow> sk_saved w' CSV_PATH t d"
    "sk_saved w p t' d' \<Longrightarrow> sk_saved w' p t' d'" "sk_log w' = sk_log w" "sk_dump w' = sk_dump w" "sk_filter w' = sk_filter w"
    by auto
qed

lemma pipeline_write_facts:
  assumes "pipeline_write p t u ds ks w = (r, w')"
  shows "r = Inr True \<Longrightarrow> d \<in> set ds \<Longrightarrow> sk_saved w' p t d" "sk_saved w p' t' d' \<Longrightarrow> sk_saved w' p' t' d'"
    "sk_dump w' = sk_dump w" "sk_filter w' = sk_filter w"
proof -
  consider (csv) "csv_save_items t ds w = (r, w')" "p = CSV_PATH"
    | (other) "p \<noteq> CSV_PATH \<or> r \<noteq> Inr True" "w' = w \<or> (\<exists>ls. w' = w\<lparr>sk_log := sk_log w @ ls\<rparr>)"
    using assms by (auto simp: pipeline_write_def console_save_items_def console_update_items_def split: if_splits)
  then have "(r = Inr True \<and> d \<in> set ds \<longrightarrow> sk_saved w' p t d) \<and> (sk_saved w p' t' d' \<longrightarrow> sk_saved w' p' t' d')
      \<and> sk_dump w' = sk_dump w \<and> sk_filter w' = sk_filter w"
  proof cases
    case csv
    then show ?thesis using csv_save_facts [OF csv(1)] by blast
  next
    case other
    have "r = Inr True \<and> d \<in> set ds \<longrightarrow> sk_saved w' p t d"
      using other(1) assms
      by (fastforce simp: pipeline_write_def console_save_items_def console_update_items_def sk_saved_def split: if_splits)
    then show ?thesis using other(2) by (auto simp: sk_saved_def)
  qed
  then show "r = Inr True \<Longrightarrow> d \<in> set ds \<Longrightarrow> sk_saved w' p t d" "sk_saved w p' t' d' \<Longrightarrow> sk_saved w' p' t' d'"
    "sk_dump w' = sk_dump w" "sk_filter w' = sk_filter w"
    by auto
qed

lemma dump_facts:
  assumes "disk_op (\<lambda>w. w\<lparr>sk_dump := sk_dump w @ ls\<rparr>) w = (r, w')"
  shows "r = Inr x \<Longrightarrow> l \<in> set ls \<Longrightarrow> sk_dumped w' l" "sk_saved w p t d \<Longrightarrow> sk_saved w' p t d"
    "sk_dumped w l' \<Longrightarrow> sk_dumped w' l'" "sk_has w k \<Longrightarrow> sk_has w' k"
  by (cases rule: disk_op_cases [OF assms]; simp add: sk_dumped_def sk_saved_def sk_has_def)+

interpretation std: item_store "std_env md5 repr" sk_saved sk_dumped sk_has for md5 repr
proof (unfold_locales, goal_cases)
  case (1 p t u ds ks w w' d) then show ?case using pipeline_write_facts(1) by (simp add: std_env_def)
next
  case (2 ls w x w' l) then show ?case using dump_facts(1) by (simp add: std_env_def)
next
  case (4 w p t d p' t' u ds ks) then show ?case
    using pipeline_write_facts(2) [of p' t' u ds ks w] by (simp add: std_env_def prod_eq_iff)
next
  case (5 w p t d ls) then show ?case using dump_facts(2) [of ls w] by (simp add: std_env_def prod_eq_iff)
next
  case (9 w l p' t' u ds ks) then show ?case
    using pipeline_write_facts(3) [of p' t' u ds ks w] by (simp add: std_env_def prod_eq_iff sk_dumped_def)
next
  case (10 w l ls) then show ?case using dump_facts(3) [of ls w] by (simp add: std_env_def prod_eq_iff)
next
  case (14 w k p' t' u ds ks) then show ?case
    using pipeline_write_facts(4) [of p' t' u ds ks w] by (simp add: std_env_def prod_eq_iff sk_has_def)
next
  case (15 w k ls) then show ?case using dump_facts(4) [of ls w] by (simp add: std_env_def prod_eq_iff)
qed (auto simp: std_env_def sk_has_def sk_saved_def sk_dumped_def lite_add_def lite_contains_def split: if_splits)

section \<open>Properties of the item buffer\<close>

text \<open>C5: Acknowledge only after storing.  When \<open>flush\<close> takes a batch, either every object of the batch is
  stored (written by all pipelines of its group, or in the failed-items file) or duplicates a known or stored one
  before the first producing request is acknowledged, or \<open>_persist\<close> raised and nothing is acknowledged
  at all.\<close>

theorem flush_acks_after_storing:
  assumes "item_store E saved dumped has" and "e_handler E = None" and "ib_pending b \<noteq> []"
    and "ibuf_flush cfg E b w = (res, b', w')"
  shows "(\<exists>b1 w1. (\<forall>x\<in>set (ib_pending b). obj_safe saved dumped has cfg E (ib_paths b) w1 (fst x))
            \<and> (b', w') = ack_all E (batch_owners (ib_pending b)) b1 w1)
    \<or> (\<exists>e. persist cfg E (map fst (ib_pending b)) (b\<lparr>ib_pending := []\<rparr>) w = (Inl e, b', w'))"
  by (rule item_store.flush_stores_then_acks [OF assms])

definition empty_sink :: sink where
  "empty_sink = \<lparr>sk_csv = (\<lambda>_. []), sk_writers = (\<lambda>_. None), sk_log = [], sk_dump = [], sk_filter = [], sk_acked = [], sk_disk = []\<rparr>"

definition one_item_buf :: ibuf where
  "one_item_buf = \<lparr>ib_pending = [(ODict [(''a'', VInt 1)], Some req_a)], ib_after = [], ib_cache = [], ib_paths = Some [CSV_PATH], ib_stats = []\<rparr>"

theorem flush_acks_after_storing_witness:
  "\<exists>res b' w'. ibuf_flush default_setting (std_env id dumps_json) one_item_buf empty_sink = (res, b', w') \<and>
   ((\<exists>b1 w1. obj_safe sk_saved sk_dumped sk_has default_setting (std_env id dumps_json) (Some [CSV_PATH]) w1 (ODict [(''a'', VInt 1)])
            \<and> (b', w') = ack_all (std_env id dumps_json) (batch_owners (ib_pending one_item_buf)) b1 w1)
    \<or> (\<exists>e. persist default_setting (std_env id dumps_json) [ODict [(''a'', VInt 1)]] (one_item_buf\<lparr>ib_pending := []\<rparr>) empty_sink = (Inl e, b', w')))"
proof -
  obtain res b' w' where r: "ibuf_flush default_setting (std_env id dumps_json) one_item_buf empty_sink = (res, b', w')" by (metis prod_cases3)
  have "e_handler (std_env id dumps_json) = None" "ib_pending one_item_buf \<noteq> []" by (simp_all add: std_env_def one_item_buf_def)
  from flush_acks_after_storing [OF std.item_store_axioms this r]
  show ?thesis using r by (auto simp: one_item_buf_def)
qed

text \<open>The hooks waiting for a flush belong to requests that have data in the buffer.\<close>

definition hooks_pending :: "ibuf \<Rightarrow> bool" where
  "hooks_pending b \<longleftrightarrow> (\<forall>k\<in>set (dkeys (ib_after b)). \<exists>ob r. (ob, Some r) \<in> set (ib_pending b) \<and> oid r = k)"

lemma ibuf_owns_iff: "ibuf_owns r b \<longleftrightarrow> (\<exists>ob r'. (ob, Some r') \<in> set (ib_pending b) \<and> oid r' = oid r)"
  by (fastforce simp: ibuf_owns_def list_ex_iff split: option.splits)

lemma hooks_pending_register: "hooks_pending b \<Longrightarrow> hooks_pending (snd (after_persist_if_pending r h b))"
  by (auto simp: hooks_pending_def after_persist_if_pending_def after_persist_def ibuf_owns_iff)

lemma owners_of_keys: "fst ` set (owners_of bs acc) = fst ` set acc \<union> {oid r | ob r. (ob, Some r) \<in> set bs}"
proof (induction bs acc rule: owners_of.induct)
  case (3 ob r bs acc)
  have "fst ` set (dset acc (oid r) r) = insert (oid r) (fst ` set acc)"
    using set_dkeys_dset [of acc "oid r" r] by (simp add: dkeys_def)
  then show ?case using 3 by auto
qed auto

lemma owners_of_oid: "\<forall>(k, r)\<in>set acc. oid r = k \<Longrightarrow> \<forall>(k, r)\<in>set (owners_of bs acc). oid r = k"
proof (induction bs acc rule: owners_of.induct)
  case (3 ob r bs acc)
  then show ?case using set_dset(1) [of acc "oid r" r] by fastforce
qed auto

lemma batch_owners_oids: "oid ` set (batch_owners bs) = {oid r | ob r. (ob, Some r) \<in> set bs}"
proof -
  have "oid ` set (batch_owners bs) = fst ` set (owners_of bs [])"
    using owners_of_oid [of "[]" bs] by (force simp: batch_owners_def)
  then show ?thesis using owners_of_keys [of bs "[]"] by simp
qed

lemma ack_all_hooks: "set (dkeys (ib_after (fst (ack_all E rs b w)))) = set (dkeys (ib_after b)) - oid ` set rs"
  by (induction rs arbitrary: b w) (auto simp: Let_def set_dkeys_ddel)

lemma resolve_after: "resolve_pipelines E key b w = (x, b1, w1) \<Longrightarrow> ib_after b1 = ib_after b"
  by (auto simp: resolve_pipelines_def split: if_splits prod.splits sum.splits)

lemma save_groups_after: "save_groups cfg E gs deg b w = (r, b', w') \<Longrightarrow> ib_after b' = ib_after b"
proof (induction gs arbitrary: deg b w)
  case (Cons g gs)
  obtain t u pp rows where g: "g = ((t, u, pp), rows)" by (metis prod_cases3 prod.collapse)
  let ?paths = "pipe_paths cfg (ib_paths b) pp"
  obtain x b1 w1 where res: "resolve_pipelines E ?paths b w = (x, b1, w1)" by (metis prod_cases3)
  obtain y w2 where wr: "write_all E ?paths t u (map n_data rows) (n_keys (hd rows)) w1 = (y, w2)" by force
  show ?case
    using Cons.prems resolve_after [OF res] Cons.IH
    by (fastforce simp: g res wr Let_def case_prod_unfold split: sum.splits bool.splits if_splits)
qed simp

lemma persist_after: "persist cfg E obs b w = (r, b', w') \<Longrightarrow> ib_after b' = ib_after b"
  by (auto simp: persist_def split: prod.splits sum.splits if_splits dest!: save_groups_after)

text \<open>No completion hook is left behind.  If the registered hooks belong to requests with data in the buffer
  (which \<open>after_persist_if_pending\<close> guarantees, being check and registration under one lock), then a flush whose
  \<open>_persist\<close> succeeds runs and removes all of them.\<close>

theorem flush_runs_all_hooks:
  assumes "hooks_pending b" and "b1 = snd (after_persist_if_pending r h b)" and "e_handler E = None" and "ib_pending b \<noteq> []"
    and "persist cfg E (map fst (ib_pending b1)) (b1\<lparr>ib_pending := []\<rparr>) w = (Inr x, b2, w2)"
  shows "ib_after (fst (snd (ibuf_flush cfg E b1 w))) = []"
proof -
  have hp: "hooks_pending b1" and ne: "ib_pending b1 \<noteq> []"
    using hooks_pending_register [OF assms(1), of r h] assms(2,4)
    by (auto simp: after_persist_if_pending_def after_persist_def)
  have "ib_after b2 = ib_after b1" using persist_after [OF assms(5)] by simp
  then have "set (dkeys (ib_after (fst (ack_all E (batch_owners (ib_pending b1)) b2 w2)))) = {}"
    using hp unfolding ack_all_hooks batch_owners_oids hooks_pending_def by fastforce
  then show ?thesis
    using ne assms(3,5) by (simp add: ibuf_flush_def Let_def dkeys_def split: prod.splits)
qed

theorem flush_runs_all_hooks_witness:
  "ib_after (fst (snd (ibuf_flush default_setting (std_env id dumps_json) (snd (after_persist_if_pending req_a 7 one_item_buf)) empty_sink))) = []"
proof -
  let ?b1 = "snd (after_persist_if_pending req_a 7 one_item_buf)"
  have p: "ib_pending ?b1 = ib_pending one_item_buf" by (simp add: after_persist_if_pending_def after_persist_def)
  obtain x b2 w2 where "persist default_setting (std_env id dumps_json) (map fst (ib_pending ?b1)) (?b1\<lparr>ib_pending := []\<rparr>) empty_sink = (Inr x, b2, w2)"
    by (simp add: p one_item_buf_def after_persist_if_pending_def after_persist_def ibuf_owns_def persist_def normalize_obj_def group_add_def
        group_key_def Let_def pipe_paths_def resolve_pipelines_def std_env_def pipeline_write_def csv_save_items_def disk_op_def empty_sink_def
        csv_writer_def default_setting_def)
  from flush_runs_all_hooks [OF _ refl _ _ this] show ?thesis
    by (simp add: hooks_pending_def one_item_buf_def dkeys_def std_env_def)
qed

text \<open>
  One object that cannot be stored takes its whole batch with it: \<open>_normalize\<close> raises, \<open>flush\<close> has already
  emptied the buffer, nothing is written, dumped or acknowledged.
\<close>

lemma bad_object_loses_batch:
  "ibuf_flush default_setting (std_env id dumps_json)
     (one_item_buf\<lparr>ib_pending := [(ODict [(''a'', VInt 1)], Some req_a), (OOther 0, Some req_a)]\<rparr>) empty_sink
   = (Inr (), one_item_buf\<lparr>ib_pending := []\<rparr>, empty_sink)"
  by (simp add: ibuf_flush_def one_item_buf_def persist_def normalize_obj_def Let_def std_env_def)

text \<open>
  The header of an existing file is not read back: after a restart, rows are written in the field order of the new
  process's first item, under the old header.
\<close>

lemma csv_restart_misaligns:
  "let w1 = snd (csv_save_items ''t'' [[(''a'', VStr ''1''), (''b'', VStr ''2'')]] empty_sink);
       w2 = snd (csv_save_items ''t'' [[(''b'', VStr ''2''), (''a'', VStr ''1'')]] (csv_close w1))
   in sk_csv w2 ''t'' = [[''a'', ''b''], [''1'', ''2''], [''2'', ''1'']]"
  by (simp add: Let_def csv_save_items_def disk_op_def csv_writer_def csv_close_def empty_sink_def csv_row_def csv_cell_def dkeys_def)

end
