(* ===== verification/Failed_Replay.thy ===== *)
theory Failed_Replay
  imports Pipelines
begin

text \<open>
  \<^verbatim>\<open>netspy/commands/retry.py\<close>: replaying \<^verbatim>\<open>failed_items.jsonl\<close>.  A file is the list of its lines, \<open>None\<close> when it
  does not exist.  \<open>write\<close> is one pipeline's \<open>save_items\<close> or \<open>update_items\<close>, over a world \<open>'w\<close>.
\<close>

type_synonym jsonl = "string list option"

text \<open>\<open>_read_lines\<close>: blank lines are skipped, a line that does not parse is skipped with a warning.\<close>

definition blank :: "string \<Rightarrow> bool" where
  "blank l = list_all (\<lambda>c. c \<in> {CHR '' '', CHR 0x09, CHR 0x0A, CHR 0x0D}) l"

definition read_lines :: "jsonl \<Rightarrow> pyval list" where
  "read_lines file = (case file of None \<Rightarrow> []
     | Some ls \<Rightarrow> concat (map (\<lambda>l. case loads_json l of Inl _ \<Rightarrow> [] | Inr v \<Rightarrow> [v]) (filter (\<lambda>l. \<not> blank l) ls)))"

text \<open>\<open>_rewrite\<close> by rename: the new content or no file.\<close>

definition rewrite :: "pyval list \<Rightarrow> jsonl" where
  "rewrite remaining = (if remaining = [] then None else Some (map dumps_json remaining))"

text \<open>The grouping key of a record: table, update keys, pipelines (\<open>None\<close>: the configured ones).\<close>

type_synonym rkey = "string \<times> string list \<times> string list option"

fun str_list :: "pyval \<Rightarrow> string list" where
  "str_list (VList vs) = map stringify vs"
| "str_list v = []"

definition record_key :: "pyval \<Rightarrow> rkey res" where
  "record_key v =
     (case v of
        VDict d \<Rightarrow>
          (case dget d ''table'' of
             Some (VStr t) \<Rightarrow>
               let keys = (case dget d ''update_keys'' of Some x \<Rightarrow> if truthy x then str_list x else [] | None \<Rightarrow> []);
                   paths = (case dget d ''pipelines'' of Some x \<Rightarrow> if truthy x then Some (str_list x) else None | None \<Rightarrow> None)
               in Inr (t, keys, paths)
           | Some _ \<Rightarrow> Inl (raise_of PyTypeError)
           | None \<Rightarrow> Inl (raise_of PyKeyError))
      | _ \<Rightarrow> Inl (raise_of PyTypeError))"

fun group_records :: "pyval list \<Rightarrow> (rkey, pyval list) pydict \<Rightarrow> (rkey, pyval list) pydict res" where
  "group_records [] gs = Inr gs"
| "group_records (v # vs) gs =
     bind_res (record_key v) (\<lambda>k. group_records vs (dset gs k ((case dget gs k of None \<Rightarrow> [] | Some rows \<Rightarrow> rows) @ [v])))"

text \<open>\<open>[r["data"] for r in rows]\<close>\<close>

fun record_datas :: "pyval list \<Rightarrow> (string, pyval) pydict list res" where
  "record_datas [] = Inr []"
| "record_datas (v # vs) =
     (case v of
        VDict d \<Rightarrow> (case dget d ''data'' of
             Some (VDict x) \<Rightarrow> bind_res (record_datas vs) (\<lambda>xs. Inr (x # xs))
           | Some _ \<Rightarrow> Inl (raise_of PyTypeError) | None \<Rightarrow> Inl (raise_of PyKeyError))
      | _ \<Rightarrow> Inl (raise_of PyTypeError))"

text \<open>
  \<open>all(p.save_items(...) for p in pipelines)\<close> under one \<open>try\<close>, the pipelines being imported first (\<open>loads\<close>: which
  paths import): an exception counts as a failure of the group.
\<close>

type_synonym 'w writer = "string \<Rightarrow> string \<Rightarrow> bool \<Rightarrow> (string, pyval) pydict list \<Rightarrow> string list \<Rightarrow> 'w \<Rightarrow> bool res \<times> 'w"

fun replay_writes :: "'w writer \<Rightarrow> string list \<Rightarrow> string \<Rightarrow> string list \<Rightarrow> (string, pyval) pydict list \<Rightarrow> 'w \<Rightarrow> bool \<times> 'w" where
  "replay_writes wr [] t ks ds w = (True, w)"
| "replay_writes wr (p # ps) t ks ds w =
     (case wr p t (ks \<noteq> []) ds ks w of (Inr True, w1) \<Rightarrow> replay_writes wr ps t ks ds w1 | (_, w1) \<Rightarrow> (False, w1))"

definition replay_group :: "(string \<Rightarrow> bool) \<Rightarrow> 'w writer \<Rightarrow> string list \<Rightarrow> string \<Rightarrow> string list \<Rightarrow> (string, pyval) pydict list \<Rightarrow> 'w \<Rightarrow> bool \<times> 'w" where
  "replay_group loads wr paths t ks ds w = (if list_all loads paths then replay_writes wr paths t ks ds w else (False, w))"

fun replay_groups :: "setting \<Rightarrow> (string \<Rightarrow> bool) \<Rightarrow> 'w writer \<Rightarrow> (rkey, pyval list) pydict \<Rightarrow> nat \<Rightarrow> pyval list \<Rightarrow> 'w \<Rightarrow> (nat \<times> pyval list) res \<times> 'w" where
  "replay_groups cfg loads wr [] ok remaining w = (Inr (ok, remaining), w)"
| "replay_groups cfg loads wr (((t, ks, paths), rows) # gs) ok remaining w =
     (case record_datas rows of
        Inl e \<Rightarrow> (Inl e, w)
      | Inr ds \<Rightarrow>
          (case replay_group loads wr (case paths of Some ps \<Rightarrow> ps | None \<Rightarrow> ITEM_PIPELINES cfg) t ks ds w of
             (True, w1) \<Rightarrow> replay_groups cfg loads wr gs (ok + length ds) remaining w1
           | (False, w1) \<Rightarrow> replay_groups cfg loads wr gs ok (remaining @ rows) w1))"

text \<open>\<open>retry_items\<close>: the counts and the file afterwards; an exception leaves the file as it was.\<close>

definition retry_items :: "setting \<Rightarrow> (string \<Rightarrow> bool) \<Rightarrow> 'w writer \<Rightarrow> jsonl \<Rightarrow> 'w \<Rightarrow> (nat \<times> nat) res \<times> jsonl \<times> 'w" where
  "retry_items cfg loads wr file w =
     (let records = read_lines file in
      if records = [] then (Inr (0, 0), file, w)
      else case group_records records [] of
        Inl e \<Rightarrow> (Inl e, file, w)
      | Inr gs \<Rightarrow>
          (case replay_groups cfg loads wr gs 0 [] w of
             (Inl e, w1) \<Rightarrow> (Inl e, file, w1)
           | (Inr (ok, remaining), w1) \<Rightarrow> (Inr (ok, length remaining), rewrite remaining, w1)))"

text \<open>\<open>retry_requests\<close>: a probe; it counts and leaves the file alone.\<close>

fun probe_requests :: "(request \<Rightarrow> 'w \<Rightarrow> bool res \<times> 'w) \<Rightarrow> pyval list \<Rightarrow> nat \<Rightarrow> nat \<Rightarrow> 'w \<Rightarrow> (nat \<times> nat) res \<times> 'w" where
  "probe_requests dl [] ok bad w = (Inr (ok, bad), w)"
| "probe_requests dl (v # vs) ok bad w =
     (case bind_res (as_dict v) (from_dict 0) of
        Inl e \<Rightarrow> (Inl e, w)
      | Inr r \<Rightarrow>
          (case dl (r\<lparr>filter_repeat := False\<rparr>) w of
             (Inl e, w1) \<Rightarrow> if isinst e RequestError then probe_requests dl vs ok (Suc bad) w1 else (Inl e, w1)
           | (Inr good, w1) \<Rightarrow> if good then probe_requests dl vs (Suc ok) bad w1 else probe_requests dl vs ok (Suc bad) w1))"

definition retry_requests :: "(request \<Rightarrow> 'w \<Rightarrow> bool res \<times> 'w) \<Rightarrow> jsonl \<Rightarrow> 'w \<Rightarrow> (nat \<times> nat) res \<times> jsonl \<times> 'w" where
  "retry_requests dl file w =
     (let records = read_lines file in
      if records = [] then (Inr (0, 0), file, w)
      else case probe_requests dl records 0 0 w of (r, w1) \<Rightarrow> (r, file, w1))"

section \<open>A dumped row comes back as it was\<close>

lemma truthy_vlist: "truthy (VList vs) \<longleftrightarrow> vs \<noteq> []"
  by (cases vs) auto

lemma dump_line_record:
  "loads_json (dump_line t ks pp d) = Inr v \<Longrightarrow>
    record_key v = Inr (t, ks, case pp of Some [] \<Rightarrow> None | _ \<Rightarrow> pp) \<and> record_datas [v] = Inr [d]"
  unfolding dump_line_def loads_dumps
  by (auto simp: record_key_def truthy_vlist comp_def split: option.splits list.splits)

lemma dumps_not_blank: "\<not> blank (dumps_json v)"
proof -
  obtain c cs where "dumps_json v = c # cs" "\<not> is_ws c" using dumps_first [of v] by blast
  then show ?thesis by (auto simp: blank_def is_ws_def)
qed

text \<open>What \<open>_rewrite\<close> writes is what the next replay reads.\<close>

lemma read_rewrite: "read_lines (rewrite vs) = vs"
proof -
  have "concat (map (\<lambda>l. case loads_json l of Inl _ \<Rightarrow> [] | Inr v \<Rightarrow> [v]) (filter (\<lambda>l. \<not> blank l) (map dumps_json vs))) = vs"
  proof (induction vs)
    case (Cons v vs)
    then show ?case unfolding list.map filter.simps using dumps_not_blank [of v] by (simp add: loads_dumps)
  qed simp
  then show ?thesis by (simp add: read_lines_def rewrite_def)
qed

section \<open>Nothing is dropped by a replay\<close>

definition grouped_records :: "(rkey, pyval list) pydict \<Rightarrow> pyval multiset" where
  "grouped_records gs = mset (concat (map snd gs))"

lemma grouped_dset:
  "distinct (dkeys gs) \<Longrightarrow> grouped_records (dset gs k ((case dget gs k of None \<Rightarrow> [] | Some rows \<Rightarrow> rows) @ [v])) = add_mset v (grouped_records gs)"
proof (induction gs)
  case (Cons g gs)
  obtain k' rows where g: "g = (k', rows)" by (cases g)
  show ?case using Cons by (auto simp: g grouped_records_def dkeys_def)
qed (simp add: grouped_records_def)

definition keyed :: "(rkey, pyval list) pydict \<Rightarrow> bool" where
  "keyed gs \<longleftrightarrow> (\<forall>(k, rows)\<in>set gs. \<forall>v\<in>set rows. record_key v = Inr k)"

lemma group_records_facts:
  assumes "group_records vs gs = Inr gs'" "distinct (dkeys gs)" "keyed gs"
  shows "grouped_records gs' = grouped_records gs + mset vs \<and> keyed gs'"
  using assms
proof (induction vs arbitrary: gs)
  case (Cons v vs)
  obtain k where k: "record_key v = Inr k" using Cons.prems(1) by (auto split: sum.splits)
  let ?gs = "dset gs k ((case dget gs k of None \<Rightarrow> [] | Some rows \<Rightarrow> rows) @ [v])"
  have "keyed ?gs"
    using set_dset(1) [of gs k "(case dget gs k of None \<Rightarrow> [] | Some rows \<Rightarrow> rows) @ [v]"] Cons.prems(3) k dget_Some_in [of gs k]
    unfolding keyed_def by (fastforce split: option.splits)
  then show ?case using Cons.IH [of ?gs] Cons.prems k grouped_dset [OF Cons.prems(2), of k v] by simp
qed (simp add: keyed_def)

lemma record_datas_length: "record_datas vs = Inr ds \<Longrightarrow> length ds = length vs"
  by (induction vs arbitrary: ds) (auto split: pyval.splits option.splits sum.splits)

lemma record_datas_nth: "record_datas vs = Inr ds \<Longrightarrow> v \<in> set vs \<Longrightarrow> \<exists>d\<in>set ds. record_datas [v] = Inr [d]"
  by (induction vs arbitrary: ds) (auto split: pyval.splits option.splits sum.splits)

text \<open>A record is delivered: written to every pipeline it is routed to.\<close>

definition delivered :: "('w \<Rightarrow> string \<Rightarrow> string \<Rightarrow> (string, pyval) pydict \<Rightarrow> bool) \<Rightarrow> setting \<Rightarrow> 'w \<Rightarrow> pyval \<Rightarrow> bool" where
  "delivered saved cfg w v \<longleftrightarrow> (\<exists>t ks pp d. record_key v = Inr (t, ks, pp) \<and> record_datas [v] = Inr [d]
     \<and> (\<forall>p\<in>set (case pp of Some ps \<Rightarrow> ps | None \<Rightarrow> ITEM_PIPELINES cfg). saved w p t d))"

context item_store
begin

lemma replay_writes_facts:
  "replay_writes (e_write E) ps t ks ds w = (b, w') \<Longrightarrow>
    (kept P \<longrightarrow> P w \<longrightarrow> P w') \<and> (b \<longrightarrow> (\<forall>p\<in>set ps. \<forall>d\<in>set ds. saved w' p t d))"
proof (induction ps arbitrary: w P)
  case (Cons p ps)
  obtain r w1 where r: "e_write E p t (ks \<noteq> []) ds ks w = (r, w1)" by force
  have keep1: "kept Q \<Longrightarrow> Q w \<Longrightarrow> Q w1" for Q using kept_ops(1) r by blast
  show ?case
  proof (cases "r = Inr True")
    case True
    then have step: "replay_writes (e_write E) ps t ks ds w1 = (b, w')" using Cons.prems r by simp
    have "saved w' p t d" if "d \<in> set ds" for d
      using Cons.IH [OF step, of "\<lambda>w. saved w p t d"] kept_facts(1) write_saved [of p t "ks \<noteq> []" ds ks w w1 d] r True that by blast
    then show ?thesis using Cons.IH [OF step, of P] keep1 [of P] by auto
  next
    case False
    then have "b = False" "w' = w1" using Cons.prems r by (auto split: sum.splits bool.splits)
    then show ?thesis using keep1 by blast
  qed
qed auto

lemma replay_groups_facts:
  assumes "replay_groups cfg loads (e_write E) gs ok rem w = (Inr (ok', rem'), w')" "keyed gs"
  shows "\<exists>gone. grouped_records gs + mset rem = mset rem' + gone \<and> ok' = ok + size gone \<and> (\<forall>v\<in>#gone. delivered saved cfg w' v)
    \<and> (\<forall>P. kept P \<longrightarrow> P w \<longrightarrow> P w')"
  using assms
proof (induction gs arbitrary: ok rem w)
  case (Cons g gs)
  obtain t ks pp rows where g: "g = ((t, ks, pp), rows)" by (metis prod_cases3 prod.collapse)
  let ?paths = "case pp of Some ps \<Rightarrow> ps | None \<Rightarrow> ITEM_PIPELINES cfg"
  obtain ds where ds: "record_datas rows = Inr ds" using Cons.prems(1) by (auto simp: g split: sum.splits)
  obtain b w1 where wr: "replay_group loads (e_write E) ?paths t ks ds w = (b, w1)" by force
  have f: "(kept P \<longrightarrow> P w \<longrightarrow> P w1) \<and> (b \<longrightarrow> (\<forall>p\<in>set ?paths. \<forall>d\<in>set ds. saved w1 p t d))" for P
    using wr replay_writes_facts [of ?paths t ks ds w b w1 P] by (auto simp: replay_group_def split: if_splits)
  have kg: "keyed gs" using Cons.prems(2) by (simp add: keyed_def)
  have len: "length ds = length rows" by (rule record_datas_length [OF ds])
  show ?case
  proof (cases b)
    case True
    have step: "replay_groups cfg loads (e_write E) gs (ok + length ds) rem w1 = (Inr (ok', rem'), w')"
      using Cons.prems(1) by (simp add: g ds wr True)
    from Cons.IH [OF step kg] obtain gone where gone: "grouped_records gs + mset rem = mset rem' + gone"
      "ok' = ok + length ds + size gone" "\<forall>v\<in>#gone. delivered saved cfg w' v" "\<forall>P. kept P \<longrightarrow> P w1 \<longrightarrow> P w'" by blast
    have "delivered saved cfg w' v" if v: "v \<in> set rows" for v
    proof -
      obtain d where d: "d \<in> set ds" "record_datas [v] = Inr [d]" using record_datas_nth [OF ds v] by blast
      have "\<forall>p\<in>set ?paths. saved w' p t d" using f [of undefined] True d(1) gone(4) kept_facts(1) by blast
      then show ?thesis using d(2) Cons.prems(2) v by (auto simp: delivered_def g keyed_def)
    qed
    moreover have "\<forall>P. kept P \<longrightarrow> P w \<longrightarrow> P w'" using f gone(4) by blast
    ultimately show ?thesis
      using gone(1-3) len by (intro exI [of _ "mset rows + gone"]) (auto simp: g grouped_records_def ac_simps)
  next
    case False
    have step: "replay_groups cfg loads (e_write E) gs ok (rem @ rows) w1 = (Inr (ok', rem'), w')"
      using Cons.prems(1) by (simp add: g ds wr False)
    from Cons.IH [OF step kg] obtain gone where gone: "grouped_records gs + mset (rem @ rows) = mset rem' + gone"
      "ok' = ok + size gone" "\<forall>v\<in>#gone. delivered saved cfg w' v" "\<forall>P. kept P \<longrightarrow> P w1 \<longrightarrow> P w'" by blast
    have "\<forall>P. kept P \<longrightarrow> P w \<longrightarrow> P w'" using f gone(4) by blast
    then show ?thesis using gone(1-3) by (intro exI [of _ gone]) (simp add: g grouped_records_def ac_simps)
  qed
qed (auto simp: grouped_records_def)

end

section \<open>Property\<close>



end
