(* ===== verification/Batch.thy ===== *)
theory Batch
  imports Item_Buffer
begin

text \<open>
  Periodic batches: the task table and the batch records (\<^verbatim>\<open>netspy/core/batch_store.py\<close>, in-memory store), the master that opens
  batches, pushes tasks and closes batches under a Redis lock (\<^verbatim>\<open>batch_monitor.py\<close>), and the worker side (\<^verbatim>\<open>spiders/batch_spider.py\<close>).

  A row of the task table is its id, its state and its other columns.  The MySQL store is in \<open>Batch_Sql\<close>.
\<close>

section \<open>The task table\<close>

definition TODO :: int where "TODO = 0"
definition DONE :: int where "DONE = 1"
definition DOING :: int where "DOING = 2"
definition FAILED :: int where "FAILED = - 1"

lemmas states = TODO_def DONE_def DOING_def FAILED_def

record batch_record =
  br_id :: nat
  br_date :: string
  br_total :: nat
  br_done :: nat
  br_fail :: nat
  br_interval :: time
  br_unit :: string
  br_is_done :: bool

record task_counts =
  tc_total :: nat
  tc_todo :: nat
  tc_doing :: nat
  tc_done :: nat
  tc_failed :: nat

definition settled :: "task_counts \<Rightarrow> nat" where
  "settled c = tc_done c + tc_failed c"

definition finished :: "task_counts \<Rightarrow> bool" where
  "finished c = (tc_total c > 0 \<and> settled c \<ge> tc_total c)"

record task_row =
  t_id :: pyval
  t_state :: int
  t_data :: "(string, pyval) pydict"

record batch_store =
  bs_tasks :: "task_row list"
  bs_touched :: "(pyval, time) pydict"
  bs_batches :: "batch_record list"
  bs_created :: "(nat, time) pydict"
  bs_seq :: nat

definition new_store :: "task_row list \<Rightarrow> batch_store" where
  "new_store ts = \<lparr>bs_tasks = ts, bs_touched = [], bs_batches = [], bs_created = [], bs_seq = 0\<rparr>"

definition latest_batch :: "batch_store \<Rightarrow> batch_record option" where
  "latest_batch st = (if bs_batches st = [] then None else Some (last (bs_batches st)))"

definition batch_age_seconds :: "time \<Rightarrow> nat \<Rightarrow> batch_store \<Rightarrow> time" where
  "batch_age_seconds now i st = now - (case dget (bs_created st) i of None \<Rightarrow> now | Some t \<Rightarrow> t)"

definition create_batch :: "time \<Rightarrow> string \<Rightarrow> nat \<Rightarrow> time \<Rightarrow> string \<Rightarrow> batch_store \<Rightarrow> batch_record \<times> batch_store" where
  "create_batch now date n interval unit st =
     (let i = bs_seq st + 1;
          r = \<lparr>br_id = i, br_date = date, br_total = n, br_done = 0, br_fail = 0, br_interval = interval, br_unit = unit, br_is_done = False\<rparr>
      in (r, st\<lparr>bs_seq := i, bs_batches := bs_batches st @ [r], bs_created := dset (bs_created st) i now\<rparr>))"

definition update_batch_counts :: "nat \<Rightarrow> nat \<Rightarrow> nat \<Rightarrow> nat \<Rightarrow> batch_store \<Rightarrow> batch_store" where
  "update_batch_counts i dn failed n st =
     st\<lparr>bs_batches := map (\<lambda>r. if br_id r = i then r\<lparr>br_done := dn, br_fail := failed, br_total := n\<rparr> else r) (bs_batches st)\<rparr>"

definition finish_batch :: "nat \<Rightarrow> batch_store \<Rightarrow> batch_store" where
  "finish_batch i st = st\<lparr>bs_batches := map (\<lambda>r. if br_id r = i then r\<lparr>br_is_done := True\<rparr> else r) (bs_batches st)\<rparr>"

definition count_state :: "int \<Rightarrow> task_row list \<Rightarrow> nat" where
  "count_state x ts = length (filter (\<lambda>t. t_state t = x) ts)"

definition count_tasks :: "batch_store \<Rightarrow> task_counts" where
  "count_tasks st =
     \<lparr>tc_total = length (bs_tasks st), tc_todo = count_state TODO (bs_tasks st), tc_doing = count_state DOING (bs_tasks st),
      tc_done = count_state DONE (bs_tasks st), tc_failed = count_state FAILED (bs_tasks st)\<rparr>"

definition reset_all_tasks :: "batch_store \<Rightarrow> batch_store" where
  "reset_all_tasks st = st\<lparr>bs_tasks := map (\<lambda>t. t\<lparr>t_state := TODO\<rparr>) (bs_tasks st), bs_touched := []\<rparr>"

definition is_lost :: "time \<Rightarrow> time \<Rightarrow> batch_store \<Rightarrow> task_row \<Rightarrow> bool" where
  "is_lost now stale st t = (t_state t = DOING \<and> now - (case dget (bs_touched st) (t_id t) of None \<Rightarrow> now | Some x \<Rightarrow> x) \<ge> stale)"

definition reset_lost_tasks :: "time \<Rightarrow> time \<Rightarrow> batch_store \<Rightarrow> nat \<times> batch_store" where
  "reset_lost_tasks now stale st =
     (length (filter (is_lost now stale st) (bs_tasks st)),
      st\<lparr>bs_tasks := map (\<lambda>t. if is_lost now stale st t then t\<lparr>t_state := TODO\<rparr> else t) (bs_tasks st)\<rparr>)"

fun claim_loop :: "(nat \<Rightarrow> time) \<Rightarrow> nat \<Rightarrow> int \<Rightarrow> task_row list \<Rightarrow> task_row list \<times> task_row list \<times> (pyval \<times> time) list" where
  "claim_loop clk k limit [] = ([], [], [])"
| "claim_loop clk k limit (t # ts) =
     (if int k \<ge> max 1 limit then ([], t # ts, [])
      else if t_state t = TODO
      then (case claim_loop clk (Suc k) limit ts of (cs, ts', touch) \<Rightarrow>
              (t\<lparr>t_state := DOING\<rparr> # cs, t\<lparr>t_state := DOING\<rparr> # ts', (t_id t, clk k) # touch))
      else (case claim_loop clk k limit ts of (cs, ts', touch) \<Rightarrow> (cs, t # ts', touch)))"

text \<open>\<open>clk k\<close> is the clock at the \<open>k\<close>-th claimed row.\<close>

definition claim_tasks :: "(nat \<Rightarrow> time) \<Rightarrow> int \<Rightarrow> batch_store \<Rightarrow> task_row list \<times> batch_store" where
  "claim_tasks clk limit st =
     (case claim_loop clk 0 limit (bs_tasks st) of (cs, ts', touch) \<Rightarrow>
        (cs, st\<lparr>bs_tasks := ts', bs_touched := fold (\<lambda>(i, t) d. dset d i t) touch (bs_touched st)\<rparr>))"

fun mark_first :: "pyval \<Rightarrow> int \<Rightarrow> task_row list \<Rightarrow> task_row list" where
  "mark_first i x [] = []"
| "mark_first i x (t # ts) = (if t_id t = i then t\<lparr>t_state := x\<rparr> # ts else t # mark_first i x ts)"

definition mark_task :: "time \<Rightarrow> pyval \<Rightarrow> int \<Rightarrow> batch_store \<Rightarrow> batch_store" where
  "mark_task now i x st =
     (if i \<in> t_id ` set (bs_tasks st)
      then st\<lparr>bs_tasks := mark_first i x (bs_tasks st), bs_touched := dset (bs_touched st) i now\<rparr> else st)"

section \<open>The master\<close>

record monitor =
  mo_ns :: string
  mo_interval :: time
  mo_unit :: string
  mo_pause :: time
  mo_stale :: time
  mo_limit :: int
  mo_node :: string

definition LOCK_TTL :: int where "LOCK_TTL = 60"

definition pending_key :: "string \<Rightarrow> string" where "pending_key ns = ns @ '':batch_pending''"
definition done_key :: "string \<Rightarrow> string" where "done_key ns = ns @ '':batch_done''"
definition lock_key :: "string \<Rightarrow> string" where "lock_key ns = ns @ '':batch_monitor_lock''"

definition lock_ttl :: "monitor \<Rightarrow> int" where
  "lock_ttl m = max LOCK_TTL \<lceil>mo_pause m * 3\<rceil>"

definition interval_seconds :: "monitor \<Rightarrow> time" where
  "interval_seconds m = mo_interval m * (if mo_unit m = ''day'' then 86400 else 3600)"

text \<open>A row as the JSON text that is pushed, with the names of its id and state columns.\<close>

definition row_json :: "string \<Rightarrow> string \<Rightarrow> task_row \<Rightarrow> string" where
  "row_json idf stf t = dumps_json (VDict ((idf, t_id t) # (stf, VInt (t_state t)) # t_data t))"

definition open_batch :: "'s redis \<Rightarrow> monitor \<Rightarrow> time \<Rightarrow> string \<Rightarrow> batch_store \<Rightarrow> 's \<Rightarrow> batch_record option res \<times> batch_store \<times> 's" where
  "open_batch R m now date st s =
     (let st1 = reset_all_tasks st
      in case rcall R (del_cmd R (pending_key (mo_ns m))) s of
           (Inl e, s1) \<Rightarrow> (Inl e, st1, s1)
         | (Inr _, s1) \<Rightarrow>
             (case rcall R (del_cmd R (done_key (mo_ns m))) s1 of
                (Inl e, s2) \<Rightarrow> (Inl e, st1, s2)
              | (Inr _, s2) \<Rightarrow>
                  (case create_batch now date (tc_total (count_tasks st1)) (mo_interval m) (mo_unit m) st1 of
                     (b, st2) \<Rightarrow> (Inr (Some b), st2, s2))))"

definition ensure_batch :: "'s redis \<Rightarrow> monitor \<Rightarrow> bool \<Rightarrow> time \<Rightarrow> string \<Rightarrow> batch_store \<Rightarrow> 's \<Rightarrow> batch_record option res \<times> batch_store \<times> 's" where
  "ensure_batch R m force now date st s =
     (case latest_batch st of
        Some b \<Rightarrow>
          if \<not> br_is_done b then (Inr (Some b), st, s)
          else if \<not> force \<and> batch_age_seconds now (br_id b) st < interval_seconds m then (Inr None, st, s)
          else open_batch R m now date st s
      | None \<Rightarrow> open_batch R m now date st s)"

text \<open>\<open>_tick\<close>: \<open>Inr True\<close> when the batch is complete.\<close>

definition tick :: "'s redis \<Rightarrow> string \<Rightarrow> string \<Rightarrow> monitor \<Rightarrow> time \<Rightarrow> (nat \<Rightarrow> time) \<Rightarrow> batch_record \<Rightarrow> batch_store \<Rightarrow> 's \<Rightarrow> bool res \<times> batch_store \<times> 's" where
  "tick R idf stf m now clk b st s =
     (let st1 = snd (reset_lost_tasks now (mo_stale m) st);
          (cs, st2) = claim_tasks clk (mo_limit m) st1
      in case (if cs = [] then (Inr (), s) else rcall R (rdo (rpush_cmd R (pending_key (mo_ns m)) (map (row_json idf stf) cs))) s) of
           (Inl e, s1) \<Rightarrow> (Inl e, st2, s1)
         | (Inr _, s1) \<Rightarrow>
             let c = count_tasks st2;
                 st3 = update_batch_counts (br_id b) (tc_done c) (tc_failed c) (tc_total c) st2
             in if tc_total c = 0 \<or> finished c
                then (let st4 = finish_batch (br_id b) st3
                      in case rcall R (rdo (set_ex R (done_key (mo_ns m)) ''1'' 86400)) s1 of
                           (Inl e, s2) \<Rightarrow> (Inl e, st4, s2)
                         | (Inr _, s2) \<Rightarrow> (Inr True, st4, s2))
                else (Inr False, st3, s1))"

text \<open>The lock: taken with \<open>SET NX EX\<close>, renewed and released by scripts that check the owner.\<close>

definition hold_lock :: "'s redis \<Rightarrow> monitor \<Rightarrow> 's \<Rightarrow> unit res \<times> 's" where
  "hold_lock R m s =
     (case rcall R (set_nx_ex R (lock_key (mo_ns m)) (mo_node m) (of_int (lock_ttl m))) s of
        (Inl e, s1) \<Rightarrow> (Inl e, s1)
      | (Inr got, s1) \<Rightarrow> (if got then Inr () else Inl (raise_of SpiderError), s1))"

definition lock_renew_lua :: "'s redis \<Rightarrow> string \<Rightarrow> string \<Rightarrow> real \<Rightarrow> 's \<Rightarrow> bool \<times> 's" where
  "lock_renew_lua R k owner ttl s = (if get_cmd R k s = Some owner then expire_cmd R k ttl s else (False, s))"

definition lock_release_lua :: "'s redis \<Rightarrow> string \<Rightarrow> string \<Rightarrow> 's \<Rightarrow> bool \<times> 's" where
  "lock_release_lua R k owner s = (if get_cmd R k s = Some owner then del_cmd R k s else (False, s))"

definition renew_lock :: "'s redis \<Rightarrow> monitor \<Rightarrow> 's \<Rightarrow> unit res \<times> 's" where
  "renew_lock R m s =
     (case rcall R (lock_renew_lua R (lock_key (mo_ns m)) (mo_node m) (of_int (lock_ttl m))) s of
        (Inl e, s1) \<Rightarrow> (Inl e, s1)
      | (Inr ok, s1) \<Rightarrow> (if ok then Inr () else Inl (raise_of SpiderError), s1))"

definition release_lock :: "'s redis \<Rightarrow> monitor \<Rightarrow> 's \<Rightarrow> 's" where
  "release_lock R m s = snd (rcall R (lock_release_lua R (lock_key (mo_ns m)) (mo_node m)) s)"

text \<open>\<open>run_once\<close>: the loop of ticks; \<open>env k\<close> is what the workers and the clock do to store and server while the master waits
  after round \<open>k\<close>, \<open>stop k\<close> says that \<open>stop()\<close> has been called.  \<open>None\<close>: the fuel is used up.\<close>

fun monitor_loop :: "nat \<Rightarrow> nat \<Rightarrow> 's redis \<Rightarrow> string \<Rightarrow> string \<Rightarrow> monitor \<Rightarrow> (nat \<Rightarrow> time) \<Rightarrow> (nat \<Rightarrow> batch_store \<times> 's \<Rightarrow> batch_store \<times> 's)
    \<Rightarrow> (nat \<Rightarrow> bool) \<Rightarrow> batch_record \<Rightarrow> batch_store \<Rightarrow> 's \<Rightarrow> (batch_record res \<times> batch_store \<times> 's) option" where
  "monitor_loop 0 k R idf stf m clk env stop b st s = None"
| "monitor_loop (Suc fuel) k R idf stf m clk env stop b st s =
     (if stop k then Some (Inr b, st, s)
      else case renew_lock R m s of
        (Inl e, s1) \<Rightarrow> Some (Inl e, st, s1)
      | (Inr _, s1) \<Rightarrow>
          (case tick R idf stf m (clk k) (\<lambda>_. clk k) b st s1 of
             (Inl e, st1, s2) \<Rightarrow> Some (Inl e, st1, s2)
           | (Inr True, st1, s2) \<Rightarrow> Some (Inr (case latest_batch st1 of Some b' \<Rightarrow> b' | None \<Rightarrow> b), st1, s2)
           | (Inr False, st1, s2) \<Rightarrow> (case env k (st1, s2) of (st2, s3) \<Rightarrow> monitor_loop fuel (Suc k) R idf stf m clk env stop b st2 s3)))"

definition run_once :: "nat \<Rightarrow> 's redis \<Rightarrow> string \<Rightarrow> string \<Rightarrow> monitor \<Rightarrow> time \<Rightarrow> string \<Rightarrow> (nat \<Rightarrow> time) \<Rightarrow> (nat \<Rightarrow> batch_store \<times> 's \<Rightarrow> batch_store \<times> 's)
    \<Rightarrow> (nat \<Rightarrow> bool) \<Rightarrow> batch_store \<Rightarrow> 's \<Rightarrow> (batch_record res \<times> batch_store \<times> 's) option" where
  "run_once fuel R idf stf m now date clk env stop st s =
     (case hold_lock R m s of
        (Inl e, s1) \<Rightarrow> Some (Inl e, st, s1)
      | (Inr _, s1) \<Rightarrow>
          map_option (\<lambda>(x, st', s'). (x, st', release_lock R m s'))
            (case ensure_batch R m True now date st s1 of
               (Inl e, st1, s2) \<Rightarrow> Some (Inl e, st1, s2)
             | (Inr None, st1, s2) \<Rightarrow> Some (Inl (raise_of PyOtherError), st1, s2)
             | (Inr (Some b), st1, s2) \<Rightarrow> monitor_loop fuel 0 R idf stf m clk env stop b st1 s2))"

text \<open>
  \<open>run\<close>: the two nested loops of the resident master; \<open>cur\<close> is the batch the inner loop works on.  \<open>date k\<close> is the name a batch gets that is opened in round \<open>k\<close>.
\<close>

fun serve_loop :: "nat \<Rightarrow> nat \<Rightarrow> 's redis \<Rightarrow> string \<Rightarrow> string \<Rightarrow> monitor \<Rightarrow> (nat \<Rightarrow> string) \<Rightarrow> (nat \<Rightarrow> time)
    \<Rightarrow> (nat \<Rightarrow> batch_store \<times> 's \<Rightarrow> batch_store \<times> 's) \<Rightarrow> (nat \<Rightarrow> bool) \<Rightarrow> batch_record option \<Rightarrow> batch_store \<Rightarrow> 's \<Rightarrow> (unit res \<times> batch_store \<times> 's) option" where
  "serve_loop 0 k R idf stf m date clk env stop cur st s = None"
| "serve_loop (Suc fuel) k R idf stf m date clk env stop cur st s =
     (if stop k then Some (Inr (), st, s)
      else case renew_lock R m s of
        (Inl e, s1) \<Rightarrow> Some (Inl e, st, s1)
      | (Inr _, s1) \<Rightarrow>
          (case cur of
             None \<Rightarrow>
               (case ensure_batch R m False (clk k) (date k) st s1 of
                  (Inl e, st1, s2) \<Rightarrow> Some (Inl e, st1, s2)
                | (Inr None, st1, s2) \<Rightarrow> (case env k (st1, s2) of (st2, s3) \<Rightarrow> serve_loop fuel (Suc k) R idf stf m date clk env stop None st2 s3)
                | (Inr (Some b), st1, s2) \<Rightarrow> serve_loop fuel (Suc k) R idf stf m date clk env stop (Some b) st1 s2)
           | Some b \<Rightarrow>
               (case tick R idf stf m (clk k) (\<lambda>_. clk k) b st s1 of
                  (Inl e, st1, s2) \<Rightarrow> Some (Inl e, st1, s2)
                | (Inr True, st1, s2) \<Rightarrow> serve_loop fuel (Suc k) R idf stf m date clk env stop None st1 s2
                | (Inr False, st1, s2) \<Rightarrow> (case env k (st1, s2) of (st2, s3) \<Rightarrow> serve_loop fuel (Suc k) R idf stf m date clk env stop (Some b) st2 s3))))"

definition run_resident :: "nat \<Rightarrow> 's redis \<Rightarrow> string \<Rightarrow> string \<Rightarrow> monitor \<Rightarrow> (nat \<Rightarrow> string) \<Rightarrow> (nat \<Rightarrow> time)
    \<Rightarrow> (nat \<Rightarrow> batch_store \<times> 's \<Rightarrow> batch_store \<times> 's) \<Rightarrow> (nat \<Rightarrow> bool) \<Rightarrow> batch_store \<Rightarrow> 's \<Rightarrow> (unit res \<times> batch_store \<times> 's) option" where
  "run_resident fuel R idf stf m date clk env stop st s =
     (case hold_lock R m s of
        (Inl e, s1) \<Rightarrow> Some (Inl e, st, s1)
      | (Inr _, s1) \<Rightarrow> map_option (\<lambda>(x, st', s'). (x, st', release_lock R m s')) (serve_loop fuel 0 R idf stf m date clk env stop None st s1))"

text \<open>Once \<open>stop\<close> has been called the master returns within the round it is in, whatever its calls answer.\<close>

lemma serve_loop_stops: "stop (k + n) \<Longrightarrow> serve_loop (Suc n) k R idf stf m date clk env stop cur st s \<noteq> None"
  by (induction n arbitrary: k cur st s) (auto split: prod.splits sum.splits option.splits bool.splits)

lemma stopped_master_returns: "stop n \<Longrightarrow> run_resident (Suc n) R idf stf m date clk env stop st s \<noteq> None"
  using serve_loop_stops [of stop 0 n R idf stf m date clk env None st] by (auto simp: run_resident_def split: prod.splits sum.splits)

lemma monitor_loop_stops: "stop (k + n) \<Longrightarrow> monitor_loop (Suc n) k R idf stf m clk env stop b st s \<noteq> None"
  by (induction n arbitrary: k b st s) (auto split: prod.splits sum.splits bool.splits)

section \<open>The worker side\<close>

text \<open>\<open>update_task\<close>: the state that is written at once, if any, and the item buffer; \<open>h\<close> stands for the hook that writes \<open>DONE\<close> later.\<close>

definition update_task :: "bool \<Rightarrow> (ibuf \<times> request) option \<Rightarrow> nat \<Rightarrow> int option \<times> ibuf option" where
  "update_task ok ctx h =
     (if \<not> ok then (Some FAILED, map_option fst ctx)
      else case ctx of
        None \<Rightarrow> (Some DONE, None)
      | Some (buf, r) \<Rightarrow> (case after_persist_if_pending r h buf of (True, buf1) \<Rightarrow> (None, Some buf1) | (False, buf1) \<Rightarrow> (Some DONE, Some buf1)))"

text \<open>\<open>failed_request\<close>: the id of the task to be marked as failed.\<close>

definition failed_task :: "string \<Rightarrow> request \<Rightarrow> pyval option" where
  "failed_task idf r =
     (case dget (cb_kwargs r) ''task'' of
        Some (VDict d) \<Rightarrow> (case dget d idf of Some i \<Rightarrow> if i = VNone then None else Some i | None \<Rightarrow> None)
      | _ \<Rightarrow> None)"

fun loads_all :: "string list \<Rightarrow> pyval list res" where
  "loads_all [] = Inr []"
| "loads_all (x # xs) = (case loads_json x of Inl e \<Rightarrow> Inl e | Inr v \<Rightarrow> (case loads_all xs of Inl e \<Rightarrow> Inl e | Inr vs \<Rightarrow> Inr (v # vs)))"

definition fetch_tasks :: "'s redis \<Rightarrow> string \<Rightarrow> int \<Rightarrow> 's \<Rightarrow> pyval list res \<times> 's" where
  "fetch_tasks R ns limit s =
     (case rcall R (lpop_cmd R (pending_key ns) (nat (max 1 limit))) s of
        (Inl e, s1) \<Rightarrow> (Inl e, s1)
      | (Inr raw, s1) \<Rightarrow> (loads_all raw, s1))"

text \<open>\<open>_task_requests_tagged\<close>\<close>

definition tag_request :: "pyval \<Rightarrow> request \<Rightarrow> request" where
  "tag_request task r = (if dget (cb_kwargs r) ''task'' = None then r\<lparr>cb_kwargs := dset (cb_kwargs r) ''task'' task\<rparr> else r)"

section \<open>Claiming\<close>

abbreviation doing :: "task_row \<Rightarrow> task_row" where
  "doing t \<equiv> t\<lparr>t_state := DOING\<rparr>"

lemma claim_loop_claims:
  assumes "claim_loop clk k limit ts = (cs, ts', touch)"
  shows "cs = map doing (take (nat (max 1 limit) - k) (filter (\<lambda>t. t_state t = TODO) ts))"
  using assms
proof (induction clk k limit ts arbitrary: cs ts' touch rule: claim_loop.induct)
  case (2 clk k limit t ts)
  show ?case
  proof (cases "int k \<ge> max 1 limit")
    case False
    then have "nat (max 1 limit) - k = Suc (nat (max 1 limit) - Suc k)" by linarith
    then show ?thesis using "2.prems" "2.IH" False by (auto split: if_splits prod.splits)
  qed (use "2.prems" in auto)
qed simp

text \<open>A row after the claim: as before, or claimed.\<close>

lemma claim_loop_rows:
  assumes "claim_loop clk k limit ts = (cs, ts', touch)"
  shows "list_all2 (\<lambda>t t'. t' = t \<or> t_state t = TODO \<and> t' = doing t) ts ts'"
  using assms
  by (induction clk k limit ts arbitrary: cs ts' touch rule: claim_loop.induct)
    (auto simp: list_all2_refl split: if_splits prod.splits)

lemma claim_loop_touch:
  assumes "claim_loop clk k limit ts = (cs, ts', touch)"
  shows "map fst touch = map t_id cs" "snd ` set touch \<subseteq> range clk"
  using assms
  by (induction clk k limit ts arbitrary: cs ts' touch rule: claim_loop.induct) (auto split: if_splits prod.splits)

section \<open>A batch closes when all tasks are settled\<close>

definition is_settled :: "task_row \<Rightarrow> bool" where
  "is_settled t \<longleftrightarrow> t_state t = DONE \<or> t_state t = FAILED"

lemma count_settled: "count_state DONE ts + count_state FAILED ts = length (filter is_settled ts)"
  by (induction ts) (auto simp: count_state_def is_settled_def states)

lemma finished_iff: "tc_total (count_tasks st) = 0 \<or> finished (count_tasks st) \<longleftrightarrow> (\<forall>t\<in>set (bs_tasks st). is_settled t)"
proof -
  have "length (filter is_settled (bs_tasks st)) \<ge> length (bs_tasks st) \<longleftrightarrow> (\<forall>t\<in>set (bs_tasks st). is_settled t)"
    by (metis filter_id_conv length_filter_le length_filter_less less_le_not_le order_refl filter_True)
  then show ?thesis by (auto simp: finished_def settled_def count_tasks_def count_settled)
qed

lemma tick_settled:
  assumes "claim_tasks clk limit (snd (reset_lost_tasks now stale st)) = (cs, st2)"
  shows "(\<forall>t\<in>set (bs_tasks st2). is_settled t) \<longleftrightarrow> (\<forall>t\<in>set (bs_tasks st). is_settled t)"
proof -
  let ?f = "\<lambda>t. if is_lost now stale st t then t\<lparr>t_state := TODO\<rparr> else t"
  obtain ts' touch where c: "claim_loop clk 0 limit (map ?f (bs_tasks st)) = (cs, ts', touch)" and ts': "bs_tasks st2 = ts'"
    using assms by (auto simp: claim_tasks_def reset_lost_tasks_def split: prod.splits)
  have "list_all2 (\<lambda>t t'. t' = t \<or> t_state t = TODO \<and> t' = doing t) (map ?f (bs_tasks st)) ts'" by (rule claim_loop_rows [OF c])
  then have "list_all2 (\<lambda>t t'. is_settled t' = is_settled t) (bs_tasks st) ts'"
    unfolding list_all2_map1 by (rule list_all2_mono) (auto simp: is_settled_def is_lost_def states split: if_splits)
  then show ?thesis unfolding ts' by (simp add: list_all2_conv_all_nth all_set_conv_all_nth)
qed


definition a_task :: "int \<Rightarrow> int \<Rightarrow> task_row" where
  "a_task i x = \<lparr>t_id = VInt i, t_state = x, t_data = [(''url'', VStr ''http://a'')]\<rparr>"

definition a_monitor :: monitor where
  "a_monitor = \<lparr>mo_ns = ''n'', mo_interval = 1, mo_unit = ''day'', mo_pause = 10, mo_stale = 600, mo_limit = 5000, mo_node = ''h-1''\<rparr>"

definition a_batch :: batch_record where
  "a_batch = \<lparr>br_id = 1, br_date = [], br_total = 2, br_done = 0, br_fail = 0, br_interval = 1, br_unit = ''day'', br_is_done = False\<rparr>"

lemmas tick_run = tick_def reset_lost_tasks_def claim_tasks_def is_lost_def count_tasks_def count_state_def finished_def settled_def update_batch_counts_def
  rcall_def mini_sel mini_conn_def mini_rpush_cmd_def mini_set_ex_def mini_empty_def states a_task_def a_monitor_def a_batch_def Let_def


section \<open>From the master to the workers\<close>

lemma loads_row: "loads_json (row_json idf stf t) = Inr (VDict ((idf, t_id t) # (stf, VInt (t_state t)) # t_data t))"
  unfolding row_json_def by (rule loads_dumps)

lemma loads_all_rows: "loads_all (map (row_json idf stf) ts) = Inr (map (\<lambda>t. VDict ((idf, t_id t) # (stf, VInt (t_state t)) # t_data t)) ts)"
  by (induction ts) (simp_all add: loads_row)

lemma claim_tasks_claims:
  "claim_tasks clk limit st = (cs, st') \<Longrightarrow> cs = map doing (take (nat (max 1 limit)) (filter (\<lambda>t. t_state t = TODO) (bs_tasks st)))"
  using claim_loop_claims by (auto simp: claim_tasks_def split: prod.splits) (metis diff_zero)

lemma filter_reset:
  "filter (\<lambda>t. t_state t = TODO) (map (\<lambda>t. if is_lost now stale st t then t\<lparr>t_state := TODO\<rparr> else t) ts)
   = map (\<lambda>t. if is_lost now stale st t then t\<lparr>t_state := TODO\<rparr> else t) (filter (\<lambda>t. t_state t = TODO \<or> is_lost now stale st t) ts)"
  by (induction ts) auto

context redis_server
begin

lemma tick_pending:
  assumes "tick R idf stf m now clk b st s = (Inr fin, st', s')" "claim_tasks clk (mo_limit m) (snd (reset_lost_tasks now (mo_stale m) st)) = (cs, st2)"
  shows "rlists (view s') (pending_key (mo_ns m)) = rlists (view s) (pending_key (mo_ns m)) @ map (row_json idf stf) cs"
proof -
  let ?k = "pending_key (mo_ns m)" and ?set = "rdo (set_ex R (done_key (mo_ns m)) ''1'' 86400)"
  obtain a s1 where p: "(if cs = [] then (Inr (), s) else rcall R (rdo (rpush_cmd R ?k (map (row_json idf stf) cs))) s) = (a, s1)"
    by (metis surj_pair)
  have a: "a = Inr ()" "s' = s1 \<or> (\<exists>z. rcall R ?set s1 = (z, s'))"
    using assms(1) unfolding tick_def Let_def assms(2) prod.case p
    by (auto split: sum.splits prod.splits if_splits)
  have "rlists (view s1) ?k = rlists (view s) ?k @ map (row_json idf stf) cs"
    using p a(1) rcall_Inr [of "rdo (rpush_cmd R ?k (map (row_json idf stf) cs))" s] by (auto simp: rpush_view split: if_splits)
  moreover have "rlists (view s') ?k = rlists (view s1) ?k"
    using a(2) rcall_view [of ?set s1] by (auto simp: set_ex_view)
  ultimately show ?thesis by simp
qed

lemma fetch_all:
  assumes "fetch_tasks R ns limit s = (Inr vs, s')" "rlists (view s) (pending_key ns) = map (row_json idf stf) cs" "length cs \<le> nat (max 1 limit)"
  shows "vs = map (\<lambda>t. VDict ((idf, t_id t) # (stf, VInt (t_state t)) # t_data t)) cs \<and> rlists (view s') (pending_key ns) = []"
proof -
  let ?pop = "lpop_cmd R (pending_key ns) (nat (max 1 limit))"
  obtain raw where r: "rcall R ?pop s = (Inr raw, s')" "loads_all raw = Inr vs"
    using assms(1) by (auto simp: fetch_tasks_def split: prod.splits sum.splits)
  obtain s1 where s1: "view s1 = view s" "?pop s1 = (raw, s')" using rcall_Inr [OF r(1)] by blast
  have "raw = map (row_json idf stf) cs"
    using lpop_val [of "pending_key ns" "nat (max 1 limit)" s1] s1 assms(2,3) by simp
  then show ?thesis
    using r(2) lpop_view [of "pending_key ns" "nat (max 1 limit)" s1] s1 assms(2,3) by (simp add: loads_all_rows)
qed

end

text \<open>What the master claims reaches the workers. After an answered tick on an empty list, a worker's \<^verbatim>\<open>fetch_tasks\<close> whose limit is large enough
  returns, in table order and each once, the rows that were waiting or were found stale (the first \<^verbatim>\<open>max(1, push_limit)\<close> of them),
  with every column intact and the state set to in-progress, and leaves the list empty.\<close>

theorem tick_delivers:
  assumes "redis_server R view" "tick R idf stf m now clk b st s = (Inr fin, st', s')" "rlists (view s) (pending_key (mo_ns m)) = []"
    and "fetch_tasks R (mo_ns m) limit s' = (Inr vs, s'')" "max 1 (mo_limit m) \<le> limit"
  shows "vs = map (\<lambda>t. VDict ((idf, t_id t) # (stf, VInt DOING) # t_data t))
      (take (nat (max 1 (mo_limit m))) (filter (\<lambda>t. t_state t = TODO \<or> is_lost now (mo_stale m) st t) (bs_tasks st)))
    \<and> rlists (view s'') (pending_key (mo_ns m)) = []"
proof -
  obtain cs st2 where c: "claim_tasks clk (mo_limit m) (snd (reset_lost_tasks now (mo_stale m) st)) = (cs, st2)" by (metis surj_pair)
  let ?open = "take (nat (max 1 (mo_limit m))) (filter (\<lambda>t. t_state t = TODO \<or> is_lost now (mo_stale m) st t) (bs_tasks st))"
  have cs: "cs = map doing ?open"
    using claim_tasks_claims [OF c] by (simp add: reset_lost_tasks_def filter_reset take_map cong: map_cong)
  have "length ?open \<le> nat (max 1 (mo_limit m))" by simp
  then have "length cs \<le> nat (max 1 limit)" using assms(5) unfolding cs length_map by linarith
  moreover have "rlists (view s') (pending_key (mo_ns m)) = map (row_json idf stf) cs"
    using redis_server.tick_pending [OF assms(1,2) c] assms(3) by simp
  ultimately have "vs = map (\<lambda>t. VDict ((idf, t_id t) # (stf, VInt (t_state t)) # t_data t)) cs \<and> rlists (view s'') (pending_key (mo_ns m)) = []"
    using redis_server.fetch_all [OF assms(1,4)] by blast
  then show ?thesis by (simp add: cs comp_def)
qed

theorem tick_delivers_witness:
  "fst (fetch_tasks mini ''n'' 5000 (snd (snd (tick mini ''id'' ''st'' a_monitor 5 (\<lambda>_. 5) a_batch (new_store [a_task 1 DONE, a_task 2 TODO]) mini_empty))))
   = Inr [VDict [(''id'', VInt 2), (''st'', VInt DOING), (''url'', VStr ''http://a'')]]"
proof -
  let ?t = "tick mini ''id'' ''st'' a_monitor 5 (\<lambda>_. 5) a_batch (new_store [a_task 1 DONE, a_task 2 TODO]) mini_empty"
  let ?f = "fetch_tasks mini ''n'' 5000 (snd (snd ?t))"
  have "fst ?t = Inr False" by (simp add: tick_run new_store_def)
  then have t: "?t = (Inr False, fst (snd ?t), snd (snd ?t))" by (metis prod.collapse)
  have e: "rlists (mini_view mini_empty) (pending_key (mo_ns a_monitor)) = []" by (simp add: mini_view_def mini_empty_def)
  have r: "loads_all [row_json ''id'' ''st'' (doing (a_task 2 TODO))] = Inr [VDict [(''id'', VInt 2), (''st'', VInt DOING), (''url'', VStr ''http://a'')]]"
    using loads_all_rows [of "''id''" "''st''" "[doing (a_task 2 TODO)]"] by (simp add: a_task_def)
  have "ml (snd (snd ?t)) (pending_key ''n'') = [row_json ''id'' ''st'' (doing (a_task 2 TODO))]" "faults (snd (snd ?t)) = []"
    by (simp_all add: tick_run new_store_def)
  then have "fst ?f = Inr [VDict [(''id'', VInt 2), (''st'', VInt DOING), (''url'', VStr ''http://a'')]]"
    using r by (simp add: fetch_tasks_def rcall_def mini_sel mini_conn_def mini_lpop_cmd_def)
  then have f: "fetch_tasks mini (mo_ns a_monitor) 5000 (snd (snd ?t)) = (Inr [VDict [(''id'', VInt 2), (''st'', VInt DOING), (''url'', VStr ''http://a'')]], snd ?f)"
    by (metis a_monitor_def monitor.select_convs(1) prod.collapse)
  show ?thesis using tick_delivers [OF mini.redis_server_axioms t e f] \<open>fst ?f = _\<close> by simp
qed

text \<open>A task that still waits in the list when \<^verbatim>\<open>lost_stale\<close> has passed is taken for lost: the next tick pushes it a second time, although no
  worker has had it.  Only \<^verbatim>\<open>claim_tasks\<close> and \<^verbatim>\<open>mark_task\<close> stamp a task, so with a backlog of more than \<^verbatim>\<open>lost_stale\<close> seconds every waiting
  task is crawled again and again.\<close>

lemma waiting_task_pushed_twice:
  "ml (snd (snd (tick mini ''id'' ''st'' a_monitor 605 (\<lambda>_. 605) a_batch
      (fst (snd (tick mini ''id'' ''st'' a_monitor 5 (\<lambda>_. 5) a_batch (new_store [a_task 2 TODO]) mini_empty)))
      (snd (snd (tick mini ''id'' ''st'' a_monitor 5 (\<lambda>_. 5) a_batch (new_store [a_task 2 TODO]) mini_empty)))))) (pending_key ''n'')
   = [row_json ''id'' ''st'' (a_task 2 DOING), row_json ''id'' ''st'' (a_task 2 DOING)]"
  by (simp add: tick_run new_store_def)

section \<open>One master at a time\<close>

text \<open>
  The masters of one namespace around the lock.  \<open>lease\<close> maps a node to the server time until which its lock was granted, as long as it
  runs: from an answered \<open>_hold_lock\<close> or \<open>_renew_lock\<close>.  A node whose call failed or was refused stops (its guard releases the lock); a killed
  node leaves its lock behind.  Between the steps the server's clock goes on, and other keys change.
\<close>

type_synonym 's masters = "'s \<times> (string \<Rightarrow> time option)"

inductive mstep :: "'s redis \<Rightarrow> ('s \<Rightarrow> rview) \<Rightarrow> string \<Rightarrow> 's masters \<Rightarrow> 's masters \<Rightarrow> bool" for R view ns where
  hold: "mo_ns m = ns \<Longrightarrow> hold_lock R m s = (Inr (), s') \<Longrightarrow>
    mstep R view ns (s, lease) (s', lease(mo_node m \<mapsto> clock (view s) + of_int (lock_ttl m)))"
| refused: "mo_ns m = ns \<Longrightarrow> hold_lock R m s = (Inl e, s') \<Longrightarrow> mstep R view ns (s, lease) (s', lease)"
| renewed: "mo_ns m = ns \<Longrightarrow> lease (mo_node m) \<noteq> None \<Longrightarrow> renew_lock R m s = (Inr (), s') \<Longrightarrow>
    mstep R view ns (s, lease) (s', lease(mo_node m \<mapsto> clock (view s) + of_int (lock_ttl m)))"
| deposed: "mo_ns m = ns \<Longrightarrow> renew_lock R m s = (Inl e, s') \<Longrightarrow> mstep R view ns (s, lease) (release_lock R m s', lease(mo_node m := None))"
| leave: "mo_ns m = ns \<Longrightarrow> mstep R view ns (s, lease) (release_lock R m s, lease(mo_node m := None))"
| dies: "mstep R view ns (s, lease) (s, lease(n := None))"
| passes: "strs (view s') (lock_key ns) = strs (view s) (lock_key ns) \<Longrightarrow> clock (view s) \<le> clock (view s') \<Longrightarrow> mstep R view ns (s, lease) (s', lease)"

definition masters_inv :: "('s \<Rightarrow> rview) \<Rightarrow> string \<Rightarrow> 's masters \<Rightarrow> bool" where
  "masters_inv view ns = (\<lambda>(s, lease). \<forall>n d. lease n = Some d \<longrightarrow> clock (view s) < d \<longrightarrow> strs (view s) (lock_key ns) = Some (n, d))"

lemma masters_invD: "masters_inv view ns (s, lease) \<Longrightarrow> lease n = Some d \<Longrightarrow> clock (view s) < d \<Longrightarrow> live_str (view s) (lock_key ns) = Some n"
  by (simp add: masters_inv_def live_str_def)

context redis_server
begin

text \<open>The scripts do nothing to a lock that another node holds.\<close>

lemma lock_lua_other:
  assumes "view s0 = v" "live_str v k = Some n" "n \<noteq> owner"
  shows "view (snd (lock_renew_lua R k owner ttl s0)) = v" "view (snd (lock_release_lua R k owner s0)) = v"
  using assms by (simp_all add: lock_renew_lua_def lock_release_lua_def get_val)

lemma lock_clock:
  "clock (view (snd (rcall R (lock_renew_lua R k owner ttl) s))) = clock (view s)"
  "clock (view (release_lock R m s)) = clock (view s)"
  "clock (view (snd (rcall R (set_nx_ex R k v ttl) s))) = clock (view s)"
proof -
  have r: "clock (view (snd (lock_renew_lua R k owner ttl s0))) = clock (view s0)" for s0
    by (simp add: lock_renew_lua_def expire_view split: option.split)
  have d: "clock (view (snd (lock_release_lua R k owner s0))) = clock (view s0)" for k owner s0
    by (simp add: lock_release_lua_def del_view)
  have n: "clock (view (snd (set_nx_ex R k v ttl s0))) = clock (view s0)" for s0 by (simp add: set_nx_view)
  show "clock (view (snd (rcall R (lock_renew_lua R k owner ttl) s))) = clock (view s)"
    using rcall_view [of "lock_renew_lua R k owner ttl" s] r by metis
  show "clock (view (release_lock R m s)) = clock (view s)"
    using rcall_view [of "lock_release_lua R (lock_key (mo_ns m)) (mo_node m)" s] d unfolding release_lock_def by metis
  show "clock (view (snd (rcall R (set_nx_ex R k v ttl) s))) = clock (view s)"
    using rcall_view [of "set_nx_ex R k v ttl" s] n by metis
qed

lemma hold_view:
  assumes "hold_lock R m s = (a, s')"
  shows "clock (view s') = clock (view s)"
    "live_str (view s) (lock_key (mo_ns m)) \<noteq> None \<Longrightarrow> view s' = view s \<and> a \<noteq> Inr ()"
    "a = Inr () \<Longrightarrow> strs (view s') (lock_key (mo_ns m)) = Some (mo_node m, clock (view s) + of_int (lock_ttl m))"
proof -
  let ?f = "set_nx_ex R (lock_key (mo_ns m)) (mo_node m) (of_int (lock_ttl m))"
  obtain b where b: "rcall R ?f s = (b, s')" "a = Inr () \<longleftrightarrow> b = Inr True"
    using assms by (auto simp: hold_lock_def split: prod.splits sum.splits if_splits)
  show "clock (view s') = clock (view s)" using lock_clock(3) b(1) by (metis snd_conv)
  show "view s' = view s \<and> a \<noteq> Inr ()" if l: "live_str (view s) (lock_key (mo_ns m)) \<noteq> None"
  proof
    show "view s' = view s" using rcall_view [of ?f s] b(1) l by (auto simp: set_nx_view)
    show "a \<noteq> Inr ()"
    proof
      assume "a = Inr ()"
      then obtain s1 where "view s1 = view s" "?f s1 = (True, s')" using rcall_Inr [of ?f s True s'] b by auto
      then show False using set_nx_val [of "lock_key (mo_ns m)" "mo_node m" "of_int (lock_ttl m)" s1] l by simp
    qed
  qed
  show "strs (view s') (lock_key (mo_ns m)) = Some (mo_node m, clock (view s) + of_int (lock_ttl m))" if ok: "a = Inr ()"
  proof -
    obtain s1 where s1: "view s1 = view s" "?f s1 = (True, s')" using rcall_Inr [of ?f s True s'] b ok by auto
    then have "live_str (view s1) (lock_key (mo_ns m)) = None" using set_nx_val [of "lock_key (mo_ns m)" "mo_node m" "of_int (lock_ttl m)" s1] by simp
    then show ?thesis using set_nx_view [of "lock_key (mo_ns m)" "mo_node m" "of_int (lock_ttl m)" s1] s1 by simp
  qed
qed

lemma renew_view:
  assumes "renew_lock R m s = (a, s')"
  shows "clock (view s') = clock (view s)"
    "live_str (view s) (lock_key (mo_ns m)) = Some n \<Longrightarrow> n \<noteq> mo_node m \<Longrightarrow> view s' = view s \<and> a \<noteq> Inr ()"
    "a = Inr () \<Longrightarrow> strs (view s') (lock_key (mo_ns m)) = Some (mo_node m, clock (view s) + of_int (lock_ttl m))"
proof -
  let ?f = "lock_renew_lua R (lock_key (mo_ns m)) (mo_node m) (of_int (lock_ttl m))"
  obtain b where b: "rcall R ?f s = (b, s')" "a = Inr () \<longleftrightarrow> b = Inr True"
    using assms by (auto simp: renew_lock_def split: prod.splits sum.splits if_splits)
  show "clock (view s') = clock (view s)" using lock_clock(1) b(1) by (metis snd_conv)
  show "view s' = view s \<and> a \<noteq> Inr ()" if l: "live_str (view s) (lock_key (mo_ns m)) = Some n" "n \<noteq> mo_node m"
  proof
    show "view s' = view s" using rcall_view [of ?f s] b(1) lock_lua_other(1) [OF _ l] by force
    show "a \<noteq> Inr ()" using rcall_Inr [of ?f s True s'] b l by (auto simp: lock_renew_lua_def get_val split: if_splits)
  qed
  show "strs (view s') (lock_key (mo_ns m)) = Some (mo_node m, clock (view s) + of_int (lock_ttl m))" if ok: "a = Inr ()"
  proof -
    obtain s1 where s1: "view s1 = view s" "?f s1 = (True, s')" using rcall_Inr [of ?f s True s'] b ok by auto
    then have "live_str (view s) (lock_key (mo_ns m)) = Some (mo_node m)" "s' = snd (expire_cmd R (lock_key (mo_ns m)) (of_int (lock_ttl m)) s1)"
      by (auto simp: lock_renew_lua_def get_val split: if_splits)
    then show ?thesis using s1(1) by (simp add: expire_view)
  qed
qed

lemma release_view:
  "live_str (view s) (lock_key (mo_ns m)) = Some n \<Longrightarrow> n \<noteq> mo_node m \<Longrightarrow> view (release_lock R m s) = view s"
  using rcall_view [of "lock_release_lua R (lock_key (mo_ns m)) (mo_node m)" s] lock_lua_other(2) unfolding release_lock_def by force

lemma masters_step:
  assumes "mstep R view ns c c'" "masters_inv view ns c"
  shows "masters_inv view ns c'"
  using assms
proof (induction rule: mstep.induct)
  case (hold m s s' lease)
  have dead: "clock (view s) \<ge> d" if "lease n = Some d" for n d
    using masters_invD [OF hold(3) that] hold_view(2) [OF hold(2)] hold(1) by force
  show ?case using dead hold_view(1,3) [OF hold(2)] hold(1) by (fastforce simp: masters_inv_def)
next
  case (refused m s e s' lease)
  have "view s' = view s \<and> Inl e \<noteq> Inr ()" if "lease n = Some d" "clock (view s) < d" for n d
    using masters_invD [OF refused(3) that] hold_view(2) [OF refused(2)] refused(1) by simp
  then show ?case using refused(3) hold_view(1) [OF refused(2)] by (fastforce simp: masters_inv_def)
next
  case (renewed m lease s s')
  have dead: "clock (view s) \<ge> d" if "lease n = Some d" "n \<noteq> mo_node m" for n d
    using masters_invD [OF renewed(4) that(1)] renew_view(2) [OF renewed(3)] renewed(1) that(2) by force
  show ?case using dead renew_view(1,3) [OF renewed(3)] renewed(1) by (fastforce simp: masters_inv_def)
next
  case (deposed m s e s' lease)
  have "view (release_lock R m s') = view s" if "lease n = Some d" "clock (view s) < d" "n \<noteq> mo_node m" for n d
    using masters_invD [OF deposed(3) that(1,2)] renew_view(2) [OF deposed(2)] release_view [of s' m n] deposed(1) that(3) by simp
  then show ?case using deposed(3) renew_view(1) [OF deposed(2)] lock_clock(2) by (fastforce simp: masters_inv_def)
next
  case (leave m s lease)
  have "view (release_lock R m s) = view s" if "lease n = Some d" "clock (view s) < d" "n \<noteq> mo_node m" for n d
    using masters_invD [OF leave(2) that(1,2)] release_view [of s m n] leave(1) that(3) by simp
  then show ?case using leave(2) lock_clock(2) by (fastforce simp: masters_inv_def)
qed (auto simp: masters_inv_def)

lemma masters_reach: "(mstep R view ns)\<^sup>*\<^sup>* c c' \<Longrightarrow> masters_inv view ns c \<Longrightarrow> masters_inv view ns c'"
  by (induction rule: rtranclp_induct) (auto intro: masters_step)

end

text \<open>C32: One master at a time. However masters of a namespace start, renew, are deposed, stop or are killed, whichever of their calls are lost
  and however the clock goes on: at no moment do two of them run within a lock time that was granted to them.  In particular a
  master that comes back after a long pause neither overwrites nor deletes the lock of its successor.\<close>

theorem one_master:
  assumes "redis_server R view" "(mstep R view ns)\<^sup>*\<^sup>* (s0, \<lambda>_. None) (s, lease)"
    and "lease a = Some d" "clock (view s) < d" "lease b = Some e" "clock (view s) < e"
  shows "a = b"
proof -
  have "masters_inv view ns (s0, \<lambda>_. None)" by (simp add: masters_inv_def)
  then have "masters_inv view ns (s, lease)" by (rule redis_server.masters_reach [OF assms(1,2)])
  from masters_invD [OF this assms(3,4)] masters_invD [OF this assms(5,6)] show ?thesis by simp
qed

theorem one_master_witness:
  "\<exists>s lease. (mstep mini mini_view ''n'')\<^sup>*\<^sup>* (mini_empty, \<lambda>_. None) (s, lease) \<and> lease ''h-1'' = Some 60 \<and> clock (mini_view s) < 60
     \<and> (\<forall>b e. lease b = Some e \<longrightarrow> clock (mini_view s) < e \<longrightarrow> b = ''h-1'')"
proof -
  define s1 where "s1 = snd (hold_lock mini a_monitor mini_empty)"
  define lease1 where "lease1 = (\<lambda>_. None)(mo_node a_monitor \<mapsto> clock (mini_view mini_empty) + of_int (lock_ttl a_monitor))"
  have h: "hold_lock mini a_monitor mini_empty = (Inr (), s1)"
    by (simp add: s1_def hold_lock_def rcall_def mini_sel mini_conn_def mini_set_nx_ex_def mini_live_def mini_empty_def)
  have ns: "mo_ns a_monitor = ''n''" by (simp add: a_monitor_def)
  have r: "(mstep mini mini_view ''n'')\<^sup>*\<^sup>* (mini_empty, \<lambda>_. None) (s1, lease1)"
    unfolding lease1_def by (rule r_into_rtranclp, rule mstep.hold [OF ns h])
  have l: "lease1 ''h-1'' = Some 60"
    by (simp add: lease1_def a_monitor_def mini_view_def mini_empty_def lock_ttl_def LOCK_TTL_def)
  have "clock (mini_view mini_empty) = 0" by (simp add: mini_view_def mini_empty_def)
  then have t: "clock (mini_view s1) < 60" using mini.hold_view(1) [OF h] by simp
  have "\<forall>b e. lease1 b = Some e \<longrightarrow> clock (mini_view s1) < e \<longrightarrow> b = ''h-1''"
    using one_master [OF mini.redis_server_axioms r _ _ l t] by blast
  with r l t show ?thesis by blast
qed

end
