(* ===== verification/Scheduler.thy ===== *)
theory Scheduler
  imports Heartbeat Failed_Replay Batch
begin

text \<open>
  The schedulers: the common skeleton (\<^verbatim>\<open>netspy/core/base_scheduler.py\<close>), the single-process one (\<^verbatim>\<open>scheduler.py\<close>), the distributed
  one (\<^verbatim>\<open>redis_scheduler.py\<close>) and the one that polls a task source (\<^verbatim>\<open>redis_task_scheduler.py\<close>): seeding, replay of failed
  requests, the test for the end of the crawl, the waiting loop and the shutdown.

  A node keeps its request buffer, its collector and its files of failed requests beside a world \<open>'w\<close> that holds filter
  and queue; the distributed world is a filter object with a Redis server, as in \<open>Request_Buffer\<close>.
\<close>

section \<open>A node\<close>

text \<open>\<open>nd_failed\<close> is \<open>FAILED_REQUEST_PATH\<close>, \<open>nd_staging\<close> the same name with the suffix \<^verbatim>\<open>.replaying\<close>.\<close>

record 'w node =
  nd_failed :: jsonl
  nd_staging :: jsonl
  nd_rbuf :: rbuf
  nd_coll :: coll
  nd_w :: 'w

text \<open>How the request buffer of the node reaches filter and queue.\<close>

record 'w benv =
  be_add :: "string \<Rightarrow> 'w \<Rightarrow> bool res \<times> 'w"
  be_put :: "request \<Rightarrow> 'w \<Rightarrow> unit res \<times> 'w"
  be_fp :: "request \<Rightarrow> string"

definition on_buf :: "(rbuf \<times> 'w \<Rightarrow> 'a \<times> rbuf \<times> 'w) \<Rightarrow> 'w node \<Rightarrow> 'a \<times> 'w node" where
  "on_buf f nd = (case f (nd_rbuf nd, nd_w nd) of (x, b, w) \<Rightarrow> (x, nd\<lparr>nd_rbuf := b, nd_w := w\<rparr>))"

definition buf_put :: "setting \<Rightarrow> 'w benv \<Rightarrow> request \<Rightarrow> 'w node \<Rightarrow> unit res \<times> 'w node" where
  "buf_put cfg B r = on_buf (rbuf_put cfg (be_add B) (be_put B) (be_fp B) r)"

definition buf_flush :: "'w benv \<Rightarrow> 'w node \<Rightarrow> unit res \<times> 'w node" where
  "buf_flush B = on_buf (rbuf_flush (be_add B) (be_put B) (be_fp B) [])"

section \<open>Requests on disk\<close>

text \<open>\<open>_append_requests\<close>: \<open>fault = Some k\<close> when writing fails after \<open>k\<close> lines; the failure is only logged.\<close>

definition append_requests :: "nat option \<Rightarrow> request list \<Rightarrow> 'w node \<Rightarrow> 'w node" where
  "append_requests fault rs nd =
     (if rs = [] then nd
      else let lines = (case fault of None \<Rightarrow> map payload rs | Some k \<Rightarrow> take k (map payload rs))
           in nd\<lparr>nd_failed := Some ((case nd_failed nd of None \<Rightarrow> [] | Some ls \<Rightarrow> ls) @ lines)\<rparr>)"

definition dump_requests :: "setting \<Rightarrow> nat option \<Rightarrow> request list \<Rightarrow> 'w node \<Rightarrow> 'w node" where
  "dump_requests cfg fault rs nd = (if DUMP_UNFINISHED_ON_EXIT cfg then append_requests fault rs nd else nd)"

definition on_failed_request :: "nat option \<Rightarrow> request \<Rightarrow> 'w node \<Rightarrow> 'w node" where
  "on_failed_request fault r = append_requests fault [r]"

text \<open>The loop of both \<open>_replay_failed_requests\<close>: a text that is no request is skipped, a failing \<open>put\<close> stops.\<close>

fun replay_loop :: "setting \<Rightarrow> 'w benv \<Rightarrow> string list \<Rightarrow> nat \<Rightarrow> nat \<Rightarrow> 'w node \<Rightarrow> nat res \<times> 'w node" where
  "replay_loop cfg B [] o' n nd = (Inr n, nd)"
| "replay_loop cfg B (l # ls) o' n nd =
     (case decode o' l of
        Inl _ \<Rightarrow> replay_loop cfg B ls o' n nd
      | Inr r \<Rightarrow>
          (case buf_put cfg B (r\<lparr>filter_repeat := False\<rparr>) nd of
             (Inl e, nd1) \<Rightarrow> (Inl e, nd1)
           | (Inr _, nd1) \<Rightarrow> replay_loop cfg B ls (Suc o') (Suc n) nd1))"

datatype replay_io = IoOk | RenameFails | ReadFails

definition replay_file :: "setting \<Rightarrow> 'w benv \<Rightarrow> replay_io \<Rightarrow> nat \<Rightarrow> 'w node \<Rightarrow> nat res \<times> 'w node" where
  "replay_file cfg B io o' nd =
     (if \<not> RETRY_FAILED_ON_START cfg then (Inr 0, nd)
      else case nd_failed nd of
        None \<Rightarrow> (Inr 0, nd)
      | Some ls \<Rightarrow>
          (let nd1 = nd\<lparr>nd_failed := None, nd_staging := Some ls\<rparr>
           in case io of
                RenameFails \<Rightarrow> (Inr 0, nd)
              | ReadFails \<Rightarrow> (Inr 0, nd1)
              | IoOk \<Rightarrow>
                  (case replay_loop cfg B (filter (\<lambda>l. strip l \<noteq> []) ls) o' 0 nd1 of
                     (Inl e, nd2) \<Rightarrow> (Inl e, nd2)
                   | (Inr n, nd2) \<Rightarrow> (Inr n, nd2\<lparr>nd_staging := None\<rparr>))))"

section \<open>Seeding\<close>

text \<open>\<open>start_requests\<close> yields requests (\<open>None\<close>: something else) and returns or raises.\<close>

fun seed_loop :: "setting \<Rightarrow> 'w benv \<Rightarrow> request option list \<Rightarrow> nat \<Rightarrow> 'w node \<Rightarrow> nat res \<times> 'w node" where
  "seed_loop cfg B [] n nd = (Inr n, nd)"
| "seed_loop cfg B (y # ys) n nd =
     (case y of
        None \<Rightarrow> (Inl (raise_of SpiderError), nd)
      | Some r \<Rightarrow>
          (case buf_put cfg B r nd of (Inl e, nd1) \<Rightarrow> (Inl e, nd1) | (Inr _, nd1) \<Rightarrow> seed_loop cfg B ys (Suc n) nd1))"

definition seed_requests :: "setting \<Rightarrow> 'w benv \<Rightarrow> ('w node \<Rightarrow> nat res \<times> 'w node) \<Rightarrow> request option list \<times> exn option \<Rightarrow> 'w node
    \<Rightarrow> nat res \<times> 'w node" where
  "seed_requests cfg B replay start nd =
     (case replay nd of
        (Inl e, nd1) \<Rightarrow> (Inl e, nd1)
      | (Inr n, nd1) \<Rightarrow>
          (case seed_loop cfg B (fst start) n nd1 of
             (Inl e, nd2) \<Rightarrow> (Inl e, nd2)
           | (Inr n2, nd2) \<Rightarrow>
               (case snd start of
                  Some e \<Rightarrow> (Inl e, nd2)
                | None \<Rightarrow> (case buf_flush B nd2 of (Inl e, nd3) \<Rightarrow> (Inl e, nd3) | (Inr _, nd3) \<Rightarrow> (Inr n2, nd3)))))"

section \<open>Is this node idle\<close>

text \<open>The rest of a node as the checks see it: the item buffer and the \<open>busy\<close> flags of the workers.\<close>

definition local_pending :: "ibuf \<Rightarrow> bool list \<Rightarrow> 'w node \<Rightarrow> nat" where
  "local_pending ib busy nd =
     length (rb_pending (nd_rbuf nd)) + buffered_count (nd_coll nd) + length (ib_pending ib) + length (filter id busy)"

definition local_idle :: "'w tqueue \<Rightarrow> ibuf \<Rightarrow> bool list \<Rightarrow> 'w node \<Rightarrow> bool res \<times> 'w node" where
  "local_idle Q ib busy nd =
     (if \<not> rbuf_is_empty (nd_rbuf nd) then (Inr False, nd)
      else case coll_is_empty Q (nd_coll nd) (nd_w nd) of
        (Inl e, w) \<Rightarrow> (Inl e, nd\<lparr>nd_w := w\<rparr>)
      | (Inr b, w) \<Rightarrow> (Inr (b \<and> ibuf_is_empty ib \<and> list_all Not busy), nd\<lparr>nd_w := w\<rparr>))"

section \<open>Waiting for the end\<close>

text \<open>
  \<open>_wait_until_done\<close>: \<open>stop k\<close>, \<open>clk k\<close> and \<open>chk k\<close> are the stop event, the monotonic clock and the answer of \<open>_is_done\<close> in
  round \<open>k\<close>.  \<open>None\<close>: the fuel is used up.
\<close>

datatype wait_end = Stopped | TimedOut | AllDone

fun wait_loop :: "nat \<Rightarrow> nat \<Rightarrow> setting \<Rightarrow> time option \<Rightarrow> (nat \<Rightarrow> bool) \<Rightarrow> (nat \<Rightarrow> time) \<Rightarrow> (nat \<Rightarrow> bool res) \<Rightarrow> int
    \<Rightarrow> (wait_end res \<times> nat) option" where
  "wait_loop 0 k cfg deadline stop clk chk streak = None"
| "wait_loop (Suc fuel) k cfg deadline stop clk chk streak =
     (if stop k then Some (Inr Stopped, k)
      else if (case deadline of None \<Rightarrow> False | Some d \<Rightarrow> clk k \<ge> d) then Some (Inr TimedOut, k)
      else case chk k of
        Inl e \<Rightarrow> Some (Inl e, k)
      | Inr True \<Rightarrow>
          if streak + 1 \<ge> DONE_CHECK_TIMES cfg then Some (Inr AllDone, k)
          else wait_loop fuel (Suc k) cfg deadline stop clk chk (streak + 1)
      | Inr False \<Rightarrow> wait_loop fuel (Suc k) cfg deadline stop clk chk 0)"

definition wait_until_done :: "nat \<Rightarrow> setting \<Rightarrow> time \<Rightarrow> (nat \<Rightarrow> bool) \<Rightarrow> (nat \<Rightarrow> time) \<Rightarrow> (nat \<Rightarrow> bool res) \<Rightarrow> (wait_end res \<times> nat) option" where
  "wait_until_done fuel cfg t0 stop clk chk =
     wait_loop fuel 0 cfg (if SPIDER_MAX_RUNTIME cfg > 0 then Some (t0 + SPIDER_MAX_RUNTIME cfg) else None) stop clk chk 0"

section \<open>AirScheduler\<close>

definition air_tq :: "((filter_obj \<times> 's) \<times> mem_queue) tqueue" where
  "air_tq = \<lparr>tq_put = air_put, tq_get = (\<lambda>w. case mem_get (snd w) of (x, q) \<Rightarrow> (Inr x, fst w, q)),
     tq_get_batch = (\<lambda>n w. case mem_get_batch n (snd w) of (x, q) \<Rightarrow> (Inr x, fst w, q)),
     tq_done = None, tq_empty = (\<lambda>w. (Inr (mem_empty (snd w)), w))\<rparr>"

definition air_is_done :: "ibuf \<Rightarrow> bool list \<Rightarrow> ((filter_obj \<times> 's) \<times> mem_queue) node \<Rightarrow> bool res \<times> ((filter_obj \<times> 's) \<times> mem_queue) node" where
  "air_is_done ib busy nd =
     (case local_idle air_tq ib busy nd of
        (Inl e, nd1) \<Rightarrow> (Inl e, nd1)
      | (Inr False, nd1) \<Rightarrow> (Inr False, nd1)
      | (Inr True, nd1) \<Rightarrow> (case tq_empty air_tq (nd_w nd1) of (x, w) \<Rightarrow> (x, nd1\<lparr>nd_w := w\<rparr>)))"

text \<open>\<^verbatim>\<open>while (leftover := queue.get(timeout=0)) is not None\<close>\<close>

function empty_queue :: "mem_queue \<Rightarrow> request list \<times> mem_queue" where
  "empty_queue q = (case mem_get q of (None, q1) \<Rightarrow> ([], q1) | (Some r, q1) \<Rightarrow> (case empty_queue q1 of (rs, q2) \<Rightarrow> (r # rs, q2)))"
  by pat_completeness auto
termination
  by (relation "measure mem_qsize") (auto simp: mem_get_def mem_qsize_def split: list.splits)

declare empty_queue.simps [simp del]

definition drain_leftovers :: "((filter_obj \<times> 's) \<times> mem_queue) node \<Rightarrow> request list \<times> ((filter_obj \<times> 's) \<times> mem_queue) node" where
  "drain_leftovers nd =
     (case rbuf_drain (nd_rbuf nd) of (ps, b) \<Rightarrow>
        (case coll_drain (nd_coll nd) of (cs, c) \<Rightarrow>
           (case empty_queue (snd (nd_w nd)) of (qs, q) \<Rightarrow>
              (ps @ cs @ qs, nd\<lparr>nd_rbuf := b, nd_coll := c, nd_w := (fst (nd_w nd), q)\<rparr>))))"

definition air_on_shutdown :: "setting \<Rightarrow> nat option \<Rightarrow> ((filter_obj \<times> 's) \<times> mem_queue) node \<Rightarrow> ((filter_obj \<times> 's) \<times> mem_queue) node" where
  "air_on_shutdown cfg fault nd = (case drain_leftovers nd of (rs, nd1) \<Rightarrow> dump_requests cfg fault rs nd1)"

section \<open>RedisScheduler\<close>

text \<open>\<open>_replay_failed_requests\<close>: first the file of this machine, then the list on the server, which is renamed before it is read.\<close>

definition replay_redis :: "'s redis \<Rightarrow> setting \<Rightarrow> sched \<Rightarrow> (filter_obj \<times> 's) benv \<Rightarrow> replay_io \<Rightarrow> nat \<Rightarrow> (filter_obj \<times> 's) node
    \<Rightarrow> nat res \<times> (filter_obj \<times> 's) node" where
  "replay_redis R cfg sc B io o' nd =
     (if \<not> RETRY_FAILED_ON_START cfg then (Inr 0, nd)
      else case replay_file cfg B io o' nd of
        (Inl e, nd1) \<Rightarrow> (Inl e, nd1)
      | (Inr n, nd1) \<Rightarrow>
          (case on_srv (rcall R (rename_cmd R (failed_key sc) (replay_staging_key sc))) (nd_w nd1) of
             (Inl _, w) \<Rightarrow> (Inr n, nd1\<lparr>nd_w := w\<rparr>)
           | (Inr False, w) \<Rightarrow> (Inr n, nd1\<lparr>nd_w := w\<rparr>)
           | (Inr True, w) \<Rightarrow>
               (case on_srv (rcall R (rask (lrange_all R (replay_staging_key sc)))) w of
                  (Inl e, w2) \<Rightarrow> (Inl e, nd1\<lparr>nd_w := w2\<rparr>)
                | (Inr raws, w2) \<Rightarrow>
                    (case replay_loop cfg B raws (o' + n) 0 (nd1\<lparr>nd_w := w2\<rparr>) of
                       (Inl e, nd2) \<Rightarrow> (Inl e, nd2)
                     | (Inr k, nd2) \<Rightarrow>
                         (case buf_flush B nd2 of
                            (Inl e, nd3) \<Rightarrow> (Inl e, nd3)
                          | (Inr _, nd3) \<Rightarrow>
                              (case on_srv (rcall R (del_cmd R (replay_staging_key sc))) (nd_w nd3) of
                                 (Inl e, w4) \<Rightarrow> (Inl e, nd3\<lparr>nd_w := w4\<rparr>)
                               | (Inr _, w4) \<Rightarrow> (Inr (n + k), nd3\<lparr>nd_w := w4\<rparr>)))))))"

text \<open>\<open>acquire_once\<close> of \<^verbatim>\<open>netspy/db/redisdb.py\<close>.\<close>

definition acquire_once :: "'s redis \<Rightarrow> string \<Rightarrow> int \<Rightarrow> 's \<Rightarrow> bool res \<times> 's" where
  "acquire_once R name ttl = rcall R (set_nx_ex R name ''1'' (of_int ttl))"

text \<open>\<open>_seed_or_skip\<close>: \<open>Some n\<close> when this node has seeded.  The explanation that is logged when the lock is taken is left out.\<close>

definition seed_or_skip :: "'s redis \<Rightarrow> setting \<Rightarrow> sched \<Rightarrow> (filter_obj \<times> 's) benv \<Rightarrow> replay_io \<Rightarrow> nat \<Rightarrow> request option list \<times> exn option
    \<Rightarrow> (filter_obj \<times> 's) node \<Rightarrow> nat option res \<times> (filter_obj \<times> 's) node" where
  "seed_or_skip R cfg sc B io o' start nd =
     (case on_srv (acquire_once R (seed_key sc) (SPIDER_SEED_LOCK_TTL cfg)) (nd_w nd) of
        (Inl e, w) \<Rightarrow> (Inl e, nd\<lparr>nd_w := w\<rparr>)
      | (Inr False, w) \<Rightarrow> (Inr None, nd\<lparr>nd_w := w\<rparr>)
      | (Inr True, w) \<Rightarrow>
          (case on_srv (rq_empty R (sc_ns sc)) w of
             (Inl e, w2) \<Rightarrow> (Inl e, nd\<lparr>nd_w := w2\<rparr>)
           | (Inr False, w2) \<Rightarrow>
               (case on_srv (rq_qsize R (sc_ns sc)) w2 of
                  (Inl e, w3) \<Rightarrow> (Inl e, nd\<lparr>nd_w := w3\<rparr>)
                | (Inr _, w3) \<Rightarrow> (Inr None, nd\<lparr>nd_w := w3\<rparr>))
           | (Inr True, w2) \<Rightarrow>
               (case seed_requests cfg B (replay_redis R cfg sc B io o') start (nd\<lparr>nd_w := w2\<rparr>) of
                  (Inl e, nd1) \<Rightarrow> (Inl e, nd1) | (Inr n, nd1) \<Rightarrow> (Inr (Some n), nd1))))"

definition replay_and_flush :: "'s redis \<Rightarrow> setting \<Rightarrow> sched \<Rightarrow> (filter_obj \<times> 's) benv \<Rightarrow> replay_io \<Rightarrow> nat
    \<Rightarrow> (filter_obj \<times> 's) node \<Rightarrow> unit res \<times> (filter_obj \<times> 's) node" where
  "replay_and_flush R cfg sc B io o' nd =
     (case replay_redis R cfg sc B io o' nd of
        (Inl e, nd1) \<Rightarrow> (Inl e, nd1)
      | (Inr n, nd1) \<Rightarrow> if n = 0 then (Inr (), nd1) else buf_flush B nd1)"

definition redis_seed :: "'s redis \<Rightarrow> setting \<Rightarrow> sched \<Rightarrow> (filter_obj \<times> 's) benv \<Rightarrow> replay_io \<Rightarrow> nat \<Rightarrow> request option list \<times> exn option
    \<Rightarrow> (filter_obj \<times> 's) node \<Rightarrow> unit res \<times> (filter_obj \<times> 's) node" where
  "redis_seed R cfg sc B io o' start nd =
     (case seed_or_skip R cfg sc B io o' start nd of
        (Inl e, nd1) \<Rightarrow> (Inl e, nd1) | (Inr _, nd1) \<Rightarrow> replay_and_flush R cfg sc B io o' nd1)"

definition in_startup_grace :: "setting \<Rightarrow> stats \<Rightarrow> time \<Rightarrow> time \<Rightarrow> bool \<Rightarrow> bool \<times> bool" where
  "in_startup_grace cfg st started mclk seen =
     (if seen then (False, seen)
      else if stats_get st ''request_ok'' \<noteq> 0 \<or> stats_get st ''request_failed'' \<noteq> 0 then (False, True)
      else (SPIDER_STARTUP_GRACE cfg > 0 \<and> mclk - started < SPIDER_STARTUP_GRACE cfg, seen))"

text \<open>The last part of \<open>_is_done\<close> in both distributed schedulers.\<close>

definition idle_and_empty :: "'s redis \<Rightarrow> setting \<Rightarrow> sched \<Rightarrow> time \<Rightarrow> ibuf \<Rightarrow> bool list \<Rightarrow> (filter_obj \<times> 's) node
    \<Rightarrow> bool res \<times> (filter_obj \<times> 's) node" where
  "idle_and_empty R cfg sc now ib busy nd =
     (case local_idle (redis_tq R cfg (sc_ns sc) now 0 id 0) ib busy nd of
        (Inl e, nd1) \<Rightarrow> (Inl e, nd1)
      | (Inr False, nd1) \<Rightarrow> (Inr False, nd1)
      | (Inr True, nd1) \<Rightarrow> (case on_srv (rq_empty R (sc_ns sc)) (nd_w nd1) of (x, w) \<Rightarrow> (x, nd1\<lparr>nd_w := w\<rparr>)))"

definition redis_is_done :: "'s redis \<Rightarrow> setting \<Rightarrow> sched \<Rightarrow> time \<Rightarrow> time \<Rightarrow> time \<Rightarrow> bool \<Rightarrow> ibuf \<Rightarrow> bool list \<Rightarrow> (filter_obj \<times> 's) node
    \<Rightarrow> bool res \<times> bool \<times> (filter_obj \<times> 's) node" where
  "redis_is_done R cfg sc now started mclk seen ib busy nd =
     (if sc_keep_alive sc then (Inr False, seen, nd)
      else case in_startup_grace cfg (rb_stats (nd_rbuf nd)) started mclk seen of
        (True, seen1) \<Rightarrow> (Inr False, seen1, nd)
      | (False, seen1) \<Rightarrow>
          (case on_srv (rq_reclaim_expired R cfg (sc_ns sc) now 500) (nd_w nd) of (k, w1) \<Rightarrow>
             if k \<noteq> 0 then (Inr False, seen1, nd\<lparr>nd_w := w1\<rparr>)
             else case idle_and_empty R cfg sc now ib busy (nd\<lparr>nd_w := w1\<rparr>) of
               (Inl e, nd2) \<Rightarrow> (Inl e, seen1, nd2)
             | (Inr False, nd2) \<Rightarrow> (Inr False, seen1, nd2)
             | (Inr True, nd2) \<Rightarrow>
                 (case on_srv (rq_inflight_count R (sc_ns sc)) (nd_w nd2) of
                    (Inl e, w3) \<Rightarrow> (Inl e, seen1, nd2\<lparr>nd_w := w3\<rparr>)
                  | (Inr n, w3) \<Rightarrow>
                      if n > 0 then (Inr False, seen1, nd2\<lparr>nd_w := w3\<rparr>)
                      else (case on_srv (all_nodes_idle R cfg sc now) w3 of (b, w4) \<Rightarrow> (Inr b, seen1, nd2\<lparr>nd_w := w4\<rparr>)))))"

text \<open>\<open>_on_shutdown\<close>: the loop that hands the leftovers back; what it could not push is returned.\<close>

fun push_back :: "(request \<Rightarrow> 'q \<Rightarrow> unit res \<times> 'q) \<Rightarrow> (request \<Rightarrow> 'q \<Rightarrow> 'q) \<Rightarrow> request list \<Rightarrow> 'q \<Rightarrow> request list \<times> 'q" where
  "push_back put finish [] q = ([], q)"
| "push_back put finish (r # rs) q =
     (let r1 = r\<lparr>filter_repeat := False\<rparr>
      in case put r1 q of
           (Inl _, q1) \<Rightarrow> (r1 # rs, q1)
         | (Inr _, q1) \<Rightarrow> push_back put finish rs (finish r1 q1))"

definition redis_on_shutdown :: "'s redis \<Rightarrow> setting \<Rightarrow> sched \<Rightarrow> filter_obj list \<Rightarrow> nat option \<Rightarrow> (filter_obj \<times> 's) node \<Rightarrow> (filter_obj \<times> 's) node" where
  "redis_on_shutdown R cfg sc dedups fault nd =
     (let Q = redis_tq R cfg (sc_ns sc) 0 0 id 0;
          w1 = snd (on_srv (rcall R (rdo (hdel_cmd R (heartbeat_key sc) (sc_node sc)))) (nd_w nd));
          (ps, b) = rbuf_drain (nd_rbuf nd); (cs, c) = coll_drain (nd_coll nd);
          (rest, w2) = push_back (tq_put Q) (finish_in Q) (ps @ cs) w1;
          nd1 = dump_requests cfg fault rest (nd\<lparr>nd_rbuf := b, nd_coll := c, nd_w := w2\<rparr>)
      in nd1\<lparr>nd_w := (fst (nd_w nd1), touch_run_keys R cfg sc dedups (snd (nd_w nd1)))\<rparr>)"

definition redis_on_failed_request :: "'s redis \<Rightarrow> sched \<Rightarrow> request \<Rightarrow> filter_obj \<times> 's \<Rightarrow> filter_obj \<times> 's" where
  "redis_on_failed_request R sc r w = snd (on_srv (rcall R (rdo (rpush_cmd R (failed_key sc) [payload r]))) w)"

section \<open>RedisTaskScheduler\<close>

record poller =
  po_exhausted :: bool
  po_empty_polls :: int

text \<open>\<open>make_requests(task)\<close> yields requests and returns or raises; \<open>put_tasks\<close> is the body of the loop over the tasks.\<close>

fun put_tasks :: "setting \<Rightarrow> 'w benv \<Rightarrow> request list \<Rightarrow> 'w node \<Rightarrow> 'w node" where
  "put_tasks cfg B [] nd = nd"
| "put_tasks cfg B (r # rs) nd = (case buf_put cfg B r nd of (Inl _, nd1) \<Rightarrow> nd1 | (Inr _, nd1) \<Rightarrow> put_tasks cfg B rs nd1)"

definition poll :: "setting \<Rightarrow> 'w benv \<Rightarrow> pyval list res \<Rightarrow> (pyval \<Rightarrow> request list) \<Rightarrow> poller \<Rightarrow> 'w node \<Rightarrow> unit res \<times> poller \<times> 'w node" where
  "poll cfg B fetched mk po nd =
     (case fetched of
        Inl _ \<Rightarrow> (Inr (), po, nd)
      | Inr tasks \<Rightarrow>
          if tasks = []
          then (let n = po_empty_polls po + 1
                in (Inr (), po\<lparr>po_empty_polls := n, po_exhausted := po_exhausted po \<or> n \<ge> TASK_EXHAUST_POLLS cfg\<rparr>, nd))
          else (case buf_flush B (fold (\<lambda>t. put_tasks cfg B (mk t)) tasks nd) of
                  (x, nd1) \<Rightarrow> (x, \<lparr>po_exhausted = False, po_empty_polls = 0\<rparr>, nd1)))"

definition task_is_done :: "'s redis \<Rightarrow> setting \<Rightarrow> sched \<Rightarrow> poller option \<Rightarrow> time \<Rightarrow> ibuf \<Rightarrow> bool list \<Rightarrow> (filter_obj \<times> 's) node
    \<Rightarrow> bool res \<times> (filter_obj \<times> 's) node" where
  "task_is_done R cfg sc po now ib busy nd =
     (if sc_keep_alive sc then (Inr False, nd)
      else if (case po of None \<Rightarrow> True | Some p \<Rightarrow> \<not> po_exhausted p) then (Inr False, nd)
      else case idle_and_empty R cfg sc now ib busy nd of
        (Inl e, nd1) \<Rightarrow> (Inl e, nd1)
      | (Inr False, nd1) \<Rightarrow> (Inr False, nd1)
      | (Inr True, nd1) \<Rightarrow> (case on_srv (all_nodes_idle R cfg sc now) (nd_w nd1) of (b, w) \<Rightarrow> (Inr b, nd1\<lparr>nd_w := w\<rparr>)))"

text \<open>\<open>RedisTaskSource\<close> of \<^verbatim>\<open>netspy/core/task_source.py\<close>.\<close>

definition source_fetch :: "'s redis \<Rightarrow> string \<Rightarrow> int \<Rightarrow> 's \<Rightarrow> string list res \<times> 's" where
  "source_fetch R key limit = rcall R (lpop_cmd R key (nat (max 1 limit)))"

definition source_push :: "'s redis \<Rightarrow> string \<Rightarrow> string list \<Rightarrow> 's \<Rightarrow> unit res \<times> 's" where
  "source_push R key tasks s = (if tasks = [] then (Inr (), s) else rcall R (rdo (rpush_cmd R key tasks)) s)"

text \<open>\<open>TaskSpider.fetch_tasks\<close> and \<open>push_tasks\<close>.\<close>

definition task_fetch :: "'s redis \<Rightarrow> string \<Rightarrow> int \<Rightarrow> 's \<Rightarrow> pyval list res \<times> 's" where
  "task_fetch R key limit s = (case source_fetch R key limit s of (Inl e, s1) \<Rightarrow> (Inl e, s1) | (Inr raws, s1) \<Rightarrow> (loads_all raws, s1))"

definition push_tasks :: "'s redis \<Rightarrow> string \<Rightarrow> pyval list \<Rightarrow> 's \<Rightarrow> unit res \<times> 's" where
  "push_tasks R key tasks = source_push R key (map dumps_json tasks)"

section \<open>Teardown\<close>

text \<open>Every step runs whatever the steps before it raised.\<close>

fun run_steps :: "('x \<Rightarrow> unit res \<times> 'x) list \<Rightarrow> 'x \<Rightarrow> 'x" where
  "run_steps [] x = x"
| "run_steps (f # fs) x = run_steps fs (snd (f x))"

text \<open>The steps of \<open>_teardown\<close> that change the modelled state, in order (\<open>stop_threads\<close>: workers, metrics and buffer threads; \<open>close_all\<close>:
  pipelines, signals, downloaders, pools).\<close>

definition teardown :: "setting \<Rightarrow> 'w benv \<Rightarrow> ('w node) item_env \<Rightarrow> (ibuf \<times> 'w node \<Rightarrow> unit res \<times> ibuf \<times> 'w node)
    \<Rightarrow> (ibuf \<times> 'w node \<Rightarrow> unit res \<times> ibuf \<times> 'w node) \<Rightarrow> ('w node \<Rightarrow> 'w node) \<Rightarrow> ibuf \<times> 'w node \<Rightarrow> ibuf \<times> 'w node" where
  "teardown cfg B E stop_threads close_all on_shutdown =
     run_steps [stop_threads,
       \<lambda>(ib, nd). (case buf_flush B nd of (x, nd1) \<Rightarrow> (x, ib, nd1)),
       \<lambda>(ib, nd). ibuf_flush cfg E ib nd,
       close_all,
       \<lambda>(ib, nd). (Inr (), ib, on_shutdown nd)]"

section \<open>When the check says done\<close>

lemma on_srv_eq: "on_srv f (fo, s) = (x, w') \<longleftrightarrow> f s = (x, snd w') \<and> fst w' = fo"
  by (cases w') (auto simp: on_srv_def split: prod.splits)

context redis_server
begin

lemma rq_empty_facts:
  "rq_empty R name s = (x, s') \<Longrightarrow> view s' = view s \<and> (x = Inr True \<longrightarrow> zsets (view s) (queue_key name) = Map.empty)"
proof -
  assume e: "rq_empty R name s = (x, s')"
  obtain n s1 where n: "rcall R (rask (zcard R (queue_key name))) s = (n, s1)" by force
  have "view s1 = view s" using rcall_ask_view [of "rask (zcard R (queue_key name))" s] n by simp
  moreover have "zsets (view s) (queue_key name) = Map.empty" if "n = Inr 0"
    using rcall_Inr [OF n [unfolded that]] zset_empty_iff by auto
  ultimately show ?thesis using e n by (auto simp: rq_empty_def rq_qsize_def map_sum_Inr_iff)
qed

lemma rq_inflight_facts:
  "rq_inflight_count R name s = (x, s') \<Longrightarrow> view s' = view s \<and> (x = Inr 0 \<longrightarrow> zsets (view s) (inflight_key name) = Map.empty)"
  using rcall_ask_view [of "rask (zcard R (inflight_key name))" s] rcall_Inr [of "rask (zcard R (inflight_key name))" s 0 s'] zset_empty_iff
  by (auto simp: rq_inflight_count_def)

lemma all_nodes_idle_facts:
  assumes "all_nodes_idle R cfg sc now s = (b, s')"
  shows "view s' = view s" "b \<Longrightarrow> v \<in> ran (hashes (view s) (heartbeat_key sc)) \<Longrightarrow> \<not> beat_blocks cfg now v"
proof -
  obtain x s1 where x: "rcall R (rask (hvals_cmd R (heartbeat_key sc))) s = (x, s1)" by force
  show "view s' = view s"
    using rcall_ask_view [of "rask (hvals_cmd R (heartbeat_key sc))" s] assms x by (auto simp: all_nodes_idle_def split: sum.splits)
  show "\<not> beat_blocks cfg now v" if "b" "v \<in> ran (hashes (view s) (heartbeat_key sc))"
    using assms x that rcall_Inr [of "rask (hvals_cmd R (heartbeat_key sc))" s] hvals_val
    by (cases x) (force simp: all_nodes_idle_def list_ex_iff)+
qed

lemma idle_and_empty_true:
  assumes "idle_and_empty R cfg sc now ib busy nd = (Inr True, nd')"
  shows "view (snd (nd_w nd')) = view (snd (nd_w nd))" "zsets (view (snd (nd_w nd))) (queue_key (sc_ns sc)) = Map.empty"
    "rb_pending (nd_rbuf nd) = []" "held_requests (nd_coll nd) = []" "ib_pending ib = []" "list_all Not busy"
proof -
  let ?Q = "redis_tq R cfg (sc_ns sc) now 0 id 0"
  obtain nd1 where l: "local_idle ?Q ib busy nd = (Inr True, nd1)"
    and e: "rq_empty R (sc_ns sc) (snd (nd_w nd1)) = (Inr True, snd (nd_w nd'))"
    using assms by (cases "nd_w (snd (local_idle ?Q ib busy nd))")
      (auto simp: idle_and_empty_def on_srv_eq split: prod.splits sum.splits bool.splits)
  have "\<exists>w. coll_is_empty ?Q (nd_coll nd) (nd_w nd) = (Inr True, w) \<and> nd_w nd1 = w" and
    loc: "rb_pending (nd_rbuf nd) = []" "ib_pending ib = []" "list_all Not busy"
    using l by (auto simp: local_idle_def rbuf_is_empty_def ibuf_is_empty_def split: if_splits prod.splits sum.splits)
  then have c: "held_requests (nd_coll nd) = []" "rq_empty R (sc_ns sc) (snd (nd_w nd)) = (Inr True, snd (nd_w nd1))"
    by (cases "nd_w nd"; auto simp: coll_is_empty_def redis_tq_def held_requests_def on_srv_eq split: if_splits)+
  show "view (snd (nd_w nd')) = view (snd (nd_w nd))" "zsets (view (snd (nd_w nd))) (queue_key (sc_ns sc)) = Map.empty"
    "rb_pending (nd_rbuf nd) = []" "held_requests (nd_coll nd) = []" "ib_pending ib = []" "list_all Not busy"
    using rq_empty_facts [OF e] rq_empty_facts [OF c(2)] c(1) loc by auto
qed

lemma redis_is_done_true:
  assumes "redis_is_done R cfg sc now started mclk seen ib busy nd = (Inr True, seen', nd')"
  shows "tasks_of (view (snd (nd_w nd))) (sc_ns sc) = {}"
    "rb_pending (nd_rbuf nd) = []" "held_requests (nd_coll nd) = []" "ib_pending ib = []" "list_all Not busy"
    "v \<in> ran (hashes (view (snd (nd_w nd))) (heartbeat_key sc)) \<Longrightarrow> \<not> beat_blocks cfg now v"
proof -
  obtain fo s where w: "nd_w nd = (fo, s)" by force
  obtain s1 nd2 w3 where r: "rq_reclaim_expired R cfg (sc_ns sc) now 500 s = (0, s1)"
    and i: "idle_and_empty R cfg sc now ib busy (nd\<lparr>nd_w := (fo, s1)\<rparr>) = (Inr True, nd2)"
    and c: "rq_inflight_count R (sc_ns sc) (snd (nd_w nd2)) = (Inr 0, snd w3)"
    and a: "all_nodes_idle R cfg sc now (snd w3) = (True, snd (nd_w nd'))"
    using assms by (auto simp: redis_is_done_def w on_srv_def split: if_splits prod.splits bool.splits sum.splits)
  note idle = idle_and_empty_true [OF i, simplified]
  have v3: "view (snd w3) = view s1" and infl: "zsets (view s1) (inflight_key (sc_ns sc)) = Map.empty"
    using rq_inflight_facts [OF c] idle(1) by auto
  have "tasks_of (view s1) (sc_ns sc) = {}" using idle(2) infl by (simp add: tasks_of_def)
  then show "tasks_of (view (snd (nd_w nd))) (sc_ns sc) = {}"
    using rq_reclaim_tasks [of cfg "sc_ns sc" now 500 s] r w by simp
  have "hashes (view s1) = hashes (view s)" by (rule rq_reclaim_view [OF r]) auto
  then show "v \<in> ran (hashes (view (snd (nd_w nd))) (heartbeat_key sc)) \<Longrightarrow> \<not> beat_blocks cfg now v"
    using all_nodes_idle_facts(2) [OF a] v3 w by simp
  show "rb_pending (nd_rbuf nd) = []" "held_requests (nd_coll nd) = []" "ib_pending ib = []" "list_all Not busy"
    using idle by auto
qed

end

section \<open>Handing the leftovers back\<close>

context work_queue
begin

text \<open>Each leftover is in the queue or among those that are returned, as it was or with \<open>filter_repeat\<close> cleared.\<close>

lemma push_back_keeps:
  "push_back put finish rs q = (rest, q') \<Longrightarrow> holds q r \<Longrightarrow> holds q' r"
proof (induction rs arbitrary: q)
  case (Cons x xs)
  obtain a q1 where p: "put (x\<lparr>filter_repeat := False\<rparr>) q = (a, q1)" by force
  have "holds q1 r" using put_keep [OF Cons.prems(2), of "x\<lparr>filter_repeat := False\<rparr>"] p by simp
  then show ?case using Cons.prems(1) Cons.IH [of "finish (x\<lparr>filter_repeat := False\<rparr>) q1"] finish_keep p by (cases a) (auto simp: Let_def)
qed simp

lemma push_back_places:
  "push_back put finish rs q = (rest, q') \<Longrightarrow> r \<in> set rs \<Longrightarrow>
    holds q' (r\<lparr>filter_repeat := False\<rparr>) \<or> r \<in> set rest \<or> r\<lparr>filter_repeat := False\<rparr> \<in> set rest"
proof (induction rs arbitrary: q)
  case (Cons x xs)
  let ?x = "x\<lparr>filter_repeat := False\<rparr>"
  obtain a q1 where p: "put ?x q = (a, q1)" by force
  show ?case
  proof (cases a)
    case (Inl e)
    then show ?thesis using Cons.prems p by (auto simp: Let_def)
  next
    case (Inr u)
    then have step: "push_back put finish xs (finish ?x q1) = (rest, q')" using Cons.prems(1) p by (simp add: Let_def)
    have "holds q' ?x" using push_back_keeps [OF step finish_keep] put_ok [of ?x q u q1] p Inr by simp
    then show ?thesis using Cons.IH [OF step] Cons.prems(2) by auto
  qed
qed simp

end

text \<open>A request is on disk when its text is a line of the file of failed requests.\<close>

definition on_disk :: "'w node \<Rightarrow> request \<Rightarrow> bool" where
  "on_disk nd r \<longleftrightarrow> (\<exists>ls. nd_failed nd = Some ls \<and> payload r \<in> set ls)"

lemma dump_on_disk:
  assumes "DUMP_UNFINISHED_ON_EXIT cfg" "r \<in> set rs"
  shows "on_disk (dump_requests cfg None rs nd) r"
  using assms by (auto simp: dump_requests_def append_requests_def on_disk_def)

lemma dump_nd_w [simp]: "nd_w (dump_requests cfg fault rs nd) = nd_w nd"
  by (simp add: dump_requests_def append_requests_def Let_def)

lemma dump_keeps: "on_disk nd r \<Longrightarrow> on_disk (dump_requests cfg fault rs nd) r"
  by (auto simp: dump_requests_def append_requests_def on_disk_def Let_def)

context redis_server
begin

lemma redis_shutdown_places:
  assumes "DUMP_UNFINISHED_ON_EXIT cfg" "r \<in> set (rb_pending (nd_rbuf nd)) \<union> set (co_buffer (nd_coll nd))"
    and nd': "nd' = redis_on_shutdown R cfg sc dedups None nd"
  shows "rds_holds view (sc_ns sc) (nd_w nd') (r\<lparr>filter_repeat := False\<rparr>) \<or> on_disk nd' r \<or> on_disk nd' (r\<lparr>filter_repeat := False\<rparr>)"
proof -
  let ?Q = "redis_tq R cfg (sc_ns sc) 0 0 id 0"
  let ?w1 = "snd (on_srv (rcall R (rdo (hdel_cmd R (heartbeat_key sc) (sc_node sc)))) (nd_w nd))"
  let ?rs = "rb_pending (nd_rbuf nd) @ co_buffer (nd_coll nd)"
  obtain rest w2 where p: "push_back (tq_put ?Q) (finish_in ?Q) ?rs ?w1 = (rest, w2)" by (metis surj_pair)
  let ?nd0 = "nd\<lparr>nd_rbuf := (nd_rbuf nd)\<lparr>rb_pending := []\<rparr>, nd_coll := (nd_coll nd)\<lparr>co_buffer := []\<rparr>, nd_w := w2\<rparr>"
  let ?nd1 = "dump_requests cfg None rest ?nd0"
  have nd1: "nd' = ?nd1\<lparr>nd_w := (fst w2, touch_run_keys R cfg sc dedups (snd w2))\<rparr>"
    using p by (simp add: nd' redis_on_shutdown_def rbuf_drain_def coll_drain_def Let_def)
  have h: "rds_holds view (sc_ns sc) (nd_w nd') x \<longleftrightarrow> rds_holds view (sc_ns sc) w2 x" for x
    by (simp add: nd1 rds_holds_def rq_holds_def touch_zsets)
  have f: "on_disk nd' x \<longleftrightarrow> on_disk ?nd1 x" for x by (simp add: nd1 on_disk_def)
  from rwq.push_back_places [OF p, of r] assms(2) show ?thesis
    using dump_on_disk [OF assms(1), of _ rest ?nd0] unfolding h f by auto
qed

end

section \<open>The waiting loop\<close>

text \<open>The invariant of the loop: the last \<open>streak\<close> checks said done.\<close>

lemma wait_loop_streak:
  assumes "wait_loop fuel k cfg d stop clk chk streak = Some (Inr AllDone, n)"
    and "\<forall>j. int k - streak \<le> int j \<and> j < k \<longrightarrow> chk j = Inr True" "0 \<le> streak"
  shows "k \<le> n \<and> (\<forall>j. int n - DONE_CHECK_TIMES cfg < int j \<and> j \<le> n \<longrightarrow> chk j = Inr True)
    \<and> (\<forall>j. k \<le> j \<and> j \<le> n \<longrightarrow> \<not> stop j \<and> (\<forall>t. d = Some t \<longrightarrow> clk j < t))"
  using assms
proof (induction fuel k cfg d stop clk chk streak rule: wait_loop.induct)
  case (2 fuel k cfg d stop clk chk streak)
  have go: "\<not> stop k" "\<forall>t. d = Some t \<longrightarrow> clk k < t" using "2.prems"(1) by (auto split: if_splits option.splits)
  have le: "k \<le> j \<longleftrightarrow> j = k \<or> Suc k \<le> j" for j by linarith
  from go have nt: "\<not> (case d of None \<Rightarrow> False | Some t \<Rightarrow> clk k \<ge> t)" by (auto split: option.splits)
  show ?case
  proof (cases "chk k = Inr True")
    case True
    have ext: "\<forall>j. int (Suc k) - (streak + 1) \<le> int j \<and> j < Suc k \<longrightarrow> chk j = Inr True"
      using "2.prems"(2) True by (auto simp: less_Suc_eq)
    show ?thesis
    proof (cases "streak + 1 \<ge> DONE_CHECK_TIMES cfg")
      case True
      then have "n = k" using "2.prems"(1) go nt \<open>chk k = Inr True\<close> by simp
      then show ?thesis using ext True go by (auto simp: le_Suc_eq)
    next
      case False
      then have w: "wait_loop fuel (Suc k) cfg d stop clk chk (streak + 1) = Some (Inr AllDone, n)"
        using "2.prems"(1) go nt \<open>chk k = Inr True\<close> by simp
      from "2.IH"(1) [OF go(1) nt True HOL.refl False w ext] "2.prems"(3)
      show ?thesis using go unfolding le [of n] le by auto
    qed
  next
    case False
    then have c: "chk k = Inr False" and w: "wait_loop fuel (Suc k) cfg d stop clk chk 0 = Some (Inr AllDone, n)"
      using "2.prems"(1) go nt by (auto split: sum.splits bool.splits)
    have "\<forall>j. int (Suc k) - 0 \<le> int j \<and> j < Suc k \<longrightarrow> chk j = Inr True" by auto
    from "2.IH"(2) [OF go(1) nt c HOL.refl w this] show ?thesis using go unfolding le [of n] le by auto
  qed
qed simp

text \<open>The loop ends as soon as it is stopped, times out, or the checks have said done often enough.\<close>

lemma wait_loop_ends:
  assumes "stop (k + n) \<or> (\<exists>t. d = Some t \<and> t \<le> clk (k + n))"
  shows "\<exists>x j. wait_loop (Suc n) k cfg d stop clk chk streak = Some (x, j) \<and> k \<le> j \<and> j \<le> k + n"
  using assms
proof (induction n arbitrary: k streak)
  case (Suc n)
  have ih: "\<exists>x j. wait_loop (Suc n) (Suc k) cfg d stop clk chk st = Some (x, j) \<and> Suc k \<le> j \<and> j \<le> Suc k + n" for st
    using Suc.IH [of "Suc k" st] Suc.prems by simp
  show ?case
    using ih [of "streak + 1"] ih [of 0] by (subst wait_loop.simps) (auto split: sum.splits bool.splits simp del: wait_loop.simps)
qed (auto split: option.splits sum.splits bool.splits)

lemma wait_loop_done:
  assumes "\<forall>j. k \<le> j \<and> j \<le> k + n \<longrightarrow> chk j = Inr True" "int n + 1 + streak \<ge> DONE_CHECK_TIMES cfg"
  shows "\<exists>x j. wait_loop (Suc n) k cfg d stop clk chk streak = Some (x, j) \<and> k \<le> j \<and> j \<le> k + n"
  using assms
proof (induction n arbitrary: k streak)
  case (Suc n)
  have "\<exists>x j. wait_loop (Suc n) (Suc k) cfg d stop clk chk (streak + 1) = Some (x, j) \<and> Suc k \<le> j \<and> j \<le> Suc k + n"
    using Suc.IH [of "Suc k" "streak + 1"] Suc.prems by simp
  then show ?case using Suc.prems(1) by (subst wait_loop.simps) (auto split: sum.splits bool.splits simp del: wait_loop.simps)
qed (auto split: option.splits sum.splits bool.splits)

section \<open>What was dumped comes back\<close>

text \<open>A replay puts every line that is a request, in order, at the end of the buffer, if the buffer does not fill up meanwhile.\<close>

lemma buf_put_small:
  assumes "int (length (rb_pending (nd_rbuf nd))) + 1 < REQUEST_BUFFER_MAX_CACHED cfg"
  shows "buf_put cfg B r nd = (Inr (), nd\<lparr>nd_rbuf := (nd_rbuf nd)\<lparr>rb_pending := rb_pending (nd_rbuf nd) @ [r]\<rparr>\<rparr>)"
  using assms by (simp add: buf_put_def on_buf_def rbuf_put_def)

fun numbered :: "nat \<Rightarrow> request list \<Rightarrow> request list" where
  "numbered o' [] = []"
| "numbered o' (r # rs) = (wire_request o' r)\<lparr>filter_repeat := False\<rparr> # numbered (Suc o') rs"

lemma replay_loop_payloads:
  assumes "\<forall>r\<in>set rs. wf_request r" "int (length (rb_pending (nd_rbuf nd)) + length rs) < REQUEST_BUFFER_MAX_CACHED cfg"
  shows "replay_loop cfg B (map payload rs) o' n nd =
    (Inr (n + length rs), nd\<lparr>nd_rbuf := (nd_rbuf nd)\<lparr>rb_pending := rb_pending (nd_rbuf nd) @ numbered o' rs\<rparr>\<rparr>)"
  using assms
proof (induction rs arbitrary: o' n nd)
  case (Cons r rs)
  have d: "decode o' (payload r) = Inr (wire_request o' r)" using Cons.prems by (simp add: decode_payload)
  show ?case
    using Cons.prems by (simp add: d buf_put_small Cons.IH)
qed simp

lemma payload_not_blank: "strip (payload r) \<noteq> []"
proof -
  obtain x where x: "payload r = CHR ''{'' # x" by (simp add: payload_def)
  have "dropWhile is_space (rev (payload r)) \<noteq> []" unfolding x by (simp add: dropWhile_eq_Nil_conv is_space_def Let_def)
  then show ?thesis unfolding x by (simp add: strip_def lstrip_def rstrip_def is_space_def Let_def)
qed

section \<open>Single process: everything left goes to disk\<close>

lemma empty_queue_abs: "fst (empty_queue q) = mem_abs q"
proof (induction q rule: empty_queue.induct)
  case (1 q)
  show ?case
    by (subst empty_queue.simps) (use 1 in \<open>auto simp: mem_get_def mem_abs_def split: list.splits prod.splits\<close>)
qed

lemma air_shutdown_dumps_all:
  assumes "DUMP_UNFINISHED_ON_EXIT cfg"
    and "r \<in> set (rb_pending (nd_rbuf nd)) \<union> set (co_buffer (nd_coll nd)) \<union> set (mem_abs (snd (nd_w nd)))"
  shows "on_disk (air_on_shutdown cfg None nd) r"
proof -
  obtain rs nd1 where d: "drain_leftovers nd = (rs, nd1)" by force
  then have "set rs = set (rb_pending (nd_rbuf nd)) \<union> set (co_buffer (nd_coll nd)) \<union> set (mem_abs (snd (nd_w nd)))"
    using empty_queue_abs [of "snd (nd_w nd)"] by (auto simp: drain_leftovers_def rbuf_drain_def coll_drain_def split: prod.splits)
  then have "r \<in> set rs" using assms(2) by blast
  from dump_on_disk [OF assms(1) this] show ?thesis by (simp add: air_on_shutdown_def d)
qed

section \<open>One node seeds\<close>

context redis_server
begin

lemma acquire_once_taken:
  assumes "live_str (view s) name \<noteq> None" "acquire_once R name ttl s = (x, s')"
  shows "view s' = view s \<and> x \<noteq> Inr True"
proof -
  let ?f = "set_nx_ex R name ''1'' (of_int ttl)"
  have v: "view (snd (?f st)) = view st" if "view st = view s" for st using assms(1) that by (auto simp: set_nx_view)
  have "view s' = view s" using rcall_view [of ?f s] assms(2) v by (auto simp: acquire_once_def)
  moreover have "x \<noteq> Inr True"
  proof
    assume "x = Inr True"
    then obtain s1 where "view s1 = view s" "?f s1 = (True, s')"
      using rcall_Inr [of ?f s True s'] assms(2) by (auto simp: acquire_once_def)
    then show False using set_nx_val [of name "''1''" "of_int ttl" s1] assms(1) by simp
  qed
  ultimately show ?thesis by blast
qed

lemma acquire_once_got:
  assumes "acquire_once R name ttl s = (Inr True, s')" "0 < ttl"
  shows "strs (view s') name = Some (''1'', clock (view s) + of_int ttl)" "live_str (view s) name = None"
proof -
  let ?f = "set_nx_ex R name ''1'' (of_int ttl)"
  obtain s1 where s1: "view s1 = view s" "?f s1 = (True, s')" using rcall_Inr [of ?f s True s'] assms(1) by (auto simp: acquire_once_def)
  then show "live_str (view s) name = None" using set_nx_val [of name "''1''" "of_int ttl" s1] by simp
  then show "strs (view s') name = Some (''1'', clock (view s) + of_int ttl)"
    using set_nx_view [of name "''1''" "of_int ttl" s1] s1 by simp
qed

end

section \<open>Properties\<close>


definition demo_node :: "'w \<Rightarrow> 'w node" where
  "demo_node w = \<lparr>nd_failed = None, nd_staging = None, nd_rbuf = \<lparr>rb_pending = [], rb_stats = []\<rparr>, nd_coll = new_coll, nd_w = w\<rparr>"

definition empty_ibuf :: ibuf where
  "empty_ibuf = \<lparr>ib_pending = [], ib_after = [], ib_cache = [], ib_paths = None, ib_stats = []\<rparr>"


text \<open>C4: A graceful stop loses nothing.  After \<open>_on_shutdown\<close> of a distributed node (with dumping on and a disk that can be
  written), each request that waited in its request buffer or in its collector is in the shared queue, or a line of the file of failed
  requests; which of the calls to Redis failed makes no difference.  The collector's buffer and the request buffer are empty.\<close>

theorem shutdown_keeps_requests:
  assumes "redis_server R view" and "DUMP_UNFINISHED_ON_EXIT cfg"
    and "r \<in> set (rb_pending (nd_rbuf nd)) \<union> set (co_buffer (nd_coll nd))"
    and "nd' = redis_on_shutdown R cfg sc dedups None nd"
  shows "(rds_holds view (sc_ns sc) (nd_w nd') (r\<lparr>filter_repeat := False\<rparr>) \<or> on_disk nd' r \<or> on_disk nd' (r\<lparr>filter_repeat := False\<rparr>))
    \<and> rb_pending (nd_rbuf nd') = [] \<and> co_buffer (nd_coll nd') = []"
  using redis_server.redis_shutdown_places [OF assms]
  by (simp add: assms(4) redis_on_shutdown_def rbuf_drain_def coll_drain_def dump_requests_def append_requests_def Let_def split: prod.splits)

theorem shutdown_keeps_requests_witness:
  "\<exists>nd'. nd' = redis_on_shutdown mini default_setting demo_sched [] None
       ((demo_node (FLite [], mini_empty\<lparr>faults := [Answered, Unreached]\<rparr>))\<lparr>nd_coll := \<lparr>co_buffer = [req_a], co_in_progress = []\<rparr>\<rparr>)
     \<and> (rds_holds mini_view ''s'' (nd_w nd') (req_a\<lparr>filter_repeat := False\<rparr>) \<or> on_disk nd' req_a \<or> on_disk nd' (req_a\<lparr>filter_repeat := False\<rparr>))"
proof -
  let ?nd = "(demo_node (FLite [], mini_empty\<lparr>faults := [Answered, Unreached]\<rparr>))\<lparr>nd_coll := \<lparr>co_buffer = [req_a], co_in_progress = []\<rparr>\<rparr>"
  have "DUMP_UNFINISHED_ON_EXIT default_setting" "req_a \<in> set (rb_pending (nd_rbuf ?nd)) \<union> set (co_buffer (nd_coll ?nd))"
    by (simp_all add: default_setting_def demo_node_def)
  from shutdown_keeps_requests [OF mini.redis_server_axioms this HOL.refl, of demo_sched "[]"] show ?thesis by (simp add: demo_sched_def)
qed





text \<open>C13: \<open>start_requests\<close> runs once.  If a node has taken the seed lock, then as long as the lock has not run out, every other
  node that comes to \<open>_seed_or_skip\<close> puts nothing: it skips (or its call fails), its buffers are as before and the server holds
  what it held.\<close>

theorem seed_lock_excludes:
  assumes "redis_server R view"
    and "acquire_once R (seed_key sc) ttl s0 = (Inr True, s1)" and "0 < ttl"
    and "strs (view s) (seed_key sc) = strs (view s1) (seed_key sc)" and "clock (view s) < clock (view s0) + of_int ttl"
    and "nd_w nd = (fo, s)" and "seed_or_skip R cfg sc B io o' start nd = (x, nd')"
  shows "(x = Inr None \<or> (\<exists>e. x = Inl e)) \<and> nd_rbuf nd' = nd_rbuf nd \<and> nd_coll nd' = nd_coll nd
    \<and> nd_failed nd' = nd_failed nd \<and> view (snd (nd_w nd')) = view s"
proof -
  have "live_str (view s) (seed_key sc) \<noteq> None"
    using redis_server.acquire_once_got [OF assms(1-3)] assms(4,5) by (simp add: live_str_def)
  moreover obtain y s' where y: "acquire_once R (seed_key sc) (SPIDER_SEED_LOCK_TTL cfg) s = (y, s')" by force
  ultimately have "view s' = view s" "y \<noteq> Inr True" using redis_server.acquire_once_taken [OF assms(1)] by blast+
  then show ?thesis using assms(6,7) y by (auto simp: seed_or_skip_def on_srv_def split: sum.splits bool.splits)
qed

theorem seed_lock_excludes_witness:
  "\<exists>s1 x nd'. acquire_once mini (seed_key demo_sched) 60 mini_empty = (Inr True, s1)
     \<and> seed_or_skip mini default_setting demo_sched \<lparr>be_add = filter_add mini toy_digests, be_put = rds_put mini ''s'', be_fp = url\<rparr> IoOk 0
          ([Some req_a], None) (demo_node (FLite [], s1)) = (x, nd') \<and> nd_rbuf nd' = nd_rbuf (demo_node (FLite [], s1))"
proof -
  let ?B = "\<lparr>be_add = filter_add mini toy_digests, be_put = rds_put mini ''s'', be_fp = url\<rparr>"
  obtain s1 where s1: "acquire_once mini (seed_key demo_sched) 60 mini_empty = (Inr True, s1)"
    by (simp add: acquire_once_def rcall_def mini_sel mini_conn_def mini_empty_def mini_set_nx_ex_def mini_live_def)
  have c: "clock (mini_view s1) < clock (mini_view mini_empty) + of_int 60"
    using s1 by (auto simp: acquire_once_def rcall_def mini_sel mini_conn_def mini_empty_def mini_set_nx_ex_def mini_live_def mini_view_def)
  obtain x nd' where r: "seed_or_skip mini default_setting demo_sched ?B IoOk 0 ([Some req_a], None) (demo_node (FLite [], s1)) = (x, nd')" by force
  show ?thesis
    using seed_lock_excludes [OF mini.redis_server_axioms s1 _ HOL.refl c _ r, of "FLite []"] s1 r by (auto simp: demo_node_def)
qed

section \<open>What the schedulers do not cover\<close>

text \<open>\<open>RedisTaskScheduler._is_done\<close> looks neither at the tasks in flight nor at expired leases: a node ends while a task that a
  killed node had taken is still in flight, and nobody gives it back.\<close>

lemma task_spider_ends_with_tasks_in_flight:
  "\<exists>nd'. task_is_done mini default_setting demo_sched (Some \<lparr>po_exhausted = True, po_empty_polls = 3\<rparr>) 1000 empty_ibuf [False]
       (demo_node (FLite [], mini_empty\<lparr>mz := (\<lambda>_. [])(''s:z_inflight'' := [(''x'', 5)])\<rparr>)) = (Inr True, nd')"
  by (simp add: task_is_done_def demo_sched_def demo_node_def new_coll_def empty_ibuf_def
        on_srv_def rcall_def mini_sel mini_conn_def mini_empty_def zsorted_def queue_key_def
        idle_and_empty_def local_idle_def rbuf_is_empty_def coll_is_empty_def redis_tq_def rq_empty_def rq_qsize_def mini_zcard_def
        ibuf_is_empty_def all_nodes_idle_def mini_hvals_cmd_def Let_def)

text \<open>One task text that is not JSON takes the whole batch with it: the texts have left the list, the poller logs the exception.\<close>

lemma bad_task_loses_batch:
  "task_fetch mini ''t'' 10 (mini_empty\<lparr>ml := (\<lambda>_. [])(''t'' := [dumps_json v, ''x''])\<rparr>) = (Inl (raise_of PyValueError), mini_empty)"
proof -
  have x: "loads_json ''x'' = Inl (raise_of PyValueError)" by (simp add: loads_json_def skip_ws_def is_ws_def is_digit_def)
  have "loads_all [dumps_json v, ''x''] = Inl (raise_of PyValueError)" by (simp add: loads_dumps x del: dumps_json.simps)
  then show ?thesis
    by (auto simp: task_fetch_def source_fetch_def rcall_def mini_sel mini_conn_def mini_empty_def mini_lpop_cmd_def simp del: loads_all.simps)
qed

text \<open>On shutdown a task is put back and then acknowledged.  When its text has not changed, a node that takes it between the two calls
  loses its lease: the task is neither waiting nor leased.\<close>

lemma shutdown_ack_hits_new_holder:
  assumes "0 < SPIDER_TASK_LEASE cfg" "lease_token r = Some (payload r)" "payload r \<noteq> []"
  shows "mz (rq_done mini name r (mini_empty\<lparr>mz := (\<lambda>_. [])(inflight_key name := [(payload r, 700)])\<rparr>)) (inflight_key name) = []"
  using assms by (simp add: rq_done_def done_member_def rcall_def mini_sel mini_conn_def mini_empty_def mini_zrem_def)

end
