(* ===== verification/Status_Policy.thy ===== *)
theory Status_Policy
  imports Net_Request Py_Str
begin

text \<open>
  The response object of \<^verbatim>\<open>netspy/network/response.py\<close> (what the policies read of it), the status policy of
  \<^verbatim>\<open>netspy/network/status.py\<close> and the anti-bot rules of \<^verbatim>\<open>netspy/network/antibot.py\<close>.  Reading a number or an
  HTTP date from text, and the regular expressions, belong to the standard library and are arguments.
  \<open>elapsed\<close> (a timing statistic) has no field.
\<close>

record response =
  rs_url :: string
  rs_status :: int
  rs_content :: string
  rs_headers :: "(string, string) pydict"
  rs_cookies :: "(string, string) pydict"
  rs_encoding :: "string option"
  rs_history :: "string list"

definition resp_ok :: "response \<Rightarrow> bool" where
  "resp_ok r = (200 \<le> rs_status r \<and> rs_status r < 300)"

section \<open>Status policy\<close>

datatype verdict = VerdictOk | VerdictRetry | VerdictFail

definition classify :: "setting \<Rightarrow> response \<Rightarrow> verdict" where
  "classify cfg r =
     (if \<not> CHECK_STATUS_CODE cfg then VerdictOk
      else if 200 \<le> rs_status r \<and> rs_status r < 400 then VerdictOk
      else if rs_status r \<in> set (ACCEPT_STATUS_CODES cfg) then VerdictOk
      else if rs_status r \<in> set (RETRY_STATUS_CODES cfg) then VerdictRetry
      else VerdictFail)"

text \<open>\<open>float(text)\<close> and \<open>parsedate_to_datetime(text).timestamp()\<close>; \<open>None\<close> for an exception.\<close>

type_synonym readers = "(string \<Rightarrow> real option) \<times> (string \<Rightarrow> real option)"

definition parse_retry_after :: "readers \<Rightarrow> string \<Rightarrow> time \<Rightarrow> real option" where
  "parse_retry_after rd raw now =
     (let v = strip raw in
      if v = [] then None
      else case fst rd v of
        Some x \<Rightarrow> Some (max x 0)
      | None \<Rightarrow> (case snd rd v of None \<Rightarrow> None | Some t \<Rightarrow> Some (max (t - now) 0)))"

definition retry_after_seconds :: "setting \<Rightarrow> readers \<Rightarrow> response option \<Rightarrow> time \<Rightarrow> real option" where
  "retry_after_seconds cfg rd resp now =
     (case resp of None \<Rightarrow> None
      | Some r \<Rightarrow>
          if RETRY_AFTER_MAX cfg = 0 then None
          else if rs_status r \<notin> {429, 503} then None
          else (case dget (rs_headers r) ''retry-after'' of
                  None \<Rightarrow> None | Some raw \<Rightarrow> if raw = [] then None else parse_retry_after rd raw now))"

text \<open>\<open>u\<close> is the draw of \<open>random.uniform(0.5, 1.0)\<close>.\<close>

definition retry_delay :: "setting \<Rightarrow> readers \<Rightarrow> real \<Rightarrow> request \<Rightarrow> response option \<Rightarrow> time \<Rightarrow> real" where
  "retry_delay cfg rd u req resp now =
     (case retry_after_seconds cfg rd resp now of
        Some x \<Rightarrow> x
      | None \<Rightarrow>
          if 0 < RETRY_BACKOFF cfg
          then let raw = RETRY_BACKOFF cfg * 2 ^ nat (max (retry_times req - 1) 0);
                   capped = (if RETRY_AFTER_MAX cfg \<noteq> 0 then min raw (RETRY_AFTER_MAX cfg) else raw)
               in capped * u
          else SPIDER_RETRY_INTERVAL cfg)"

definition retry_after_too_long :: "setting \<Rightarrow> readers \<Rightarrow> response option \<Rightarrow> time \<Rightarrow> real option" where
  "retry_after_too_long cfg rd resp now =
     (case retry_after_seconds cfg rd resp now of
        None \<Rightarrow> None
      | Some x \<Rightarrow> if RETRY_AFTER_MAX cfg = 0 then None else if x > RETRY_AFTER_MAX cfg then Some x else None)"

section \<open>Anti-bot pages\<close>

definition TINY_BODY :: nat where "TINY_BODY = 2048"

definition CF_MARKERS :: "string list" where
  "CF_MARKERS = [''__cf_chl_'', ''/cdn-cgi/challenge-platform/'', ''cf-browser-verification'']"

definition AKAMAI_MARKERS :: "string list" where
  "AKAMAI_MARKERS = [''_abck'', ''bm-verify'', ''/_sec/cp_challenge/'']"

definition looks_like_cloudflare :: "response \<Rightarrow> bool" where
  "looks_like_cloudflare r =
     (if (case dget (rs_headers r) ''cf-mitigated'' of None \<Rightarrow> False | Some v \<Rightarrow> v \<noteq> []) then True
      else if rs_status r \<notin> {403, 503, 429} then False
      else list_ex (\<lambda>m. contains m (ascii_lower (take TINY_BODY (rs_content r)))) CF_MARKERS)"

definition looks_like_akamai :: "response \<Rightarrow> bool" where
  "looks_like_akamai r =
     (if rs_status r \<notin> {403, 428} then False
      else list_ex (\<lambda>m. contains m (ascii_lower (take TINY_BODY (rs_content r)))) AKAMAI_MARKERS)"

text \<open>\<open>js_redirect\<close> and \<open>has_text\<close> are the searches of the two compiled patterns.\<close>

definition looks_like_js_redirect :: "(string \<Rightarrow> bool) \<Rightarrow> (string \<Rightarrow> bool) \<Rightarrow> response \<Rightarrow> bool" where
  "looks_like_js_redirect js_redirect has_text r =
     (if rs_status r \<noteq> 200 \<or> length (rs_content r) > TINY_BODY then False
      else if has_text (rs_content r) then False else js_redirect (rs_content r))"

definition detect :: "(string \<Rightarrow> bool) \<Rightarrow> (string \<Rightarrow> bool) \<Rightarrow> response \<Rightarrow> string option" where
  "detect js_redirect has_text r =
     (if looks_like_cloudflare r then Some ''cloudflare''
      else if looks_like_akamai r then Some ''akamai''
      else if looks_like_js_redirect js_redirect has_text r then Some ''js_redirect''
      else None)"

definition raise_if_blocked :: "(string \<Rightarrow> bool) \<Rightarrow> (string \<Rightarrow> bool) \<Rightarrow> response \<Rightarrow> unit res" where
  "raise_if_blocked js_redirect has_text r =
     (case detect js_redirect has_text r of None \<Rightarrow> Inr () | Some _ \<Rightarrow> Inl (raise_of AntiBotError))"

section \<open>Properties\<close>

lemma retry_after_nonneg: "retry_after_seconds cfg rd resp now = Some x \<Longrightarrow> 0 \<le> x"
  by (auto simp: retry_after_seconds_def parse_retry_after_def Let_def split: option.splits if_splits)

text \<open>A worker never sleeps long before a retry.  When the server's \<open>Retry-After\<close> was not judged too long,
  the wait before the retry is between zero and the larger of \<open>RETRY_AFTER_MAX\<close> and \<open>SPIDER_RETRY_INTERVAL\<close>,
  whatever header, backoff and jitter.\<close>

theorem retry_delay_bounded:
  assumes "0 < RETRY_AFTER_MAX cfg" and "0 \<le> SPIDER_RETRY_INTERVAL cfg" and "1 / 2 \<le> u" and "u \<le> 1"
    and "retry_after_too_long cfg rd resp now = None"
  shows "0 \<le> retry_delay cfg rd u req resp now
    \<and> retry_delay cfg rd u req resp now \<le> max (RETRY_AFTER_MAX cfg) (SPIDER_RETRY_INTERVAL cfg)"
proof (cases "retry_after_seconds cfg rd resp now")
  case (Some x)
  then have "x \<le> RETRY_AFTER_MAX cfg" using assms(1,5) by (simp add: retry_after_too_long_def split: if_splits)
  then show ?thesis using Some retry_after_nonneg [OF Some] by (simp add: retry_delay_def)
next
  case None
  show ?thesis
  proof (cases "0 < RETRY_BACKOFF cfg")
    case True
    let ?c = "min (RETRY_BACKOFF cfg * 2 ^ nat (max (retry_times req - 1) 0)) (RETRY_AFTER_MAX cfg)"
    have c: "0 \<le> ?c" "?c \<le> RETRY_AFTER_MAX cfg" using True assms(1) by simp_all
    have "?c * u \<le> ?c * 1" using c(1) assms(4) by (intro mult_left_mono) auto
    moreover have "0 \<le> ?c * u" using c(1) assms(3) by simp
    moreover have "retry_delay cfg rd u req resp now = ?c * u"
      using None True assms(1) by (simp add: retry_delay_def Let_def)
    ultimately show ?thesis using c(2) by linarith
  qed (use None assms in \<open>simp add: retry_delay_def\<close>)
qed

definition resp_429 :: response where
  "resp_429 = \<lparr>rs_url = ''u'', rs_status = 429, rs_content = [], rs_headers = [(''retry-after'', ''30'')], rs_cookies = [],
     rs_encoding = None, rs_history = []\<rparr>"

definition read_30 :: readers where
  "read_30 = (\<lambda>s. if s = ''30'' then Some 30 else None, \<lambda>_. None)"

theorem retry_delay_bounded_witness:
  "0 \<le> retry_delay default_setting read_30 1 (request_defaults ''u'') (Some resp_429) 0
   \<and> retry_delay default_setting read_30 1 (request_defaults ''u'') (Some resp_429) 0 \<le> 60"
proof -
  have m: "RETRY_AFTER_MAX default_setting = 60" "SPIDER_RETRY_INTERVAL default_setting = 0"
    by (simp_all add: default_setting_def)
  have t: "retry_after_too_long default_setting read_30 (Some resp_429) 0 = None"
    by (simp add: retry_after_too_long_def retry_after_seconds_def m resp_429_def parse_retry_after_def read_30_def strip_def lstrip_def rstrip_def is_space_def)
  show ?thesis using retry_delay_bounded [OF _ _ _ _ t, of 1 "request_defaults ''u''"] by (simp add: m)
qed

end
