(* ===== verification/Throttle.thy ===== *)
theory Throttle
  imports Status_Policy Redis_Mini
begin

text \<open>
  \<^verbatim>\<open>netspy/network/throttle.py\<close>, \<^verbatim>\<open>global_throttle.py\<close> and \<^verbatim>\<open>circuit.py\<close>: the per-domain start times handed out as
  tickets (in the process, or by a script on the Redis server), the per-domain concurrency slots, and the
  circuit breaker that turns consecutive failures into a cooldown of the whole domain.  \<open>netloc\<close> is
  \<open>urlsplit(url).netloc\<close>.
\<close>

section \<open>GlobalThrottle\<close>

text \<open>\<open>tonumber(redis.call('GET', key) or '0')\<close> of a value the script itself wrote.\<close>

definition ticket_number :: "string option \<Rightarrow> int" where
  "ticket_number v = (case v of None \<Rightarrow> 0 | Some t \<Rightarrow> (case scan_int t of Some (i, _) \<Rightarrow> i | None \<Rightarrow> 0))"

text \<open>The script \<open>_TICKET_LUA\<close>; times in milliseconds of the server's clock.\<close>

definition ticket_lua :: "'s redis \<Rightarrow> string \<Rightarrow> real \<Rightarrow> 's \<Rightarrow> int \<times> 's" where
  "ticket_lua R key delay s =
     (let now = time_cmd R s * 1000;
          next_at = of_int (ticket_number (get_cmd R key s));
          ready = (if next_at > now then next_at else now);
          target = ready + delay
      in (\<lfloor>ready - now\<rfloor>, set_ex R key (show_int \<lfloor>target\<rfloor>) (of_int (\<lfloor>target - now\<rfloor> + 60000) / 1000) s))"

text \<open>\<open>take_ticket\<close>: \<open>None\<close> when the call fails, and the caller falls back to the local throttle.\<close>

definition gt_take_ticket :: "'s redis \<Rightarrow> (string \<Rightarrow> string) \<Rightarrow> string \<Rightarrow> real \<Rightarrow> 's \<Rightarrow> real option \<times> 's" where
  "gt_take_ticket R tkey domain delay s =
     (case rcall R (ticket_lua R (tkey domain) (max delay 0 * 1000)) s of
        (Inl _, s1) \<Rightarrow> (None, s1)
      | (Inr ms, s1) \<Rightarrow> (Some (max (of_int ms / 1000) 0), s1))"

section \<open>DomainThrottle\<close>

record throttle =
  th_next_at :: "(string, time) pydict"
  th_sems :: "(string, int) pydict"
  th_delay :: "(string, real) pydict"

definition throttle_new :: throttle where
  "throttle_new = \<lparr>th_next_at = [], th_sems = [], th_delay = []\<rparr>"

abbreviation dict_get :: "('k, 'v) pydict \<Rightarrow> 'k \<Rightarrow> 'v \<Rightarrow> 'v" where
  "dict_get d k dflt \<equiv> (case dget d k of None \<Rightarrow> dflt | Some v \<Rightarrow> v)"

text \<open>The interval of this ticket; \<open>u\<close> is the draw of \<open>random.uniform(0.5, 1.5)\<close>.\<close>

definition ticket_delay :: "setting \<Rightarrow> real \<Rightarrow> string \<Rightarrow> throttle \<Rightarrow> real" where
  "ticket_delay cfg u domain th =
     (let delay = max (DOWNLOAD_DELAY cfg) (dict_get (th_delay th) domain 0)
      in if 0 < delay \<and> RANDOMIZE_DOWNLOAD_DELAY cfg then delay * u else delay)"

text \<open>The part of \<open>_take_ticket\<close> under the lock.\<close>

definition local_ticket :: "time \<Rightarrow> string \<Rightarrow> real \<Rightarrow> throttle \<Rightarrow> real \<times> throttle" where
  "local_ticket now domain delay th =
     (let ready = max now (dict_get (th_next_at th) domain 0)
      in (ready - now,
          if 0 < delay \<or> now < ready then th\<lparr>th_next_at := dset (th_next_at th) domain (ready + max delay 0)\<rparr> else th))"

text \<open>\<open>gt\<close> is \<open>global_throttle.take_ticket\<close> on the world \<open>'w\<close>.\<close>

definition take_ticket :: "setting \<Rightarrow> (string \<Rightarrow> real \<Rightarrow> 'w \<Rightarrow> real option \<times> 'w) \<Rightarrow> real \<Rightarrow> time \<Rightarrow> string \<Rightarrow> throttle \<Rightarrow> 'w
    \<Rightarrow> real \<times> throttle \<times> 'w" where
  "take_ticket cfg gt u now domain th w =
     (let delay = ticket_delay cfg u domain th;
          (answer, w1) = (if GLOBAL_THROTTLE cfg then gt domain delay w else (None, w))
      in case answer of
           Some wait \<Rightarrow> (wait, th, w1)
         | None \<Rightarrow> (case local_ticket now domain delay th of (wait, th1) \<Rightarrow> (wait, th1, w1)))"

definition penalize :: "setting \<Rightarrow> (string \<Rightarrow> real \<Rightarrow> 'w \<Rightarrow> real option \<times> 'w) \<Rightarrow> time \<Rightarrow> string \<Rightarrow> real \<Rightarrow> throttle \<Rightarrow> 'w
    \<Rightarrow> throttle \<times> 'w" where
  "penalize cfg gt now domain seconds th w =
     (if seconds \<le> 0 then (th, w)
      else let w1 = (if GLOBAL_THROTTLE cfg then snd (gt domain seconds w) else w);
               ready = max now (dict_get (th_next_at th) domain 0)
           in (th\<lparr>th_next_at := dset (th_next_at th) domain (ready + seconds)\<rparr>, w1))"

definition set_domain_delay :: "string \<Rightarrow> real \<Rightarrow> throttle \<Rightarrow> throttle" where
  "set_domain_delay domain seconds th = th\<lparr>th_delay := dset (th_delay th) domain (max seconds 0)\<rparr>"

text \<open>
  The slot's semaphore: entering takes a permit (\<open>None\<close>: the thread blocks), leaving always gives it
  back (\<open>finally\<close>).  With no limit there is no semaphore.
\<close>

definition slot_enter :: "setting \<Rightarrow> string \<Rightarrow> throttle \<Rightarrow> throttle option" where
  "slot_enter cfg domain th =
     (let limit = CONCURRENT_REQUESTS_PER_DOMAIN cfg in
      if limit \<le> 0 then Some th
      else let permits = dict_get (th_sems th) domain limit
           in if permits \<le> 0 then None else Some (th\<lparr>th_sems := dset (th_sems th) domain (permits - 1)\<rparr>))"

definition slot_exit :: "setting \<Rightarrow> string \<Rightarrow> throttle \<Rightarrow> throttle" where
  "slot_exit cfg domain th =
     (let limit = CONCURRENT_REQUESTS_PER_DOMAIN cfg in
      if limit \<le> 0 then th else th\<lparr>th_sems := dset (th_sems th) domain (dict_get (th_sems th) domain limit + 1)\<rparr>)"

definition throttle_reset :: "throttle \<Rightarrow> throttle" where
  "throttle_reset th = th\<lparr>th_next_at := [], th_sems := [], th_delay := []\<rparr>"

text \<open>\<open>reset\<close> while threads are inside slots hands out fresh permits: the state is the initial one.\<close>

lemma throttle_reset_new: "throttle_reset th = throttle_new"
  by (simp add: throttle_reset_def throttle_new_def)

section \<open>CircuitBreaker\<close>

definition UNHEALTHY_CODES :: "int set" where
  "UNHEALTHY_CODES = {429, 500, 502, 503, 504}"

definition counts_as_unhealthy :: "exn option \<Rightarrow> response option \<Rightarrow> bool" where
  "counts_as_unhealthy exc resp =
     (case resp of
        Some r \<Rightarrow> rs_status r \<in> UNHEALTHY_CODES
      | None \<Rightarrow>
          (case exc of None \<Rightarrow> False
           | Some e \<Rightarrow>
               if isinst e HttpStatusError then (case exn_code e of Some c \<Rightarrow> c \<in> UNHEALTHY_CODES | None \<Rightarrow> False)
               else if isinst e ResponseTooLargeError then False
               else if isinst e ProxyUnavailableError then False
               else if isinst e UserUnavailableError then False
               else isinst e RequestError))"

type_synonym circuit = "(string, int) pydict"

definition record_success :: "string \<Rightarrow> circuit \<Rightarrow> circuit" where
  "record_success domain c = (if domain \<in> set (dkeys c) then ddel c domain else c)"

text \<open>The breaker's answer; \<open>True\<close>: tripped, and the caller's thread penalises the domain by the cooldown.\<close>

definition record_failure :: "setting \<Rightarrow> string \<Rightarrow> circuit \<Rightarrow> bool \<times> circuit" where
  "record_failure cfg domain c =
     (let threshold = CIRCUIT_FAILURE_THRESHOLD cfg in
      if threshold \<le> 0 then (False, c)
      else let n = dict_get c domain 0 + 1
           in if n \<ge> threshold then (True, ddel (dset c domain n) domain) else (False, dset c domain n))"

definition circuit_failure :: "setting \<Rightarrow> (string \<Rightarrow> real \<Rightarrow> 'w \<Rightarrow> real option \<times> 'w) \<Rightarrow> time \<Rightarrow> string \<Rightarrow> circuit \<Rightarrow> throttle \<Rightarrow> 'w
    \<Rightarrow> bool \<times> circuit \<times> throttle \<times> 'w" where
  "circuit_failure cfg gt now domain c th w =
     (case record_failure cfg domain c of (tripped, c1) \<Rightarrow>
        if tripped then (case penalize cfg gt now domain (CIRCUIT_COOLDOWN cfg) th w of (th1, w1) \<Rightarrow> (True, c1, th1, w1))
        else (False, c1, th, w))"

definition failure_count :: "string \<Rightarrow> circuit \<Rightarrow> int" where
  "failure_count domain c = dict_get c domain 0"

definition circuit_reset :: "circuit \<Rightarrow> circuit" where
  "circuit_reset c = []"

section \<open>Properties\<close>

text \<open>What happens to one domain: a ticket taken at a time with a draw, or a penalty.\<close>

datatype devent = Ticket time real | Penalty time real

text \<open>The start times of the tickets and of the penalties' ends, in order, with the throttle local to the process.\<close>

fun run_domain :: "setting \<Rightarrow> string \<Rightarrow> devent list \<Rightarrow> throttle \<Rightarrow> (time \<times> real) list \<times> throttle" where
  "run_domain cfg d [] th = ([], th)"
| "run_domain cfg d (Ticket now u # es) th =
     (case take_ticket cfg (\<lambda>_ _ w. (None, w)) u now d th () of (wait, th1, _) \<Rightarrow>
        (case run_domain cfg d es th1 of (xs, th2) \<Rightarrow> ((now + wait, max (ticket_delay cfg u d th) 0) # xs, th2)))"
| "run_domain cfg d (Penalty now s # es) th =
     (case penalize cfg (\<lambda>_ _ w. (None, w)) now d s th () of (th1, _) \<Rightarrow> run_domain cfg d es th1)"

lemma local_ticket_next:
  assumes "local_ticket now d delay th = (wait, th1)"
  shows "0 \<le> wait" "dict_get (th_next_at th) d 0 \<le> now + wait"
    "0 < delay \<or> 0 < wait \<Longrightarrow> dict_get (th_next_at th1) d 0 = now + wait + max delay 0"
    "th_delay th1 = th_delay th" "dict_get (th_next_at th) d 0 \<le> dict_get (th_next_at th1) d 0"
  using assms by (auto simp: local_ticket_def Let_def split: if_splits)

lemma take_ticket_local:
  assumes "take_ticket cfg (\<lambda>_ _ w. (None, w)) u now d th () = (wait, th1, w1)"
  shows "local_ticket now d (ticket_delay cfg u d th) th = (wait, th1)"
  using assms by (auto simp: take_ticket_def Let_def split: prod.splits if_splits)

lemma run_domain_after: "(x, dl) \<in> set (fst (run_domain cfg d es th)) \<Longrightarrow> dict_get (th_next_at th) d 0 \<le> x"
proof (induction cfg d es th rule: run_domain.induct)
  case (2 cfg d now u es th)
  obtain wait th1 w1 where t: "take_ticket cfg (\<lambda>_ _ w. (None, w)) u now d th () = (wait, th1, w1)" by (metis prod_cases3)
  note l = local_ticket_next [OF take_ticket_local [OF t]]
  obtain xs th2 where r: "run_domain cfg d es th1 = (xs, th2)" by force
  show ?case using 2(2) l(2,5) 2(1) [OF t [symmetric] refl] by (auto simp: t r)
next
  case (3 cfg d now s es th)
  obtain th1 w1 where p: "penalize cfg (\<lambda>_ _ w. (None, w)) now d s th () = (th1, w1)" by (metis surj_pair)
  have "dict_get (th_next_at th) d 0 \<le> dict_get (th_next_at th1) d 0"
    using p by (auto simp: penalize_def Let_def split: if_splits)
  then show ?case using 3(2) 3(1) [OF p [symmetric]] by (auto simp: p)
qed simp

fun ev_time :: "devent \<Rightarrow> time" where
  "ev_time (Ticket now u) = now"
| "ev_time (Penalty now s) = now"

lemma run_domain_not_before:
  "\<forall>e\<in>set es. t0 \<le> ev_time e \<Longrightarrow> (x, dl) \<in> set (fst (run_domain cfg d es th)) \<Longrightarrow> t0 \<le> x"
proof (induction cfg d es th rule: run_domain.induct)
  case (2 cfg d now u es th)
  obtain wait th1 w1 where t: "take_ticket cfg (\<lambda>_ _ w. (None, w)) u now d th () = (wait, th1, w1)" by (metis prod_cases3)
  note l = local_ticket_next [OF take_ticket_local [OF t]]
  obtain xs th2 where r: "run_domain cfg d es th1 = (xs, th2)" by force
  show ?case using 2(2,3) l(1) 2(1) [OF t [symmetric] refl] by (auto simp: t r)
next
  case (3 cfg d now s es th)
  obtain th1 w1 where p: "penalize cfg (\<lambda>_ _ w. (None, w)) now d s th () = (th1, w1)" by (metis surj_pair)
  show ?case using 3(2,3) 3(1) [OF p [symmetric]] by (auto simp: p)
qed simp

text \<open>C29: Requests to one domain are spaced.  Whatever the interleaving of the workers' tickets and of penalties, in
  time order, each ticket's start time is at least its predecessors' start times plus their intervals
  (\<open>DOWNLOAD_DELAY\<close> or the site's \<open>Crawl-delay\<close>, with jitter), and no ticket after a penalty of \<open>s\<close> seconds starts
  before the penalty is over.\<close>

theorem throttle_spaces_requests:
  assumes "sorted (map ev_time es)"
  shows "sorted_wrt (\<lambda>x y. fst x + snd x \<le> fst y) (fst (run_domain cfg d es th))
    \<and> (\<forall>x\<in>set (fst (run_domain cfg d (Penalty now s # es) th)). 0 < s \<longrightarrow> now + s \<le> fst x)"
proof
  show "sorted_wrt (\<lambda>x y. fst x + snd x \<le> fst y) (fst (run_domain cfg d es th))"
    using assms
  proof (induction cfg d es th rule: run_domain.induct)
    case (2 cfg d now u es th)
    obtain wait th1 w1 where t: "take_ticket cfg (\<lambda>_ _ w. (None, w)) u now d th () = (wait, th1, w1)" by (metis prod_cases3)
    let ?dl = "ticket_delay cfg u d th"
    note l = local_ticket_next [OF take_ticket_local [OF t]]
    obtain xs th2 where r: "run_domain cfg d es th1 = (xs, th2)" by force
    have "now + wait + max ?dl 0 \<le> y" if y: "(y, dy) \<in> set xs" for y dy
    proof (cases "0 < ?dl \<or> 0 < wait")
      case True
      then show ?thesis using l(3) run_domain_after [of y dy cfg d es th1] y r by simp
    next
      case False
      then have "now + wait + max ?dl 0 = now" using l(1) by simp
      then show ?thesis using run_domain_not_before [of es now y dy cfg d th1] 2(2) y r by auto
    qed
    then show ?case using 2(1) [OF t [symmetric] refl] 2(2) r by (auto simp: t)
  next
    case (3 cfg d now s es th)
    obtain th1 w1 where p: "penalize cfg (\<lambda>_ _ w. (None, w)) now d s th () = (th1, w1)" by (metis surj_pair)
    show ?case using 3(1) [OF p [symmetric]] 3(2) by (simp add: p)
  qed simp
  show "\<forall>x\<in>set (fst (run_domain cfg d (Penalty now s # es) th)). 0 < s \<longrightarrow> now + s \<le> fst x"
  proof (intro ballI impI)
    fix x
    assume x: "x \<in> set (fst (run_domain cfg d (Penalty now s # es) th))" and s: "0 < s"
    obtain th1 w1 where p: "penalize cfg (\<lambda>_ _ w. (None, w)) now d s th () = (th1, w1)" by (metis surj_pair)
    have "now + s \<le> dict_get (th_next_at th1) d 0" using p s by (auto simp: penalize_def Let_def)
    then show "now + s \<le> fst x" using run_domain_after [of "fst x" "snd x" cfg d es th1] x p by simp
  qed
qed

theorem throttle_spaces_requests_witness:
  "sorted_wrt (\<lambda>x y. fst x + snd x \<le> fst y)
     (fst (run_domain (default_setting\<lparr>DOWNLOAD_DELAY := 2\<rparr>) ''a'' [Ticket 10 1, Penalty 11 30, Ticket 11 (1/2), Ticket 12 1] throttle_new))"
  using throttle_spaces_requests [of "[Ticket 10 1, Penalty 11 30, Ticket 11 (1/2), Ticket 12 1]"] by simp

text \<open>
  Penalties add up: \<open>n\<close> workers that meet a 429 at the same moment push the domain back by \<open>n\<close> times the
  penalty, beyond the cap that \<open>_check_status\<close> puts on one of them.
\<close>

fun penalties :: "nat \<Rightarrow> setting \<Rightarrow> time \<Rightarrow> string \<Rightarrow> real \<Rightarrow> throttle \<Rightarrow> throttle" where
  "penalties 0 cfg now d s th = th"
| "penalties (Suc n) cfg now d s th = penalties n cfg now d s (fst (penalize cfg (\<lambda>_ _ w. (None, w)) now d s th ()))"

lemma penalties_accumulate:
  assumes "0 < s" "dict_get (th_next_at th) d 0 \<le> now"
  shows "dict_get (th_next_at (penalties (Suc n) cfg now d s th)) d 0 = now + of_nat (Suc n) * s"
proof -
  have "dict_get (th_next_at (penalties n cfg now d s th)) d 0 = dict_get (th_next_at th) d 0 + of_nat n * s"
    if "now \<le> dict_get (th_next_at th) d 0" for th n
    using that
  proof (induction n arbitrary: th)
    case (Suc n)
    let ?th = "fst (penalize cfg (\<lambda>_ _ w. (None, w)) now d s th ())"
    have "dict_get (th_next_at ?th) d 0 = dict_get (th_next_at th) d 0 + s"
      using assms(1) Suc.prems by (simp add: penalize_def Let_def)
    then show ?case using Suc.IH [of ?th] Suc.prems assms(1) by (simp add: algebra_simps)
  qed simp
  moreover have "dict_get (th_next_at (fst (penalize cfg (\<lambda>_ _ w. (None, w)) now d s th ()))) d 0 = now + s"
    using assms by (simp add: penalize_def Let_def)
  ultimately show ?thesis using assms(1) by (simp add: algebra_simps)
qed



section \<open>Concurrency slots\<close>

text \<open>Threads entering and leaving the slots of one domain; a blocked entry changes nothing.\<close>

datatype sevent = SEnter | SExit

fun run_slots :: "setting \<Rightarrow> string \<Rightarrow> sevent list \<Rightarrow> nat \<Rightarrow> throttle \<Rightarrow> nat \<times> throttle" where
  "run_slots cfg d [] n th = (n, th)"
| "run_slots cfg d (SEnter # es) n th =
     (case slot_enter cfg d th of None \<Rightarrow> run_slots cfg d es n th | Some th1 \<Rightarrow> run_slots cfg d es (Suc n) th1)"
| "run_slots cfg d (SExit # es) n th =
     (case n of 0 \<Rightarrow> run_slots cfg d es 0 th | Suc m \<Rightarrow> run_slots cfg d es m (slot_exit cfg d th))"

lemma run_slots_bound:
  "0 < CONCURRENT_REQUESTS_PER_DOMAIN cfg \<Longrightarrow>
   int n + dict_get (th_sems th) d (CONCURRENT_REQUESTS_PER_DOMAIN cfg) = CONCURRENT_REQUESTS_PER_DOMAIN cfg \<Longrightarrow>
   0 \<le> dict_get (th_sems th) d (CONCURRENT_REQUESTS_PER_DOMAIN cfg) \<Longrightarrow>
   int (fst (run_slots cfg d es n th)) \<le> CONCURRENT_REQUESTS_PER_DOMAIN cfg"
proof (induction cfg d es n th rule: run_slots.induct)
  case (2 cfg d es n th)
  show ?case
  proof (cases "slot_enter cfg d th")
    case None
    then show ?thesis using 2 by simp
  next
    case (Some th1)
    then have "dict_get (th_sems th1) d (CONCURRENT_REQUESTS_PER_DOMAIN cfg) = dict_get (th_sems th) d (CONCURRENT_REQUESTS_PER_DOMAIN cfg) - 1"
      "0 < dict_get (th_sems th) d (CONCURRENT_REQUESTS_PER_DOMAIN cfg)"
      using 2(3) by (auto simp: slot_enter_def Let_def split: if_splits)
    then show ?thesis using 2(2) [OF Some] 2(3-) Some by simp
  qed
next
  case (3 cfg d es n th)
  show ?case
  proof (cases n)
    case (Suc m)
    have "dict_get (th_sems (slot_exit cfg d th)) d (CONCURRENT_REQUESTS_PER_DOMAIN cfg)
        = dict_get (th_sems th) d (CONCURRENT_REQUESTS_PER_DOMAIN cfg) + 1"
      using 3(3) by (simp add: slot_exit_def Let_def)
    then show ?thesis using 3(2) [OF Suc] 3(3-) Suc by simp
  qed (use 3 in simp)
qed simp

text \<open>The per-domain concurrency limit holds: however threads enter and leave, no more than
  \<open>CONCURRENT_REQUESTS_PER_DOMAIN\<close> of them are inside a domain's slot at once.\<close>

theorem slots_never_exceed_limit:
  assumes "0 < CONCURRENT_REQUESTS_PER_DOMAIN cfg"
  shows "int (fst (run_slots cfg d es 0 throttle_new)) \<le> CONCURRENT_REQUESTS_PER_DOMAIN cfg"
  by (rule run_slots_bound) (use assms in \<open>simp_all add: throttle_new_def\<close>)

theorem slots_never_exceed_limit_witness:
  "int (fst (run_slots (default_setting\<lparr>CONCURRENT_REQUESTS_PER_DOMAIN := 2\<rparr>) ''a'' [SEnter, SEnter, SEnter] 0 throttle_new)) \<le> 2"
  using slots_never_exceed_limit [of "default_setting\<lparr>CONCURRENT_REQUESTS_PER_DOMAIN := 2\<rparr>" "''a''" "[SEnter, SEnter, SEnter]"] by simp

section \<open>The breaker\<close>

fun fail_n :: "nat \<Rightarrow> setting \<Rightarrow> string \<Rightarrow> circuit \<Rightarrow> bool list \<times> circuit" where
  "fail_n 0 cfg d c = ([], c)"
| "fail_n (Suc n) cfg d c = (case fail_n n cfg d c of (bs, c1) \<Rightarrow> (case record_failure cfg d c1 of (b, c2) \<Rightarrow> (bs @ [b], c2)))"

lemma dict_get_ddel [simp]: "dict_get (ddel d k) k x = x"
  by simp

text \<open>The breaker trips exactly at the threshold.  After a success on a domain, of the consecutive
  failures that follow exactly each \<open>CIRCUIT_FAILURE_THRESHOLD\<close>-th trips it; in between the counter holds the
  number of failures since, and other domains are not affected.\<close>

theorem circuit_trips_at_threshold:
  assumes "0 < CIRCUIT_FAILURE_THRESHOLD cfg"
  shows "fst (fail_n n cfg d (record_success d c)) = map (\<lambda>i. int (Suc i) mod CIRCUIT_FAILURE_THRESHOLD cfg = 0) [0..<n]
    \<and> dict_get (snd (fail_n n cfg d (record_success d c))) d 0 = int n mod CIRCUIT_FAILURE_THRESHOLD cfg
    \<and> (d' \<noteq> d \<longrightarrow> dget (snd (fail_n n cfg d (record_success d c))) d' = dget c d')"
proof (induction n)
  case 0
  then show ?case using dget_None_iff [of c d] by (auto simp: record_success_def)
next
  case (Suc n)
  let ?t = "CIRCUIT_FAILURE_THRESHOLD cfg"
  obtain bs c1 where f: "fail_n n cfg d (record_success d c) = (bs, c1)" by force
  have k: "dict_get c1 d 0 = int n mod ?t" using Suc f by simp
  have b: "0 \<le> int n mod ?t" "int n mod ?t < ?t" using assms by simp_all
  have m: "int (Suc n) mod ?t = (if int n mod ?t + 1 = ?t then 0 else int n mod ?t + 1)"
  proof -
    have "int (Suc n) mod ?t = (int n mod ?t + 1) mod ?t" by (metis add.commute mod_add_left_eq of_nat_Suc)
    then show ?thesis using b by (auto simp: mod_pos_pos_trivial)
  qed
  have "record_failure cfg d c1 = (int (Suc n) mod ?t = 0,
      if int (Suc n) mod ?t = 0 then ddel (dset c1 d (int n mod ?t + 1)) d else dset c1 d (int n mod ?t + 1))"
    using assms b m by (auto simp: record_failure_def Let_def k)
  then show ?case using Suc f m by (auto simp del: of_nat_Suc)
qed

theorem circuit_trips_at_threshold_witness:
  "fst (fail_n 10 default_setting ''a'' (record_success ''a'' [])) ! 9"
  using circuit_trips_at_threshold [of default_setting 10 "''a''" "[]"] by (simp add: default_setting_def)

end
