(* ===== verification/Worker.thy ===== *)
theory Worker
  imports Throttle Item_Buffer
begin

text \<open>
  \<^verbatim>\<open>netspy/core/parser_control.py\<close> with the middleware chain of \<^verbatim>\<open>netspy/network/middleware.py\<close>: one worker takes a
  request through middleware, robots, download, status check, validation and callback, and retries, fails or
  drops it.

  User code (spider hooks, middlewares), the downloader and the other components act on a world \<open>'w\<close> and are
  passed as a record.  \<open>ws_requeued\<close> is history: the requests handed back for another attempt, newest first.
\<close>

section \<open>MiddlewareManager\<close>

datatype mw_out = MNone | MReq request | MResp response

text \<open>A middleware: the two handlers, either may be absent.\<close>

record 'w middleware =
  mw_request :: "(request \<Rightarrow> 'w \<Rightarrow> mw_out res \<times> 'w) option"
  mw_response :: "(request \<Rightarrow> response \<Rightarrow> 'w \<Rightarrow> mw_out res \<times> 'w) option"

text \<open>The scheduler puts the middleware of the user pool before the configured ones.\<close>

definition prepend_mw :: "'w middleware \<Rightarrow> 'w middleware list \<Rightarrow> 'w middleware list" where
  "prepend_mw m ms = m # ms"

fun chain_request :: "'w middleware list \<Rightarrow> request \<Rightarrow> 'w \<Rightarrow> (request + response) res \<times> 'w" where
  "chain_request [] r w = (Inr (Inl r), w)"
| "chain_request (m # ms) r w =
     (case mw_request m of
        None \<Rightarrow> chain_request ms r w
      | Some h \<Rightarrow>
          (case h r w of
             (Inl e, w1) \<Rightarrow> (Inl e, w1)
           | (Inr MNone, w1) \<Rightarrow> chain_request ms r w1
           | (Inr (MResp x), w1) \<Rightarrow> (Inr (Inr x), w1)
           | (Inr (MReq r1), w1) \<Rightarrow> chain_request ms r1 w1))"

text \<open>
  The response handlers run in reverse order; the code passes on whatever a handler returns, so returning
  \<open>None\<close> hands \<open>None\<close> to the next one (a \<open>TypeError\<close> of the model, as the next use of it raises).
\<close>

fun chain_response :: "'w middleware list \<Rightarrow> request \<Rightarrow> response \<Rightarrow> 'w \<Rightarrow> (request + response) res \<times> 'w" where
  "chain_response [] r x w = (Inr (Inr x), w)"
| "chain_response (m # ms) r x w =
     (case mw_response m of
        None \<Rightarrow> chain_response ms r x w
      | Some h \<Rightarrow>
          (case h r x w of
             (Inl e, w1) \<Rightarrow> (Inl e, w1)
           | (Inr (MReq r1), w1) \<Rightarrow> (Inr (Inl r1), w1)
           | (Inr (MResp x1), w1) \<Rightarrow> chain_response ms r x1 w1
           | (Inr MNone, w1) \<Rightarrow> (Inl (raise_of PyTypeError), w1)))"

section \<open>The worker's collaborators\<close>

datatype yielded = YReq request | YCall nat | YItem yobj

text \<open>A callback yields objects and then returns or raises.\<close>

type_synonym yields = "yielded list \<times> exn option"

record 'w wenv =
  x_mws :: "'w middleware list"
  x_midware :: "request \<Rightarrow> 'w \<Rightarrow> request option res \<times> 'w"
  x_robots :: "string \<Rightarrow> 'w \<Rightarrow> bool \<times> 'w"
  x_download :: "request \<Rightarrow> 'w \<Rightarrow> response res \<times> 'w"
  x_validate :: "request \<Rightarrow> response \<Rightarrow> 'w \<Rightarrow> bool option res \<times> 'w"
  x_has_method :: "string \<Rightarrow> bool"
  x_callback :: "callback_ref \<Rightarrow> request \<Rightarrow> response option \<Rightarrow> 'w \<Rightarrow> yields \<times> 'w"
  x_failed :: "request \<Rightarrow> response option \<Rightarrow> 'w \<Rightarrow> yields \<times> 'w"
  x_exception :: "request \<Rightarrow> response option \<Rightarrow> exn \<Rightarrow> 'w \<Rightarrow> unit res \<times> 'w"
  x_call :: "nat \<Rightarrow> 'w \<Rightarrow> unit res \<times> 'w"
  x_rput :: "request \<Rightarrow> 'w \<Rightarrow> unit res \<times> 'w"
  x_iput :: "yobj \<Rightarrow> request \<Rightarrow> 'w \<Rightarrow> unit res \<times> 'w"
  x_done :: "request \<Rightarrow> 'w \<Rightarrow> 'w"
  x_sink :: "(request \<Rightarrow> 'w \<Rightarrow> unit res \<times> 'w) option"
  x_penalize :: "string \<Rightarrow> real \<Rightarrow> 'w \<Rightarrow> 'w"
  x_failure :: "string \<Rightarrow> 'w \<Rightarrow> 'w"
  x_success :: "string \<Rightarrow> 'w \<Rightarrow> 'w"
  x_sleep :: "real \<Rightarrow> 'w \<Rightarrow> 'w"
  x_readers :: readers
  x_now :: "'w \<Rightarrow> time"
  x_uniform :: "'w \<Rightarrow> real"

record 'w wst =
  ws_stats :: stats
  ws_deferred :: bool
  ws_requeued :: "request list"
  ws_world :: 'w

definition on_world :: "('w \<Rightarrow> 'a \<times> 'w) \<Rightarrow> 'w wst \<Rightarrow> 'a \<times> 'w wst" where
  "on_world f st = (case f (ws_world st) of (a, w1) \<Rightarrow> (a, st\<lparr>ws_world := w1\<rparr>))"

definition count_stat :: "string \<Rightarrow> 'w wst \<Rightarrow> 'w wst" where
  "count_stat k st = st\<lparr>ws_stats := stats_incr k 1 (ws_stats st)\<rparr>"

section \<open>Dispatching what a callback yields\<close>

fun dispatch_list :: "'w wenv \<Rightarrow> request \<Rightarrow> yielded list \<Rightarrow> 'w wst \<Rightarrow> unit res \<times> 'w wst" where
  "dispatch_list X owner [] st = (Inr (), st)"
| "dispatch_list X owner (y # ys) st =
     (case y of
        YReq r \<Rightarrow> (case on_world (x_rput X r) st of (Inl e, st1) \<Rightarrow> (Inl e, st1) | (Inr _, st1) \<Rightarrow> dispatch_list X owner ys st1)
      | YCall c \<Rightarrow> (case on_world (x_call X c) st of (Inl e, st1) \<Rightarrow> (Inl e, st1) | (Inr _, st1) \<Rightarrow> dispatch_list X owner ys st1)
      | YItem ob \<Rightarrow> (case on_world (x_iput X ob owner) st of (Inl e, st1) \<Rightarrow> (Inl e, st1)
                       | (Inr _, st1) \<Rightarrow> dispatch_list X owner ys (st1\<lparr>ws_deferred := True\<rparr>)))"

definition dispatch :: "'w wenv \<Rightarrow> request \<Rightarrow> yields \<Rightarrow> 'w wst \<Rightarrow> unit res \<times> 'w wst" where
  "dispatch X owner ys st =
     (case dispatch_list X owner (fst ys) st of
        (Inl e, st1) \<Rightarrow> (Inl e, st1)
      | (Inr _, st1) \<Rightarrow> (case snd ys of None \<Rightarrow> (Inr (), st1) | Some e \<Rightarrow> (Inl e, st1)))"

section \<open>Failing, dropping, retrying\<close>

definition fail_request :: "'w wenv \<Rightarrow> request \<Rightarrow> response option \<Rightarrow> exn option \<Rightarrow> 'w wst \<Rightarrow> 'w wst" where
  "fail_request X r resp exc st =
     (let st1 = count_stat ''request_failed'' st;
          st2 = (if counts_as_unhealthy exc resp then st1\<lparr>ws_world := x_failure X (url r) (ws_world st1)\<rparr> else st1);
          (ys, st3) = on_world (x_failed X r resp) st2;
          st4 = snd (dispatch X r ys st3)
      in case x_sink X of None \<Rightarrow> st4 | Some sink \<Rightarrow> snd (on_world (sink r) st4))"

definition drop_request :: "'w wst \<Rightarrow> 'w wst" where
  "drop_request st = count_stat ''dropped'' st"

definition retry_or_fail :: "setting \<Rightarrow> 'w wenv \<Rightarrow> request \<Rightarrow> response option \<Rightarrow> exn \<Rightarrow> 'w wst \<Rightarrow> unit res \<times> 'w wst" where
  "retry_or_fail cfg X r resp exc st =
     (if isinst exc ResponseTooLargeError \<or> retry_times r \<ge> SPIDER_MAX_RETRY_TIMES cfg
      then (Inr (), fail_request X r resp (Some exc) st)
      else
        let r1 = r\<lparr>retry_times := retry_times r + 1\<rparr>;
            st1 = count_stat ''retry'' st;
            st2 = snd (on_world (x_exception X r1 resp exc) st1);
            w = ws_world st2;
            delay = retry_delay cfg (x_readers X) (x_uniform X w) r1 resp (x_now X w);
            st3 = (if 0 < delay then st2\<lparr>ws_world := x_sleep X delay w\<rparr> else st2);
            r2 = r1\<lparr>filter_repeat := False\<rparr>
        in on_world (x_rput X r2) (st3\<lparr>ws_requeued := r2 # ws_requeued st3\<rparr>))"

definition retry_replacement :: "setting \<Rightarrow> 'w wenv \<Rightarrow> request \<Rightarrow> request \<Rightarrow> response \<Rightarrow> 'w wst \<Rightarrow> unit res \<times> 'w wst" where
  "retry_replacement cfg X r retry resp st =
     (if retry_times r \<ge> SPIDER_MAX_RETRY_TIMES cfg then (Inr (), fail_request X r (Some resp) None st)
      else
        let r2 = retry\<lparr>retry_times := retry_times r + 1, filter_repeat := False\<rparr>;
            st1 = count_stat ''retry'' st
        in on_world (x_rput X r2) (st1\<lparr>ws_requeued := r2 # ws_requeued st1\<rparr>))"

text \<open>\<open>_check_status\<close>: \<open>Inr True\<close> lets the response through, \<open>Inr False\<close> has dealt with it.\<close>

definition check_status :: "setting \<Rightarrow> 'w wenv \<Rightarrow> request \<Rightarrow> response \<Rightarrow> 'w wst \<Rightarrow> bool res \<times> 'w wst" where
  "check_status cfg X r resp st =
     (case classify cfg resp of
        VerdictOk \<Rightarrow> (Inr True, st)
      | VerdictRetry \<Rightarrow>
          let exc = http_status_error (rs_status resp);
              cooldown = retry_after_seconds cfg (x_readers X) (Some resp) (x_now X (ws_world st));
              st1 = (case cooldown of Some c \<Rightarrow> if c \<noteq> 0
                        then st\<lparr>ws_world := x_penalize X (url r) (min c (RETRY_AFTER_MAX cfg)) (ws_world st)\<rparr> else st
                     | None \<Rightarrow> st)
          in (case retry_after_too_long cfg (x_readers X) (Some resp) (x_now X (ws_world st1)) of
                Some _ \<Rightarrow> (Inr False, fail_request X r (Some resp) (Some exc) st1)
              | None \<Rightarrow> (case retry_or_fail cfg X r (Some resp) exc st1 of (x, st2) \<Rightarrow> (map_sum id (\<lambda>_. False) x, st2)))
      | VerdictFail \<Rightarrow> (Inr False, fail_request X r (Some resp) (Some (http_status_error (rs_status resp))) st))"

definition validate_response :: "setting \<Rightarrow> 'w wenv \<Rightarrow> request \<Rightarrow> response \<Rightarrow> 'w wst \<Rightarrow> bool res \<times> 'w wst" where
  "validate_response cfg X r resp st =
     (case on_world (x_validate X r resp) st of
        (Inl e, st1) \<Rightarrow>
          if isinst e ValidationError
          then (case retry_or_fail cfg X r (Some resp) e st1 of (x, st2) \<Rightarrow> (map_sum id (\<lambda>_. False) x, st2))
          else if isinst e NotRetryError then (Inr False, drop_request st1)
          else (Inl e, st1)
      | (Inr ok, st1) \<Rightarrow> if ok = Some False then (Inr False, drop_request st1) else (Inr True, st1))"

definition resolve_callback :: "'w wenv \<Rightarrow> request \<Rightarrow> callback_ref res" where
  "resolve_callback X r =
     (case callback r of
        CbNone \<Rightarrow> Inr CbNone
      | CbFun i n \<Rightarrow> Inr (CbFun i n)
      | CbName s \<Rightarrow> if x_has_method X s then Inr (CbName s) else Inl (raise_of SpiderError))"

section \<open>\<open>_process\<close> and the loop body of \<open>run\<close>\<close>

definition run_callback :: "setting \<Rightarrow> 'w wenv \<Rightarrow> callback_ref \<Rightarrow> request \<Rightarrow> response option \<Rightarrow> 'w wst \<Rightarrow> unit res \<times> 'w wst" where
  "run_callback cfg X cb r resp st =
     (case on_world (x_callback X cb r resp) st of (ys, st1) \<Rightarrow>
        (case dispatch X r ys st1 of
           (Inl e, st2) \<Rightarrow>
             if isinst e NotRetryError then (Inr (), drop_request st2)
             else retry_or_fail cfg X r resp e (count_stat ''parse_error'' st2)
         | (Inr _, st2) \<Rightarrow>
             let st3 = count_stat ''request_ok'' st2
             in (Inr (), st3\<lparr>ws_world := x_success X (url r) (ws_world st3)\<rparr>)))"

definition handle_response :: "setting \<Rightarrow> 'w wenv \<Rightarrow> request \<Rightarrow> response option \<Rightarrow> 'w wst \<Rightarrow> unit res \<times> 'w wst" where
  "handle_response cfg X r resp st =
     (let finish = (\<lambda>resp st. case resolve_callback X r of Inl e \<Rightarrow> (Inl e, st) | Inr cb \<Rightarrow> run_callback cfg X cb r resp st)
      in case resp of
        None \<Rightarrow> finish None st
      | Some x \<Rightarrow>
          (case on_world (chain_response (rev (x_mws X)) r x) st of
             (Inl e, st1) \<Rightarrow> (Inl e, st1)
           | (Inr (Inl r1), st1) \<Rightarrow> retry_replacement cfg X r r1 x st1
           | (Inr (Inr x1), st1) \<Rightarrow>
               (case check_status cfg X r x1 st1 of
                  (Inl e, st2) \<Rightarrow> (Inl e, st2)
                | (Inr False, st2) \<Rightarrow> (Inr (), st2)
                | (Inr True, st2) \<Rightarrow>
                    (case validate_response cfg X r x1 st2 of
                       (Inl e, st3) \<Rightarrow> (Inl e, st3)
                     | (Inr False, st3) \<Rightarrow> (Inr (), st3)
                     | (Inr True, st3) \<Rightarrow> finish (Some x1) st3))))"

definition fetch :: "setting \<Rightarrow> 'w wenv \<Rightarrow> request \<Rightarrow> response option \<Rightarrow> 'w wst \<Rightarrow> unit res \<times> 'w wst" where
  "fetch cfg X r resp st =
     (if resp = None \<and> auto_request r
      then (case on_world (x_robots X (url r)) st of
              (False, st1) \<Rightarrow> (Inr (), drop_request (count_stat ''robots_dropped'' st1))
            | (True, st1) \<Rightarrow>
                (case on_world (x_download X r) st1 of
                   (Inl e, st2) \<Rightarrow>
                     if isinst e ContentTypeRejectedError then (Inr (), drop_request (count_stat ''content_type_dropped'' st2))
                     else if isinst e RequestError then retry_or_fail cfg X r None e st2
                     else (Inl e, st2)
                 | (Inr x, st2) \<Rightarrow> handle_response cfg X r (Some x) st2))
      else handle_response cfg X r resp st)"

definition process :: "setting \<Rightarrow> 'w wenv \<Rightarrow> request \<Rightarrow> 'w wst \<Rightarrow> unit res \<times> 'w wst" where
  "process cfg X r st =
     (case on_world (chain_request (x_mws X) r) st of
        (Inl e, st1) \<Rightarrow> retry_or_fail cfg X r None e st1
      | (Inr out, st1) \<Rightarrow>
          let r1 = (case out of Inl r' \<Rightarrow> r' | Inr _ \<Rightarrow> r); resp = (case out of Inl _ \<Rightarrow> None | Inr x \<Rightarrow> Some x)
          in (case on_world (x_midware X r1) st1 of
                (Inl e, st2) \<Rightarrow> retry_or_fail cfg X r1 None e st2
              | (Inr replaced, st2) \<Rightarrow> fetch cfg X (case replaced of None \<Rightarrow> r1 | Some r2 \<Rightarrow> r2) resp st2))"

text \<open>One request through the worker's loop: what escapes is logged, and the request is acknowledged unless an item of
  it is waiting in the item buffer.\<close>

definition run_one :: "setting \<Rightarrow> 'w wenv \<Rightarrow> request \<Rightarrow> 'w wst \<Rightarrow> 'w wst" where
  "run_one cfg X r st =
     (case process cfg X r (st\<lparr>ws_deferred := False\<rparr>) of (_, st1) \<Rightarrow>
        if ws_deferred st1 then st1 else st1\<lparr>ws_world := x_done X r (ws_world st1)\<rparr>)"

section \<open>Every processed request has one fate\<close>

definition fates :: "'w wst \<Rightarrow> int" where
  "fates st = stats_get (ws_stats st) ''request_ok'' + stats_get (ws_stats st) ''retry''
     + stats_get (ws_stats st) ''request_failed'' + stats_get (ws_stats st) ''dropped''"

text \<open>What an operation did to the counters of fates and to the history of retries.\<close>

definition same_ledger :: "'w wst \<Rightarrow> 'w wst \<Rightarrow> bool" where
  "same_ledger st st' \<longleftrightarrow> fates st' = fates st \<and> stats_get (ws_stats st') ''retry'' = stats_get (ws_stats st) ''retry''
     \<and> ws_requeued st' = ws_requeued st"

text \<open>One more fate; if the request was handed back, it carries one retry more and is within the budget.\<close>

definition one_fate :: "setting \<Rightarrow> request \<Rightarrow> 'w wst \<Rightarrow> 'w wst \<Rightarrow> bool" where
  "one_fate cfg r st st' \<longleftrightarrow> fates st' = fates st + 1
     \<and> (ws_requeued st' = ws_requeued st \<and> stats_get (ws_stats st') ''retry'' = stats_get (ws_stats st) ''retry''
     \<or> (\<exists>r'. ws_requeued st' = r' # ws_requeued st \<and> stats_get (ws_stats st') ''retry'' = stats_get (ws_stats st) ''retry'' + 1
          \<and> retry_times r' = retry_times r + 1
          \<and> retry_times r' \<le> SPIDER_MAX_RETRY_TIMES cfg \<and> \<not> filter_repeat r'))"

lemma same_ledger_refl [simp]: "same_ledger st st"
  by (simp add: same_ledger_def)

lemma same_ledger_trans: "same_ledger a b \<Longrightarrow> same_ledger b c \<Longrightarrow> same_ledger a c"
  by (simp add: same_ledger_def)

lemma one_fate_after: "same_ledger a b \<Longrightarrow> one_fate cfg r b c \<Longrightarrow> one_fate cfg r a c"
  by (simp add: same_ledger_def one_fate_def)

lemma one_fate_then: "one_fate cfg r a b \<Longrightarrow> same_ledger b c \<Longrightarrow> one_fate cfg r a c"
  by (simp add: same_ledger_def one_fate_def)

lemma same_ledger_world [simp]: "same_ledger st (st\<lparr>ws_world := w\<rparr>)" "same_ledger st (st\<lparr>ws_deferred := b\<rparr>)"
  by (simp_all add: same_ledger_def fates_def)

lemma same_ledger_stat: "k \<notin> {''request_ok'', ''retry'', ''request_failed'', ''dropped''} \<Longrightarrow> same_ledger st (count_stat k st)"
  by (auto simp: same_ledger_def fates_def count_stat_def)

lemma on_world_ledger: "on_world f st = (a, st1) \<Longrightarrow> same_ledger st st1"
  by (auto simp: on_world_def split: prod.splits)

lemma on_world_snd: "\<exists>w. snd (on_world f st) = st\<lparr>ws_world := w\<rparr>"
  by (auto simp: on_world_def split: prod.splits)

lemma dispatch_list_ledger: "dispatch_list X owner ys st = (x, st') \<Longrightarrow> same_ledger st st'"
proof (induction ys arbitrary: st)
  case (Cons y ys)
  have step: "same_ledger st st'" if "on_world f st = (a, st1)" "same_ledger st1 st2" "dispatch_list X owner ys st2 = (x, st')"
    for f :: "'a \<Rightarrow> unit res \<times> 'a" and a st1 st2
    using same_ledger_trans [OF on_world_ledger [OF that(1)] same_ledger_trans [OF that(2) Cons.IH [OF that(3)]]] .
  show ?case
    using Cons.prems
    by (auto split: yielded.splits prod.splits sum.splits intro: on_world_ledger step [OF _ same_ledger_refl]
        step [OF _ same_ledger_world(2)])
qed simp

lemma dispatch_ledger: "dispatch X owner ys st = (x, st') \<Longrightarrow> same_ledger st st'"
  by (auto simp: dispatch_def split: prod.splits sum.splits option.splits dest: dispatch_list_ledger)

lemma fail_request_fate: "one_fate cfg r0 st (fail_request X r resp exc st)"
proof -
  define st1 where "st1 = count_stat ''request_failed'' st"
  define st2 where "st2 = (if counts_as_unhealthy exc resp then st1\<lparr>ws_world := x_failure X (url r) (ws_world st1)\<rparr> else st1)"
  obtain ys st3 where f: "on_world (x_failed X r resp) st2 = (ys, st3)" by (metis surj_pair)
  obtain z st4 where d: "dispatch X r ys st3 = (z, st4)" by (metis surj_pair)
  have "one_fate cfg r0 st st1" by (simp add: st1_def one_fate_def fates_def count_stat_def)
  moreover have "same_ledger st1 st2" by (simp add: st2_def)
  moreover have "same_ledger st2 st3" by (rule on_world_ledger [OF f])
  moreover have "same_ledger st3 st4" by (rule dispatch_ledger [OF d])
  ultimately have "one_fate cfg r0 st st4" using one_fate_then same_ledger_trans by blast
  moreover have "fail_request X r resp exc st = (case x_sink X of None \<Rightarrow> st4 | Some sink \<Rightarrow> snd (on_world (sink r) st4))"
    unfolding fail_request_def Let_def st1_def [symmetric] st2_def [symmetric] by (simp add: f d split: option.split)
  moreover have "same_ledger st4 (snd (on_world g st4))" for g :: "'a \<Rightarrow> unit res \<times> 'a"
    using on_world_snd [of g st4] by auto
  ultimately show ?thesis by (cases "x_sink X") (auto intro: one_fate_then)
qed

lemma drop_request_fate: "one_fate cfg r st (drop_request st)"
  by (simp add: one_fate_def drop_request_def fates_def count_stat_def)

lemma requeue_fate:
  assumes "same_ledger st st1" "on_world f (st2\<lparr>ws_requeued := r' # ws_requeued st2\<rparr>) = (x, st')" "st2 = count_stat ''retry'' st1 \<or> same_ledger (count_stat ''retry'' st1) st2"
    and "retry_times r' = retry_times r + 1" "retry_times r < SPIDER_MAX_RETRY_TIMES cfg" "\<not> filter_repeat r'"
  shows "one_fate cfg r st st'"
  using assms on_world_ledger [OF assms(2)] by (auto simp: one_fate_def same_ledger_def fates_def count_stat_def)

lemma retry_or_fail_fate:
  assumes "retry_or_fail cfg X r resp exc st = (x, st')"
  shows "one_fate cfg r st st'"
proof (cases "isinst exc ResponseTooLargeError \<or> retry_times r \<ge> SPIDER_MAX_RETRY_TIMES cfg")
  case True
  then show ?thesis using assms fail_request_fate [of cfg r st X r resp "Some exc"] by (auto simp: retry_or_fail_def)
next
  case False
  let ?r1 = "r\<lparr>retry_times := retry_times r + 1\<rparr>"
  let ?st2 = "snd (on_world (x_exception X ?r1 resp exc) (count_stat ''retry'' st))"
  let ?d = "retry_delay cfg (x_readers X) (x_uniform X (ws_world ?st2)) ?r1 resp (x_now X (ws_world ?st2))"
  define st3 where "st3 = (if 0 < ?d then ?st2\<lparr>ws_world := x_sleep X ?d (ws_world ?st2)\<rparr> else ?st2)"
  have st3: "same_ledger ?st2 st3"
    "on_world (x_rput X (?r1\<lparr>filter_repeat := False\<rparr>)) (st3\<lparr>ws_requeued := ?r1\<lparr>filter_repeat := False\<rparr> # ws_requeued st3\<rparr>) = (x, st')"
    using assms False by (simp_all add: retry_or_fail_def Let_def st3_def)
  have "same_ledger (count_stat ''retry'' st) ?st2" using on_world_snd [of "x_exception X ?r1 resp exc" "count_stat ''retry'' st"] by auto
  then have "same_ledger (count_stat ''retry'' st) st3" using st3(1) same_ledger_trans by blast
  then show ?thesis using requeue_fate [OF same_ledger_refl st3(2)] False by simp
qed

lemma retry_replacement_fate:
  assumes "retry_replacement cfg X r r1 resp st = (x, st')"
  shows "one_fate cfg r st st'"
proof (cases "retry_times r \<ge> SPIDER_MAX_RETRY_TIMES cfg")
  case True
  then show ?thesis using assms fail_request_fate [of cfg r st X r "Some resp" None] by (auto simp: retry_replacement_def)
next
  case False
  let ?r2 = "r1\<lparr>retry_times := retry_times r + 1, filter_repeat := False\<rparr>"
  have "on_world (x_rput X ?r2) ((count_stat ''retry'' st)\<lparr>ws_requeued := ?r2 # ws_requeued (count_stat ''retry'' st)\<rparr>) = (x, st')"
    using assms False by (simp add: retry_replacement_def Let_def)
  from requeue_fate [OF same_ledger_refl this] False show ?thesis by simp
qed

lemma check_status_fate:
  assumes "check_status cfg X r resp st = (x, st')"
  shows "if x = Inr True then same_ledger st st' else one_fate cfg r st st'"
proof (cases "classify cfg resp")
  case VerdictRetry
  let ?e = "http_status_error (rs_status resp)"
  define st1 where "st1 = (case retry_after_seconds cfg (x_readers X) (Some resp) (x_now X (ws_world st)) of
      Some c \<Rightarrow> if c \<noteq> 0 then st\<lparr>ws_world := x_penalize X (url r) (min c (RETRY_AFTER_MAX cfg)) (ws_world st)\<rparr> else st
    | None \<Rightarrow> st)"
  have l: "same_ledger st st1" by (simp add: st1_def split: option.splits)
  have st': "(case retry_after_too_long cfg (x_readers X) (Some resp) (x_now X (ws_world st1)) of
                Some _ \<Rightarrow> (Inr False, fail_request X r (Some resp) (Some ?e) st1)
              | None \<Rightarrow> (case retry_or_fail cfg X r (Some resp) ?e st1 of (x, st2) \<Rightarrow> (map_sum id (\<lambda>_. False) x, st2))) = (x, st')"
    using assms unfolding check_status_def VerdictRetry Let_def verdict.case st1_def .
  have "x \<noteq> Inr True" "one_fate cfg r st1 st'"
    using st' fail_request_fate [of cfg r st1] retry_or_fail_fate [of cfg X r "Some resp" ?e st1]
    by (auto simp: map_sum_Inr_iff split: option.splits prod.splits)
  then show ?thesis using one_fate_after [OF l] by simp
qed (use assms fail_request_fate [of cfg r st] in \<open>auto simp: check_status_def\<close>)

lemma validate_response_fate:
  assumes "validate_response cfg X r resp st = (x, st')"
  shows "if x = Inr True then same_ledger st st' else if x = Inr False then one_fate cfg r st st'
    else same_ledger st st' \<or> one_fate cfg r st st'"
proof -
  obtain v st1 where v: "on_world (x_validate X r resp) st = (v, st1)" by (metis surj_pair)
  note l = on_world_ledger [OF v]
  have d: "one_fate cfg r st (drop_request st1)" by (rule one_fate_after [OF l drop_request_fate])
  have f: "one_fate cfg r st st2" if "retry_or_fail cfg X r (Some resp) e st1 = (y, st2)" for e y st2
    by (rule one_fate_after [OF l retry_or_fail_fate [OF that]])
  show ?thesis
    using assms l d f by (auto simp: validate_response_def v map_sum_Inr_iff split: sum.splits prod.splits if_splits)
qed

lemma run_callback_fate: "run_callback cfg X cb r resp st = (x, st') \<Longrightarrow> one_fate cfg r st st'"
proof -
  assume a: "run_callback cfg X cb r resp st = (x, st')"
  obtain ys st1 where c: "on_world (x_callback X cb r resp) st = (ys, st1)" by (metis surj_pair)
  obtain z st2 where d: "dispatch X r ys st1 = (z, st2)" by (metis surj_pair)
  have l: "same_ledger st st2" using same_ledger_trans [OF on_world_ledger [OF c] dispatch_ledger [OF d]] .
  have ok: "one_fate cfg r st2 ((count_stat ''request_ok'' st2)\<lparr>ws_world := w\<rparr>)" for w
    by (simp add: one_fate_def fates_def count_stat_def)
  have p: "same_ledger st2 (count_stat ''parse_error'' st2)" by (rule same_ledger_stat) simp
  show ?thesis
    using a one_fate_after [OF l] ok drop_request_fate [of cfg r st2] one_fate_after [OF p retry_or_fail_fate]
    by (auto simp: run_callback_def c d Let_def split: sum.splits if_splits)
qed

lemma handle_response_fate:
  assumes "handle_response cfg X r resp st = (x, st')"
  shows "one_fate cfg r st st' \<or> (x \<noteq> Inr () \<and> same_ledger st st')"
proof -
  have fin: "one_fate cfg r st0 st' \<or> (x \<noteq> Inr () \<and> same_ledger st0 st')"
    if "(case resolve_callback X r of Inl e \<Rightarrow> (Inl e, st0) | Inr cb \<Rightarrow> run_callback cfg X cb r rp st0) = (x, st')" for rp st0
    using that run_callback_fate [of cfg X _ r rp st0] by (auto split: sum.splits)
  show ?thesis
  proof (cases resp)
    case None
    then show ?thesis using assms fin by (simp add: handle_response_def Let_def)
  next
    case (Some y)
    obtain o1 st1 where c: "on_world (chain_response (rev (x_mws X)) r y) st = (o1, st1)" by (metis surj_pair)
    note l1 = on_world_ledger [OF c]
    obtain o2 st2 where k: "check_status cfg X r (case o1 of Inr (Inr y1) \<Rightarrow> y1 | _ \<Rightarrow> y) st1 = (o2, st2)" by (metis surj_pair)
    note l2 = check_status_fate [OF k]
    obtain o3 st3 where v: "validate_response cfg X r (case o1 of Inr (Inr y1) \<Rightarrow> y1 | _ \<Rightarrow> y) st2 = (o3, st3)" by (metis surj_pair)
    note l3 = validate_response_fate [OF v]
    consider (err) e where "o1 = Inl e" | (repl) r1 where "o1 = Inr (Inl r1)" | (resp) y1 where "o1 = Inr (Inr y1)"
      by (metis sum.exhaust)
    then show ?thesis
    proof cases
      case err
      then show ?thesis using assms c l1 by (auto simp: handle_response_def Some Let_def)
    next
      case (repl r1)
      then have "retry_replacement cfg X r r1 y st1 = (x, st')" using assms c by (simp add: handle_response_def Some Let_def)
      from one_fate_after [OF l1 retry_replacement_fate [OF this]] show ?thesis ..
    next
      case (resp y1)
      note k' = k [unfolded resp, simplified] and v' = v [unfolded resp, simplified]
      consider "o2 \<noteq> Inr True" | "o2 = Inr True" "o3 \<noteq> Inr True" | "o2 = Inr True" "o3 = Inr True" by blast
      then show ?thesis
      proof cases
        case 1
        then have "st' = st2" using assms c k' resp by (auto simp: handle_response_def Some Let_def split: sum.splits bool.splits)
        then show ?thesis using one_fate_after [OF l1] l2 1 by simp
      next
        case 2
        then have "st' = st3 \<and> (o3 = Inr False \<or> x \<noteq> Inr ())"
          using assms c k' v' resp by (auto simp: handle_response_def Some Let_def split: sum.splits bool.splits)
        moreover have l: "same_ledger st st2" using same_ledger_trans [OF l1, of st2] l2 2 by simp
        ultimately show ?thesis using l3 2 one_fate_after [OF l] same_ledger_trans [OF l] by (metis (full_types))
      next
        case 3
        then have "(case resolve_callback X r of Inl e \<Rightarrow> (Inl e, st3) | Inr cb \<Rightarrow> run_callback cfg X cb r (Some y1) st3) = (x, st')"
          using assms c k' v' resp by (simp add: handle_response_def Some Let_def)
        moreover have "same_ledger st st3" using same_ledger_trans [OF l1 same_ledger_trans, of st2 st3] l2 l3 3 by simp
        ultimately show ?thesis using fin one_fate_after same_ledger_trans by blast
      qed
    qed
  qed
qed

lemma fetch_fate:
  assumes "fetch cfg X r resp st = (x, st')"
  shows "one_fate cfg r st st' \<or> (x \<noteq> Inr () \<and> same_ledger st st')"
proof (cases "resp = None \<and> auto_request r")
  case True
  obtain b st1 where rb: "on_world (x_robots X (url r)) st = (b, st1)" by (metis surj_pair)
  obtain d st2 where dl: "on_world (x_download X r) st1 = (d, st2)" by (metis surj_pair)
  have l1: "same_ledger st st1" by (rule on_world_ledger [OF rb])
  have l2: "same_ledger st st2" by (rule same_ledger_trans [OF l1 on_world_ledger [OF dl]])
  have s: "same_ledger s0 (count_stat ''robots_dropped'' s0)" "same_ledger s0 (count_stat ''content_type_dropped'' s0)" for s0 :: "'a wst"
    by (rule same_ledger_stat; simp)+
  have drops: "one_fate cfg r st (drop_request (count_stat ''robots_dropped'' st1))" "one_fate cfg r st (drop_request (count_stat ''content_type_dropped'' st2))"
    using one_fate_after [OF same_ledger_trans [OF l1 s(1)] drop_request_fate] one_fate_after [OF same_ledger_trans [OF l2 s(2)] drop_request_fate] .
  have hr: "one_fate cfg r st st' \<or> (x \<noteq> Inr () \<and> same_ledger st st')" if "handle_response cfg X r rp st2 = (x, st')" for rp
    using handle_response_fate [OF that] one_fate_after [OF l2] same_ledger_trans [OF l2] by blast
  show ?thesis
    using assms True drops l2 one_fate_after [OF l2 retry_or_fail_fate [of cfg X r None _ st2 x st']] hr
    by (auto simp: fetch_def rb dl split: bool.splits sum.splits if_splits)
next
  case False
  then have "handle_response cfg X r resp st = (x, st')" using assms unfolding fetch_def by (simp only: if_False)
  then show ?thesis by (rule handle_response_fate)
qed

text \<open>The request the worker goes on with after middleware and \<^verbatim>\<open>download_midware\<close>.\<close>

definition effective :: "'w wenv \<Rightarrow> request \<Rightarrow> 'w \<Rightarrow> request" where
  "effective X r w =
     (case chain_request (x_mws X) r w of
        (Inl e, w1) \<Rightarrow> r
      | (Inr out, w1) \<Rightarrow>
          let r1 = (case out of Inl r' \<Rightarrow> r' | Inr _ \<Rightarrow> r)
          in (case x_midware X r1 w1 of (Inr (Some r2), w2) \<Rightarrow> r2 | _ \<Rightarrow> r1))"

lemma process_fate_lemma:
  assumes "process cfg X r st = (x, st')"
  shows "one_fate cfg (effective X r (ws_world st)) st st' \<or> (x \<noteq> Inr () \<and> same_ledger st st')"
proof -
  obtain c w1 where c: "chain_request (x_mws X) r (ws_world st) = (c, w1)" by (metis surj_pair)
  define st1 where "st1 = st\<lparr>ws_world := w1\<rparr>"
  have l1: "same_ledger st st1" and oc: "on_world (chain_request (x_mws X) r) st = (c, st1)"
    by (simp_all add: st1_def on_world_def c)
  show ?thesis
  proof (cases c)
    case (Inl e)
    then have "retry_or_fail cfg X r None e st1 = (x, st')" using assms oc by (simp add: process_def)
    from one_fate_after [OF l1 retry_or_fail_fate [OF this]] show ?thesis by (simp add: effective_def c Inl)
  next
    case (Inr out)
    define r1 where "r1 = (case out of Inl r' \<Rightarrow> r' | Inr _ \<Rightarrow> r)"
    define rp where "rp = (case out of Inl _ \<Rightarrow> None | Inr x \<Rightarrow> Some x)"
    obtain m w2 where m: "x_midware X r1 w1 = (m, w2)" by (metis surj_pair)
    define st2 where "st2 = st\<lparr>ws_world := w2\<rparr>"
    have l2: "same_ledger st st2" by (simp add: st2_def)
    have om: "on_world (x_midware X r1) st1 = (m, st2)" by (simp add: on_world_def st1_def st2_def m)
    have p: "(case m of Inl e \<Rightarrow> retry_or_fail cfg X r1 None e st2
        | Inr replaced \<Rightarrow> fetch cfg X (case replaced of None \<Rightarrow> r1 | Some r2 \<Rightarrow> r2) rp st2) = (x, st')"
      using assms unfolding process_def oc Inr prod.case sum.case Let_def r1_def [symmetric] rp_def [symmetric] om .
    have e: "effective X r (ws_world st) = (case m of Inr (Some r2) \<Rightarrow> r2 | _ \<Rightarrow> r1)"
      unfolding effective_def c Inr prod.case sum.case Let_def r1_def [symmetric] m ..
    show ?thesis
    proof (cases m)
      case (Inl ex)
      then show ?thesis using p e one_fate_after [OF l2 retry_or_fail_fate] by simp
    next
      case (Inr replaced)
      then have "fetch cfg X (effective X r (ws_world st)) rp st2 = (x, st')" using p e by (simp split: option.splits)
      from fetch_fate [OF this] show ?thesis using one_fate_after [OF l2] same_ledger_trans [OF l2] by blast
    qed
  qed
qed

section \<open>The retry budget of a page\<close>

text \<open>
  The life of one page: it is processed, and as long as that hands it back it is processed again.  \<open>between\<close> is
  what happens to the worker's state while the request waits.  The result is the number of attempts, or \<open>None\<close>
  when the fuel did not suffice.
\<close>

fun page_life :: "nat \<Rightarrow> setting \<Rightarrow> 'w wenv \<Rightarrow> ('w \<Rightarrow> 'w) \<Rightarrow> request \<Rightarrow> 'w wst \<Rightarrow> (nat \<times> 'w wst) option" where
  "page_life 0 cfg X between r st = None"
| "page_life (Suc n) cfg X between r st =
     (let st1 = run_one cfg X r (st\<lparr>ws_requeued := []\<rparr>)
      in case ws_requeued st1 of
           [] \<Rightarrow> Some (1, st1)
         | r1 # _ \<Rightarrow> map_option (\<lambda>(k, s). (Suc k, s)) (page_life n cfg X between r1 (st1\<lparr>ws_world := between (ws_world st1)\<rparr>)))"

text \<open>Middlewares that pass the retry counter on: every replacement they or \<^verbatim>\<open>download_midware\<close> make carries it.\<close>

definition keeps_budget :: "'w wenv \<Rightarrow> bool" where
  "keeps_budget X \<longleftrightarrow> (\<forall>r w. retry_times (effective X r w) = retry_times r)"

lemma run_one_requeued:
  assumes "keeps_budget X" "ws_requeued st = []"
  shows "ws_requeued (run_one cfg X r st) = [] \<or> (\<exists>r'. ws_requeued (run_one cfg X r st) = [r']
     \<and> retry_times r' = retry_times r + 1 \<and> retry_times r' \<le> SPIDER_MAX_RETRY_TIMES cfg)"
proof -
  obtain x st1 where p: "process cfg X r (st\<lparr>ws_deferred := False\<rparr>) = (x, st1)" by (metis surj_pair)
  have "ws_requeued (run_one cfg X r st) = ws_requeued st1" by (simp add: run_one_def p)
  moreover have "retry_times (effective X r (ws_world st)) = retry_times r" using assms(1) by (simp add: keeps_budget_def)
  ultimately show ?thesis using process_fate_lemma [OF p] assms(2) by (auto simp: one_fate_def same_ledger_def)
qed

lemma page_life_bound:
  assumes "keeps_budget X" "0 \<le> retry_times r"
  shows "nat (SPIDER_MAX_RETRY_TIMES cfg - retry_times r) < n \<Longrightarrow>
     \<exists>k st'. page_life n cfg X between r st = Some (k, st') \<and> k \<le> nat (SPIDER_MAX_RETRY_TIMES cfg - retry_times r) + 1"
  using assms(2)
proof (induction n arbitrary: r st)
  case (Suc n)
  define st1 where "st1 = run_one cfg X r (st\<lparr>ws_requeued := []\<rparr>)"
  consider "ws_requeued st1 = []" | r' where "ws_requeued st1 = [r']" "retry_times r' = retry_times r + 1"
      "retry_times r' \<le> SPIDER_MAX_RETRY_TIMES cfg"
    using run_one_requeued [OF assms(1), of "st\<lparr>ws_requeued := []\<rparr>" cfg r] unfolding st1_def by auto
  then show ?case
  proof cases
    case 1
    then show ?thesis by (simp add: st1_def)
  next
    case 2
    then have b: "nat (SPIDER_MAX_RETRY_TIMES cfg - retry_times r') < n" "0 \<le> retry_times r'"
      and less: "nat (SPIDER_MAX_RETRY_TIMES cfg - retry_times r') + 1 \<le> nat (SPIDER_MAX_RETRY_TIMES cfg - retry_times r)"
      using Suc.prems by linarith+
    from Suc.IH [OF b] obtain k st' where "page_life n cfg X between r' (st1\<lparr>ws_world := between (ws_world st1)\<rparr>) = Some (k, st')"
      "k \<le> nat (SPIDER_MAX_RETRY_TIMES cfg - retry_times r') + 1" by blast
    then show ?thesis using 2(1) less by (simp add: st1_def [symmetric] Let_def)
  qed
qed simp

section \<open>Properties of the worker\<close>

text \<open>C7: A request that the worker processes without an escaping exception gets exactly one fate: the counters
  \<^verbatim>\<open>request_ok\<close>, \<^verbatim>\<open>retry\<close>, \<^verbatim>\<open>request_failed\<close> and \<^verbatim>\<open>dropped\<close> together grow by one, whatever spider hooks, middlewares
  and downloader do; \<^verbatim>\<open>retry\<close> grows exactly when one request was handed back to the request buffer, and that one has
  one retry more, is within \<^verbatim>\<open>SPIDER_MAX_RETRY_TIMES\<close> and is exempt from deduplication.\<close>

theorem process_one_fate:
  assumes "process cfg X r st = (Inr (), st')"
  shows "fates st' = fates st + 1
    \<and> (ws_requeued st' = ws_requeued st \<and> stats_get (ws_stats st') ''retry'' = stats_get (ws_stats st) ''retry''
       \<or> (\<exists>r'. ws_requeued st' = r' # ws_requeued st
            \<and> stats_get (ws_stats st') ''retry'' = stats_get (ws_stats st) ''retry'' + 1
            \<and> retry_times r' = retry_times (effective X r (ws_world st)) + 1
            \<and> retry_times r' \<le> SPIDER_MAX_RETRY_TIMES cfg \<and> \<not> filter_repeat r'))"
  using process_fate_lemma [OF assms] by (simp add: one_fate_def)

text \<open>A spider without hooks on a world that records, in order, what was acknowledged and who owns the items
  that were buffered; the site is down.\<close>

definition down_env :: "(request list \<times> request list) wenv" where
  "down_env = \<lparr>x_mws = [], x_midware = (\<lambda>r w. (Inr None, w)), x_robots = (\<lambda>u w. (True, w)),
     x_download = (\<lambda>r w. (Inl (raise_of RequestError), w)), x_validate = (\<lambda>r x w. (Inr None, w)),
     x_has_method = (\<lambda>s. False), x_callback = (\<lambda>cb r x w. (([YItem (ODict [])], None), w)),
     x_failed = (\<lambda>r x w. (([], None), w)), x_exception = (\<lambda>r x e w. (Inr (), w)), x_call = (\<lambda>c w. (Inr (), w)),
     x_rput = (\<lambda>r w. (Inr (), w)), x_iput = (\<lambda>ob r (d, ow). (Inr (), (d, r # ow))),
     x_done = (\<lambda>r (d, ow). (r # d, ow)), x_sink = None, x_penalize = (\<lambda>u c w. w), x_failure = (\<lambda>u w. w),
     x_success = (\<lambda>u w. w), x_sleep = (\<lambda>d w. w), x_readers = ((\<lambda>_. None), (\<lambda>_. None)), x_now = (\<lambda>w. 0),
     x_uniform = (\<lambda>w. 0)\<rparr>"

definition ok_page :: response where
  "ok_page = \<lparr>rs_url = [], rs_status = 200, rs_content = [], rs_headers = [], rs_cookies = [], rs_encoding = None, rs_history = []\<rparr>"

definition fresh_worker :: "(request list \<times> request list) wst" where
  "fresh_worker = \<lparr>ws_stats = [], ws_deferred = False, ws_requeued = [], ws_world = ([], [])\<rparr>"

lemma down_env_sel:
  "x_mws down_env = []" "x_midware down_env r w = (Inr None, w)" "x_robots down_env u w = (True, w)"
  "x_download down_env r w = (Inl (raise_of RequestError), w)" "x_exception down_env r x e w = (Inr (), w)"
  "x_rput down_env r w = (Inr (), w)" "x_sleep down_env d w = w"
  by (simp_all add: down_env_def)

lemma down_env_retries:
  assumes "retry_times r < SPIDER_MAX_RETRY_TIMES cfg" "auto_request r"
  shows "process cfg down_env r st = (Inr (), (count_stat ''retry'' st)\<lparr>ws_requeued :=
     r\<lparr>retry_times := retry_times r + 1, filter_repeat := False\<rparr> # ws_requeued st\<rparr>)"
  using assms by (simp add: process_def fetch_def on_world_def retry_or_fail_def down_env_sel isinst_def issubclass.simps Let_def
      count_stat_def cong: if_cong)

theorem process_one_fate_witness:
  "fates ((count_stat ''retry'' fresh_worker)\<lparr>ws_requeued := [req_a\<lparr>retry_times := 1, filter_repeat := False\<rparr>]\<rparr>) = 1"
  using process_one_fate [OF down_env_retries [of req_a default_setting fresh_worker]]
  by (simp add: req_a_def request_defaults_def default_setting_def fresh_worker_def fates_def stats_get_def)

text \<open>C8: As long as middlewares and \<^verbatim>\<open>download_midware\<close> pass the retry counter on, a page is attempted at most
  \<^verbatim>\<open>SPIDER_MAX_RETRY_TIMES - retry_times + 1\<close> times, however the downloads, callbacks and validations turn out and
  whatever happens to the world between two attempts; with more fuel than that bound its life always ends.\<close>

theorem page_life_ends:
  assumes "keeps_budget X" "0 \<le> retry_times r" "nat (SPIDER_MAX_RETRY_TIMES cfg - retry_times r) < n"
  shows "\<exists>k st'. page_life n cfg X between r st = Some (k, st') \<and> k \<le> nat (SPIDER_MAX_RETRY_TIMES cfg - retry_times r) + 1"
  by (rule page_life_bound [OF assms(1,2,3)])

theorem page_life_ends_witness:
  "\<exists>k st'. page_life 4 default_setting down_env id req_a fresh_worker = Some (k, st') \<and> k \<le> 4"
proof -
  have "keeps_budget down_env" by (simp add: keeps_budget_def effective_def down_env_sel)
  from page_life_ends [OF this, of req_a default_setting 4 id fresh_worker] show ?thesis
    by (simp add: req_a_def request_defaults_def default_setting_def)
qed

section \<open>What the worker does not guarantee\<close>

text \<open>Without that assumption there is no bound: a \<^verbatim>\<open>download_midware\<close> that answers with a fresh request (its
  \<^verbatim>\<open>retry_times\<close> is 0) makes a page of a site that is down be retried for ever, because only \<^verbatim>\<open>_retry_replacement\<close>
  hands the counter of the original request on.\<close>

definition renewing_env :: "(request list \<times> request list) wenv" where
  "renewing_env = down_env\<lparr>x_midware := (\<lambda>r w. (Inr (Some req_a), w))\<rparr>"

lemma renewing_env_sel:
  "x_mws renewing_env = []" "x_midware renewing_env r w = (Inr (Some req_a), w)" "x_robots renewing_env u w = (True, w)"
  "x_download renewing_env r w = (Inl (raise_of RequestError), w)" "x_exception renewing_env r x e w = (Inr (), w)"
  "x_rput renewing_env r w = (Inr (), w)" "x_sleep renewing_env d w = w"
  by (simp_all add: renewing_env_def down_env_def)

lemma renewing_env_retries:
  "ws_requeued (run_one default_setting renewing_env r (st\<lparr>ws_requeued := []\<rparr>)) = [req_a\<lparr>retry_times := 1, filter_repeat := False\<rparr>]"
  by (simp add: run_one_def process_def fetch_def on_world_def retry_or_fail_def renewing_env_sel isinst_def issubclass.simps Let_def
      count_stat_def req_a_def request_defaults_def default_setting_def cong: if_cong)

lemma midware_resets_budget: "page_life n default_setting renewing_env between r st = None"
  by (induction n arbitrary: r st) (simp_all add: renewing_env_retries Let_def)

text \<open>If \<^verbatim>\<open>download_midware\<close> replaces the request and the callback yields an item, the item is owned by the replacement
  and the worker leaves the acknowledgement to it: the request that was taken from the queue is never acknowledged.\<close>

definition replacing_env :: "(request list \<times> request list) wenv" where
  "replacing_env = down_env\<lparr>x_midware := (\<lambda>r w. (Inr (Some (r\<lparr>oid := oid r + 1, lease_token := None\<rparr>)), w)),
     x_download := (\<lambda>r w. (Inr ok_page, w))\<rparr>"

lemma replaced_request_never_acked:
  "ws_world (run_one default_setting replacing_env req_a fresh_worker) = ([], [req_a\<lparr>oid := oid req_a + 1, lease_token := None\<rparr>])"
  by (simp add: run_one_def process_def fetch_def on_world_def replacing_env_def down_env_def handle_response_def check_status_def
      classify_def ok_page_def validate_response_def resolve_callback_def run_callback_def dispatch_def req_a_def
      request_defaults_def fresh_worker_def default_setting_def count_stat_def Let_def)

text \<open>An exception of \<^verbatim>\<open>validate\<close> that is neither \<^verbatim>\<open>ValidationError\<close> nor \<^verbatim>\<open>NotRetryError\<close> leaves \<^verbatim>\<open>_process\<close>: the request is
  acknowledged with no retry, no failure record and no counter.\<close>

definition buggy_validate_env :: "(request list \<times> request list) wenv" where
  "buggy_validate_env = down_env\<lparr>x_download := (\<lambda>r w. (Inr ok_page, w)), x_validate := (\<lambda>r x w. (Inl (raise_of PyTypeError), w))\<rparr>"

lemma validate_bug_loses_request:
  "ws_world (run_one default_setting buggy_validate_env req_a fresh_worker) = ([req_a], [])
   \<and> fates (run_one default_setting buggy_validate_env req_a fresh_worker) = 0
   \<and> ws_requeued (run_one default_setting buggy_validate_env req_a fresh_worker) = []"
  by (simp add: run_one_def process_def fetch_def on_world_def buggy_validate_env_def down_env_def handle_response_def check_status_def
      classify_def ok_page_def validate_response_def req_a_def isinst_def issubclass.simps fates_def stats_get_def
      request_defaults_def fresh_worker_def default_setting_def count_stat_def Let_def)

end
