(* ===== verification/Proxy_Pool.thy ===== *)
theory Proxy_Pool
  imports Net_Request Py_Str
begin

text \<open>
  \<^verbatim>\<open>netspy/network/proxy_pool/api.py\<close>: the pool of proxies that is filled from an HTTP interface, hands proxies out in turn,
  bans failing ones for a while (doubling the ban on consecutive failures) and takes them back afterwards.

  A method is split at its lock boundaries: every definition below is one section that holds \<^verbatim>\<open>self._lock\<close>, so
  \<open>pool_step\<close> (one section of one thread) and \<open>run_pool\<close> cover every interleaving of the worker threads.  \<open>clk i\<close> is
  the \<open>i\<close>-th reading of \<^verbatim>\<open>time.monotonic()\<close> in a section that reads it in a loop.  A ban that never ends
  (\<^verbatim>\<open>PROXY_BAN_SECONDS <= 0\<close>) is \<open>None\<close>.  The answer of the HTTP call is an argument (\<open>None\<close> for an \<^verbatim>\<open>httpx.HTTPError\<close>).
\<close>

section \<open>State and helpers\<close>

record proxy_pool =
  pp_api :: string
  pp_pool :: "string list"
  pp_use :: "(string, int) pydict"
  pp_banned :: "(string, time option) pydict"
  pp_fails :: "(string, int \<times> time) pydict"
  pp_suspects :: "(string, int \<times> time) pydict"
  pp_last_fetch :: "time option"

definition new_pool :: "string \<Rightarrow> proxy_pool" where
  "new_pool api = \<lparr>pp_api = api, pp_pool = [], pp_use = [], pp_banned = [], pp_fails = [], pp_suspects = [], pp_last_fetch = None\<rparr>"

definition raw_of :: "string \<Rightarrow> string" where
  "raw_of proxy = after_sep ''://'' proxy"

definition normalize_proxy :: "string \<Rightarrow> string" where
  "normalize_proxy proxy = (if contains ''://'' proxy then proxy else ''http://'' @ proxy)"

text \<open>\<^verbatim>\<open>str\<close> of a list or dictionary is an argument: the interface answers with strings.\<close>

fun py_str :: "(pyval \<Rightarrow> string) \<Rightarrow> pyval \<Rightarrow> string" where
  "py_str repr (VStr s) = s"
| "py_str repr (VInt i) = show_int i"
| "py_str repr (VBool b) = (if b then ''True'' else ''False'')"
| "py_str repr VNone = ''None''"
| "py_str repr v = repr v"

definition parse_proxies :: "(pyval \<Rightarrow> string) \<Rightarrow> string \<Rightarrow> string list" where
  "parse_proxies repr body =
     (if is_prefix ''['' body
      then (case loads_json body of Inr (VList vs) \<Rightarrow> map (py_str repr) vs | _ \<Rightarrow> [])
      else filter (\<lambda>l. l \<noteq> []) (map strip (split_lines body)))"

definition ban_seconds :: "setting \<Rightarrow> int \<Rightarrow> time option" where
  "ban_seconds cfg fails =
     (if PROXY_BAN_SECONDS cfg \<le> 0 then None
      else Some (min (PROXY_BAN_SECONDS cfg * 2 powi (fails - 1)) (PROXY_BAN_MAX_SECONDS cfg)))"

definition still_banned :: "time option \<Rightarrow> time \<Rightarrow> bool" where
  "still_banned until now = (case until of None \<Rightarrow> True | Some u \<Rightarrow> u > now)"

text \<open>\<open>_is_banned\<close> removes a ban that is over.\<close>

definition is_banned :: "string \<Rightarrow> time \<Rightarrow> proxy_pool \<Rightarrow> bool \<times> proxy_pool" where
  "is_banned proxy now p =
     (case dget (pp_banned p) proxy of
        None \<Rightarrow> (False, p)
      | Some until \<Rightarrow> if still_banned until now then (True, p) else (False, p\<lparr>pp_banned := ddel (pp_banned p) proxy\<rparr>))"

definition drop_proxy :: "string \<Rightarrow> proxy_pool \<Rightarrow> proxy_pool" where
  "drop_proxy proxy p = p\<lparr>pp_pool := remove1 proxy (pp_pool p)\<rparr>"

section \<open>Fetching\<close>

definition aged :: "setting \<Rightarrow> time \<Rightarrow> int \<times> time \<Rightarrow> bool" where
  "aged cfg now = (\<lambda>(n, seen). now - seen > PROXY_BAN_MAX_SECONDS cfg)"

definition prune :: "setting \<Rightarrow> time \<Rightarrow> proxy_pool \<Rightarrow> proxy_pool" where
  "prune cfg now p =
     (let banned = filter (\<lambda>(k, until). still_banned until now) (pp_banned p);
          fails = filter (\<lambda>(k, e). \<not> aged cfg now e) (pp_fails p);
          suspects = filter (\<lambda>(k, e). \<not> aged cfg now e) (pp_suspects p);
          live = set (pp_pool p) \<union> set (dkeys banned)
      in p\<lparr>pp_banned := banned, pp_fails := fails, pp_suspects := suspects,
            pp_use := filter (\<lambda>(k, n). k \<in> live) (pp_use p)\<rparr>)"

text \<open>First section of \<open>_fetch\<close>: \<open>True\<close> if the interface is to be called.\<close>

definition fetch_begin :: "setting \<Rightarrow> time \<Rightarrow> proxy_pool \<Rightarrow> bool \<times> proxy_pool" where
  "fetch_begin cfg now p =
     (if pp_api p = [] then (False, p)
      else if (case pp_last_fetch p of None \<Rightarrow> False | Some t \<Rightarrow> now - t < PROXY_MIN_INTERVAL cfg) then (False, p)
      else (True, prune cfg now (p\<lparr>pp_last_fetch := Some now\<rparr>)))"

fun add_proxies :: "(nat \<Rightarrow> time) \<Rightarrow> nat \<Rightarrow> string list \<Rightarrow> proxy_pool \<Rightarrow> proxy_pool" where
  "add_proxies clk i [] p = p"
| "add_proxies clk i (x # xs) p =
     (case is_banned x (clk i) p of (b, p1) \<Rightarrow>
        add_proxies clk (Suc i) xs (if \<not> b \<and> x \<notin> set (pp_pool p1) then p1\<lparr>pp_pool := pp_pool p1 @ [x]\<rparr> else p1))"

text \<open>Second section: the answer of the interface.\<close>

definition fetch_end :: "(pyval \<Rightarrow> string) \<Rightarrow> (nat \<Rightarrow> time) \<Rightarrow> string option \<Rightarrow> proxy_pool \<Rightarrow> proxy_pool" where
  "fetch_end repr clk reply p =
     (case reply of None \<Rightarrow> p | Some body \<Rightarrow> add_proxies clk 0 (parse_proxies repr (strip body)) p)"

section \<open>Handing out and reporting\<close>

fun take_loop :: "setting \<Rightarrow> (nat \<Rightarrow> time) \<Rightarrow> nat \<Rightarrow> nat \<Rightarrow> proxy_pool \<Rightarrow> string option \<times> proxy_pool" where
  "take_loop cfg clk i 0 p = (None, p)"
| "take_loop cfg clk i (Suc n) p =
     (case pp_pool p of
        [] \<Rightarrow> (None, p)
      | proxy # rest \<Rightarrow>
          (case is_banned proxy (clk i) (p\<lparr>pp_pool := rest @ [proxy]\<rparr>) of
             (True, p1) \<Rightarrow> take_loop cfg clk (Suc i) n (drop_proxy proxy p1)
           | (False, p1) \<Rightarrow>
               let used = (case dget (pp_use p1) proxy of None \<Rightarrow> 0 | Some k \<Rightarrow> k) + 1;
                   p2 = p1\<lparr>pp_use := dset (pp_use p1) proxy used\<rparr>
               in (Some (normalize_proxy proxy), if used \<ge> PROXY_MAX_USE_TIMES cfg then drop_proxy proxy p2 else p2)))"

definition take_proxy :: "setting \<Rightarrow> (nat \<Rightarrow> time) \<Rightarrow> proxy_pool \<Rightarrow> string option \<times> proxy_pool" where
  "take_proxy cfg clk p = take_loop cfg clk 0 (length (pp_pool p)) p"

definition get_proxy :: "setting \<Rightarrow> (pyval \<Rightarrow> string) \<Rightarrow> time \<Rightarrow> string option \<Rightarrow> (nat \<Rightarrow> time) \<Rightarrow> (nat \<Rightarrow> time) \<Rightarrow> proxy_pool
    \<Rightarrow> string option \<times> proxy_pool" where
  "get_proxy cfg repr now reply clk clk2 p =
     take_proxy cfg clk2
       (if pp_pool p = []
        then (case fetch_begin cfg now p of (True, p1) \<Rightarrow> fetch_end repr clk reply p1 | (False, p1) \<Rightarrow> p1)
        else p)"

definition report_good :: "string \<Rightarrow> proxy_pool \<Rightarrow> proxy_pool" where
  "report_good proxy p =
     (let raw = raw_of proxy
      in if dget (pp_fails p) raw = None \<and> dget (pp_suspects p) raw = None then p
         else p\<lparr>pp_fails := ddel (pp_fails p) raw, pp_suspects := ddel (pp_suspects p) raw\<rparr>)"

text \<open>The counter of consecutive events, restarted when the last one is too old: \<^verbatim>\<open>last and now - last > ...\<close>.\<close>

definition streak :: "setting \<Rightarrow> (string, int \<times> time) pydict \<Rightarrow> string \<Rightarrow> time \<Rightarrow> int" where
  "streak cfg d raw now =
     (case dget d raw of None \<Rightarrow> 0 | Some (n, seen) \<Rightarrow> if seen \<noteq> 0 \<and> aged cfg now (n, seen) then 0 else n)"

definition report_bad :: "setting \<Rightarrow> time \<Rightarrow> string \<Rightarrow> proxy_pool \<Rightarrow> proxy_pool" where
  "report_bad cfg now proxy p =
     (let raw = raw_of proxy;
          fails = streak cfg (pp_fails p) raw now + 1;
          until = map_option (\<lambda>s. now + s) (ban_seconds cfg fails)
      in drop_proxy raw (p\<lparr>pp_fails := dset (pp_fails p) raw (fails, now), pp_suspects := ddel (pp_suspects p) raw,
           pp_banned := dset (dset (pp_banned p) raw until) proxy until\<rparr>))"

text \<open>The locked section of \<open>report_suspect\<close>: \<open>True\<close> if the caller goes on to \<open>report_bad\<close>.\<close>

definition suspect_section :: "setting \<Rightarrow> time \<Rightarrow> string \<Rightarrow> proxy_pool \<Rightarrow> bool \<times> proxy_pool" where
  "suspect_section cfg now proxy p =
     (let raw = raw_of proxy; n = streak cfg (pp_suspects p) raw now + 1
      in if n < max (PROXY_SUSPECT_BAN_AFTER cfg) 1 then (False, p\<lparr>pp_suspects := dset (pp_suspects p) raw (n, now)\<rparr>)
         else (True, p\<lparr>pp_suspects := ddel (pp_suspects p) raw\<rparr>))"

definition report_suspect :: "setting \<Rightarrow> time \<Rightarrow> time \<Rightarrow> string \<Rightarrow> proxy_pool \<Rightarrow> proxy_pool" where
  "report_suspect cfg now now2 proxy p =
     (case suspect_section cfg now proxy p of (bad, p1) \<Rightarrow> if bad then report_bad cfg now2 proxy p1 else p1)"

definition close_pool :: "proxy_pool \<Rightarrow> proxy_pool" where
  "close_pool p = p\<lparr>pp_pool := []\<rparr>"

section \<open>Interleavings\<close>

datatype pool_op =
    PTake "nat \<Rightarrow> time" | PFetchBegin time | PFetchEnd "nat \<Rightarrow> time" "string option"
  | PGood string | PSuspect time string | PBad time string | PClose

fun pool_step :: "setting \<Rightarrow> (pyval \<Rightarrow> string) \<Rightarrow> pool_op \<Rightarrow> proxy_pool \<Rightarrow> string option \<times> proxy_pool" where
  "pool_step cfg repr (PTake clk) p = take_proxy cfg clk p"
| "pool_step cfg repr (PFetchBegin now) p = (None, snd (fetch_begin cfg now p))"
| "pool_step cfg repr (PFetchEnd clk reply) p = (None, fetch_end repr clk reply p)"
| "pool_step cfg repr (PGood x) p = (None, report_good x p)"
| "pool_step cfg repr (PSuspect now x) p = (None, snd (suspect_section cfg now x p))"
| "pool_step cfg repr (PBad now x) p = (None, report_bad cfg now x p)"
| "pool_step cfg repr PClose p = (None, close_pool p)"

text \<open>What the sections hand out, in order, and the final pool.\<close>

fun run_pool :: "setting \<Rightarrow> (pyval \<Rightarrow> string) \<Rightarrow> pool_op list \<Rightarrow> proxy_pool \<Rightarrow> string option list \<times> proxy_pool" where
  "run_pool cfg repr [] p = ([], p)"
| "run_pool cfg repr (op # ops) p =
     (case pool_step cfg repr op p of (x, p1) \<Rightarrow> case run_pool cfg repr ops p1 of (xs, p2) \<Rightarrow> (x # xs, p2))"

text \<open>The methods are sequences of sections.\<close>

lemma get_proxy_sections:
  "get_proxy cfg repr now reply clk clk2 p =
     (let ops = (if pp_pool p \<noteq> [] then [] else PFetchBegin now # (if fst (fetch_begin cfg now p) then [PFetchEnd clk reply] else []))
      in case run_pool cfg repr (ops @ [PTake clk2]) p of (xs, p1) \<Rightarrow> (last xs, p1))"
  by (simp add: get_proxy_def split: prod.split bool.split)

lemma report_suspect_sections:
  "report_suspect cfg now now2 x p = snd (run_pool cfg repr
     (PSuspect now x # (if fst (suspect_section cfg now x p) then [PBad now2 x] else [])) p)"
  by (simp add: report_suspect_def split: prod.split)

section \<open>A ban holds\<close>

fun op_times :: "pool_op \<Rightarrow> time set" where
  "op_times (PTake clk) = range clk"
| "op_times (PFetchBegin now) = {now}"
| "op_times (PFetchEnd clk _) = range clk"
| "op_times (PSuspect now _) = {now}"
| "op_times (PBad now _) = {now}"
| "op_times _ = {}"

text \<open>\<open>x\<close> is banned at all times of \<open>W\<close>.\<close>

definition guarded :: "time set \<Rightarrow> string \<Rightarrow> proxy_pool \<Rightarrow> bool" where
  "guarded W x p \<longleftrightarrow> (\<exists>u. dget (pp_banned p) x = Some u \<and> (\<forall>t\<in>W. still_banned u t))"

definition fails_ok :: "proxy_pool \<Rightarrow> bool" where
  "fails_ok p \<longleftrightarrow> (\<forall>e\<in>set (pp_fails p). 0 \<le> fst (snd e))"

lemma dget_filter: "(\<And>v. dget d k = Some v \<Longrightarrow> P (k, v)) \<Longrightarrow> dget (filter P d) k = dget d k"
  by (induction d k rule: dget.induct) auto

lemma dget_filter_cases:
  assumes "distinct (dkeys d)"
  shows "dget (filter P d) k = (case dget d k of None \<Rightarrow> None | Some v \<Rightarrow> if P (k, v) then Some v else None)"
  using assms by (induction d k rule: dget.induct) (auto simp: dkeys_def dget_None_iff [unfolded dkeys_def] split: option.splits)

lemma is_banned_facts:
  assumes "is_banned y now p = (b, p')"
  shows "pp_fails p' = pp_fails p" "pp_pool p' = pp_pool p"
    "now \<in> W \<Longrightarrow> guarded W x p \<Longrightarrow> guarded W x p'" "now \<in> W \<Longrightarrow> guarded W y p \<Longrightarrow> b"
  using assms by (auto simp: is_banned_def guarded_def split: option.splits if_splits)

lemma guarded_frame [simp]:
  "guarded W x (p\<lparr>pp_pool := q\<rparr>) = guarded W x p" "guarded W x (p\<lparr>pp_use := u\<rparr>) = guarded W x p"
  "guarded W x (p\<lparr>pp_last_fetch := l\<rparr>) = guarded W x p" "guarded W x (drop_proxy y p) = guarded W x p"
  by (simp_all add: guarded_def drop_proxy_def)

lemma handed_out:
  assumes "take_loop cfg clk i (Suc n) p = (out, p')" "pp_pool p = proxy # rest"
    and "is_banned proxy (clk i) (p\<lparr>pp_pool := rest @ [proxy]\<rparr>) = (False, p1)"
  shows "out = Some (normalize_proxy proxy) \<and> (\<exists>u. p' = drop_proxy proxy (p1\<lparr>pp_use := u\<rparr>) \<or> p' = p1\<lparr>pp_use := u\<rparr>)"
  using assms by (auto simp: Let_def split: if_splits)

text \<open>What the loops keep: anything that looking up a ban, rotating the queue and counting uses keep.\<close>

definition loop_kept :: "(proxy_pool \<Rightarrow> bool) \<Rightarrow> bool" where
  "loop_kept P \<longleftrightarrow> (\<forall>q y t. P q \<longrightarrow> P (snd (is_banned y t q))) \<and> (\<forall>q l. P q \<longrightarrow> P (q\<lparr>pp_pool := l\<rparr>)) \<and> (\<forall>q u. P q \<longrightarrow> P (q\<lparr>pp_use := u\<rparr>))"

lemma loop_keptD:
  assumes "loop_kept P" "P q"
  shows "is_banned y t q = (b, q') \<Longrightarrow> P q'" "P (q\<lparr>pp_pool := l\<rparr>)" "P (q\<lparr>pp_use := u\<rparr>)" "P (drop_proxy y q)"
proof -
  show "P q'" if "is_banned y t q = (b, q')" using assms that unfolding loop_kept_def by (metis snd_conv)
qed (use assms in \<open>auto simp: loop_kept_def drop_proxy_def\<close>)

lemma take_loop_kept:
  assumes P: "loop_kept P"
  shows "P p \<Longrightarrow> take_loop cfg clk i n p = (out, p') \<Longrightarrow> P p'"
proof (induction n arbitrary: i p)
  case (Suc n)
  show ?case
  proof (cases "pp_pool p")
    case (Cons proxy rest)
    obtain b p1 where b: "is_banned proxy (clk i) (p\<lparr>pp_pool := rest @ [proxy]\<rparr>) = (b, p1)" by (metis surj_pair)
    have p1: "P p1" by (rule loop_keptD(1) [OF P loop_keptD(2) [OF P Suc.prems(1)] b])
    show ?thesis
    proof (cases b)
      case True
      then have "take_loop cfg clk (Suc i) n (drop_proxy proxy p1) = (out, p')" using Suc.prems b Cons by simp
      then show ?thesis by (rule Suc.IH [OF loop_keptD(4) [OF P p1]])
    next
      case False
      then have "is_banned proxy (clk i) (p\<lparr>pp_pool := rest @ [proxy]\<rparr>) = (False, p1)" using b by simp
      from handed_out [OF Suc.prems(2) Cons this] show ?thesis using loop_keptD(3,4) [OF P] p1 by auto
    qed
  qed (use Suc.prems in auto)
qed simp

lemma add_proxies_kept:
  assumes P: "loop_kept P"
  shows "P p \<Longrightarrow> P (add_proxies clk i xs p)"
proof (induction xs arbitrary: i p)
  case (Cons y ys)
  obtain b p1 where b: "is_banned y (clk i) p = (b, p1)" by (metis surj_pair)
  have "P p1" by (rule loop_keptD(1) [OF P Cons.prems b])
  then show ?case using Cons.IH loop_keptD(2) [OF P] by (simp add: b)
qed simp

lemma take_loop_guarded:
  assumes "range clk \<subseteq> W" "take_loop cfg clk i n p = (out, p')"
  shows "(guarded W x p \<longrightarrow> guarded W x p') \<and> (\<forall>y. out = Some y \<longrightarrow> (\<exists>e. y = normalize_proxy e \<and> \<not> guarded W e p))"
  using assms(2)
proof (induction n arbitrary: i p)
  case (Suc n)
  show ?case
  proof (cases "pp_pool p")
    case (Cons proxy rest)
    obtain b p1 where b: "is_banned proxy (clk i) (p\<lparr>pp_pool := rest @ [proxy]\<rparr>) = (b, p1)" by (metis surj_pair)
    have t: "clk i \<in> W" using assms(1) by auto
    note facts = is_banned_facts(3,4) [OF b t, unfolded guarded_frame]
    show ?thesis
    proof (cases b)
      case True
      then have "take_loop cfg clk (Suc i) n (drop_proxy proxy p1) = (out, p')" using Suc.prems b Cons by simp
      from Suc.IH [OF this] show ?thesis using facts(1) unfolding guarded_frame by blast
    next
      case False
      then have "is_banned proxy (clk i) (p\<lparr>pp_pool := rest @ [proxy]\<rparr>) = (False, p1)" using b by simp
      from handed_out [OF Suc.prems Cons this] show ?thesis using facts False by auto
    qed
  qed (use Suc.prems in auto)
qed simp

lemma add_proxies_guarded:
  assumes "range clk \<subseteq> W"
  shows "guarded W x p \<Longrightarrow> guarded W x (add_proxies clk i xs p)"
proof (induction xs arbitrary: i p)
  case (Cons y ys)
  obtain b p1 where b: "is_banned y (clk i) p = (b, p1)" by (metis surj_pair)
  have "guarded W x p1" using is_banned_facts(3) [OF b _ Cons.prems] assms by auto
  then show ?case using Cons.IH by (simp add: b)
qed simp

lemma prune_guarded: "now \<in> W \<Longrightarrow> guarded W x p \<Longrightarrow> guarded W x (prune cfg now p)"
  using dget_filter [of "pp_banned p" x "\<lambda>(k, until). still_banned until now"]
  by (auto simp: guarded_def prune_def Let_def)

lemma streak_nonneg: "fails_ok p \<Longrightarrow> 0 \<le> streak cfg (pp_fails p) raw now"
  by (auto simp: streak_def fails_ok_def dest!: dget_Some_in split: option.splits)

lemma ban_seconds_least:
  assumes "1 \<le> n" "ban_seconds cfg n = Some s"
  shows "\<exists>s1. ban_seconds cfg 1 = Some s1 \<and> s1 \<le> s"
proof -
  have "PROXY_BAN_SECONDS cfg * 1 \<le> PROXY_BAN_SECONDS cfg * 2 powi (n - 1)" if "0 < PROXY_BAN_SECONDS cfg"
    using assms(1) that by (intro mult_left_mono one_le_power_int) auto
  then have le: "min (PROXY_BAN_SECONDS cfg) m \<le> min (PROXY_BAN_SECONDS cfg * 2 powi (n - 1)) m" if "0 < PROXY_BAN_SECONDS cfg" for m
    using that by linarith
  show ?thesis
  proof (cases "PROXY_BAN_SECONDS cfg \<le> 0")
    case False
    then have "ban_seconds cfg 1 = Some (min (PROXY_BAN_SECONDS cfg) (PROXY_BAN_MAX_SECONDS cfg))" by (simp add: ban_seconds_def)
    moreover have "s = min (PROXY_BAN_SECONDS cfg * 2 powi (n - 1)) (PROXY_BAN_MAX_SECONDS cfg)"
      using False assms(2) by (simp add: ban_seconds_def)
    ultimately show ?thesis using le False by (metis not_le)
  qed (use assms(2) in \<open>simp add: ban_seconds_def\<close>)
qed

text \<open>The times from \<open>t0\<close> until a first ban that starts at \<open>t0\<close> is over.\<close>

definition ban_window :: "setting \<Rightarrow> time \<Rightarrow> time set" where
  "ban_window cfg t0 = {t. t0 \<le> t \<and> (case ban_seconds cfg 1 of None \<Rightarrow> True | Some s \<Rightarrow> t < t0 + s)}"

lemma report_bad_guarded:
  assumes "fails_ok p" "t0 \<le> now"
  shows "guarded (ban_window cfg t0) y (report_bad cfg now y p)" "guarded (ban_window cfg t0) (raw_of y) (report_bad cfg now y p)"
    "guarded (ban_window cfg t0) x p \<Longrightarrow> guarded (ban_window cfg t0) x (report_bad cfg now y p)"
proof -
  define n where "n = streak cfg (pp_fails p) (raw_of y) now + 1"
  define until where "until = map_option (\<lambda>s. now + s) (ban_seconds cfg n)"
  have b: "pp_banned (report_bad cfg now y p) = dset (dset (pp_banned p) (raw_of y) until) y until"
    by (simp add: report_bad_def Let_def drop_proxy_def until_def n_def)
  have u: "still_banned until t" if "t \<in> ban_window cfg t0" for t
    using that assms(2) ban_seconds_least [of n cfg] streak_nonneg [OF assms(1), of cfg "raw_of y" now]
    by (force simp: until_def n_def ban_window_def still_banned_def split: option.splits)
  show "guarded (ban_window cfg t0) y (report_bad cfg now y p)" "guarded (ban_window cfg t0) (raw_of y) (report_bad cfg now y p)"
    "guarded (ban_window cfg t0) x p \<Longrightarrow> guarded (ban_window cfg t0) x (report_bad cfg now y p)"
    using u by (auto simp: guarded_def b)
qed

text \<open>The invariant of the records: dictionaries have one entry per key, counters are not negative, and entries are stamped
  at a moment other than 0 if all operations were.\<close>

definition stamped :: "(string, int \<times> time) pydict \<Rightarrow> bool" where
  "stamped d \<longleftrightarrow> distinct (dkeys d) \<and> (\<forall>e\<in>set d. 0 \<le> fst (snd e) \<and> snd (snd e) \<noteq> 0)"

definition pool_inv :: "proxy_pool \<Rightarrow> bool" where
  "pool_inv p \<longleftrightarrow> distinct (dkeys (pp_banned p)) \<and> stamped (pp_fails p) \<and> stamped (pp_suspects p)"

lemma distinct_dkeys_filter [simp]: "distinct (dkeys d) \<Longrightarrow> distinct (dkeys (filter P d))"
  by (simp add: dkeys_def distinct_map_filter)

lemma stamped_keep: "stamped d \<Longrightarrow> stamped (filter P d)" "stamped d \<Longrightarrow> stamped (ddel d k)"
  by (auto simp: stamped_def ddel_def)

lemma stamped_dset: "stamped d \<Longrightarrow> 0 \<le> n \<Longrightarrow> now \<noteq> 0 \<Longrightarrow> stamped (dset d k (n, now))"
  by (auto simp: stamped_def dest!: set_dset_cases)

lemma streak_stamped: "stamped d \<Longrightarrow> 0 \<le> streak cfg d raw now"
  by (auto simp: streak_def stamped_def dest!: dget_Some_in split: option.splits)

lemma loop_kept_inv: "loop_kept pool_inv" "loop_kept fails_ok"
  by (auto simp: loop_kept_def pool_inv_def fails_ok_def is_banned_def split: option.splits)

lemma fails_ok_subset: "fails_ok p \<Longrightarrow> set (pp_fails p') \<subseteq> set (pp_fails p) \<Longrightarrow> fails_ok p'"
  by (auto simp: fails_ok_def)

lemma pool_step_fails_ok:
  assumes "fails_ok p" "pool_step cfg repr op p = (out, p')"
  shows "fails_ok p'"
proof (cases op)
  case (PTake clk)
  then show ?thesis using assms take_loop_kept [OF loop_kept_inv(2)] by (auto simp: take_proxy_def)
next
  case (PFetchEnd clk reply)
  then show ?thesis using assms add_proxies_kept [OF loop_kept_inv(2)] by (auto simp: fetch_end_def split: option.splits)
next
  case (PBad now y)
  have "set (pp_fails p') \<subseteq> insert (raw_of y, streak cfg (pp_fails p) (raw_of y) now + 1, now) (set (pp_fails p))"
    using PBad assms(2) by (auto simp: report_bad_def Let_def drop_proxy_def dest!: set_dset_cases)
  then show ?thesis using assms(1) streak_nonneg [OF assms(1), of cfg "raw_of y" now] by (fastforce simp: fails_ok_def)
qed (use assms in \<open>auto intro!: fails_ok_subset [OF assms(1)] simp: fetch_begin_def prune_def report_good_def suspect_section_def
    close_pool_def Let_def ddel_def split: if_splits option.splits\<close>)

lemma pool_step_inv:
  assumes "pool_inv p" "0 \<notin> op_times op" "pool_step cfg repr op p = (out, p')"
  shows "pool_inv p'"
proof (cases op)
  case (PTake clk)
  then show ?thesis using assms take_loop_kept [OF loop_kept_inv(1)] by (auto simp: take_proxy_def)
next
  case (PFetchEnd clk reply)
  then show ?thesis using assms add_proxies_kept [OF loop_kept_inv(1)] by (auto simp: fetch_end_def split: option.splits)
next
  case (PBad now y)
  then show ?thesis using assms streak_stamped [of "pp_fails p" cfg "raw_of y" now]
    by (auto simp: report_bad_def Let_def drop_proxy_def pool_inv_def stamped_keep intro!: stamped_dset)
next
  case (PSuspect now y)
  then show ?thesis using assms streak_stamped [of "pp_suspects p" cfg "raw_of y" now]
    by (auto simp: suspect_section_def Let_def pool_inv_def stamped_keep intro!: stamped_dset)
qed (use assms in \<open>auto simp: pool_inv_def fetch_begin_def prune_def report_good_def close_pool_def Let_def stamped_keep
    split: if_splits option.splits\<close>)

lemma run_pool_inv: "pool_inv p \<Longrightarrow> \<forall>op\<in>set ops. 0 \<notin> op_times op \<Longrightarrow> pool_inv (snd (run_pool cfg repr ops p))"
proof (induction ops arbitrary: p)
  case (Cons op ops)
  obtain x p1 where s: "pool_step cfg repr op p = (x, p1)" by (metis surj_pair)
  have "pool_inv p1" using pool_step_inv [OF Cons.prems(1) _ s] Cons.prems(2) by simp
  then show ?case using Cons.IH Cons.prems(2) by (simp add: s case_prod_unfold)
qed simp

lemma new_pool_inv: "pool_inv (new_pool api)"
  by (simp add: pool_inv_def new_pool_def stamped_def dkeys_def)

lemma pool_step_guarded:
  assumes "fails_ok p" "op_times op \<subseteq> ban_window cfg t0" "guarded (ban_window cfg t0) x p" "pool_step cfg repr op p = (out, p')"
  shows "guarded (ban_window cfg t0) x p'"
proof (cases op)
  case (PTake clk)
  then show ?thesis using assms take_loop_guarded [of clk "ban_window cfg t0" cfg 0] by (auto simp: take_proxy_def)
next
  case (PFetchBegin now)
  then show ?thesis using PFetchBegin assms prune_guarded [of now "ban_window cfg t0"] by (auto simp: fetch_begin_def split: if_splits)
next
  case (PFetchEnd clk reply)
  then show ?thesis using assms add_proxies_guarded [of clk] by (auto simp: fetch_end_def split: option.splits)
next
  case (PBad now y)
  then have "t0 \<le> now" using assms(2) by (simp add: ban_window_def)
  then show ?thesis using PBad assms report_bad_guarded(3) by auto
qed (use assms in \<open>auto simp: guarded_def report_good_def suspect_section_def close_pool_def Let_def split: if_splits\<close>)

lemma run_pool_fails_ok: "fails_ok p \<Longrightarrow> fails_ok (snd (run_pool cfg repr ops p))"
proof (induction ops arbitrary: p)
  case (Cons op ops)
  obtain x p1 where s: "pool_step cfg repr op p = (x, p1)" by (metis surj_pair)
  show ?case using Cons.IH [OF pool_step_fails_ok [OF Cons.prems s]] by (simp add: s case_prod_unfold)
qed simp

lemma pool_step_out:
  assumes "pool_step cfg repr op p = (Some y, p')" "op_times op \<subseteq> W"
  shows "\<exists>e. y = normalize_proxy e \<and> \<not> guarded W e p"
  using assms take_loop_guarded [of _ W cfg 0 _ p "Some y" p'] by (cases op) (auto simp: take_proxy_def)

lemma normalize_proxy_cases: "e \<in> {normalize_proxy e, raw_of (normalize_proxy e)}"
proof (cases "contains ''://'' e")
  case False
  then have "after_sep ''://'' (''http://'' @ e) = e" by (simp add: after_sep_def)
  with False show ?thesis by (simp add: normalize_proxy_def raw_of_def)
qed (simp add: normalize_proxy_def)

lemma run_pool_guarded:
  assumes "fails_ok p" "guarded (ban_window cfg t0) y p" "guarded (ban_window cfg t0) (raw_of y) p"
    and "\<forall>op\<in>set ops. op_times op \<subseteq> ban_window cfg t0"
  shows "Some y \<notin> set (fst (run_pool cfg repr ops p))"
  using assms
proof (induction ops arbitrary: p)
  case (Cons op ops)
  obtain x p1 where s: "pool_step cfg repr op p = (x, p1)" by (metis surj_pair)
  have t: "op_times op \<subseteq> ban_window cfg t0" using Cons.prems(4) by simp
  have "x \<noteq> Some y"
  proof
    assume "x = Some y"
    then obtain e where "y = normalize_proxy e" "\<not> guarded (ban_window cfg t0) e p"
      using pool_step_out [OF _ t] s by blast
    then show False using normalize_proxy_cases [of e] Cons.prems(2,3) by auto
  qed
  moreover have "Some y \<notin> set (fst (run_pool cfg repr ops p1))"
    using Cons.IH [OF pool_step_fails_ok [OF Cons.prems(1) s] pool_step_guarded [OF Cons.prems(1) t Cons.prems(2) s]
        pool_step_guarded [OF Cons.prems(1) t Cons.prems(3) s]] Cons.prems(4) by simp
  ultimately show ?case by (auto simp: s split: prod.splits)
qed simp

section \<open>Properties\<close>

text \<open>C36: A banned proxy is not used. Once a proxy was reported bad, no \<^verbatim>\<open>get_proxy\<close> of any thread returns it for at least
  \<^verbatim>\<open>PROXY_BAN_SECONDS\<close> (capped by \<^verbatim>\<open>PROXY_BAN_MAX_SECONDS\<close>; for ever if \<^verbatim>\<open>PROXY_BAN_SECONDS\<close> is 0), however fetches that
  list it again, successes of requests still in flight, further failures and closing interleave, and whatever
  happened to the pool before.\<close>

theorem banned_proxy_not_used:
  assumes "\<forall>op\<in>set ops. op_times op \<subseteq> ban_window cfg t0"
  shows "Some y \<notin> set (fst (run_pool cfg repr ops (report_bad cfg t0 y (snd (run_pool cfg repr before (new_pool api))))))"
proof -
  have ok: "fails_ok (snd (run_pool cfg repr before (new_pool api)))"
    by (rule run_pool_fails_ok) (simp add: fails_ok_def new_pool_def)
  then have "fails_ok (report_bad cfg t0 y (snd (run_pool cfg repr before (new_pool api))))"
    using pool_step_fails_ok [OF ok, of cfg repr "PBad t0 y"] by simp
  then show ?thesis by (rule run_pool_guarded [OF _ report_bad_guarded(1,2) [OF ok order_refl] assms])
qed

text \<open>The list names the banned proxy again at 130; the ban of 60 seconds that began at 100 still holds at 159.\<close>

theorem banned_proxy_not_used_witness:
  "Some ''http://a:1'' \<notin> set (fst (run_pool default_setting (\<lambda>_. []) [PFetchBegin 130, PFetchEnd (\<lambda>_. 131) (Some ''a:1''), PTake (\<lambda>_. 159)]
     (report_bad default_setting 100 ''http://a:1'' (snd (run_pool default_setting (\<lambda>_. []) [PFetchBegin 30] (new_pool ''api''))))))"
  by (rule banned_proxy_not_used) (simp add: ban_window_def ban_seconds_def default_setting_def)

lemma is_banned_unbanned:
  assumes "is_banned y now p = (b, p')" "dget (pp_banned p) x = None"
  shows "dget (pp_banned p') x = None" "y = x \<Longrightarrow> \<not> b"
  using assms by (auto simp: is_banned_def split: option.splits if_splits)

lemma add_proxies_adds:
  assumes "distinct (pp_pool p)" "dget (pp_banned p) x = None" "x \<in> set xs \<or> x \<in> set (pp_pool p)"
  shows "distinct (pp_pool (add_proxies clk i xs p)) \<and> dget (pp_banned (add_proxies clk i xs p)) x = None
     \<and> x \<in> set (pp_pool (add_proxies clk i xs p))"
  using assms
proof (induction xs arbitrary: i p)
  case (Cons y ys)
  obtain b p1 where b: "is_banned y (clk i) p = (b, p1)" by (metis surj_pair)
  note facts = is_banned_facts(2) [OF b] is_banned_unbanned [OF b Cons.prems(2)]
  define p2 where "p2 = (if \<not> b \<and> y \<notin> set (pp_pool p1) then p1\<lparr>pp_pool := pp_pool p1 @ [y]\<rparr> else p1)"
  have "distinct (pp_pool p2)" "dget (pp_banned p2) x = None" "x \<in> set ys \<or> x \<in> set (pp_pool p2)"
    using facts Cons.prems by (auto simp: p2_def)
  from Cons.IH [OF this, of "Suc i"] show ?case by (simp add: b p2_def)
qed simp

lemma take_loop_finds:
  assumes "distinct (pp_pool p)" "dget (pp_banned p) x = None" "x \<in> set (take n (pp_pool p))"
  shows "fst (take_loop cfg clk i n p) \<noteq> None"
  using assms
proof (induction n arbitrary: i p)
  case (Suc n)
  obtain proxy rest where p: "pp_pool p = proxy # rest" using Suc.prems(3) by (cases "pp_pool p") auto
  obtain b p1 where b: "is_banned proxy (clk i) (p\<lparr>pp_pool := rest @ [proxy]\<rparr>) = (b, p1)" by (metis surj_pair)
  have u: "dget (pp_banned (p\<lparr>pp_pool := rest @ [proxy]\<rparr>)) x = None" using Suc.prems(2) by simp
  note facts = is_banned_facts(2) [OF b] is_banned_unbanned [OF b u]
  show ?case
  proof (cases b)
    case True
    have "pp_pool (drop_proxy proxy p1) = rest" using facts(1) Suc.prems(1) p by (simp add: drop_proxy_def remove1_append)
    then have "fst (take_loop cfg clk (Suc i) n (drop_proxy proxy p1)) \<noteq> None"
      using Suc.prems facts p True by (intro Suc.IH) (auto simp: drop_proxy_def)
    then show ?thesis using b p True by simp
  qed (use b p in \<open>simp add: Let_def\<close>)
qed simp

text \<open>The pool recovers. Whatever happened to it before: when the pool is empty and may fetch again, and the interface
  lists a proxy whose ban is over (or that was never banned), \<^verbatim>\<open>get_proxy\<close> returns a proxy. Bans do not drain the
  pool for good.\<close>

theorem pool_recovers:
  assumes "\<forall>op\<in>set before. 0 \<notin> op_times op" "p = snd (run_pool cfg repr before (new_pool api))"
    and "pp_pool p = []" "pp_api p \<noteq> []" "\<forall>t. pp_last_fetch p = Some t \<longrightarrow> PROXY_MIN_INTERVAL cfg \<le> now - t"
    and "x \<in> set (parse_proxies repr (strip body))" "\<forall>u. dget (pp_banned p) x = Some u \<longrightarrow> \<not> still_banned u now"
  shows "\<exists>y p'. get_proxy cfg repr now (Some body) clk clk2 p = (Some y, p')"
proof -
  have d: "distinct (dkeys (pp_banned p))" using run_pool_inv [OF new_pool_inv assms(1)] assms(2) by (simp add: pool_inv_def)
  define p1 where "p1 = prune cfg now (p\<lparr>pp_last_fetch := Some now\<rparr>)"
  have "fetch_begin cfg now p = (True, p1)" using assms(4,5) by (auto simp: fetch_begin_def p1_def split: option.split)
  moreover define p2 where "p2 = add_proxies clk 0 (parse_proxies repr (strip body)) p1"
  ultimately have g: "get_proxy cfg repr now (Some body) clk clk2 p = take_proxy cfg clk2 p2"
    using assms(3) by (simp add: get_proxy_def fetch_end_def)
  have "dget (pp_banned p1) x = None" "pp_pool p1 = []"
    using assms(3,7) dget_in_set [OF d] by (auto simp: p1_def prune_def Let_def dget_None_iff dkeys_def)
  then have "distinct (pp_pool p2)" "dget (pp_banned p2) x = None" "x \<in> set (pp_pool p2)"
    using add_proxies_adds [of p1 x "parse_proxies repr (strip body)" clk 0] assms(6) by (simp_all add: p2_def)
  then have "fst (take_proxy cfg clk2 p2) \<noteq> None" by (simp add: take_proxy_def take_loop_finds)
  then show ?thesis by (cases "take_proxy cfg clk2 p2") (auto simp: g)
qed

text \<open>A proxy banned for 60 seconds at 100 is back at 160, when the list names it again.\<close>

theorem pool_recovers_witness:
  "\<exists>y p'. get_proxy default_setting (\<lambda>_. []) 160 (Some ''a:1'') (\<lambda>_. 160) (\<lambda>_. 160)
     (snd (run_pool default_setting (\<lambda>_. []) [PBad 100 ''http://a:1''] (new_pool ''api''))) = (Some y, p')"
  by (rule pool_recovers [where x = "''a:1''", OF _ refl]) (simp_all add: report_bad_def new_pool_def drop_proxy_def raw_of_def after_sep_def
      ban_seconds_def default_setting_def streak_def still_banned_def parse_proxies_def strip_def lstrip_def rstrip_def is_space_def is_newline_def Let_def)

text \<open>Reclaiming the pool's records changes no decision. After \<^verbatim>\<open>_prune\<close> at some moment of any run, every later question
  has the answer it would have had without it: whether a proxy is banned, the count of consecutive failures that sets
  the next ban, and the count of suspect failures that leads to one (the clock reads something other than 0).\<close>

theorem prune_changes_no_decision:
  assumes "\<forall>op\<in>set before. 0 \<notin> op_times op" "p = snd (run_pool cfg repr before (new_pool api))" "now \<le> t"
  shows "fst (is_banned x t (prune cfg now p)) = fst (is_banned x t p)
    \<and> streak cfg (pp_fails (prune cfg now p)) raw t = streak cfg (pp_fails p) raw t
    \<and> streak cfg (pp_suspects (prune cfg now p)) raw t = streak cfg (pp_suspects p) raw t"
proof -
  have inv: "pool_inv p" using run_pool_inv [OF new_pool_inv assms(1)] assms(2) by simp
  have s: "streak cfg (filter (\<lambda>(k, e). \<not> aged cfg now e) d) raw t = streak cfg d raw t" if "stamped d" for d
    using that dget_filter_cases [of d "\<lambda>(k, e). \<not> aged cfg now e" raw] assms(3)
    by (auto simp: streak_def stamped_def aged_def dest!: dget_Some_in split: option.splits)
  have "fst (is_banned x t (prune cfg now p)) = fst (is_banned x t p)"
    using inv dget_filter_cases [of "pp_banned p" "\<lambda>(k, until). still_banned until now" x] assms(3)
    by (auto simp: is_banned_def prune_def Let_def pool_inv_def still_banned_def split: option.splits)
  then show ?thesis using inv s by (simp add: prune_def Let_def pool_inv_def)
qed

theorem prune_changes_no_decision_witness:
  "streak default_setting (pp_fails (prune default_setting 1001 (snd (run_pool default_setting (\<lambda>_. []) [PBad 100 ''http://a:1''] (new_pool ''api''))))) ''a:1'' 1002
   = streak default_setting (pp_fails (snd (run_pool default_setting (\<lambda>_. []) [PBad 100 ''http://a:1''] (new_pool ''api'')))) ''a:1'' 1002"
  using prune_changes_no_decision [OF _ refl, of "[PBad 100 ''http://a:1'']" 1001 1002 _ default_setting "\<lambda>_. []" "''api''" "''a:1''"] by simp

text \<open>A ban can get shorter: a success that was still in flight clears the count of failures, and the next failure starts
  at the first step of the back-off again.\<close>

lemma late_success_shortens_ban:
  "pp_banned (snd (run_pool default_setting (\<lambda>_. []) [PBad 100 ''http://a:1'', PBad 101 ''http://a:1'', PBad 102 ''http://a:1''] (new_pool ''api'')))
     = [(''a:1'', Some 342), (''http://a:1'', Some 342)]"
  "pp_banned (snd (run_pool default_setting (\<lambda>_. []) [PBad 100 ''http://a:1'', PBad 101 ''http://a:1'', PBad 102 ''http://a:1'',
        PGood ''http://a:1'', PBad 103 ''http://a:1''] (new_pool ''api'')))
     = [(''a:1'', Some 163), (''http://a:1'', Some 163)]"
  by (simp_all add: report_bad_def report_good_def new_pool_def drop_proxy_def raw_of_def after_sep_def aged_def ddel_def
      ban_seconds_def default_setting_def streak_def Let_def)

end
