(* ===== verification/Downloader.thy ===== *)
theory Downloader
  imports Proxy_Pool Py_Num
begin

text \<open>
  What the downloaders share (\<^verbatim>\<open>netspy/network/downloader/_common.py\<close>) and how one is chosen (\<^verbatim>\<open>downloader/__init__.py\<close>): how many
  connection pools a proxy gets, the bounded cache of connection pools, which proxy a request uses, what is passed to the HTTP
  client, and the limits on what is read.  The HTTP clients themselves are third-party code.
\<close>

section \<open>Concurrency and shards\<close>

text \<open>The module variable \<open>_effective_concurrency\<close>.\<close>

definition set_effective_concurrency :: "int option \<Rightarrow> int option \<Rightarrow> int option" where
  "set_effective_concurrency n cur =
     (case n of None \<Rightarrow> None | Some k \<Rightarrow> Some (case cur of None \<Rightarrow> max k 1 | Some c \<Rightarrow> max c (max k 1)))"

definition effective_concurrency :: "setting \<Rightarrow> int option \<Rightarrow> int" where
  "effective_concurrency cfg cur = max (case cur of Some n \<Rightarrow> n | None \<Rightarrow> SPIDER_THREAD_COUNT cfg) 1"

definition pool_limits :: "setting \<Rightarrow> int option \<Rightarrow> int option \<Rightarrow> int \<times> int" where
  "pool_limits cfg cur concurrency =
     (let n = max (case concurrency of Some k \<Rightarrow> k | None \<Rightarrow> effective_concurrency cfg cur) 1 in (max n 100, max n 20))"

definition shard_count :: "setting \<Rightarrow> int option \<Rightarrow> int option \<Rightarrow> int option \<Rightarrow> int" where
  "shard_count cfg cur concurrency per_shard =
     (let p = (case per_shard of None \<Rightarrow> SESSION_SHARD_THREADS cfg | Some k \<Rightarrow> k)
      in if p \<le> 0 then 1
         else let n = max (case concurrency of Some k \<Rightarrow> k | None \<Rightarrow> effective_concurrency cfg cur) 1
              in max 1 (- ((- n) div p)))"

text \<open>\<open>idx\<close> is the number of the thread, \<open>counter\<close> the next free one.\<close>

definition shard_index :: "int \<Rightarrow> nat option \<Rightarrow> nat \<Rightarrow> int \<times> nat option \<times> nat" where
  "shard_index shards idx counter =
     (if shards \<le> 1 then (0, idx, counter)
      else case idx of Some i \<Rightarrow> (int i mod shards, idx, counter) | None \<Rightarrow> (int counter mod shards, Some counter, Suc counter))"

lemma ceil_div:
  assumes "0 < (p :: int)"
  shows "n \<le> (- ((- n) div p)) * p" "(- ((- n) div p)) * p < n + p"
proof -
  have "(- n) div p * p + (- n) mod p = - n" by (rule div_mult_mod_eq)
  then have "(- ((- n) div p)) * p = n + (- n) mod p" by (simp only: mult_minus_left)
  then show "n \<le> (- ((- n) div p)) * p" "(- ((- n) div p)) * p < n + p"
    using pos_mod_bound [OF assms, of "- n"] pos_mod_sign [OF assms, of "- n"] by linarith+
qed

text \<open>Enough shards for all threads, and not one more than needed.\<close>

lemma shard_count_enough:
  assumes "0 < p" "0 < n"
  shows "n \<le> shard_count cfg cur (Some n) (Some p) * p" "shard_count cfg cur (Some n) (Some p) * p < n + p"
proof -
  have "0 < (- ((- n) div p)) * p" using assms(2) ceil_div(1) [OF assms(1), of n] by linarith
  then have "0 < - ((- n) div p)" using assms(1) by (simp only: zero_less_mult_iff) linarith
  then have "shard_count cfg cur (Some n) (Some p) = - ((- n) div p)" using assms by (simp add: shard_count_def Let_def)
  then show "n \<le> shard_count cfg cur (Some n) (Some p) * p" "shard_count cfg cur (Some n) (Some p) * p < n + p"
    using ceil_div [OF assms(1), of n] by (simp_all only:)
qed

section \<open>ProxyClientCache\<close>

text \<open>An \<open>OrderedDict\<close>, least recently used first; \<open>fresh\<close> is what the factory makes.  In the runs below a client is its number.\<close>

type_synonym client_cache = "(string option, nat) pydict"

definition get_or_create :: "'k \<Rightarrow> 'c \<Rightarrow> int \<Rightarrow> ('k, 'c) pydict \<Rightarrow> ('c \<times> 'c list) \<times> ('k, 'c) pydict" where
  "get_or_create proxy fresh capacity items =
     (case dget items proxy of
        Some c \<Rightarrow> ((c, []), ddel items proxy @ [(proxy, c)])
      | None \<Rightarrow>
          let items1 = items @ [(proxy, fresh)]; surplus = length items1 - nat (max capacity 1)
          in ((fresh, map snd (take surplus items1)), drop surplus items1))"

definition cache_drain :: "('k, 'c) pydict \<Rightarrow> 'c list \<times> ('k, 'c) pydict" where
  "cache_drain items = (map snd items, [])"

text \<open>A sequence of calls: the next number, the cache, and the clients given back for closing.\<close>

fun cache_run :: "int \<Rightarrow> string option list \<Rightarrow> nat \<Rightarrow> client_cache \<Rightarrow> nat list \<Rightarrow> nat \<times> client_cache \<times> nat list" where
  "cache_run capacity [] n items gone = (n, items, gone)"
| "cache_run capacity (p # ps) n items gone =
     (case get_or_create p n capacity items of ((c, ev), items1) \<Rightarrow>
        cache_run capacity ps (if c = n then Suc n else n) items1 (gone @ ev))"

definition cache_inv :: "int \<Rightarrow> nat \<Rightarrow> client_cache \<Rightarrow> nat list \<Rightarrow> bool" where
  "cache_inv capacity n items gone \<longleftrightarrow> distinct (dkeys items) \<and> length items \<le> nat (max capacity 1)
     \<and> mset (map snd items) + mset gone = mset [0..<n]"

lemma ddel_end_mset:
  assumes "distinct (dkeys d)" "dget d k = Some v"
  shows "mset (ddel d k @ [(k, v)]) = mset d"
  using assms
proof (induction d)
  case (Cons e d)
  obtain k' v' where e: "e = (k', v')" by (cases e)
  show ?case
  proof (cases "k' = k")
    case True
    then have "ddel d k = d" using Cons.prems(1) by (force simp: e ddel_def dkeys_def intro: filter_True)
    then show ?thesis using Cons.prems(2) True by (simp add: e ddel_def)
  next
    case False
    then show ?thesis using Cons by (simp add: e ddel_def dkeys_def)
  qed
qed simp

lemma get_or_create_inv:
  assumes "cache_inv capacity n items gone" "get_or_create p n capacity items = ((c, ev), items1)"
  shows "cache_inv capacity (if c = n then Suc n else n) items1 (gone @ ev)" "dget items1 p = Some c" "c \<notin> set (gone @ ev)"
proof -
  note inv = assms(1) [unfolded cache_inv_def]
  have all: "mset (map snd items @ gone) = mset [0..<n]" using inv by simp
  have le: "set (map snd items) \<union> set gone = {0..<n}" using mset_eq_setD [OF all] by simp
  have disj: "distinct (map snd items @ gone)" using mset_eq_imp_distinct_iff [OF all] by simp
  have "cache_inv capacity (if c = n then Suc n else n) items1 (gone @ ev) \<and> dget items1 p = Some c \<and> c \<notin> set (gone @ ev)"
  proof (cases "dget items p")
    case (Some c')
    then have e: "c = c'" "ev = []" "items1 = ddel items p @ [(p, c)]" using assms(2) by (auto simp: get_or_create_def)
    have m: "mset items1 = mset items" unfolding e using ddel_end_mset [OF _ Some] inv e(1) by simp
    have k: "mset (dkeys items1) = mset (dkeys items)" unfolding dkeys_def mset_map m ..
    have sn: "mset (map snd items1) = mset (map snd items)" unfolding mset_map m ..
    have len: "length items1 = length items" by (rule mset_eq_length [OF m])
    have "c \<in> set (map snd items)" using dget_Some_in [OF Some] e(1) by force
    then have "c \<in> {0..<n}" "c \<notin> set gone" using le disj by (blast, auto)
    then have c: "c < n" "c \<notin> set gone" by simp_all
    have d1: "distinct (dkeys items1)" using k inv mset_eq_imp_distinct_iff by blast
    have "dget items1 p = Some c" by (rule dget_in_set [OF d1]) (simp add: e(3))
    then show ?thesis using inv e(2) d1 sn len c unfolding cache_inv_def by simp
  next
    case None
    let ?all = "items @ [(p, n)]" and ?k = "length (items @ [(p, n)]) - nat (max capacity 1)"
    have e: "c = n" "ev = map snd (take ?k ?all)" "items1 = drop ?k ?all" using assms(2) None by (auto simp: get_or_create_def Let_def)
    have k: "?k \<le> length items" by simp
    have d: "distinct (dkeys ?all)" using inv None by (simp add: dkeys_def dget_None_iff)
    have d1: "distinct (dkeys items1)" using distinct_drop [OF d, of ?k] unfolding e(3) dkeys_def drop_map .
    have sp: "mset (map snd ?all) = mset ev + mset (map snd items1)"
      unfolding e by (metis append_take_drop_id map_append mset_append)
    have "mset (map snd items1) + mset (gone @ ev) = mset (map snd ?all) + mset gone"
      unfolding sp mset_append by (simp only: ac_simps)
    also have "\<dots> = mset (map snd items @ gone) + {#n#}" by simp
    also have "\<dots> = mset [0..<Suc n]" unfolding all by simp
    finally have cons: "mset (map snd items1) + mset (gone @ ev) = mset [0..<Suc n]" .
    have "(p, n) \<in> set items1" unfolding e(3) using k by simp
    moreover have "n \<notin> set (map snd items)" "n \<notin> set gone" using le by (metis UnI1 atLeastLessThan_iff less_irrefl, metis UnI2 atLeastLessThan_iff less_irrefl)
    moreover from this(1) have "n \<notin> set ev" unfolding e(2) using k by (auto dest: in_set_takeD)
    moreover have "length items1 \<le> nat (max capacity 1)" unfolding e(3) by simp
    ultimately show ?thesis using cons d1 dget_in_set [OF d1] e(1) unfolding cache_inv_def by auto
  qed
  then show "cache_inv capacity (if c = n then Suc n else n) items1 (gone @ ev)" "dget items1 p = Some c" "c \<notin> set (gone @ ev)" by blast+
qed

lemma cache_run_inv:
  "cache_run capacity ps n items gone = (n', items', gone') \<Longrightarrow> cache_inv capacity n items gone \<Longrightarrow> cache_inv capacity n' items' gone'"
proof (induction ps arbitrary: n items gone)
  case (Cons p ps)
  obtain c ev items1 where g: "get_or_create p n capacity items = ((c, ev), items1)" by (metis surj_pair)
  show ?case using Cons.IH [OF _ get_or_create_inv(1) [OF Cons.prems(2) g]] Cons.prems(1) by (simp add: g)
qed simp

section \<open>Which proxy\<close>

text \<open>The pool is a function of its state, \<open>None\<close> when no pool is configured; what a request or a downloader names explicitly wins.
  The result is the proxy (\<open>VNone\<close>: a direct connection) and whether to try again later.\<close>

definition explicit_proxy :: "request \<Rightarrow> string option \<Rightarrow> pyval" where
  "explicit_proxy r fallback =
     or_chain [dget (requests_kwargs r) ''proxy'', dget (requests_kwargs r) ''proxies'', map_option VStr fallback]"

definition attempt_proxy :: "setting \<Rightarrow> ('p \<Rightarrow> string option \<times> 'p) option \<Rightarrow> request \<Rightarrow> string option \<Rightarrow> 'p \<Rightarrow> (pyval \<times> bool) \<times> 'p" where
  "attempt_proxy cfg pool r fallback p =
     (if truthy (explicit_proxy r fallback) then ((explicit_proxy r fallback, False), p)
      else case pool of
        None \<Rightarrow> ((VNone, False), p)
      | Some get \<Rightarrow>
          (case get p of (x, p1) \<Rightarrow>
             let v = (case x of None \<Rightarrow> VNone | Some s \<Rightarrow> VStr s)
             in if truthy v \<or> PROXY_ALLOW_DIRECT cfg then ((v, False), p1) else ((VNone, True), p1)))"

definition proxy_gap :: "setting \<Rightarrow> time" where
  "proxy_gap cfg = max (PROXY_MIN_INTERVAL cfg) (1 / 10)"

text \<open>\<open>pick_proxy\<close> (and its asynchronous twin): \<open>clk k\<close> and \<open>clk2 k\<close> are the clock readings of round \<open>k\<close>, the first only used in the first
  round that has to wait.  \<open>None\<close>: the fuel is used up.\<close>

fun pick_loop :: "nat \<Rightarrow> nat \<Rightarrow> setting \<Rightarrow> ('p \<Rightarrow> string option \<times> 'p) option \<Rightarrow> request \<Rightarrow> string option \<Rightarrow> (nat \<Rightarrow> time) \<Rightarrow> (nat \<Rightarrow> time)
    \<Rightarrow> time option \<Rightarrow> 'p \<Rightarrow> (pyval res \<times> 'p) option" where
  "pick_loop 0 k cfg pool r fallback clk clk2 deadline p = None"
| "pick_loop (Suc fuel) k cfg pool r fallback clk clk2 deadline p =
     (case attempt_proxy cfg pool r fallback p of ((v, wait), p1) \<Rightarrow>
        if \<not> wait then Some (Inr v, p1)
        else let d = (case deadline of None \<Rightarrow> clk k + PROXY_WAIT_TIMEOUT cfg | Some d \<Rightarrow> d)
             in if clk2 k \<ge> d then Some (Inl (raise_of ProxyUnavailableError), p1)
                else pick_loop fuel (Suc k) cfg pool r fallback clk clk2 (Some d) p1)"

definition pick_proxy :: "nat \<Rightarrow> setting \<Rightarrow> ('p \<Rightarrow> string option \<times> 'p) option \<Rightarrow> request \<Rightarrow> string option \<Rightarrow> (nat \<Rightarrow> time) \<Rightarrow> (nat \<Rightarrow> time) \<Rightarrow> 'p
    \<Rightarrow> (pyval res \<times> 'p) option" where
  "pick_proxy fuel cfg pool r fallback clk clk2 p = pick_loop fuel 0 cfg pool r fallback clk clk2 None p"

lemma attempt_wait: "attempt_proxy cfg pool r fallback p = ((v, w), p1) \<Longrightarrow> pool \<noteq> None \<Longrightarrow> \<not> PROXY_ALLOW_DIRECT cfg \<Longrightarrow> \<not> w \<Longrightarrow> truthy v"
  by (auto simp: attempt_proxy_def Let_def split: if_splits option.splits prod.splits)

lemma pick_loop_sound:
  "pick_loop fuel k cfg pool r fallback clk clk2 d p = Some (Inr v, p') \<Longrightarrow> pool \<noteq> None \<Longrightarrow> \<not> PROXY_ALLOW_DIRECT cfg \<Longrightarrow> truthy v"
proof (induction fuel k cfg pool r fallback clk clk2 d p rule: pick_loop.induct)
  case (2 fuel k cfg pool r fallback clk clk2 deadline p)
  obtain v1 w p1 where a: "attempt_proxy cfg pool r fallback p = ((v1, w), p1)" by (metis surj_pair)
  show ?case
  proof (cases w)
    case False
    then show ?thesis using "2.prems" attempt_wait [OF a] by (simp add: a)
  next
    case True
    then show ?thesis using "2.prems" "2.IH" [OF a [symmetric]] by (auto simp: a Let_def split: if_splits)
  qed
qed simp

lemma pick_loop_ends:
  assumes "\<forall>t. d = Some t \<longrightarrow> t \<le> clk2 (k + n)" "d = None \<longrightarrow> clk k + PROXY_WAIT_TIMEOUT cfg \<le> clk2 (k + n)"
  shows "\<exists>x p'. pick_loop (Suc n) k cfg pool r fallback clk clk2 d p = Some (x, p')"
  using assms
proof (induction n arbitrary: k d p)
  case 0
  then show ?case by (cases d) (auto simp: Let_def split: prod.splits)
next
  case (Suc n)
  obtain v1 w p1 where a: "attempt_proxy cfg pool r fallback p = ((v1, w), p1)" by (metis surj_pair)
  let ?d = "case d of None \<Rightarrow> clk k + PROXY_WAIT_TIMEOUT cfg | Some d \<Rightarrow> d"
  have "?d \<le> clk2 (Suc k + n)" using Suc.prems by (cases d) auto
  then have "\<exists>x p'. pick_loop (Suc n) (Suc k) cfg pool r fallback clk clk2 (Some ?d) p1 = Some (x, p')"
    using Suc.IH [of "Some ?d" "Suc k" p1] by simp
  then show ?case by (subst pick_loop.simps) (simp add: a Let_def del: pick_loop.simps)
qed

section \<open>Whose fault\<close>

text \<open>An exception of the HTTP client: of the three \<open>httpx\<close> classes that mean the proxy, or with the \<open>code\<close> attribute of \<open>curl_cffi\<close>.\<close>

record http_exn =
  hx_proxy_class :: bool
  hx_code :: "int option"

definition CURL_PROXY_CODES :: "int list" where "CURL_PROXY_CODES = [5, 7, 97]"

definition is_proxy_fault :: "http_exn \<Rightarrow> bool" where
  "is_proxy_fault e = (hx_proxy_class e \<or> (case hx_code e of None \<Rightarrow> False | Some c \<Rightarrow> c \<in> set CURL_PROXY_CODES))"

definition report_proxy_failure :: "setting \<Rightarrow> time \<Rightarrow> time \<Rightarrow> string \<Rightarrow> http_exn \<Rightarrow> proxy_pool option \<Rightarrow> proxy_pool option" where
  "report_proxy_failure cfg now now2 proxy e pool =
     (case pool of None \<Rightarrow> None
      | Some p \<Rightarrow> Some (if is_proxy_fault e then report_bad cfg now proxy p else report_suspect cfg now now2 proxy p))"

definition report_good_proxy :: "string \<Rightarrow> proxy_pool option \<Rightarrow> proxy_pool option" where
  "report_good_proxy proxy pool = map_option (report_good proxy) pool"

section \<open>What is sent\<close>

definition CLIENT_ONLY_KEYS :: "string list" where
  "CLIENT_ONLY_KEYS = [''verify'', ''proxy'', ''proxies'', ''cookies'']"

definition resolve_impersonate :: "setting \<Rightarrow> request \<Rightarrow> string option" where
  "resolve_impersonate cfg r =
     (let v = (case impersonate r of None \<Rightarrow> DOWNLOADER_IMPERSONATE cfg | Some s \<Rightarrow> s) in if v = [] then None else Some v)"

text \<open>\<open>ua\<close> is what \<open>get_random_user_agent\<close> draws, \<open>tmo\<close> the timeout that applies when the request names none.\<close>

definition send_kwargs :: "setting \<Rightarrow> string \<Rightarrow> pyval \<Rightarrow> string \<Rightarrow> request \<Rightarrow> (string, pyval) pydict" where
  "send_kwargs cfg ua tmo redirect_key r =
     (let k0 = filter (\<lambda>(k, v). k \<notin> set CLIENT_ONLY_KEYS) (requests_kwargs r);
          k1 = (case dget k0 ''allow_redirects'' of
                  Some v \<Rightarrow> if redirect_key \<noteq> ''allow_redirects'' then dset (ddel k0 ''allow_redirects'') redirect_key v else k0
                | None \<Rightarrow> k0);
          k2 = (if dget k1 ''timeout'' = None then dset k1 ''timeout'' tmo else k1);
          want = (if resolve_impersonate cfg r \<noteq> None then False
                  else case random_user_agent r of None \<Rightarrow> RANDOM_USER_AGENT cfg | Some b \<Rightarrow> b);
          hs = (case dget k2 ''headers'' of Some (VDict d) \<Rightarrow> d | _ \<Rightarrow> []);
          hs1 = (if want \<and> \<not> list_ex (\<lambda>(k, v). ascii_lower k = ''user-agent'') hs then dset hs ''User-Agent'' (VStr ua) else hs)
      in if hs1 \<noteq> [] then dset k2 ''headers'' (VDict hs1) else k2)"

definition wants_session :: "setting \<Rightarrow> request \<Rightarrow> bool" where
  "wants_session cfg r = (case use_session r of Some b \<Rightarrow> b | None \<Rightarrow> USE_SESSION cfg)"

definition downloader_key :: "setting \<Rightarrow> request \<Rightarrow> string" where
  "downloader_key cfg r =
     (if render r then ''playwright''
      else if resolve_impersonate cfg r \<noteq> None then (if wants_session cfg r then ''curl-session'' else ''curl'')
      else if DOWNLOADER_ASYNC cfg then ''async''
      else if wants_session cfg r then ''httpx-session'' else ''httpx'')"

section \<open>What is read\<close>

definition check_content_type :: "setting \<Rightarrow> (string, string) pydict \<Rightarrow> unit res" where
  "check_content_type cfg headers =
     (if ALLOWED_CONTENT_TYPES cfg = [] then Inr ()
      else let raw = (case dget headers ''content-type'' of Some (c # cs) \<Rightarrow> c # cs
                      | _ \<Rightarrow> (case dget headers ''Content-Type'' of Some s \<Rightarrow> s | None \<Rightarrow> []));
               ctype = ascii_lower (strip (before_sep '';'' raw))
           in if ctype = [] then Inr ()
              else if list_ex (\<lambda>p. is_prefix (ascii_lower p) ctype) (ALLOWED_CONTENT_TYPES cfg) then Inr ()
              else Inl (raise_of ContentTypeRejectedError))"

definition check_size :: "setting \<Rightarrow> string \<Rightarrow> unit res" where
  "check_size cfg body =
     (if MAX_RESPONSE_SIZE cfg > 0 \<and> int (length body) > MAX_RESPONSE_SIZE cfg then Inl (raise_of ResponseTooLargeError) else Inr ())"

text \<open>The loop of \<open>read_capped\<close> over the decoded chunks: what was buffered, and whether the limit stopped it.\<close>

fun read_loop :: "int \<Rightarrow> string list \<Rightarrow> string \<Rightarrow> bool \<times> string" where
  "read_loop limit [] buf = (True, buf)"
| "read_loop limit (c # cs) buf =
     (if int (length (buf @ c)) > limit then (False, buf @ c) else read_loop limit cs (buf @ c))"

definition read_capped :: "setting \<Rightarrow> string list \<Rightarrow> string option \<Rightarrow> string res" where
  "read_capped cfg chunks declared =
     (let limit = MAX_RESPONSE_SIZE cfg
      in if limit \<le> 0 then Inr (concat chunks)
         else if (case declared of None \<Rightarrow> False | Some t \<Rightarrow> (case py_int t of None \<Rightarrow> False | Some n \<Rightarrow> t \<noteq> [] \<and> n > limit))
         then Inl (raise_of ResponseTooLargeError)
         else case read_loop limit chunks [] of (True, buf) \<Rightarrow> Inr buf | (False, _) \<Rightarrow> Inl (raise_of ResponseTooLargeError))"

lemma read_loop_complete:
  "read_loop limit cs buf = (b, out) \<Longrightarrow> int (length buf) \<le> limit \<Longrightarrow>
    (b \<longleftrightarrow> int (length (buf @ concat cs)) \<le> limit) \<and> (b \<longrightarrow> out = buf @ concat cs)
    \<and> (\<not> b \<longrightarrow> (\<exists>c\<in>set cs. int (length out) \<le> limit + int (length c)))"
proof (induction limit cs buf rule: read_loop.induct)
  case (2 limit c cs buf)
  show ?case
  proof (cases "int (length (buf @ c)) > limit")
    case True
    then show ?thesis using "2.prems" by auto
  next
    case False
    then have "read_loop limit cs (buf @ c) = (b, out)" using "2.prems"(1) by simp
    from "2.IH" [OF False this] False show ?thesis by auto
  qed
qed auto

section \<open>Properties\<close>

text \<open>No request leaves without a proxy.  With a proxy pool configured and \<open>PROXY_ALLOW_DIRECT\<close> off, \<open>pick_proxy\<close> never returns the
  direct connection: it returns an explicit or a pooled proxy, or raises; and it does return, no later than the first round whose clock
  is past the waiting time, whatever the pool answers.\<close>

theorem pick_proxy_never_direct:
  assumes "pool \<noteq> None" and "\<not> PROXY_ALLOW_DIRECT cfg" and "clk 0 + PROXY_WAIT_TIMEOUT cfg \<le> clk2 n"
  shows "\<exists>x p'. pick_proxy (Suc n) cfg pool r fallback clk clk2 p = Some (x, p') \<and> (\<forall>v. x = Inr v \<longrightarrow> truthy v)"
proof -
  obtain x p' where x: "pick_proxy (Suc n) cfg pool r fallback clk clk2 p = Some (x, p')"
    using pick_loop_ends [of None clk2 0 n clk cfg pool r fallback p] assms(3) by (auto simp: pick_proxy_def)
  moreover have "truthy v" if "x = Inr v" for v using pick_loop_sound [of "Suc n" 0 cfg pool r fallback clk clk2 None p v p'] x that assms(1,2) by (simp add: pick_proxy_def)
  ultimately show ?thesis by blast
qed

theorem pick_proxy_never_direct_witness:
  "\<exists>x p'. pick_proxy 31 default_setting (Some (\<lambda>n. (if n < 3 then None else Some ''http://p:1'', Suc n))) (request_defaults ''u'') None real real 0
     = Some (x, p') \<and> (\<forall>v. x = Inr v \<longrightarrow> truthy v)"
  using pick_proxy_never_direct [of "Some (\<lambda>n. (if n < 3 then None else Some ''http://p:1'', Suc n))" default_setting real real 30 "request_defaults ''u''" None 0]
  by (simp add: default_setting_def)

text \<open>C38: The limit on what is read.  With a positive \<open>MAX_RESPONSE_SIZE\<close>, \<open>read_capped\<close> returns a body exactly when the decoded chunks together
  are within the limit and the declared length does not exceed it; the body is then all the chunks; in every other case it raises
  \<open>ResponseTooLargeError\<close>.  The declared length alone never lets a larger body through.\<close>

theorem read_capped_limit:
  assumes "0 < MAX_RESPONSE_SIZE cfg"
  shows "read_capped cfg chunks declared =
    (if int (length (concat chunks)) \<le> MAX_RESPONSE_SIZE cfg
        \<and> (\<forall>t n. declared = Some t \<and> t \<noteq> [] \<and> py_int t = Some n \<longrightarrow> n \<le> MAX_RESPONSE_SIZE cfg)
     then Inr (concat chunks) else Inl (raise_of ResponseTooLargeError))"
proof -
  obtain b out where r: "read_loop (MAX_RESPONSE_SIZE cfg) chunks [] = (b, out)" by force
  have c: "b \<longleftrightarrow> int (length (concat chunks)) \<le> MAX_RESPONSE_SIZE cfg" "b \<Longrightarrow> out = concat chunks"
    using read_loop_complete [OF r] assms by auto
  show ?thesis using assms r c by (auto simp: read_capped_def Let_def split: option.splits bool.splits)
qed

theorem read_capped_limit_witness:
  "read_capped (default_setting\<lparr>MAX_RESPONSE_SIZE := 4\<rparr>) [''ab'', ''cd'', ''e''] (Some ''x'') = Inl (raise_of ResponseTooLargeError)
   \<and> read_capped (default_setting\<lparr>MAX_RESPONSE_SIZE := 4\<rparr>) [''ab'', ''cd''] None = Inr ''abcd''"
  using read_capped_limit [of "default_setting\<lparr>MAX_RESPONSE_SIZE := 4\<rparr>" "[''ab'', ''cd'', ''e'']" "Some ''x''"]
    read_capped_limit [of "default_setting\<lparr>MAX_RESPONSE_SIZE := 4\<rparr>" "[''ab'', ''cd'']" None] by simp

text \<open>The cache of connection pools leaks nothing and closes nothing twice.  After any sequence of calls, every client that the factory ever made is
  either in the cache or was given back for closing, exactly once; the cache holds at most \<open>capacity\<close> clients, one per proxy; and the client that
  the next call returns is in the cache for that proxy and has not been given back for closing.\<close>

theorem client_cache_conserves:
  assumes "cache_run capacity ps 0 [] [] = (n, items, gone)" and "get_or_create p n capacity items = ((c, ev), items1)"
  shows "mset (map snd items) + mset gone = mset [0..<n] \<and> length items \<le> nat (max capacity 1) \<and> distinct (dkeys items)
    \<and> dget items1 p = Some c \<and> c \<notin> set gone \<and> c \<notin> set ev"
proof -
  have "cache_inv capacity 0 [] []" by (simp add: cache_inv_def dkeys_def)
  from cache_run_inv [OF assms(1) this] have inv: "cache_inv capacity n items gone" .
  from get_or_create_inv [OF inv assms(2)] inv show ?thesis by (simp add: cache_inv_def)
qed

theorem client_cache_conserves_witness:
  "cache_run 1 [Some ''a'', Some ''b'', Some ''b''] 0 [] [] = (2, [(Some ''b'', 1)], [0])
   \<and> mset (map snd [(Some ''b'', 1)]) + mset [0] = mset [0..<2]"
proof -
  have r: "cache_run 1 [Some ''a'', Some ''b'', Some ''b''] 0 [] [] = (2, [(Some ''b'', 1)], [0])"
    by (simp add: get_or_create_def Let_def ddel_def)
  obtain c ev items1 where g: "get_or_create None (2 :: nat) 1 [(Some ''b'', 1)] = ((c, ev), items1)" by (metis surj_pair)
  show ?thesis using client_cache_conserves [OF r g] r by blast
qed

text \<open>The client given back for closing may be the one another thread has just been handed: the cache does not know who still
  uses a client, and the downloader closes at once.\<close>

lemma evicts_client_in_use:
  "get_or_create (Some ''a'') 0 1 [] = ((0, []), [(Some ''a'', 0)])"
  "fst (get_or_create (Some ''b'') 1 1 [(Some ''a'', 0)]) = (1, [0])"
  by (simp_all add: get_or_create_def)

text \<open>What never reaches the HTTP client.\<close>

lemma send_kwargs_client_keys:
  assumes "k \<in> set CLIENT_ONLY_KEYS" "redirect_key \<notin> set CLIENT_ONLY_KEYS"
  shows "dget (send_kwargs cfg ua tmo redirect_key r) k = None"
proof -
  have "dget (filter (\<lambda>(k, v). k \<notin> set CLIENT_ONLY_KEYS) d) k = None" for d :: "(string, pyval) pydict"
    using assms(1) by (auto simp: dget_None_iff dkeys_def)
  moreover have "k \<noteq> ''timeout''" "k \<noteq> ''headers''" "k \<noteq> redirect_key" using assms by (auto simp: CLIENT_ONLY_KEYS_def)
  ultimately show ?thesis by (simp add: send_kwargs_def Let_def split: option.splits)
qed

text \<open>A request that impersonates a browser carries the headers it was given and no drawn user agent; a user agent of the request's own, in whatever case, is
  never replaced.\<close>

lemma send_kwargs_user_agent:
  assumes "requests_kwargs r = [(''headers'', VDict hs)]" "hs \<noteq> []"
    and "resolve_impersonate cfg r \<noteq> None \<or> list_ex (\<lambda>(k, v). ascii_lower k = ''user-agent'') hs"
  shows "dget (send_kwargs cfg ua tmo redirect_key r) ''headers'' = Some (VDict hs)"
proof -
  have f: "filter (\<lambda>(k, v). k \<notin> set CLIENT_ONLY_KEYS) (requests_kwargs r) = [(''headers'', VDict hs)]"
    using assms(1) by (simp add: CLIENT_ONLY_KEYS_def)
  show ?thesis using assms(2,3) by (auto simp: send_kwargs_def f Let_def)
qed

end
