(* ===== verification/User_Pool.thy ===== *)
theory User_Pool
  imports Net_Request Redis_Interface Redis_Mini
begin

text \<open>
  The account pools of \<^verbatim>\<open>netspy/network/user_pool\<close>: \<^verbatim>\<open>LocalUserPool\<close> and \<^verbatim>\<open>GuestUserPool\<close> (\<^verbatim>\<open>local.py\<close>), \<^verbatim>\<open>RedisUserPool\<close> (\<^verbatim>\<open>redis.py\<close>) and the
  middleware that puts an account's cookies on a request (\<^verbatim>\<open>middleware.py\<close>).

  A \<^verbatim>\<open>User\<close> of a local pool is an object that the caller and the pool share: it is named by its position in the pool's
  list, which only grows.  Cookies are a Python value (what a cache or a login callback delivers is not checked by the
  code).  The login callback is an argument: what it returns or raises for a user.  The per-account login locks only
  serialise callbacks; \<open>local_get\<close> is one call that runs to its end.
\<close>

section \<open>Accounts\<close>

record user =
  u_name :: string
  u_password :: string
  u_cookies :: pyval
  u_extra :: "(string, pyval) pydict"

definition plain_user :: "string \<Rightarrow> user" where
  "plain_user n = \<lparr>u_name = n, u_password = [], u_cookies = VDict [], u_extra = []\<rparr>"

type_synonym login_fn = "user \<Rightarrow> pyval res"

text \<open>\<^verbatim>\<open>dict(self._login(user) or {})\<close>: raises for a truthy value that is no dictionary.\<close>

definition login_cookies :: "login_fn \<Rightarrow> user \<Rightarrow> pyval res" where
  "login_cookies f u =
     (case f u of
        Inl e \<Rightarrow> Inl e
      | Inr v \<Rightarrow> if truthy v then (case v of VDict d \<Rightarrow> Inr (VDict d) | _ \<Rightarrow> Inl (raise_of PyTypeError)) else Inr (VDict []))"

section \<open>LocalUserPool, GuestUserPool\<close>

record local_pool =
  lu_users :: "user list"
  lu_blocked :: "(string, time) pydict"
  lu_idx :: nat

definition new_local :: "user list \<Rightarrow> local_pool" where
  "new_local us = \<lparr>lu_users = us, lu_blocked = [], lu_idx = 0\<rparr>"

definition add_user :: "user \<Rightarrow> local_pool \<Rightarrow> local_pool" where
  "add_user u p = p\<lparr>lu_users := lu_users p @ [u]\<rparr>"

definition blocked_until :: "local_pool \<Rightarrow> string \<Rightarrow> time" where
  "blocked_until p n = (case dget (lu_blocked p) n of None \<Rightarrow> 0 | Some t \<Rightarrow> t)"

text \<open>\<open>now\<close> is the reading at the start of \<open>get\<close>, \<open>now2\<close> the one after a failed login.\<close>

fun local_loop :: "login_fn option \<Rightarrow> time \<Rightarrow> time \<Rightarrow> nat \<Rightarrow> nat \<Rightarrow> local_pool \<Rightarrow> nat option \<times> local_pool" where
  "local_loop login now now2 tot 0 p = (None, p)"
| "local_loop login now now2 tot (Suc k) p =
     (let i = lu_idx p mod tot; u = lu_users p ! i; p1 = p\<lparr>lu_idx := lu_idx p + 1\<rparr>
      in if blocked_until p (u_name u) > now then local_loop login now now2 tot k p1
         else case login of
                None \<Rightarrow> (Some i, p1)
              | Some f \<Rightarrow>
                  if truthy (u_cookies u) then (Some i, p1)
                  else (case login_cookies f u of
                          Inl e \<Rightarrow> local_loop login now now2 tot k (p1\<lparr>lu_blocked := dset (lu_blocked p1) (u_name u) (now2 + 300)\<rparr>)
                        | Inr c \<Rightarrow> (Some i, p1\<lparr>lu_users := (lu_users p1)[i := u\<lparr>u_cookies := c\<rparr>]\<rparr>)))"

definition local_get :: "login_fn option \<Rightarrow> time \<Rightarrow> time \<Rightarrow> local_pool \<Rightarrow> nat option \<times> local_pool" where
  "local_get login now now2 p = local_loop login now now2 (length (lu_users p)) (length (lu_users p)) p"

definition local_report_bad :: "time \<Rightarrow> time \<Rightarrow> nat \<Rightarrow> local_pool \<Rightarrow> local_pool" where
  "local_report_bad now block i p =
     (let u = lu_users p ! i
      in p\<lparr>lu_blocked := dset (lu_blocked p) (u_name u) (now + block), lu_users := (lu_users p)[i := u\<lparr>u_cookies := VDict []\<rparr>]\<rparr>)"

record guest_pool = local_pool +
  gu_size :: int
  gu_counter :: nat

definition new_guest :: "int \<Rightarrow> guest_pool" where
  "new_guest n = \<lparr>lu_users = [], lu_blocked = [], lu_idx = 0, gu_size = max 1 n, gu_counter = 0\<rparr>"

fun add_guests :: "nat \<Rightarrow> guest_pool \<Rightarrow> guest_pool" where
  "add_guests 0 p = p"
| "add_guests (Suc k) p =
     (let c = gu_counter p + 1
      in add_guests k (p\<lparr>gu_counter := c, lu_users := lu_users p @ [plain_user (''guest-'' @ show_nat c)]\<rparr>))"

definition guest_live :: "time \<Rightarrow> guest_pool \<Rightarrow> nat" where
  "guest_live now p = length (filter (\<lambda>u. (case dget (lu_blocked p) (u_name u) of None \<Rightarrow> 0 | Some t \<Rightarrow> t) \<le> now) (lu_users p))"

text \<open>\<open>get\<close> tops the pool up and goes on as the base class does.\<close>

definition guest_get :: "login_fn \<Rightarrow> time \<Rightarrow> time \<Rightarrow> time \<Rightarrow> guest_pool \<Rightarrow> nat option \<times> guest_pool" where
  "guest_get login now now1 now2 p =
     (let p1 = add_guests (nat (gu_size p) - guest_live now p) p
      in case local_get (Some login) now1 now2 (local_pool.truncate p1) of
           (out, q) \<Rightarrow> (out, p1\<lparr>lu_users := lu_users q, lu_blocked := lu_blocked q, lu_idx := lu_idx q\<rparr>))"

section \<open>RedisUserPool\<close>

record redis_pool =
  ru_name :: string
  ru_accounts :: "(string, user) pydict"
  ru_ttl :: int
  ru_require :: bool
  ru_retry :: time

definition ready_key :: "string \<Rightarrow> string" where
  "ready_key name = name @ '':users:ready''"

definition cookie_key :: "string \<Rightarrow> string \<Rightarrow> string" where
  "cookie_key name n = name @ '':cookie:'' @ n"

definition accounts_of :: "user list \<Rightarrow> (string, user) pydict" where
  "accounts_of us = fold (\<lambda>u d. dset d (u_name u) u) us []"

text \<open>The constructor registers the accounts, one \<open>ZADD NX\<close> command for all of them.\<close>

definition new_redis_pool :: "'s redis \<Rightarrow> string \<Rightarrow> user list \<Rightarrow> int \<Rightarrow> bool \<Rightarrow> time \<Rightarrow> 's \<Rightarrow> redis_pool res \<times> 's" where
  "new_redis_pool R name us ttl req retry s =
     (let up = \<lparr>ru_name = name, ru_accounts = accounts_of us, ru_ttl = ttl, ru_require = req, ru_retry = retry\<rparr>
      in if ru_accounts up = [] then (Inr up, s)
         else (case rcall R (rdo (fold (\<lambda>n st. zadd_nx R (ready_key name) n 0 st) (dkeys (ru_accounts up)))) s of
                 (Inl e, s1) \<Rightarrow> (Inl e, s1) | (Inr _, s1) \<Rightarrow> (Inr up, s1)))"

text \<open>The cached cookies, \<open>None\<close> if there are none or they cannot be read.\<close>

definition cached_cookies :: "string option \<Rightarrow> pyval option" where
  "cached_cookies c =
     (case c of None \<Rightarrow> None
      | Some t \<Rightarrow> if t = [] then None else (case loads_json t of Inl e \<Rightarrow> None | Inr VNone \<Rightarrow> None | Inr v \<Rightarrow> Some v))"

definition keep_user :: "redis_pool \<Rightarrow> user \<Rightarrow> redis_pool" where
  "keep_user up u = (if dget (ru_accounts up) (u_name u) = None then up else up\<lparr>ru_accounts := dset (ru_accounts up) (u_name u) u\<rparr>)"

text \<open>\<open>ZADD\<close> back into the ready set, then \<open>return None\<close>.\<close>

definition put_back :: "'s redis \<Rightarrow> redis_pool \<Rightarrow> string \<Rightarrow> time \<Rightarrow> 's \<Rightarrow> user option res \<times> redis_pool \<times> 's" where
  "put_back R up n score s =
     (case rcall R (rdo (zadd R (ready_key (ru_name up)) n score)) s of (Inl e, s1) \<Rightarrow> (Inl e, up, s1) | (Inr _, s1) \<Rightarrow> (Inr None, up, s1))"

definition redis_get :: "'s redis \<Rightarrow> login_fn option \<Rightarrow> time \<Rightarrow> redis_pool \<Rightarrow> 's \<Rightarrow> user option res \<times> redis_pool \<times> 's" where
  "redis_get R login now up s =
     (case rcall R (zpopmin R (ready_key (ru_name up)) 1) s of
        (Inl e, s1) \<Rightarrow> (Inl e, up, s1)
      | (Inr [], s1) \<Rightarrow> (Inr None, up, s1)
      | (Inr ((n, score) # _), s1) \<Rightarrow>
          if score > now then put_back R up n score s1
          else
            let u = (case dget (ru_accounts up) n of Some u \<Rightarrow> u | None \<Rightarrow> plain_user n)
            in (case rcall R (rask (get_cmd R (cookie_key (ru_name up) n))) s1 of
                  (Inl e, s2) \<Rightarrow> (Inl e, up, s2)
                | (Inr cached, s2) \<Rightarrow>
                    (case cached_cookies cached of
                       Some c \<Rightarrow> (Inr (Some (u\<lparr>u_cookies := c\<rparr>)), keep_user up (u\<lparr>u_cookies := c\<rparr>), s2)
                     | None \<Rightarrow>
                         (case login of
                            Some f \<Rightarrow>
                              (case login_cookies f u of
                                 Inl e \<Rightarrow> put_back R up n (now + 300) s2
                               | Inr c \<Rightarrow>
                                   let u1 = u\<lparr>u_cookies := c\<rparr>; up1 = keep_user up u1
                                   in (case rcall R (rdo (set_ex R (cookie_key (ru_name up) n) (dumps_json c) (of_int (ru_ttl up)))) s2 of
                                         (Inl e, s3) \<Rightarrow> (Inl e, up1, s3)
                                       | (Inr _, s3) \<Rightarrow> (Inr (Some u1), up1, s3)))
                          | None \<Rightarrow> if ru_require up then put_back R up n (now + ru_retry up) s2 else (Inr (Some u), up, s2)))))"

definition redis_report_ok :: "'s redis \<Rightarrow> redis_pool \<Rightarrow> time \<Rightarrow> string \<Rightarrow> 's \<Rightarrow> unit res \<times> 's" where
  "redis_report_ok R up now n s = rcall R (rdo (zadd R (ready_key (ru_name up)) n now)) s"

definition redis_report_bad :: "'s redis \<Rightarrow> redis_pool \<Rightarrow> time \<Rightarrow> time \<Rightarrow> string \<Rightarrow> 's \<Rightarrow> unit res \<times> 's" where
  "redis_report_bad R up now block n s =
     (case rcall R (rdo (zadd R (ready_key (ru_name up)) n (now + block))) s of
        (Inl e, s1) \<Rightarrow> (Inl e, s1)
      | (Inr _, s1) \<Rightarrow> (case rcall R (del_cmd R (cookie_key (ru_name up) n)) s1 of (Inl e, s2) \<Rightarrow> (Inl e, s2) | (Inr _, s2) \<Rightarrow> (Inr (), s2)))"

section \<open>The middleware\<close>

definition BASE_COOKIES :: string where
  "BASE_COOKIES = ''_user_pool_base_cookies''"

text \<open>\<^verbatim>\<open>dict(v)\<close> of a value that is a dictionary; anything else raises.\<close>

fun as_cookies :: "pyval \<Rightarrow> (string, pyval) pydict res" where
  "as_cookies (VDict d) = Inr d"
| "as_cookies _ = Inl (raise_of PyTypeError)"

definition base_cookies :: "request \<Rightarrow> (string, pyval) pydict res \<times> request" where
  "base_cookies r =
     (case dget (custom r) BASE_COOKIES of
        Some v \<Rightarrow> if v \<noteq> VNone then (as_cookies v, r) else
          (case as_cookies (case dget (requests_kwargs r) ''cookies'' of Some c \<Rightarrow> if truthy c then c else VDict [] | None \<Rightarrow> VDict []) of
             Inl e \<Rightarrow> (Inl e, r) | Inr b \<Rightarrow> (Inr b, r\<lparr>custom := dset (custom r) BASE_COOKIES (VDict b)\<rparr>))
      | None \<Rightarrow>
          (case as_cookies (case dget (requests_kwargs r) ''cookies'' of Some c \<Rightarrow> if truthy c then c else VDict [] | None \<Rightarrow> VDict []) of
             Inl e \<Rightarrow> (Inl e, r) | Inr b \<Rightarrow> (Inr b, r\<lparr>custom := dset (custom r) BASE_COOKIES (VDict b)\<rparr>)))"

definition set_cookies :: "request \<Rightarrow> (string, pyval) pydict \<Rightarrow> request" where
  "set_cookies r c = r\<lparr>requests_kwargs := (if c \<noteq> [] then dset (requests_kwargs r) ''cookies'' (VDict c) else ddel (requests_kwargs r) ''cookies'')\<rparr>"

text \<open>\<^verbatim>\<open>{**a, **b}\<close>\<close>

definition dict_merge :: "(string, 'v) pydict \<Rightarrow> (string, 'v) pydict \<Rightarrow> (string, 'v) pydict" where
  "dict_merge a b = fold (\<lambda>(k, v) d. dset d k v) b a"

text \<open>\<open>_wait_for_user\<close>: \<open>gets k\<close> is what the \<open>k\<close>-th \<open>pool.get()\<close> returns, \<open>clk k\<close> the clock after it; \<open>None\<close> if \<open>fuel\<close> rounds
  were not enough.\<close>

fun wait_for_user :: "setting \<Rightarrow> (nat \<Rightarrow> user option) \<Rightarrow> (nat \<Rightarrow> time) \<Rightarrow> nat \<Rightarrow> nat \<Rightarrow> time option \<Rightarrow> user option option" where
  "wait_for_user cfg gets clk k 0 deadline = None"
| "wait_for_user cfg gets clk k (Suc fuel) deadline =
     (case gets k of
        Some u \<Rightarrow> Some (Some u)
      | None \<Rightarrow>
          if USER_POOL_ALLOW_ANONYMOUS cfg then Some None
          else let d = (case deadline of None \<Rightarrow> clk k + USER_POOL_WAIT_TIMEOUT cfg | Some d \<Rightarrow> d)
               in if clk k \<ge> d then Some None else wait_for_user cfg gets clk (Suc k) fuel (Some d))"

definition wait_pause :: "setting \<Rightarrow> time" where
  "wait_pause cfg = min (1 / 2) (max (USER_POOL_WAIT_TIMEOUT cfg / 10) (1 / 20))"

text \<open>\<open>process_request\<close>, given the account that \<open>_wait_for_user\<close> came back with: the answer to the chain and the request object,
  which was changed in place.\<close>

definition user_request :: "setting \<Rightarrow> user option \<Rightarrow> request \<Rightarrow> bool res \<times> request" where
  "user_request cfg found r =
     (case base_cookies r of
        (Inl e, r1) \<Rightarrow> (Inl e, r1)
      | (Inr base, r1) \<Rightarrow>
          let r2 = r1\<lparr>user_attr := None\<rparr>
          in (case found of
                None \<Rightarrow> if \<not> USER_POOL_ALLOW_ANONYMOUS cfg then (Inl (raise_of UserUnavailableError), r2)
                         else (Inr False, set_cookies r2 base)
              | Some u \<Rightarrow>
                  (case as_cookies (u_cookies u) of
                     Inl e \<Rightarrow> (Inl e, r2)
                   | Inr c \<Rightarrow> (Inr True, (set_cookies r2 (dict_merge base c))\<lparr>user_attr := Some (u_name u)\<rparr>))))"

datatype pool_report = ReportOk string | ReportBad string | NoReport

text \<open>\<open>process_response\<close>: the request to retry, if any, and what the pool is told; \<open>check\<close> is \<open>check_login\<close> (absent, or its answer,
  an exception counting as logged in).\<close>

definition logged_in :: "bool res option \<Rightarrow> bool" where
  "logged_in check = (case check of None \<Rightarrow> True | Some (Inl e) \<Rightarrow> True | Some (Inr b) \<Rightarrow> b)"

definition user_response :: "bool res option \<Rightarrow> nat \<Rightarrow> request \<Rightarrow> request option res \<times> pool_report" where
  "user_response check o' r =
     (if \<not> logged_in check
      then let report = (case user_attr r of Some n \<Rightarrow> ReportBad n | None \<Rightarrow> NoReport)
           in (case copy_request o' r of
                 Inl e \<Rightarrow> (Inl e, report)
               | Inr retry \<Rightarrow>
                   (case base_cookies retry of
                      (Inl e, r1) \<Rightarrow> (Inl e, report)
                    | (Inr base, r1) \<Rightarrow> (Inr (Some ((set_cookies r1 base)\<lparr>filter_repeat := False\<rparr>)), report)))
      else (Inr None, case user_attr r of Some n \<Rightarrow> ReportOk n | None \<Rightarrow> NoReport))"

section \<open>A pool as its clients see it\<close>

text \<open>
  What the middleware relies on: an account that was reported bad is not handed out before its time.  \<open>barred p n t\<close>
  says that the pool \<open>p\<close> will not hand out \<open>n\<close> at time \<open>t\<close>.  Handing out accounts at any time up to \<open>t\<close> keeps it barred.
\<close>

fun take_all :: "('e \<Rightarrow> time \<Rightarrow> 'p \<Rightarrow> string option \<times> 'p) \<Rightarrow> ('e \<times> time) list \<Rightarrow> 'p \<Rightarrow> string option list \<times> 'p" where
  "take_all tk [] p = ([], p)"
| "take_all tk ((e, now) # es) p = (case tk e now p of (x, p1) \<Rightarrow> case take_all tk es p1 of (xs, p2) \<Rightarrow> (x # xs, p2))"

locale account_pool =
  fixes tk :: "'e \<Rightarrow> time \<Rightarrow> 'p \<Rightarrow> string option \<times> 'p" and bad :: "'e \<Rightarrow> time \<Rightarrow> time \<Rightarrow> string \<Rightarrow> 'p \<Rightarrow> unit res \<times> 'p"
    and barred :: "'p \<Rightarrow> string \<Rightarrow> time \<Rightarrow> bool" and ok :: "'p \<Rightarrow> bool"
  assumes take_free: "ok p \<Longrightarrow> tk e now p = (Some n, p') \<Longrightarrow> \<not> barred p n now"
    and take_barred: "ok p \<Longrightarrow> tk e now p = (x, p') \<Longrightarrow> barred p n t \<Longrightarrow> now \<le> t \<Longrightarrow> barred p' n t"
    and take_ok: "ok p \<Longrightarrow> tk e now p = (x, p') \<Longrightarrow> ok p'"
    and bad_barred: "ok p \<Longrightarrow> bad e now block n p = (Inr (), p') \<Longrightarrow> t < now + block \<Longrightarrow> barred p' n t"
    and bad_ok: "ok p \<Longrightarrow> bad e now block n p = (a, p') \<Longrightarrow> ok p'"
    and barred_before: "barred p n t \<Longrightarrow> t' \<le> t \<Longrightarrow> barred p n t'"
begin

lemma barred_not_taken:
  assumes "ok p" "barred p n t" "\<forall>(e, now)\<in>set es. now \<le> t"
  shows "Some n \<notin> set (fst (take_all tk es p))"
  using assms
proof (induction es arbitrary: p)
  case (Cons a es)
  obtain e now where a: "a = (e, now)" by force
  obtain x p1 where x: "tk e now p = (x, p1)" by (metis surj_pair)
  have now: "now \<le> t" using Cons.prems(3) a by simp
  have "x \<noteq> Some n" using take_free [OF Cons.prems(1)] x barred_before [OF Cons.prems(2) now] by blast
  moreover have "Some n \<notin> set (fst (take_all tk es p1))"
    using Cons.IH [OF take_ok [OF Cons.prems(1) x] take_barred [OF Cons.prems(1) x Cons.prems(2) now]] Cons.prems(3) by simp
  ultimately show ?case by (auto simp: a x split: prod.splits)
qed simp

lemma reported_not_taken:
  assumes "ok p" "bad e now block n p = (Inr (), p')" "\<forall>(e, t)\<in>set es. t < now + block"
  shows "Some n \<notin> set (fst (take_all tk es p'))"
proof (cases "es = []")
  case False
  define t where "t = Max (snd ` set es)"
  have "t \<in> snd ` set es" unfolding t_def using False by (intro Max_in) auto
  then have "t < now + block" using assms(3) by auto
  moreover have "\<forall>(e, t')\<in>set es. t' \<le> t" unfolding t_def by (auto intro!: Max_ge rev_image_eqI)
  ultimately show ?thesis using barred_not_taken [OF bad_ok [OF assms(1,2)] bad_barred [OF assms(1,2)]] by blast
qed simp

end

section \<open>The local pool keeps the contract\<close>

text \<open>\<open>get\<close> and \<open>report_bad\<close> by name; a \<open>User\<close> that is not of the pool is only blocked.\<close>

definition local_take :: "login_fn option \<times> time \<Rightarrow> time \<Rightarrow> local_pool \<Rightarrow> string option \<times> local_pool" where
  "local_take = (\<lambda>(login, now2) now p. case local_get login now now2 p of (x, p') \<Rightarrow> (map_option (\<lambda>i. u_name (lu_users p ! i)) x, p'))"

definition local_bad :: "login_fn option \<times> time \<Rightarrow> time \<Rightarrow> time \<Rightarrow> string \<Rightarrow> local_pool \<Rightarrow> unit res \<times> local_pool" where
  "local_bad = (\<lambda>_ now block n p.
     let i = length (takeWhile (\<lambda>u. u_name u \<noteq> n) (lu_users p))
     in (Inr (), if i < length (lu_users p) then local_report_bad now block i p else p\<lparr>lu_blocked := dset (lu_blocked p) n (now + block)\<rparr>))"

definition local_barred :: "local_pool \<Rightarrow> string \<Rightarrow> time \<Rightarrow> bool" where
  "local_barred p n t = (t < blocked_until p n)"

lemma local_loop_barred:
  assumes "local_loop login now now2 tot k p = (x, p')" "now \<le> t"
  shows "(local_barred p n t \<longrightarrow> local_barred p' n t) \<and> (\<forall>i. x = Some i \<longrightarrow> \<not> local_barred p (u_name (lu_users p ! i)) now)"
  using assms(1)
proof (induction k arbitrary: p)
  case (Suc k)
  define i where "i = lu_idx p mod tot"
  define u where "u = lu_users p ! i"
  define p1 where "p1 = p\<lparr>lu_idx := lu_idx p + 1\<rparr>"
  have same: "local_barred p1 m t' = local_barred p m t'" for m t' by (simp add: p1_def local_barred_def blocked_until_def)
  have step: "(if blocked_until p (u_name u) > now then local_loop login now now2 tot k p1
         else case login of
                None \<Rightarrow> (Some i, p1)
              | Some f \<Rightarrow>
                  if truthy (u_cookies u) then (Some i, p1)
                  else (case login_cookies f u of
                          Inl e \<Rightarrow> local_loop login now now2 tot k (p1\<lparr>lu_blocked := dset (lu_blocked p1) (u_name u) (now2 + 300)\<rparr>)
                        | Inr c \<Rightarrow> (Some i, p1\<lparr>lu_users := (lu_users p1)[i := u\<lparr>u_cookies := c\<rparr>]\<rparr>))) = (x, p')"
    using Suc.prems unfolding local_loop.simps Let_def i_def u_def p1_def .
  show ?case
  proof (cases "blocked_until p (u_name u) > now")
    case True
    then show ?thesis using Suc.IH [of p1] step same by (simp add: p1_def)
  next
    case False
    let ?p2 = "p1\<lparr>lu_blocked := dset (lu_blocked p1) (u_name u) (now2 + 300)\<rparr>"
    have raised: "local_barred ?p2 m t'" if "local_barred p m t'" "now \<le> t'" for m t'
      using that False by (auto simp: local_barred_def blocked_until_def p1_def)
    have frame: "local_barred (p1\<lparr>lu_users := l\<rparr>) m t' = local_barred p m t'" for l m t'
      by (simp add: p1_def local_barred_def blocked_until_def)
    have free: "\<not> local_barred p (u_name u) now" using False by (simp add: local_barred_def)
    consider "x = Some i" "p' = p1 \<or> (\<exists>l. p' = p1\<lparr>lu_users := l\<rparr>)" | "local_loop login now now2 tot k ?p2 = (x, p')"
      using step False by (auto split: option.splits if_splits sum.splits)
    then show ?thesis
    proof cases
      case 1
      then show ?thesis using same frame free by (auto simp: u_def)
    next
      case 2
      from Suc.IH [OF this] show ?thesis using raised assms(2) by (auto simp: p1_def)
    qed
  qed
qed simp

interpretation lup: account_pool local_take local_bad local_barred "\<lambda>_. True"
proof unfold_locales
  show "\<not> local_barred p n now" if "local_take e now p = (Some n, p')" for e now p n p'
    using that local_loop_barred [OF _ order_refl] by (fastforce simp: local_take_def local_get_def split: prod.splits)
  show "local_barred p' n t" if "local_take e now p = (x, p')" "local_barred p n t" "now \<le> t" for e now p x p' n t
    using that local_loop_barred [of _ now _ _ _ p _ p' t n] by (auto simp: local_take_def local_get_def split: prod.splits)
  show "local_barred p' n t" if "local_bad e now block n p = (Inr (), p')" "t < now + block" for e now block n p p' t
  proof -
    have "u_name (lu_users p ! i) = n" if "i = length (takeWhile (\<lambda>u. u_name u \<noteq> n) (lu_users p))" "i < length (lu_users p)" for i
      using that nth_length_takeWhile [of "\<lambda>u. u_name u \<noteq> n" "lu_users p"] by auto
    then show ?thesis
      using that by (auto simp: local_bad_def local_report_bad_def Let_def local_barred_def blocked_until_def)
  qed
qed (auto simp: local_barred_def)

section \<open>The Redis pool keeps the contract\<close>

definition named :: "(string, user) pydict \<Rightarrow> bool" where
  "named d \<longleftrightarrow> (\<forall>n u. dget d n = Some u \<longrightarrow> u_name u = n)"

definition node_ok :: "string \<Rightarrow> redis_pool \<Rightarrow> bool" where
  "node_ok name up \<longleftrightarrow> ru_name up = name \<and> named (ru_accounts up)"

lemma named_dset: "named d \<Longrightarrow> named (dset d (u_name u) u)"
  unfolding named_def by (metis dget_dset option.inject)

lemma named_accounts: "named (accounts_of us)"
proof -
  have "named d \<Longrightarrow> named (fold (\<lambda>u d. dset d (u_name u) u) us d)" for d
    by (induction us arbitrary: d) (simp_all add: named_dset)
  moreover have "named []" by (simp add: named_def)
  ultimately show ?thesis by (simp add: accounts_of_def)
qed

lemma keep_user_ok: "node_ok name up \<Longrightarrow> node_ok name (keep_user up u)"
  by (simp add: node_ok_def keep_user_def named_dset)

context redis_server
begin

lemma pop_one:
  assumes "rcall R (zpopmin R k 1) s = (a, s1)"
  obtains (none) "zsets (view s1) k = zsets (view s) k" "\<forall>rows. a = Inr rows \<longrightarrow> rows = []"
  | (one) n x where "zsets (view s) k n = Some x" "zsets (view s1) k = (zsets (view s) k)(n := None)" "\<forall>rows. a = Inr rows \<longrightarrow> rows = [(n, x)]"
proof -
  have popped: "(fst (zpopmin R k 1 s0) = [] \<and> zsets (view (snd (zpopmin R k 1 s0))) k = zsets (view s0) k)
     \<or> (\<exists>n x. fst (zpopmin R k 1 s0) = [(n, x)] \<and> zsets (view s0) k n = Some x
          \<and> zsets (view (snd (zpopmin R k 1 s0))) k = (zsets (view s0) k)(n := None))" for s0
  proof (cases "fst (zpopmin R k 1 s0)")
    case Nil
    then show ?thesis by (simp add: zpopmin_view restrict_map_def)
  next
    case (Cons r rs)
    then have "rs = []" using zpopmin_length [of k 1 s0] by (cases rs) auto
    then show ?thesis using Cons zpopmin_rows [of "fst r" "snd r" k 1 s0] by (cases r) (auto simp: zpopmin_view restrict_complement_singleton_eq)
  qed
  consider "view s1 = view s" "\<forall>rows. a \<noteq> Inr rows" | s0 where "view s0 = view s" "s1 = snd (zpopmin R k 1 s0)" "a = Inr (fst (zpopmin R k 1 s0)) \<or> (\<forall>rows. a \<noteq> Inr rows)"
    using rcall_Inl [of "zpopmin R k 1" s] rcall_Inr [of "zpopmin R k 1" s] assms by (cases a) (fastforce, fastforce)
  then show ?thesis
  proof cases
    case 1
    then show ?thesis using none by simp
  next
    case (2 s0)
    from popped [of s0] show ?thesis using none one 2 by fastforce
  qed
qed

text \<open>What one \<open>get\<close> does to the ready set.\<close>

lemma put_back_zset:
  assumes "put_back R up n score s = (x, up', s')" "k = ready_key (ru_name up)"
  shows "(\<forall>u. x \<noteq> Inr (Some u)) \<and> up' = up \<and> (zsets (view s') k = zsets (view s) k \<or> zsets (view s') k = (zsets (view s) k)(n \<mapsto> score))"
proof -
  obtain a s1 where c: "rcall R (rdo (zadd R k n score)) s = (a, s1)" by (metis surj_pair)
  have "view s1 = view s \<or> (\<exists>s0. view s0 = view s \<and> s1 = zadd R k n score s0)"
    using rcall_view [of "rdo (zadd R k n score)" s] c by simp
  then have "zsets (view s1) k = zsets (view s) k \<or> zsets (view s1) k = (zsets (view s) k)(n \<mapsto> score)" by (auto simp: zadd_view)
  then show ?thesis using assms c by (auto simp: put_back_def split: sum.splits)
qed

lemma redis_get_zset:
  assumes "redis_get R login now up s = (x, up', s')" "node_ok name up" "k = ready_key name"
  obtains (same) "zsets (view s') k = zsets (view s) k" "\<forall>u. x \<noteq> Inr (Some u)"
  | (popped) n score where "zsets (view s) k n = Some score" "zsets (view s') k = (zsets (view s) k)(n := None)"
      "\<forall>u. x = Inr (Some u) \<longrightarrow> u_name u = n \<and> score \<le> now"
  | (readded) n score y where "zsets (view s) k n = Some score" "zsets (view s') k = (zsets (view s) k)(n \<mapsto> y)"
      "y = score \<or> score \<le> now" "\<forall>u. x \<noteq> Inr (Some u)"
proof -
  have name: "ru_name up = name" using assms(2) by (simp add: node_ok_def)
  obtain a s1 where pop: "rcall R (zpopmin R k 1) s = (a, s1)" by (metis surj_pair)
  from pop show ?thesis
  proof (cases rule: pop_one)
    case none
    then have "s' = s1 \<and> (\<forall>u. x \<noteq> Inr (Some u))"
      using assms pop name by (cases a) (auto simp: redis_get_def)
    with none same show ?thesis by simp
  next
    case (one n score)
    show ?thesis
    proof (cases a)
      case (Inl e)
      then have "s' = s1 \<and> (\<forall>u. x \<noteq> Inr (Some u))" using assms pop name by (auto simp: redis_get_def)
      with one popped show ?thesis by simp
    next
      case (Inr rows)
      with one have a: "a = Inr [(n, score)]" by simp
      define u where "u = (case dget (ru_accounts up) n of Some u \<Rightarrow> u | None \<Rightarrow> plain_user n)"
      have un: "u_name u = n" using assms(2) by (auto simp: u_def plain_user_def node_ok_def named_def split: option.splits)
      obtain c s2 where ask: "rcall R (rask (get_cmd R (cookie_key name n))) s1 = (c, s2)" by (metis surj_pair)
      have v2: "view s2 = view s1" using rcall_ask_view [of "rask (get_cmd R (cookie_key name n))" s1] ask by simp
      have put: thesis if "put_back R up n y st = (x, up', s')" "view st = view s1" "y = score \<or> score \<le> now" for y st
        using put_back_zset [OF that(1)] name assms(3) that(2,3) one readded [of n score y] popped [of n score] by auto
      obtain d s3 where st: "rcall R (rdo (set_ex R (cookie_key name n) (dumps_json (projr (login_cookies (the login) u))) (of_int (ru_ttl up)))) s2 = (d, s3)"
        by (metis surj_pair)
      have v3: "zsets (view s3) k = zsets (view s1) k"
        using rcall_view [of "rdo (set_ex R (cookie_key name n) (dumps_json (projr (login_cookies (the login) u))) (of_int (ru_ttl up)))" s2] st v2
        by (auto simp: set_ex_view)
      have out: thesis if "s' = s2 \<or> s' = s3" "\<forall>v. x = Inr (Some v) \<longrightarrow> u_name v = n \<and> score \<le> now"
        using popped [of n score] that one v2 v3 by auto
      show ?thesis
        using assms(1) pop a ask st put [of score s1] put [of "now + 300" s2] put [of "now + ru_retry up" s2] out un v2
        unfolding redis_get_def name assms(3) [symmetric] u_def [symmetric]
        by (auto simp: Let_def u_def [symmetric] split: if_splits sum.splits option.splits)
    qed
  qed
qed

end

text \<open>A node: its login callback, its accounts and the options of its pool.\<close>

type_synonym node = "login_fn option \<times> user list \<times> int \<times> bool \<times> time"

definition node_pool :: "string \<Rightarrow> node \<Rightarrow> redis_pool" where
  "node_pool name = (\<lambda>(login, us, ttl, req, retry). \<lparr>ru_name = name, ru_accounts = accounts_of us, ru_ttl = ttl, ru_require = req, ru_retry = retry\<rparr>)"

lemma node_pool_ok: "node_ok name (node_pool name e)"
  by (cases e) (simp add: node_pool_def node_ok_def named_accounts)

definition redis_take :: "'s redis \<Rightarrow> string \<Rightarrow> node \<Rightarrow> time \<Rightarrow> 's \<Rightarrow> string option \<times> 's" where
  "redis_take R name e now s =
     (case redis_get R (fst e) now (node_pool name e) s of (x, up', s') \<Rightarrow> (case x of Inr (Some u) \<Rightarrow> Some (u_name u) | _ \<Rightarrow> None, s'))"

definition redis_bad :: "'s redis \<Rightarrow> string \<Rightarrow> node \<Rightarrow> time \<Rightarrow> time \<Rightarrow> string \<Rightarrow> 's \<Rightarrow> unit res \<times> 's" where
  "redis_bad R name e now block n s = redis_report_bad R (node_pool name e) now block n s"

definition redis_barred :: "('s \<Rightarrow> rview) \<Rightarrow> string \<Rightarrow> 's \<Rightarrow> string \<Rightarrow> time \<Rightarrow> bool" where
  "redis_barred view name s n t \<longleftrightarrow> (\<forall>x. zsets (view s) (ready_key name) n = Some x \<longrightarrow> t < x)"

context redis_server
begin

lemma report_bad_zset:
  assumes "redis_report_bad R up now block n s = (a, s')" "k = ready_key (ru_name up)"
  shows "(zsets (view s') k = zsets (view s) k \<and> a \<noteq> Inr ()) \<or> zsets (view s') k = (zsets (view s) k)(n \<mapsto> now + block)"
proof -
  obtain b s1 where c: "rcall R (rdo (zadd R k n (now + block))) s = (b, s1)" by (metis surj_pair)
  have z: "(zsets (view s1) k = zsets (view s) k \<and> b \<noteq> Inr ()) \<or> zsets (view s1) k = (zsets (view s) k)(n \<mapsto> now + block)"
    using rcall_Inl [of "rdo (zadd R k n (now + block))" s] rcall_Inr [of "rdo (zadd R k n (now + block))" s] c
    by (cases b) (auto simp: zadd_view)
  obtain d s2 where del: "rcall R (del_cmd R (cookie_key (ru_name up) n)) s1 = (d, s2)" by (metis surj_pair)
  have "zsets (view s2) k = zsets (view s1) k"
    using rcall_view [of "del_cmd R (cookie_key (ru_name up) n)" s1] del by (auto simp: del_view)
  then show ?thesis using assms c z del by (cases b; cases d) (auto simp: redis_report_bad_def)
qed

end

sublocale redis_server \<subseteq> rup: account_pool "redis_take R name" "redis_bad R name" "redis_barred view name" "\<lambda>_. True" for name
proof unfold_locales
  show "\<not> redis_barred view name p n now" if tk: "redis_take R name e now p = (Some n, p')" for e now p n p'
  proof -
    obtain g up' where g: "redis_get R (fst e) now (node_pool name e) p = (g, up', p')" "\<exists>u. g = Inr (Some u) \<and> u_name u = n"
      using tk by (auto simp: redis_take_def split: prod.splits sum.splits option.splits)
    from g(1) node_pool_ok refl show ?thesis
      by (cases rule: redis_get_zset) (use g(2) in \<open>auto simp: redis_barred_def\<close>)
  qed
  show "redis_barred view name p' n t" if tk: "redis_take R name e now p = (x, p')" and bar: "redis_barred view name p n t" "now \<le> t" for e now p x p' n t
  proof -
    obtain g up' where g: "redis_get R (fst e) now (node_pool name e) p = (g, up', p')"
      using tk by (auto simp: redis_take_def split: prod.splits)
    from g node_pool_ok refl show ?thesis
      by (cases rule: redis_get_zset) (use bar in \<open>auto simp: redis_barred_def\<close>)
  qed
  show "redis_barred view name p' n t" if "redis_bad R name e now block n p = (Inr (), p')" "t < now + block" for e now block n p p' t
    using that report_bad_zset [of "node_pool name e" now block n p "Inr ()" p'] by (cases e) (auto simp: redis_bad_def redis_barred_def node_pool_def)
qed (auto simp: redis_barred_def)

context redis_server
begin

lemma account_contract: "account_pool (redis_take R name) (redis_bad R name) (redis_barred view name) (\<lambda>_. True)"
  by (rule rup.account_pool_axioms)

end

section \<open>Many nodes\<close>

text \<open>The nodes of one crawl: the server and the accounts that are out on loan, one entry per loan.\<close>

inductive lend :: "'s redis \<Rightarrow> string \<Rightarrow> 's \<times> string list \<Rightarrow> 's \<times> string list \<Rightarrow> bool" for R name where
  lend_get: "redis_take R name e now s = (Some n, s') \<Longrightarrow> lend R name (s, out) (s', n # out)"
| lend_none: "redis_take R name e now s = (None, s') \<Longrightarrow> lend R name (s, out) (s', out)"
| lend_ok: "n \<in> set out \<Longrightarrow> redis_report_ok R (node_pool name e) now n s = (a, s') \<Longrightarrow> lend R name (s, out) (s', remove1 n out)"
| lend_bad: "n \<in> set out \<Longrightarrow> redis_report_bad R (node_pool name e) now block n s = (a, s') \<Longrightarrow> lend R name (s, out) (s', remove1 n out)"

definition lend_inv :: "('s \<Rightarrow> rview) \<Rightarrow> string \<Rightarrow> 's \<times> string list \<Rightarrow> bool" where
  "lend_inv view name = (\<lambda>(s, out). distinct out \<and> (\<forall>n\<in>set out. zsets (view s) (ready_key name) n = None))"

context redis_server
begin

lemma take_zset:
  assumes "redis_take R name e now s = (x, s')"
  shows "(\<forall>n. x = Some n \<longrightarrow> zsets (view s) (ready_key name) n \<noteq> None \<and> zsets (view s') (ready_key name) n = None)
    \<and> dom (zsets (view s') (ready_key name)) \<subseteq> dom (zsets (view s) (ready_key name))"
proof -
  obtain g up' where g: "redis_get R (fst e) now (node_pool name e) s = (g, up', s')"
    and x: "x = (case g of Inr (Some u) \<Rightarrow> Some (u_name u) | _ \<Rightarrow> None)"
    using assms by (auto simp: redis_take_def split: prod.splits)
  have xu: "\<exists>u. g = Inr (Some u) \<and> u_name u = n" if "x = Some n" for n
    using that x by (auto split: sum.splits option.splits)
  have x0: "x = None" if "\<forall>u. g \<noteq> Inr (Some u)" using xu that by (cases x) auto
  from g node_pool_ok refl show ?thesis
  proof (cases rule: redis_get_zset)
    case same
    then show ?thesis using x0 by simp
  next
    case (popped m score)
    have "n = m" if "x = Some n" for n using xu [OF that] popped(3) by auto
    then show ?thesis using popped(1,2) by auto
  next
    case (readded m score y)
    then show ?thesis using x0 by (auto simp: insert_absorb)
  qed
qed

lemma report_dom:
  "redis_report_ok R (node_pool name e) now n s = (a, s') \<Longrightarrow> dom (zsets (view s') (ready_key name)) \<subseteq> insert n (dom (zsets (view s) (ready_key name)))"
  "redis_report_bad R (node_pool name e) now block n s = (a, s') \<Longrightarrow> dom (zsets (view s') (ready_key name)) \<subseteq> insert n (dom (zsets (view s) (ready_key name)))"
proof -
  have name: "ru_name (node_pool name e) = name" by (cases e) (simp add: node_pool_def)
  show "dom (zsets (view s') (ready_key name)) \<subseteq> insert n (dom (zsets (view s) (ready_key name)))"
    if "redis_report_ok R (node_pool name e) now n s = (a, s')"
    using that rcall_view [of "rdo (zadd R (ready_key name) n now)" s] by (auto simp: redis_report_ok_def name zadd_view split: if_splits)
  show "dom (zsets (view s') (ready_key name)) \<subseteq> insert n (dom (zsets (view s) (ready_key name)))"
    if "redis_report_bad R (node_pool name e) now block n s = (a, s')"
    using report_bad_zset [OF that refl] by (auto simp: name)
qed

lemma lend_inv_step:
  assumes "lend R name c c'" "lend_inv view name c"
  shows "lend_inv view name c'"
  using assms
proof (induction rule: lend.induct)
  case (lend_get e now s n s' out)
  then show ?case using take_zset [OF lend_get(1)] by (auto simp: lend_inv_def domIff)
next
  case (lend_none e now s s' out)
  then show ?case using take_zset [OF lend_none(1)] by (auto simp: lend_inv_def domIff)
next
  case (lend_ok n out e now s a s')
  then show ?case using report_dom(1) [OF lend_ok(2)] by (auto simp: lend_inv_def domIff)
next
  case (lend_bad n out e now block s a s')
  then show ?case using report_dom(2) [OF lend_bad(2)] by (auto simp: lend_inv_def domIff)
qed

lemma lend_inv_reach: "(lend R name)\<^sup>*\<^sup>* c c' \<Longrightarrow> lend_inv view name c \<Longrightarrow> lend_inv view name c'"
  by (induction rule: rtranclp_induct) (auto intro: lend_inv_step)

end

section \<open>Properties\<close>

text \<open>A burnt account rests. Once \<^verbatim>\<open>report_bad\<close> of an account has been answered, no \<^verbatim>\<open>get\<close> of any node or thread hands that
  account out before \<^verbatim>\<open>block_seconds\<close> have passed, whatever logins fail meanwhile and whichever calls to Redis are lost:
  for the Redis pool and for the local pool alike.\<close>

theorem bad_account_rests:
  assumes "redis_server R view" "redis_bad R name e now block n s = (Inr (), s')" "\<forall>(e, t)\<in>set es. t < now + block"
    and "local_bad le now block n p = (Inr (), p')" "\<forall>(e, t)\<in>set les. t < now + block"
  shows "Some n \<notin> set (fst (take_all (redis_take R name) es s')) \<and> Some n \<notin> set (fst (take_all local_take les p'))"
  using account_pool.reported_not_taken [OF redis_server.account_contract [OF assms(1)] TrueI assms(2,3)]
    lup.reported_not_taken [OF TrueI assms(4,5)] by simp

definition alice :: user where
  "alice = \<lparr>u_name = ''alice'', u_password = ''pw'', u_cookies = VDict [(''sid'', VStr ''1'')], u_extra = []\<rparr>"

definition a_node :: node where
  "a_node = (None, [alice], 3600, False, 30)"

theorem bad_account_rests_witness:
  "Some ''alice'' \<notin> set (fst (take_all (redis_take mini ''p'') [(a_node, 1799)] (snd (redis_bad mini ''p'' a_node 0 1800 ''alice'' mini_empty))))
   \<and> Some ''alice'' \<notin> set (fst (take_all local_take [((None, 0), 1799)] (snd (local_bad (None, 0) 0 1800 ''alice'' (new_local [alice])))))"
proof -
  have "fst (redis_bad mini ''p'' a_node 0 1800 ''alice'' mini_empty) = Inr ()"
    by (simp add: redis_bad_def redis_report_bad_def rcall_def mini_sel mini_conn_def mini_empty_def mini_zadd_def mini_del_cmd_def)
  then have r: "redis_bad mini ''p'' a_node 0 1800 ''alice'' mini_empty = (Inr (), snd (redis_bad mini ''p'' a_node 0 1800 ''alice'' mini_empty))"
    by (metis prod.collapse)
  have l: "local_bad (None, 0) 0 1800 ''alice'' (new_local [alice]) = (Inr (), snd (local_bad (None, 0) 0 1800 ''alice'' (new_local [alice])))"
    by (simp add: local_bad_def Let_def)
  show ?thesis by (rule bad_account_rests [OF mini.redis_server_axioms r _ l]) simp_all
qed

text \<open>C34: One account, one user. Starting with no account on loan, through any interleaving of \<^verbatim>\<open>get\<close>, \<^verbatim>\<open>report_ok\<close> and \<^verbatim>\<open>report_bad\<close> of any
  number of nodes, with calls to Redis failing before or after they run, no account is ever lent twice at the same
  time, and an account on loan is not in the ready set.\<close>

theorem accounts_exclusive:
  assumes "redis_server R view" "(lend R name)\<^sup>*\<^sup>* (s0, []) (s, out)"
  shows "distinct out \<and> (\<forall>n\<in>set out. zsets (view s) (ready_key name) n = None)"
  using redis_server.lend_inv_reach [OF assms] by (simp add: lend_inv_def)

text \<open>A server on which one node registered its account.\<close>

definition pool_server :: mini_redis where
  "pool_server = snd (new_redis_pool mini ''p'' [alice] 3600 False 30 mini_empty)"

lemmas pool_run = new_redis_pool_def redis_take_def redis_get_def accounts_of_def node_pool_def a_node_def alice_def rcall_def
  mini_sel mini_conn_def mini_zadd_nx_def mini_zpopmin_def mini_get_cmd_def mini_live_def zsorted_def cached_cookies_def dkeys_def Let_def

lemma pool_server_lends: "fst (redis_take mini ''p'' a_node 0 pool_server) = Some ''alice''"
  by (simp add: pool_server_def pool_run mini_empty_def ready_key_def)

theorem accounts_exclusive_witness:
  "\<exists>s out. (lend mini ''p'')\<^sup>*\<^sup>* (pool_server, []) (s, out) \<and> out = [''alice''] \<and> zsets (mini_view s) (ready_key ''p'') ''alice'' = None"
proof -
  have "redis_take mini ''p'' a_node 0 pool_server = (Some ''alice'', snd (redis_take mini ''p'' a_node 0 pool_server))"
    using pool_server_lends by (metis prod.collapse)
  then have "(lend mini ''p'')\<^sup>*\<^sup>* (pool_server, []) (snd (redis_take mini ''p'' a_node 0 pool_server), [''alice''])"
    by (intro r_into_rtranclp lend_get)
  with accounts_exclusive [OF mini.redis_server_axioms this] show ?thesis by fastforce
qed

text \<open>The constructor breaks this: \<^verbatim>\<open>zadd(..., nx=True)\<close> of a node that starts later puts an account that is on loan back into the
  ready set, and the next \<^verbatim>\<open>get\<close> lends it a second time.\<close>

lemma late_node_lends_twice:
  "fst (redis_take mini ''p'' a_node 1 (snd (new_redis_pool mini ''p'' [alice] 3600 False 30 (snd (redis_take mini ''p'' a_node 0 pool_server)))))
   = Some ''alice''"
  by (simp add: pool_server_def pool_run mini_empty_def ready_key_def)

section \<open>Cookies of one account at a time\<close>

text \<open>The attempts of one request object: at each, the middleware comes back with an account or with none.\<close>

fun attempts :: "setting \<Rightarrow> user option list \<Rightarrow> request \<Rightarrow> request" where
  "attempts cfg [] r = r"
| "attempts cfg (f # fs) r = attempts cfg fs (snd (user_request cfg f r))"

definition sends :: "request \<Rightarrow> (string, pyval) pydict \<Rightarrow> bool" where
  "sends r c \<longleftrightarrow> dget (requests_kwargs r) ''cookies'' = (if c = [] then None else Some (VDict c))"

definition based :: "(string, pyval) pydict \<Rightarrow> request \<Rightarrow> bool" where
  "based b r \<longleftrightarrow> dget (custom r) BASE_COOKIES = Some (VDict b)"

lemma base_cookies_based: "base_cookies r = (Inr b, r') \<Longrightarrow> based b r'"
  by (auto simp: base_cookies_def based_def split: option.splits if_splits sum.splits elim!: as_cookies.elims)

lemma based_base: "based b r \<Longrightarrow> base_cookies r = (Inr b, r)"
  by (simp add: based_def base_cookies_def)

lemma set_cookies_facts [simp]: "based b (set_cookies r c) = based b r" "sends (set_cookies r c) c"
  "based b (r\<lparr>user_attr := n\<rparr>) = based b r" "sends (r\<lparr>user_attr := n\<rparr>) c = sends r c"
  by (auto simp: set_cookies_def based_def sends_def)

lemma user_request_based:
  assumes "base_cookies r = (Inr b, r')"
  shows "based b (snd (user_request cfg f r))"
  using base_cookies_based [OF assms] assms by (auto simp: user_request_def Let_def split: option.splits sum.splits)

lemma attempts_based: "based b r \<Longrightarrow> based b (attempts cfg fs r)"
  by (induction cfg fs r rule: attempts.induct) (simp_all add: user_request_based [OF based_base])

text \<open>C35: Accounts do not mix. However many accounts a request was tried with before, an attempt with an account whose cookies are
  a dictionary sends exactly the request's own cookies overlaid by that account's, and an attempt that goes out anonymously sends
  exactly the request's own: nothing of an earlier account is left on it, and the response is credited to no other account.\<close>

theorem accounts_do_not_mix:
  assumes "base_cookies r = (Inr own, r1)" "user_request cfg f (attempts cfg fs r) = (Inr b, r')"
  shows "case f of
      Some u \<Rightarrow> (\<exists>c. u_cookies u = VDict c \<and> sends r' (dict_merge own c)) \<and> user_attr r' = Some (u_name u)
    | None \<Rightarrow> sends r' own \<and> user_attr r' = None"
proof -
  have "\<exists>r2. base_cookies (attempts cfg fs r) = (Inr own, r2)"
  proof (cases fs)
    case (Cons g gs)
    then have "based own (attempts cfg fs r)" using attempts_based user_request_based [OF assms(1)] by simp
    then show ?thesis using based_base by blast
  qed (use assms(1) in simp)
  then show ?thesis using assms(2)
    by (auto simp: user_request_def Let_def set_cookies_def split: option.splits sum.splits if_splits elim!: as_cookies.elims)
      (simp_all add: sends_def)
qed

definition bob :: user where
  "bob = \<lparr>u_name = ''bob'', u_password = ''pw'', u_cookies = VDict [(''sid'', VStr ''2'')], u_extra = []\<rparr>"

text \<open>Alice first, then Bob; the request's own cookie stays, Alice's device cookie does not.\<close>

theorem accounts_do_not_mix_witness:
  "sends (snd (user_request default_setting (Some bob) (attempts default_setting [Some (alice\<lparr>u_cookies := VDict [(''sid'', VStr ''1''), (''device'', VStr ''a'')]\<rparr>)]
      ((request_defaults ''u'')\<lparr>requests_kwargs := [(''cookies'', VDict [(''lang'', VStr ''en'')])]\<rparr>)))) [(''lang'', VStr ''en''), (''sid'', VStr ''2'')]"
proof -
  let ?r = "(request_defaults ''u'')\<lparr>requests_kwargs := [(''cookies'', VDict [(''lang'', VStr ''en'')])]\<rparr>"
  let ?fs = "[Some (alice\<lparr>u_cookies := VDict [(''sid'', VStr ''1''), (''device'', VStr ''a'')]\<rparr>)]"
  have b: "base_cookies ?r = (Inr [(''lang'', VStr ''en'')], snd (base_cookies ?r))"
    by (simp add: base_cookies_def request_defaults_def)
  have u: "user_request default_setting (Some bob) (attempts default_setting ?fs ?r)
      = (Inr True, snd (user_request default_setting (Some bob) (attempts default_setting ?fs ?r)))"
    by (simp add: user_request_def base_cookies_def request_defaults_def alice_def bob_def set_cookies_def Let_def)
  from accounts_do_not_mix [OF b u] show ?thesis by (simp add: bob_def dict_merge_def)
qed

section \<open>Waiting ends\<close>

text \<open>The wait is bounded: with a pause of \<open>wait_pause\<close> between two tries it ends after the time-out, in at most
  \<^verbatim>\<open>timeout / pause\<close> further rounds.\<close>

lemma wait_ends_deadline:
  assumes "\<forall>k. clk k + wait_pause cfg \<le> clk (Suc k)" "d \<le> clk k + of_nat n * wait_pause cfg"
  shows "wait_for_user cfg gets clk k (Suc n) (Some d) \<noteq> None"
  using assms(2)
proof (induction n arbitrary: k)
  case (Suc n)
  have "d \<le> clk (Suc k) + of_nat n * wait_pause cfg"
    using Suc.prems assms(1) [rule_format, of k] by (simp add: algebra_simps)
  from Suc.IH [OF this] show ?case by (subst wait_for_user.simps) (auto simp: Let_def split: option.split)
qed (auto split: option.split)

end
