(* ===== verification/Robots.thy ===== *)
theory Robots
  imports Throttle Py_Num
begin

text \<open>
  \<^verbatim>\<open>netspy/network/robots.py\<close>: reading the crawl delay from the text of a \<^verbatim>\<open>robots.txt\<close>, the cache of one entry per domain, and the
  decision whether a URL may be fetched.  The rule matcher (\<^verbatim>\<open>urllib.robotparser\<close>) and the download of the file are arguments: a
  matcher is a function from a user agent and a URL to a verdict or an exception.
\<close>

section \<open>Crawl-delay\<close>

text \<open>The loop over the lines: delays so far, the agents of the current agents, and whether the agents has had a rule.\<close>

fun delay_loop :: "string list \<Rightarrow> (string, real) pydict \<Rightarrow> string list \<Rightarrow> bool \<Rightarrow> (string, real) pydict" where
  "delay_loop [] delays agents seen = delays"
| "delay_loop (raw # ls) delays agents seen =
     (let line = strip (before_sep ''#'' raw)
      in case split_at '':'' line of
           None \<Rightarrow> delay_loop ls delays agents seen
         | Some (k, v) \<Rightarrow>
             (let key = ascii_lower (strip k); val = strip v
              in if key = ''user-agent''
                 then delay_loop ls delays ((if seen then [] else agents) @ [ascii_lower val]) False
                 else if key = ''crawl-delay''
                 then (case py_float val of
                         None \<Rightarrow> delay_loop ls delays agents True
                       | Some seconds \<Rightarrow> delay_loop ls (fold (\<lambda>a d. dset d a seconds) agents delays) agents True)
                 else if key \<in> {''allow'', ''disallow'', ''sitemap''} then delay_loop ls delays agents True
                 else delay_loop ls delays agents seen))"

definition parse_crawl_delay :: "string \<Rightarrow> string \<Rightarrow> real option" where
  "parse_crawl_delay text useragent =
     (let delays = delay_loop (split_lines text) [] [] False
      in case dget delays (ascii_lower useragent) of Some s \<Rightarrow> Some s | None \<Rightarrow> dget delays ''*'')"

section \<open>The cache\<close>

type_synonym matcher = "string \<Rightarrow> string \<Rightarrow> bool res"

record rentry =
  re_parser :: "matcher option"
  re_text :: string
  re_at :: time

record robots =
  rc_entries :: "(string, rentry) pydict"
  rc_throttle :: throttle

definition entry_fresh :: "setting \<Rightarrow> time \<Rightarrow> rentry \<Rightarrow> bool" where
  "entry_fresh cfg now e = (ROBOTS_CACHE_TTL cfg \<le> 0 \<or> now - re_at e < ROBOTS_CACHE_TTL cfg)"

text \<open>\<open>_fetch\<close>: the status and the text of the download, or an exception; \<open>parse\<close> is the matcher built from the lines.  Whatever goes wrong
  means no restriction.\<close>

definition fetch_robots :: "(string list \<Rightarrow> matcher res) \<Rightarrow> (int \<times> string) res \<Rightarrow> matcher option \<times> string" where
  "fetch_robots parse reply =
     (case reply of
        Inl _ \<Rightarrow> (None, [])
      | Inr (status, text) \<Rightarrow>
          if \<not> (200 \<le> status \<and> status < 300) then (None, [])
          else (case parse (split_lines text) of Inl _ \<Rightarrow> (None, []) | Inr m \<Rightarrow> (Some m, text)))"

definition apply_crawl_delay :: "setting \<Rightarrow> string \<Rightarrow> rentry \<Rightarrow> throttle \<Rightarrow> throttle" where
  "apply_crawl_delay cfg domain e th =
     (if re_parser e = None then th
      else case parse_crawl_delay (re_text e) (ROBOTS_USER_AGENT cfg) of
        None \<Rightarrow> th | Some s \<Rightarrow> if s > 0 then set_domain_delay domain s th else th)"

text \<open>\<open>_entry\<close>: \<open>dl\<close> is the download, called at most once.  The domain lock makes a second caller see the entry of the first.\<close>

definition robots_entry :: "setting \<Rightarrow> (string list \<Rightarrow> matcher res) \<Rightarrow> time \<Rightarrow> ('w \<Rightarrow> (int \<times> string) res \<times> 'w) \<Rightarrow> string \<Rightarrow> robots \<Rightarrow> 'w
    \<Rightarrow> rentry \<times> robots \<times> 'w" where
  "robots_entry cfg parse now dl domain rc w =
     (case dget (rc_entries rc) domain of
        Some e \<Rightarrow> if entry_fresh cfg now e then (e, rc, w) else
          (case dl w of (reply, w1) \<Rightarrow> case fetch_robots parse reply of (m, t) \<Rightarrow>
             let e1 = \<lparr>re_parser = m, re_text = t, re_at = now\<rparr>
             in (e1, rc\<lparr>rc_entries := dset (rc_entries rc) domain e1, rc_throttle := apply_crawl_delay cfg domain e1 (rc_throttle rc)\<rparr>, w1))
      | None \<Rightarrow>
          (case dl w of (reply, w1) \<Rightarrow> case fetch_robots parse reply of (m, t) \<Rightarrow>
             let e1 = \<lparr>re_parser = m, re_text = t, re_at = now\<rparr>
             in (e1, rc\<lparr>rc_entries := dset (rc_entries rc) domain e1, rc_throttle := apply_crawl_delay cfg domain e1 (rc_throttle rc)\<rparr>, w1)))"

definition robots_allowed :: "setting \<Rightarrow> (string list \<Rightarrow> matcher res) \<Rightarrow> time \<Rightarrow> ('w \<Rightarrow> (int \<times> string) res \<times> 'w) \<Rightarrow> string \<Rightarrow> string \<Rightarrow> robots \<Rightarrow> 'w
    \<Rightarrow> bool \<times> robots \<times> 'w" where
  "robots_allowed cfg parse now dl domain u rc w =
     (if \<not> ROBOTS_OBEY cfg then (True, rc, w)
      else case robots_entry cfg parse now dl domain rc w of (e, rc1, w1) \<Rightarrow>
        (case re_parser e of
           None \<Rightarrow> (True, rc1, w1)
         | Some m \<Rightarrow> (case m (ROBOTS_USER_AGENT cfg) u of Inl _ \<Rightarrow> (True, rc1, w1) | Inr b \<Rightarrow> (b, rc1, w1))))"

definition crawl_delay :: "setting \<Rightarrow> rentry \<Rightarrow> real option" where
  "crawl_delay cfg e = (if re_parser e = None then None else parse_crawl_delay (re_text e) (ROBOTS_USER_AGENT cfg))"

section \<open>What the crawl delay does\<close>

text \<open>The entry that \<open>_entry\<close> returns is fresh, and is the one the next call finds.\<close>

lemma robots_entry_cached:
  assumes "robots_entry cfg parse now dl domain rc w = (e, rc', w')"
  shows "dget (rc_entries rc') domain = Some e" "entry_fresh cfg now e"
  using assms by (auto simp: robots_entry_def entry_fresh_def Let_def split: option.splits prod.splits if_splits)

lemma robots_entry_delay:
  assumes "robots_entry cfg parse now dl domain rc w = (e, rc', w')" "crawl_delay cfg e = Some s" "0 < s"
    and "\<forall>e0 s0. dget (rc_entries rc) domain = Some e0 \<and> crawl_delay cfg e0 = Some s0 \<and> 0 < s0 \<longrightarrow> dget (th_delay (rc_throttle rc)) domain = Some s0"
  shows "dget (th_delay (rc_throttle rc')) domain = Some s"
  using assms by (auto simp: robots_entry_def crawl_delay_def apply_crawl_delay_def set_domain_delay_def Let_def
      split: option.splits prod.splits if_splits)

text \<open>The jitter of the throttle can take half of the delay that the site asked for.\<close>

lemma jitter_undercuts_crawl_delay:
  assumes "dget (th_delay th) domain = Some s" "DOWNLOAD_DELAY cfg \<le> s" "0 < s" "RANDOMIZE_DOWNLOAD_DELAY cfg"
  shows "ticket_delay cfg (1 / 2) domain th = s / 2"
  using assms by (simp add: ticket_delay_def Let_def)

lemma crawl_delay_is_lower_bound:
  assumes "dget (th_delay th) domain = Some s" "1 \<le> u \<or> \<not> RANDOMIZE_DOWNLOAD_DELAY cfg" "0 < s"
  shows "s \<le> ticket_delay cfg u domain th"
proof -
  let ?m = "max (DOWNLOAD_DELAY cfg) s"
  have "s \<le> ?m" "0 < ?m" using assms(3) by auto
  moreover have "?m \<le> ?m * u" if "1 \<le> u" using mult_left_mono [OF that, of ?m] \<open>0 < ?m\<close> by simp
  ultimately show ?thesis using assms by (auto simp: ticket_delay_def Let_def intro: order_trans)
qed

text \<open>A delay that the site has withdrawn stays in the throttle.\<close>

lemma withdrawn_delay_stays:
  "crawl_delay cfg e = None \<Longrightarrow> apply_crawl_delay cfg domain e th = th"
  by (auto simp: apply_crawl_delay_def crawl_delay_def split: if_splits)

text \<open>The delay of the agent's own group wins over the one for all.\<close>

lemma own_delay_wins:
  "dget (delay_loop (split_lines text) [] [] False) (ascii_lower ua) = Some s \<Longrightarrow> parse_crawl_delay text ua = Some s"
  by (simp add: parse_crawl_delay_def)

end
