(* ===== verification/Alert.thy ===== *)
theory Alert
  imports Request_Buffer
begin

text \<open>
  \<^verbatim>\<open>netspy/utils/alert.py\<close>: the checks that \<open>_wait_until_done\<close> runs in every round (stall, failure rate, failure count, filter almost
  full) and the rate limit on notifications.  A notifier is a function on the world that may raise.
\<close>

record alert_st =
  al_last_ok :: int
  al_last_progress :: time
  al_last_sent :: "(string, time) pydict"

type_synonym 'w notifier = "string \<Rightarrow> 'w \<Rightarrow> unit res \<times> 'w"

fun notify_all :: "'w notifier list \<Rightarrow> string \<Rightarrow> 'w \<Rightarrow> 'w" where
  "notify_all [] k w = w"
| "notify_all (n # ns) k w = notify_all ns k (snd (n k w))"

definition fire :: "setting \<Rightarrow> 'w notifier list \<Rightarrow> time \<Rightarrow> string \<Rightarrow> alert_st \<times> 'w \<Rightarrow> alert_st \<times> 'w" where
  "fire cfg ns now k aw =
     (case aw of (a, w) \<Rightarrow>
        if (case dget (al_last_sent a) k of None \<Rightarrow> False | Some t \<Rightarrow> now - t < WARNING_INTERVAL cfg) then (a, w)
        else (a\<lparr>al_last_sent := dset (al_last_sent a) k now\<rparr>, notify_all ns k w))"

text \<open>\<open>_check_dedup_fill\<close>: \<open>fill\<close> is count and capacity of the filter, where it has them.\<close>

definition check_dedup_fill :: "setting \<Rightarrow> 'w notifier list \<Rightarrow> time \<Rightarrow> (int \<times> int) option \<Rightarrow> alert_st \<times> 'w \<Rightarrow> alert_st \<times> 'w" where
  "check_dedup_fill cfg ns now fill aw =
     (if DEDUP_WARN_FILL_RATE cfg = 0 then aw
      else case fill of
        None \<Rightarrow> aw
      | Some (cnt, cap) \<Rightarrow>
          if cap \<le> 0 \<or> of_int cnt < of_int cap * DEDUP_WARN_FILL_RATE cfg then aw else fire cfg ns now ''dedup_fill'' aw)"

text \<open>\<open>check\<close>; \<open>clk\<close> are its clock readings.  With \<open>WARNING_MIN_REQUESTS\<close> = 0 the rate of no requests is a division by zero.\<close>

definition alert_check :: "setting \<Rightarrow> 'w notifier list \<Rightarrow> (nat \<Rightarrow> time) \<Rightarrow> stats \<Rightarrow> (int \<times> int) option \<Rightarrow> alert_st \<times> 'w \<Rightarrow> unit res \<times> alert_st \<times> 'w" where
  "alert_check cfg ns clk st fill aw =
     (if \<not> WARNING_ENABLE cfg then (Inr (), aw)
      else
        let now = clk 0; ok = stats_get st ''request_ok''; failed = stats_get st ''request_failed''; total = ok + failed;
            aw1 = (if ok > al_last_ok (fst aw) then ((fst aw)\<lparr>al_last_ok := ok, al_last_progress := now\<rparr>, snd aw) else aw);
            aw2 = (if WARNING_STALL_SECONDS cfg \<noteq> 0 \<and> total \<noteq> 0 \<and> now - al_last_progress (fst aw1) > WARNING_STALL_SECONDS cfg
                   then fire cfg ns (clk 1) ''stall'' aw1 else aw1)
        in if total \<ge> WARNING_MIN_REQUESTS cfg \<and> total = 0 then (Inl (raise_of PyOtherError), aw2)
           else
             let aw3 = (if total \<ge> WARNING_MIN_REQUESTS cfg \<and> of_int failed / of_int total \<ge> WARNING_FAILED_RATE cfg
                        then fire cfg ns (clk 2) ''failed_rate'' aw2 else aw2);
                 aw4 = (if WARNING_FAILED_COUNT cfg \<noteq> 0 \<and> failed \<ge> WARNING_FAILED_COUNT cfg
                        then fire cfg ns (clk 3) ''failed_count'' aw3 else aw3)
             in (Inr (), check_dedup_fill cfg ns (clk 4) fill aw4))"

section \<open>The rate limit\<close>

text \<open>A sequence of conditions that want to fire; the log notifier records each notification with its time.\<close>

fun fire_run :: "setting \<Rightarrow> (string \<times> time) list \<Rightarrow> alert_st \<Rightarrow> (string \<times> time) list \<times> alert_st" where
  "fire_run cfg [] a = ([], a)"
| "fire_run cfg ((k, t) # es) a =
     (case fire cfg [\<lambda>k' w. (Inr (), w @ [(k', t)])] t k (a, []) of (a1, sent) \<Rightarrow>
        (case fire_run cfg es a1 of (rest, a2) \<Rightarrow> (sent @ rest, a2)))"

definition last_for :: "alert_st \<Rightarrow> string \<Rightarrow> time option" where
  "last_for a k = dget (al_last_sent a) k"

lemma fire_log:
  "fire cfg [\<lambda>k' w. (Inr (), w @ [(k', t)])] t k (a, []) =
    (if (case last_for a k of None \<Rightarrow> False | Some s \<Rightarrow> t - s < WARNING_INTERVAL cfg) then (a, [])
     else (a\<lparr>al_last_sent := dset (al_last_sent a) k t\<rparr>, [(k, t)]))"
  by (simp add: fire_def last_for_def)

text \<open>Nothing is sent for a key before its interval is over, counted from the last notification for it.\<close>

lemma fire_run_after:
  assumes "(k, t) \<in> set (fst (fire_run cfg es a))" "last_for a k = Some s" "0 \<le> WARNING_INTERVAL cfg"
  shows "s + WARNING_INTERVAL cfg \<le> t"
  using assms
proof (induction es arbitrary: a s)
  case (Cons e es)
  obtain k0 t0 where e: "e = (k0, t0)" by (cases e)
  let ?skip = "case last_for a k0 of None \<Rightarrow> False | Some s \<Rightarrow> t0 - s < WARNING_INTERVAL cfg"
  let ?a1 = "a\<lparr>al_last_sent := dset (al_last_sent a) k0 t0\<rparr>"
  show ?case
  proof (cases ?skip)
    case True
    then show ?thesis using Cons by (auto simp: e fire_log split: prod.splits)
  next
    case False
    then have m: "(k, t) = (k0, t0) \<or> (k, t) \<in> set (fst (fire_run cfg es ?a1))"
      using Cons.prems(1) by (auto simp: e fire_log split: prod.splits)
    show ?thesis
    proof (cases "k0 = k")
      case True
      then have "last_for ?a1 k = Some t0" "s + WARNING_INTERVAL cfg \<le> t0" using False Cons.prems(2) by (auto simp: last_for_def)
      then show ?thesis using m Cons.IH [of ?a1 t0] Cons.prems(3) True by auto
    next
      case False
      then have "last_for ?a1 k = Some s" using Cons.prems(2) by (simp add: last_for_def)
      then show ?thesis using m Cons.IH [of ?a1 s] Cons.prems(3) False by auto
    qed
  qed
qed simp

lemma fire_run_spaced:
  assumes "0 \<le> WARNING_INTERVAL cfg"
  shows "sorted_wrt (\<lambda>(k, t) (k', t'). k = k' \<longrightarrow> t + WARNING_INTERVAL cfg \<le> t') (fst (fire_run cfg es a))"
proof (induction es arbitrary: a)
  case (Cons e es)
  obtain k0 t0 where e: "e = (k0, t0)" by (cases e)
  let ?a1 = "a\<lparr>al_last_sent := dset (al_last_sent a) k0 t0\<rparr>"
  have "t0 + WARNING_INTERVAL cfg \<le> t" if "(k0, t) \<in> set (fst (fire_run cfg es ?a1))" for t
    by (rule fire_run_after [OF that _ assms]) (simp add: last_for_def)
  then show ?case using Cons.IH by (auto simp: e fire_log split: prod.splits) (metis fst_conv)+
qed simp

text \<open>Whatever wants to fire has been reported within the last interval.\<close>

lemma fire_run_covers:
  assumes "(k, t) \<in> set es" "0 < WARNING_INTERVAL cfg"
  shows "\<exists>s. ((k, s) \<in> set (fst (fire_run cfg es a)) \<or> last_for a k = Some s) \<and> t - s < WARNING_INTERVAL cfg"
  using assms(1)
proof (induction es arbitrary: a)
  case (Cons e es)
  obtain k0 t0 where e: "e = (k0, t0)" by (cases e)
  let ?skip = "case last_for a k0 of None \<Rightarrow> False | Some s \<Rightarrow> t0 - s < WARNING_INTERVAL cfg"
  let ?a1 = "a\<lparr>al_last_sent := dset (al_last_sent a) k0 t0\<rparr>"
  show ?case
  proof (cases "(k, t) = e")
    case True
    then show ?thesis using assms(2) by (cases ?skip) (auto simp: e fire_log split: prod.splits option.splits)
  next
    case False
    then have m: "(k, t) \<in> set es" using Cons.prems by auto
    show ?thesis
    proof (cases ?skip)
      case True
      then show ?thesis using Cons.IH [OF m, of a] by (auto simp: e fire_log split: prod.splits)
    next
      case False
      then have f: "fst (fire_run cfg (e # es) a) = (k0, t0) # fst (fire_run cfg es ?a1)" by (auto simp: e fire_log split: prod.splits)
      from Cons.IH [OF m, of ?a1] obtain s where "(k, s) \<in> set (fst (fire_run cfg es ?a1)) \<or> last_for ?a1 k = Some s" "t - s < WARNING_INTERVAL cfg" by blast
      then show ?thesis unfolding f by (auto simp: last_for_def split: if_splits)
    qed
  qed
qed simp

section \<open>Property\<close>

text \<open>Alerts are rate-limited and not lost.  Of any sequence of conditions that want to fire, two notifications with the same key are at least
  \<open>WARNING_INTERVAL\<close> apart; and for every condition there is a notification with its key sent less than one interval before it (the first one ever is always
  sent).\<close>

theorem alerts_spaced_and_covering:
  assumes "0 < WARNING_INTERVAL cfg"
  shows "sorted_wrt (\<lambda>(k, t) (k', t'). k = k' \<longrightarrow> t + WARNING_INTERVAL cfg \<le> t') (fst (fire_run cfg es \<lparr>al_last_ok = 0, al_last_progress = t0, al_last_sent = []\<rparr>))
    \<and> (\<forall>(k, t)\<in>set es. \<exists>s. (k, s) \<in> set (fst (fire_run cfg es \<lparr>al_last_ok = 0, al_last_progress = t0, al_last_sent = []\<rparr>)) \<and> t - s < WARNING_INTERVAL cfg)"
proof (intro conjI ballI, goal_cases)
  case 1
  show ?case by (rule fire_run_spaced) (use assms in simp)
next
  case (2 e)
  then show ?case using fire_run_covers [OF _ assms, of "fst e" "snd e" es "\<lparr>al_last_ok = 0, al_last_progress = t0, al_last_sent = []\<rparr>"]
    by (auto simp: last_for_def)
qed

theorem alerts_spaced_and_covering_witness:
  "\<exists>s. (''stall'', s) \<in> set (fst (fire_run default_setting [(''stall'', 1), (''stall'', 2), (''stall'', 400)] \<lparr>al_last_ok = 0, al_last_progress = 0, al_last_sent = []\<rparr>))
     \<and> 2 - s < 300"
  using alerts_spaced_and_covering [of default_setting "[(''stall'', 1), (''stall'', 2), (''stall'', 400)]" 0] by (simp add: default_setting_def)

text \<open>With no minimum, the first check, before any request has finished, raises.\<close>

lemma check_divides_by_zero:
  "WARNING_ENABLE cfg \<Longrightarrow> WARNING_MIN_REQUESTS cfg = 0 \<Longrightarrow> fst (alert_check cfg ns clk [] fill aw) = Inl (raise_of PyOtherError)"
  by (simp add: alert_check_def Let_def stats_get_def)

end
