(* ===== verification/Setting_Load.thy ===== *)
theory Setting_Load
  imports Py_Num "HOL-Library.List_Lexorder" "HOL-Library.Char_ord"
begin

text \<open>
  The loading part of \<^verbatim>\<open>netspy/setting.py\<close>: defaults, then the project file, then \<^verbatim>\<open>NETSPY_*\<close> environment variables, then what a
  spider passes to \<open>apply\<close>.  The module globals are a dictionary from names to values of the types the settings have.
\<close>

datatype sval = SNone | SBool bool | SInt int | SFloat real | SStr string | SJson pyval

type_synonym globals = "(string, sval) pydict"

text \<open>\<open>key.isupper() and not key.startswith("_")\<close>, for names in ASCII.\<close>

definition str_isupper :: "string \<Rightarrow> bool" where
  "str_isupper s = (list_ex (\<lambda>c. let n = (of_char c :: nat) in 65 \<le> n \<and> n \<le> 90) s \<and> list_all (\<lambda>c. let n = (of_char c :: nat) in \<not> (97 \<le> n \<and> n \<le> 122)) s)"

definition setting_name :: "string \<Rightarrow> bool" where
  "setting_name k = (str_isupper k \<and> \<not> is_prefix ''_'' k)"

text \<open>What \<open>json.loads\<close> returns, as a value of a setting.\<close>

fun of_json :: "pyval \<Rightarrow> sval" where
  "of_json VNone = SNone"
| "of_json (VBool b) = SBool b"
| "of_json (VInt i) = SInt i"
| "of_json (VStr s) = SStr s"
| "of_json v = SJson v"

definition coerce :: "sval \<Rightarrow> string \<Rightarrow> sval res" where
  "coerce current raw =
     (case current of
        SBool _ \<Rightarrow> Inr (SBool (ascii_lower (strip raw) \<in> {''1'', ''true'', ''yes'', ''on''}))
      | SInt _ \<Rightarrow> (case py_int raw of None \<Rightarrow> Inl (raise_of PyValueError) | Some i \<Rightarrow> Inr (SInt i))
      | SFloat _ \<Rightarrow> (case py_float raw of None \<Rightarrow> Inl (raise_of PyValueError) | Some x \<Rightarrow> Inr (SFloat x))
      | SJson _ \<Rightarrow> (case loads_json raw of Inl e \<Rightarrow> Inl e | Inr v \<Rightarrow> Inr (of_json v))
      | _ \<Rightarrow> Inr (SStr raw))"

fun apply_map :: "(string \<times> sval) list \<Rightarrow> globals \<Rightarrow> globals" where
  "apply_map [] g = g"
| "apply_map ((k, v) # m) g = apply_map m (if setting_name k then dset g k v else g)"

text \<open>\<open>_load_project_file\<close>: \<open>override\<close> is \<^verbatim>\<open>NETSPY_SETTING\<close>, \<open>is_file\<close> and \<open>run\<close> what the file system and \<open>runpy\<close> answer for a path.\<close>

fun first_file :: "(string \<Rightarrow> bool) \<Rightarrow> (string \<Rightarrow> (string \<times> sval) list res) \<Rightarrow> string list \<Rightarrow> (string \<times> sval) list" where
  "first_file is_file run [] = []"
| "first_file is_file run (p # ps) =
     (if \<not> is_file p then first_file is_file run ps
      else case run p of Inl _ \<Rightarrow> [] | Inr m \<Rightarrow> filter (\<lambda>(k, v). setting_name k) m)"

definition load_project_file :: "string option \<Rightarrow> (string \<Rightarrow> bool) \<Rightarrow> (string \<Rightarrow> (string \<times> sval) list res) \<Rightarrow> (string \<times> sval) list" where
  "load_project_file override is_file run =
     (case override of
        Some p \<Rightarrow> if p = [] then first_file is_file run [''setting.py'', ''settings.py'']
                  else if \<not> is_file p then [] else first_file is_file run [p]
      | None \<Rightarrow> first_file is_file run [''setting.py'', ''settings.py''])"

text \<open>\<open>_apply_env\<close> over the names in any order: a text that does not parse is reported and skipped.\<close>

fun apply_env :: "(string, sval) pydict \<Rightarrow> (string \<Rightarrow> string option) \<Rightarrow> string list \<Rightarrow> globals \<Rightarrow> globals" where
  "apply_env defaults env [] g = g"
| "apply_env defaults env (k # ks) g =
     apply_env defaults env ks
       (case env (''NETSPY_'' @ k) of
          None \<Rightarrow> g
        | Some raw \<Rightarrow>
            (case dget defaults k of
               None \<Rightarrow> g
             | Some cur \<Rightarrow> (case coerce cur raw of Inl _ \<Rightarrow> g | Inr v \<Rightarrow> dset g k v)))"

definition reload :: "(string, sval) pydict \<Rightarrow> (string \<Rightarrow> string option) \<Rightarrow> (string \<Rightarrow> bool) \<Rightarrow> (string \<Rightarrow> (string \<times> sval) list res) \<Rightarrow> globals \<Rightarrow> globals" where
  "reload defaults env is_file run g =
     apply_env defaults env (dkeys defaults)
       (apply_map (load_project_file (env ''NETSPY_SETTING'') is_file run) (apply_map defaults g))"

definition apply_setting :: "(string \<times> sval) list \<Rightarrow> globals \<Rightarrow> globals" where
  "apply_setting m g = apply_map (filter (\<lambda>(k, v). setting_name k) m) g"

definition snapshot :: "string list \<Rightarrow> globals \<Rightarrow> (string \<times> sval option) list" where
  "snapshot keys g = map (\<lambda>k. (k, dget g k)) (sort keys)"

section \<open>Layers\<close>

lemma apply_map_get:
  "distinct (map fst m) \<Longrightarrow> dget (apply_map m g) k = (if setting_name k \<and> k \<in> set (map fst m) then map_of m k else dget g k)"
  by (induction m g rule: apply_map.induct) (auto split: if_splits)

lemma apply_env_get:
  assumes "distinct ks"
  shows "dget (apply_env defaults env ks g) k =
    (if k \<in> set ks then case env (''NETSPY_'' @ k) of None \<Rightarrow> dget g k
       | Some raw \<Rightarrow> (case dget defaults k of None \<Rightarrow> dget g k
          | Some cur \<Rightarrow> (case coerce cur raw of Inl _ \<Rightarrow> dget g k | Inr v \<Rightarrow> Some v))
     else dget g k)"
  using assms by (induction defaults env ks g rule: apply_env.induct) (auto split: option.splits sum.splits)

text \<open>The type of a setting: what \<open>isinstance\<close> tells apart.\<close>

datatype stype = TNone | TBool | TInt | TFloat | TStr | TJson

fun stype_of :: "sval \<Rightarrow> stype" where
  "stype_of SNone = TNone"
| "stype_of (SBool _) = TBool"
| "stype_of (SInt _) = TInt"
| "stype_of (SFloat _) = TFloat"
| "stype_of (SStr _) = TStr"
| "stype_of (SJson _) = TJson"

lemma coerce_type: "coerce cur raw = Inr v \<Longrightarrow> stype_of cur \<in> {TBool, TInt, TFloat, TStr} \<Longrightarrow> stype_of v = stype_of cur"
  by (cases cur) (auto simp: coerce_def split: option.splits)

section \<open>Properties\<close>



text \<open>C40: Environment variables keep the types of settings.  Without a project file, whatever the variables hold, a setting whose
  default is a boolean, a number or a string has a value of the same type after \<open>reload\<close>, so the code that reads it finds what it expects.\<close>

theorem env_keeps_types:
  assumes "distinct (map fst defaults)" and "\<forall>k\<in>set (map fst defaults). setting_name k"
    and "load_project_file (env ''NETSPY_SETTING'') is_file run = []"
    and "dget defaults k = Some d" and "stype_of d \<in> {TBool, TInt, TFloat, TStr}"
  shows "\<exists>v. dget (reload defaults env is_file run g) k = Some v \<and> stype_of v = stype_of d"
proof -
  have mem: "k \<in> set (map fst defaults)" "map_of defaults k = Some d"
    using assms(4) by (auto simp: dget_map_of dest: map_of_SomeD intro: rev_image_eqI)
  then have "setting_name k" using assms(2) by blast
  then have "dget (apply_map defaults g) k = Some d" using mem apply_map_get [OF assms(1), of g k] by simp
  moreover have "k \<in> set (dkeys defaults)" "distinct (dkeys defaults)" using mem assms(1) by (simp_all add: dkeys_def)
  ultimately show ?thesis
    using apply_env_get [of "dkeys defaults" defaults env "apply_map defaults g" k] assms(4) coerce_type [OF _ assms(5)]
    by (auto simp: reload_def assms(3) split: option.splits sum.splits)
qed

theorem env_keeps_types_witness:
  "\<exists>v. dget (reload [(''A'', SBool True)] [''NETSPY_A'' \<mapsto> ''5''] (\<lambda>_. False) (\<lambda>_. Inr []) []) ''A'' = Some v \<and> stype_of v = TBool"
proof -
  have n: "setting_name ''A''" by (simp add: setting_name_def str_isupper_def)
  show ?thesis
    using env_keeps_types [of "[(''A'', SBool True)]" "[''NETSPY_A'' \<mapsto> ''5'']" "\<lambda>_. False" "\<lambda>_. Inr []" "''A''" "SBool True" "[]"]
    by (simp add: n load_project_file_def)
qed

text \<open>A setting whose default is a list or a dictionary takes any JSON: \<^verbatim>\<open>NETSPY_ITEM_PIPELINES=5\<close> makes it a number.\<close>

lemma json_env_changes_type: "coerce (SJson (VList [])) (dumps_json (VInt i)) = Inr (SInt i)"
  by (simp add: coerce_def loads_dumps del: dumps_json.simps)

end
