(* ===== verification/Sessions.thy ===== *)
theory Sessions
  imports Downloader Status_Policy "HOL-Library.Sublist"
begin

text \<open>
  The HTTP back ends \<^verbatim>\<open>network/downloader/_httpx.py\<close>, \<^verbatim>\<open>_curl.py\<close> and \<^verbatim>\<open>_async_httpx.py\<close>: which client of the
  third-party library a request goes through, which cookie jar that client carries, what is closed when, and what the proxy
  pool is told.

  A client is a record of what it was built with (its number is its identity); a jar is its number.  The network is a
  function from a client and a request to an answer.  A proxy that is no string is refused by the constructors of the clients,
  so a proxy is a \<^typ>\<open>string option\<close> here, \<open>None\<close> for a direct connection.
\<close>

section \<open>Clients and jars\<close>

datatype cookie_source = CkNone | CkGiven pyval | CkJar nat

record hclient =
  hc_id :: nat
  hc_proxy :: "string option"
  hc_verify :: pyval
  hc_cookies :: cookie_source

text \<open>The parameters of \<^verbatim>\<open>HttpxDownloader\<close> and \<^verbatim>\<open>CurlDownloader\<close>; \<open>dl_per_shard\<close> is what \<^verbatim>\<open>shard_count\<close> is called with.\<close>

record downloader =
  dl_timeout :: pyval
  dl_verify :: pyval
  dl_proxy :: "string option"
  dl_session :: bool
  dl_impersonate :: "string option"
  dl_per_shard :: "int option"

definition httpx_downloader :: "setting \<Rightarrow> bool \<Rightarrow> downloader" where
  "httpx_downloader cfg sess = \<lparr>dl_timeout = VNone, dl_verify = VBool True, dl_proxy = None, dl_session = sess,
     dl_impersonate = None, dl_per_shard = None\<rparr>"

definition curl_downloader :: "setting \<Rightarrow> bool \<Rightarrow> downloader" where
  "curl_downloader cfg sess = (httpx_downloader cfg sess)\<lparr>dl_per_shard := Some (CURL_SESSION_SHARD_THREADS cfg)\<rparr>"

text \<open>The two caches of a downloader, the next number, and the numbers of the clients that were closed.\<close>

record session_store =
  ss_clients :: "(string option, hclient) pydict"
  ss_jars :: "(string option, nat) pydict"
  ss_next :: nat
  ss_closed :: "nat list"

definition empty_store :: session_store where
  "empty_store = \<lparr>ss_clients = [], ss_jars = [], ss_next = 0, ss_closed = []\<rparr>"

text \<open>\<^verbatim>\<open>verify == self._verify\<close>: Python's \<open>True\<close> equals \<open>1\<close>.\<close>

fun as_number :: "pyval \<Rightarrow> pyval" where
  "as_number (VBool b) = VInt (if b then 1 else 0)"
| "as_number v = v"

definition py_equal :: "pyval \<Rightarrow> pyval \<Rightarrow> bool" where
  "py_equal v w \<longleftrightarrow> as_number v = as_number w"

text \<open>\<^verbatim>\<open>_make_client\<close>, \<^verbatim>\<open>_make_session\<close>: an empty proxy is left out; cookies are passed unless they are \<open>None\<close>.\<close>

definition make_client :: "nat \<Rightarrow> string option \<Rightarrow> pyval \<Rightarrow> cookie_source \<Rightarrow> hclient" where
  "make_client n proxy verify cookies =
     \<lparr>hc_id = n, hc_proxy = (case proxy of Some (c # cs) \<Rightarrow> Some (c # cs) | _ \<Rightarrow> None), hc_verify = verify, hc_cookies = cookies\<rparr>"

definition client_key :: "int \<Rightarrow> nat \<Rightarrow> string option \<Rightarrow> string option" where
  "client_key shards idx proxy =
     (if shards \<le> 1 then proxy
      else Some ((case proxy of None \<Rightarrow> ''None'' | Some p \<Rightarrow> p) @ ''#'' @ show_int (int idx mod shards)))"

definition jar_for :: "string option \<Rightarrow> int \<Rightarrow> session_store \<Rightarrow> nat \<times> session_store" where
  "jar_for proxy capacity st =
     (case get_or_create proxy (ss_next st) capacity (ss_jars st) of
        ((jar, _), jars) \<Rightarrow> (jar, st\<lparr>ss_jars := jars, ss_next := Suc (ss_next st)\<rparr>))"

text \<open>\<^verbatim>\<open>_session_client\<close> and \<^verbatim>\<open>_session_for_proxy\<close>; \<open>idx\<close> is the number \<^verbatim>\<open>shard_index\<close> has given the thread.\<close>

definition session_client :: "setting \<Rightarrow> downloader \<Rightarrow> int option \<Rightarrow> nat \<Rightarrow> string option \<Rightarrow> session_store \<Rightarrow> hclient \<times> session_store" where
  "session_client cfg dl cur idx proxy st =
     (let shards = shard_count cfg cur None (dl_per_shard dl);
          key = client_key shards idx proxy;
          capacity = max (SESSION_CACHE_SIZE cfg) 1 * shards;
          (jar, st1) = jar_for proxy capacity st;
          fresh = make_client (ss_next st1) proxy (dl_verify dl) (CkJar jar);
          ((c, ev), cs) = get_or_create key fresh capacity (ss_clients st1)
      in (c, st1\<lparr>ss_clients := cs, ss_next := Suc (ss_next st1), ss_closed := ss_closed st1 @ map hc_id ev\<rparr>))"

text \<open>\<^verbatim>\<open>_client_for\<close>, \<^verbatim>\<open>_session_for\<close>: the client, whether it is closed after use.\<close>

definition client_for :: "setting \<Rightarrow> downloader \<Rightarrow> int option \<Rightarrow> nat \<Rightarrow> request \<Rightarrow> string option \<Rightarrow> session_store
    \<Rightarrow> hclient \<times> bool \<times> session_store" where
  "client_for cfg dl cur idx r proxy st =
     (let verify = (case dget (requests_kwargs r) ''verify'' of Some v \<Rightarrow> v | None \<Rightarrow> dl_verify dl);
          cookies = (case dget (requests_kwargs r) ''cookies'' of Some v \<Rightarrow> v | None \<Rightarrow> VNone)
      in if dl_session dl \<and> \<not> truthy cookies \<and> py_equal verify (dl_verify dl)
         then (case session_client cfg dl cur idx proxy st of (c, st1) \<Rightarrow> (c, False, st1))
         else (make_client (ss_next st) proxy verify (if cookies = VNone then CkNone else CkGiven cookies), True,
               st\<lparr>ss_next := Suc (ss_next st)\<rparr>))"

definition close_downloader :: "session_store \<Rightarrow> session_store" where
  "close_downloader st =
     (case cache_drain (ss_clients st) of (cs, items) \<Rightarrow> st\<lparr>ss_clients := items, ss_closed := ss_closed st @ map hc_id cs\<rparr>)"

section \<open>Download\<close>

text \<open>
  What the network does with a request: the library's own error (\<open>httpx.HTTPError\<close>, \<open>RequestsError\<close>), another exception, or a
  response whose body arrives in chunks and may break off with an error.
\<close>

datatype http_answer = HFail http_exn | HRaise exn | HAnswer response "string list" "http_exn option"

datatype fetch_error = LibError http_exn | OtherError exn

definition sync_fetch :: "setting \<Rightarrow> http_answer \<Rightarrow> fetch_error + response" where
  "sync_fetch cfg a =
     (case a of
        HFail e \<Rightarrow> Inl (LibError e)
      | HRaise e \<Rightarrow> Inl (OtherError e)
      | HAnswer resp chunks tail \<Rightarrow>
          (case check_content_type cfg (rs_headers resp) of
             Inl e \<Rightarrow> Inl (OtherError e)
           | Inr _ \<Rightarrow>
               (case read_capped cfg chunks (dget (rs_headers resp) ''content-length'') of
                  Inl e \<Rightarrow> Inl (OtherError e)
                | Inr body \<Rightarrow> (case tail of Some e \<Rightarrow> Inl (LibError e) | None \<Rightarrow> Inr (resp\<lparr>rs_content := body\<rparr>)))))"

text \<open>The keyword arguments of \<^verbatim>\<open>CurlDownloader.download\<close>; \<^verbatim>\<open>HttpxDownloader\<close> passes those of \<^verbatim>\<open>send_kwargs\<close>.\<close>

definition curl_kwargs :: "setting \<Rightarrow> downloader \<Rightarrow> string \<Rightarrow> pyval \<Rightarrow> request \<Rightarrow> (string, pyval) pydict" where
  "curl_kwargs cfg dl ua tmo r =
     (let k = send_kwargs cfg ua tmo ''allow_redirects'' r;
          k1 = (if dget k ''allow_redirects'' = None then dset k ''allow_redirects'' (VBool True) else k);
          imp = (case dl_impersonate dl of Some (c # cs) \<Rightarrow> Some (c # cs) | _ \<Rightarrow> resolve_impersonate cfg r)
      in case imp of Some s \<Rightarrow> dset k1 ''impersonate'' (VStr s) | None \<Rightarrow> k1)"

text \<open>\<open>send\<close> is the network; \<open>now\<close> and \<open>now2\<close> are the readings \<^verbatim>\<open>report_proxy_failure\<close> makes.\<close>

definition http_download :: "setting \<Rightarrow> downloader \<Rightarrow> int option \<Rightarrow> nat \<Rightarrow> time \<Rightarrow> time \<Rightarrow> (hclient \<Rightarrow> request \<Rightarrow> http_answer) \<Rightarrow> request
    \<Rightarrow> string option \<Rightarrow> session_store \<times> proxy_pool option \<Rightarrow> response res \<times> session_store \<times> proxy_pool option" where
  "http_download cfg dl cur idx now now2 send r proxy = (\<lambda>(st, pool).
     (case client_for cfg dl cur idx r proxy st of (c, once, st1) \<Rightarrow>
        let st2 = (if once then st1\<lparr>ss_closed := ss_closed st1 @ [hc_id c]\<rparr> else st1);
            used = (case proxy of Some (x # xs) \<Rightarrow> Some (x # xs) | _ \<Rightarrow> None)
        in case sync_fetch cfg (send c r) of
             Inl (LibError e) \<Rightarrow>
               (Inl (raise_of RequestError), st2, (case used of Some p \<Rightarrow> report_proxy_failure cfg now now2 p e pool | None \<Rightarrow> pool))
           | Inl (OtherError e) \<Rightarrow> (Inl e, st2, pool)
           | Inr resp \<Rightarrow> (Inr resp, st2, (case used of Some p \<Rightarrow> report_good_proxy p pool | None \<Rightarrow> pool))))"

text \<open>
  \<^verbatim>\<open>CurlDownloader\<close> is the same over its own session class, with its own number of threads per shard; what it sends is
  \<open>curl_kwargs\<close>.  \<open>sess\<close> is its \<open>use_session\<close>.
\<close>

definition curl_session_for_proxy :: "setting \<Rightarrow> bool \<Rightarrow> int option \<Rightarrow> nat \<Rightarrow> string option \<Rightarrow> session_store \<Rightarrow> hclient \<times> session_store" where
  "curl_session_for_proxy cfg sess cur idx proxy st = session_client cfg (curl_downloader cfg sess) cur idx proxy st"

definition curl_session_for :: "setting \<Rightarrow> bool \<Rightarrow> int option \<Rightarrow> nat \<Rightarrow> request \<Rightarrow> string option \<Rightarrow> session_store
    \<Rightarrow> hclient \<times> bool \<times> session_store" where
  "curl_session_for cfg sess cur idx r proxy st = client_for cfg (curl_downloader cfg sess) cur idx r proxy st"

definition curl_download :: "setting \<Rightarrow> bool \<Rightarrow> string \<Rightarrow> pyval \<Rightarrow> int option \<Rightarrow> nat \<Rightarrow> time \<Rightarrow> time
    \<Rightarrow> (hclient \<Rightarrow> (string, pyval) pydict \<Rightarrow> request \<Rightarrow> http_answer) \<Rightarrow> request \<Rightarrow> string option \<Rightarrow> session_store \<times> proxy_pool option
    \<Rightarrow> response res \<times> session_store \<times> proxy_pool option" where
  "curl_download cfg sess ua tmo cur idx now now2 send r proxy =
     http_download cfg (curl_downloader cfg sess) cur idx now now2 (\<lambda>c q. send c (curl_kwargs cfg (curl_downloader cfg sess) ua tmo q) q) r proxy"

section \<open>The asynchronous downloader\<close>

text \<open>
  \<^verbatim>\<open>AsyncHttpxDownloader\<close>: one event loop per shard, each with its default client and its own cache of clients per proxy; the
  jars are shared by all shards.  \<open>ay_default\<close> is \<open>None\<close> after the shard was closed.
\<close>

record ashard =
  ay_default :: "hclient option"
  ay_proxied :: "(string option, hclient) pydict"

record async_store =
  ay_shards :: "ashard list"
  ay_jars :: "(string option, nat) pydict"
  ay_next :: nat
  ay_closed :: "nat list"

definition loop_count :: "setting \<Rightarrow> int option \<Rightarrow> int option \<Rightarrow> int" where
  "loop_count cfg cur threads =
     (let p = ASYNC_THREADS_PER_LOOP cfg
      in if p \<le> 0 then 1
         else let n = max (case threads of Some k \<Rightarrow> k | None \<Rightarrow> effective_concurrency cfg cur) 1 in max 1 (- ((- n) div p)))"

definition async_jar :: "string option \<Rightarrow> int \<Rightarrow> async_store \<Rightarrow> nat \<times> async_store" where
  "async_jar proxy capacity st =
     (case get_or_create proxy (ay_next st) capacity (ay_jars st) of
        ((jar, _), jars) \<Rightarrow> (jar, st\<lparr>ay_jars := jars, ay_next := Suc (ay_next st)\<rparr>))"

text \<open>\<^verbatim>\<open>_Shard.__init__\<close> with \<^verbatim>\<open>_setup\<close>, for \<open>k\<close> shards.\<close>

fun async_setup :: "nat \<Rightarrow> pyval \<Rightarrow> int \<Rightarrow> async_store \<Rightarrow> async_store" where
  "async_setup 0 verify capacity st = st"
| "async_setup (Suc k) verify capacity st =
     (case async_jar None capacity st of (jar, st1) \<Rightarrow>
        async_setup k verify capacity
          (st1\<lparr>ay_shards := ay_shards st1 @ [\<lparr>ay_default = Some (make_client (ay_next st1) None verify (CkJar jar)), ay_proxied = []\<rparr>],
               ay_next := Suc (ay_next st1)\<rparr>))"

definition jar_capacity :: "setting \<Rightarrow> int \<Rightarrow> int" where
  "jar_capacity cfg n = max (SESSION_CACHE_SIZE cfg) 1 * n"

definition async_new :: "setting \<Rightarrow> pyval \<Rightarrow> int \<Rightarrow> async_store" where
  "async_new cfg verify loops =
     (let n = max loops 1
      in async_setup (nat n) verify (jar_capacity cfg n) \<lparr>ay_shards = [], ay_jars = [], ay_next = 0, ay_closed = []\<rparr>)"

text \<open>\<^verbatim>\<open>_client_for_proxy\<close> on shard \<open>k\<close>.\<close>

definition async_client_for_proxy :: "setting \<Rightarrow> nat \<Rightarrow> string \<Rightarrow> pyval \<Rightarrow> async_store \<Rightarrow> hclient \<times> async_store" where
  "async_client_for_proxy cfg k proxy verify st =
     (let (jar, st1) = async_jar (Some proxy) (jar_capacity cfg (int (length (ay_shards st)))) st;
          sh = ay_shards st1 ! k;
          fresh = make_client (ay_next st1) (Some proxy) verify (CkJar jar);
          ((c, ev), cs) = get_or_create (Some proxy) fresh (SESSION_CACHE_SIZE cfg) (ay_proxied sh)
      in (c, st1\<lparr>ay_shards := (ay_shards st1)[k := sh\<lparr>ay_proxied := cs\<rparr>], ay_next := Suc (ay_next st1),
               ay_closed := ay_closed st1 @ map hc_id ev\<rparr>))"

text \<open>The choice in \<^verbatim>\<open>_download\<close>: the client and whether it is closed after use; the default client of a closed shard fails the assertion.\<close>

definition async_client :: "setting \<Rightarrow> pyval \<Rightarrow> nat \<Rightarrow> request \<Rightarrow> string option \<Rightarrow> async_store \<Rightarrow> (hclient \<times> bool) res \<times> async_store" where
  "async_client cfg verify0 k r proxy st =
     (let verify = (case dget (requests_kwargs r) ''verify'' of Some v \<Rightarrow> v | None \<Rightarrow> verify0);
          cookies = (case dget (requests_kwargs r) ''cookies'' of Some v \<Rightarrow> v | None \<Rightarrow> VNone)
      in case ay_default (ay_shards st ! k) of
           None \<Rightarrow> (Inl (raise_of PyOtherError), st)
         | Some dflt \<Rightarrow>
             if truthy cookies then (Inr (make_client (ay_next st) proxy verify (CkGiven cookies), True), st\<lparr>ay_next := Suc (ay_next st)\<rparr>)
             else (case proxy of
                     Some p \<Rightarrow> (case async_client_for_proxy cfg k p verify st of (c, st1) \<Rightarrow> (Inr (c, False), st1))
                   | None \<Rightarrow> (Inr (dflt, False), st)))"

text \<open>\<^verbatim>\<open>_aclose\<close>: the clients of one shard.\<close>

definition close_shard :: "nat \<Rightarrow> async_store \<Rightarrow> async_store" where
  "close_shard k st =
     (let sh = ay_shards st ! k; (cs, items) = cache_drain (ay_proxied sh)
      in st\<lparr>ay_shards := (ay_shards st)[k := \<lparr>ay_default = None, ay_proxied = items\<rparr>],
            ay_closed := ay_closed st @ map hc_id cs @ (case ay_default sh of None \<Rightarrow> [] | Some c \<Rightarrow> [hc_id c])\<rparr>)"

definition async_close :: "async_store \<Rightarrow> async_store" where
  "async_close st = fold close_shard [0..<length (ay_shards st)] st"

text \<open>\<^verbatim>\<open>_stream\<close>: the chunks that are read before the limit breaks the loop, and whether it did; then the shared check of the size.\<close>

fun stream_loop :: "int \<Rightarrow> int \<Rightarrow> string list \<Rightarrow> string list \<times> bool" where
  "stream_loop limit n [] = ([], False)"
| "stream_loop limit n (c # cs) =
     (let m = n + int (length c)
      in if limit > 0 \<and> m > limit then ([c], True) else (case stream_loop limit m cs of (xs, brk) \<Rightarrow> (c # xs, brk)))"

definition async_stream :: "setting \<Rightarrow> http_answer \<Rightarrow> fetch_error + response" where
  "async_stream cfg a =
     (case a of
        HFail e \<Rightarrow> Inl (LibError e)
      | HRaise e \<Rightarrow> Inl (OtherError e)
      | HAnswer resp chunks tail \<Rightarrow>
          (case check_content_type cfg (rs_headers resp) of
             Inl e \<Rightarrow> Inl (OtherError e)
           | Inr _ \<Rightarrow>
               (case stream_loop (MAX_RESPONSE_SIZE cfg) 0 chunks of (xs, brk) \<Rightarrow>
                  if \<not> brk \<and> tail \<noteq> None then Inl (LibError (the tail))
                  else case read_capped cfg xs (dget (rs_headers resp) ''content-length'') of
                         Inl e \<Rightarrow> Inl (OtherError e)
                       | Inr body \<Rightarrow> Inr (resp\<lparr>rs_content := body\<rparr>))))"

text \<open>\<^verbatim>\<open>_download\<close> on shard \<open>k\<close>; the semaphore only delays.\<close>

definition async_download :: "setting \<Rightarrow> pyval \<Rightarrow> nat \<Rightarrow> time \<Rightarrow> time \<Rightarrow> (hclient \<Rightarrow> request \<Rightarrow> http_answer) \<Rightarrow> request \<Rightarrow> string option
    \<Rightarrow> async_store \<times> proxy_pool option \<Rightarrow> response res \<times> async_store \<times> proxy_pool option" where
  "async_download cfg verify0 k now now2 send r proxy = (\<lambda>(st, pool).
     (case async_client cfg verify0 k r proxy st of
        (Inl e, st1) \<Rightarrow> (Inl e, st1, pool)
      | (Inr (c, once), st1) \<Rightarrow>
          let st2 = (if once then st1\<lparr>ay_closed := ay_closed st1 @ [hc_id c]\<rparr> else st1)
          in case async_stream cfg (send c r) of
               Inl (LibError e) \<Rightarrow>
                 (Inl (raise_of RequestError), st2, (case proxy of Some p \<Rightarrow> report_proxy_failure cfg now now2 p e pool | None \<Rightarrow> pool))
             | Inl (OtherError e) \<Rightarrow> (Inl e, st2, pool)
             | Inr resp \<Rightarrow> (Inr resp, st2, (case proxy of Some p \<Rightarrow> report_good_proxy p pool | None \<Rightarrow> pool))))"

section \<open>Last use order\<close>

text \<open>
  A least-recently-used cache is a list of distinct keys; using a key moves it to the end and drops from the front.  The
  proxies of the cached clients, in the order of their last use, are a suffix of the cached jars' proxies.
\<close>

definition lru_touch :: "nat \<Rightarrow> 'k \<Rightarrow> 'k list \<Rightarrow> 'k list" where
  "lru_touch n k ks = (let xs = filter (\<lambda>x. x \<noteq> k) ks @ [k] in drop (length xs - n) xs)"

lemma remdups_snoc: "remdups (xs @ [x]) = filter (\<lambda>y. y \<noteq> x) (remdups xs) @ [x]"
  by (induction xs) auto

lemma suffix_remdups_drop: "suffix (remdups (drop n xs)) (remdups xs)"
proof (induction xs arbitrary: n)
  case (Cons x xs)
  show ?case
  proof (cases n)
    case (Suc m)
    have "suffix (remdups xs) (remdups (x # xs))" by (auto simp: suffix_def)
    then show ?thesis using Cons.IH [of m] Suc suffix_order.trans by fastforce
  qed simp
qed simp

lemma suffix_filter: "suffix xs ys \<Longrightarrow> suffix (filter P xs) (filter P ys)"
  by (auto simp: suffix_def)

lemma suffix_drop_length:
  assumes "suffix xs ys" "length xs \<le> n"
  shows "suffix xs (drop (length ys - n) ys)"
proof -
  from assms(1) obtain zs where ys: "ys = zs @ xs" by (auto simp: suffix_def)
  have "length ys - n \<le> length zs" using assms(2) ys by simp
  then show ?thesis by (auto simp: ys suffix_def)
qed

lemma lru_touch_suffix:
  assumes "suffix xs ks" "length (filter (\<lambda>x. x \<noteq> k) xs @ [k]) \<le> n"
  shows "suffix (filter (\<lambda>x. x \<noteq> k) xs @ [k]) (lru_touch n k ks)"
  unfolding lru_touch_def Let_def
  by (rule suffix_drop_length [OF _ assms(2)]) (use assms(1) in \<open>simp add: suffix_filter\<close>)

lemma dkeys_move: "dkeys (ddel d k @ [(k, v)]) = filter (\<lambda>x. x \<noteq> k) (dkeys d) @ [k]"
  using dkeys_ddel [of d k] by (simp add: dkeys_def)

lemma get_or_create_distinct:
  assumes "get_or_create k fresh capacity d = ((c, ev), d')" "distinct (dkeys d)"
  shows "distinct (dkeys d')"
proof (cases "dget d k")
  case (Some c')
  then have "d' = ddel d k @ [(k, c)]" using assms(1) by (auto simp: get_or_create_def)
  then show ?thesis using assms(2) by (simp add: dkeys_move)
next
  case None
  let ?a = "d @ [(k, fresh)]"
  have "distinct (dkeys ?a)" using assms(2) None by (simp add: dget_None_iff dkeys_def)
  moreover have "dkeys d' = drop (length ?a - nat (max capacity 1)) (dkeys ?a)"
    using assms(1) None by (auto simp: get_or_create_def Let_def dkeys_def drop_map)
  ultimately show ?thesis by (simp add: distinct_drop)
qed

lemma get_or_create_keys:
  assumes "get_or_create k fresh capacity d = ((c, ev), d')" "length d \<le> nat (max capacity 1)" "distinct (dkeys d)"
  shows "dkeys d' = lru_touch (nat (max capacity 1)) k (dkeys d)" "length d' \<le> nat (max capacity 1)" "distinct (dkeys d')"
proof -
  let ?n = "nat (max capacity 1)"
  have n: "1 \<le> ?n" by simp
  have "dkeys d' = lru_touch ?n k (dkeys d) \<and> length d' \<le> ?n \<and> distinct (dkeys d')"
  proof (cases "dget d k")
    case (Some c')
    then have d': "d' = ddel d k @ [(k, c)]" using assms(1) by (auto simp: get_or_create_def)
    have m: "length d' = length d" using mset_eq_length [OF ddel_end_mset [OF assms(3) Some]] assms(1) Some
      by (auto simp: get_or_create_def)
    have dk: "dkeys d' = filter (\<lambda>x. x \<noteq> k) (dkeys d) @ [k]" by (simp add: d' dkeys_move)
    have "length (dkeys d') \<le> ?n" using m assms(2) by (simp add: dkeys_def)
    then show ?thesis using dk m assms(2,3) by (simp add: lru_touch_def Let_def)
  next
    case None
    let ?a = "d @ [(k, fresh)]"
    have d': "d' = drop (length ?a - ?n) ?a" using assms(1) None by (auto simp: get_or_create_def Let_def)
    have f: "filter (\<lambda>x. x \<noteq> k) (dkeys d) = dkeys d" using None by (auto simp: dget_None_iff intro: filter_True)
    have a: "dkeys ?a = dkeys d @ [k]" by (simp add: dkeys_def)
    have dk: "dkeys d' = drop (length ?a - ?n) (dkeys ?a)" by (simp add: d' dkeys_def drop_map)
    have "length ?a = length (dkeys ?a)" by (simp add: dkeys_def)
    then have "dkeys d' = lru_touch ?n k (dkeys d)" using dk a by (simp add: lru_touch_def Let_def f)
    moreover have "distinct (dkeys d')" by (rule get_or_create_distinct [OF assms(1,3)])
    ultimately show ?thesis using d' by simp
  qed
  then show "dkeys d' = lru_touch ?n k (dkeys d)" "length d' \<le> ?n" "distinct (dkeys d')" by blast+
qed

text \<open>What an entry is after a call: an old one or the one for the key.\<close>

lemma get_or_create_entries:
  assumes "get_or_create k fresh capacity d = ((c, ev), d')"
  shows "set d' \<subseteq> insert (k, c) (set d)" "dget d k = Some c \<or> dget d k = None \<and> c = fresh"
    "set ev \<subseteq> insert c (snd ` set d)"
  using assms
  by (auto simp: get_or_create_def Let_def ddel_def dest!: in_set_dropD in_set_takeD split: option.splits)

section \<open>One jar per proxy\<close>

text \<open>Strings that name no proxy of their own: the empty one is left out, \<open>''None''\<close> reads like the missing one in a shard's key.\<close>

definition proxy_name :: "string option \<Rightarrow> bool" where
  "proxy_name p \<longleftrightarrow> p \<noteq> Some [] \<and> p \<noteq> Some ''None''"

lemma hash_not_digit: "CHR ''#'' \<notin> set (show_int (int n))"
  using show_nat_digits [of n] by (auto simp: show_int_def is_digit_def list_all_iff)

lemma hash_split: "a @ CHR ''#'' # x = b @ CHR ''#'' # y \<Longrightarrow> CHR ''#'' \<notin> set x \<Longrightarrow> CHR ''#'' \<notin> set y \<Longrightarrow> a = b"
proof (induction a arbitrary: b)
  case Nil
  then show ?case by (cases b) auto
next
  case (Cons c a)
  then show ?case by (cases b) auto
qed

lemma client_key_inj:
  assumes "client_key n i p = client_key n j q" "proxy_name p" "proxy_name q"
  shows "p = q"
proof (cases "n \<le> 1")
  case False
  have h: "int i mod n = int (nat (int i mod n))" "int j mod n = int (nat (int j mod n))" using False by simp_all
  let ?name = "\<lambda>p. case p of None \<Rightarrow> ''None'' | Some p \<Rightarrow> p"
  have "?name p @ CHR ''#'' # show_int (int (nat (int i mod n))) = ?name q @ CHR ''#'' # show_int (int (nat (int j mod n)))"
    using assms(1) False h by (simp add: client_key_def)
  then have "?name p = ?name q" by (rule hash_split) (rule hash_not_digit)+
  then show ?thesis using assms(2,3) by (auto simp: proxy_name_def split: option.splits)
qed (use assms in \<open>simp add: client_key_def\<close>)

lemma make_client_proxy [simp]: "proxy_name p \<Longrightarrow> hc_proxy (make_client n p v ck) = p"
  by (auto simp: make_client_def proxy_name_def split: option.splits list.splits)

lemma make_client_sel [simp]: "hc_cookies (make_client n p v ck) = ck" "hc_verify (make_client n p v ck) = v" "hc_id (make_client n p v ck) = n"
  by (simp_all add: make_client_def)

abbreviation used_proxies :: "(string option, hclient) pydict \<Rightarrow> string option list" where
  "used_proxies cs \<equiv> remdups (map (\<lambda>e. hc_proxy (snd e)) cs)"

text \<open>\<open>n\<close>: the number of shards, \<open>m\<close>: the capacity of both caches.\<close>

definition client_fits :: "int \<Rightarrow> pyval \<Rightarrow> (string option, nat) pydict \<Rightarrow> string option \<times> hclient \<Rightarrow> bool" where
  "client_fits n verify jars = (\<lambda>(k, c). proxy_name (hc_proxy c) \<and> (\<exists>i. k = client_key n i (hc_proxy c))
     \<and> hc_verify c = verify \<and> (\<exists>j. hc_cookies c = CkJar j \<and> dget jars (hc_proxy c) = Some j))"

definition store_inv :: "int \<Rightarrow> nat \<Rightarrow> pyval \<Rightarrow> session_store \<Rightarrow> bool" where
  "store_inv n m verify st \<longleftrightarrow> distinct (dkeys (ss_clients st)) \<and> distinct (dkeys (ss_jars st))
     \<and> length (ss_clients st) \<le> m \<and> length (ss_jars st) \<le> m
     \<and> suffix (used_proxies (ss_clients st)) (dkeys (ss_jars st))
     \<and> (\<forall>e\<in>set (ss_clients st). client_fits n verify (ss_jars st) e)"

lemma used_proxies_touch:
  assumes "\<forall>e\<in>set cs. fst e = k \<longrightarrow> hc_proxy (snd e) = p"
  shows "used_proxies (filter (\<lambda>(k', c). k' \<noteq> k) cs @ [(k, c)]) = filter (\<lambda>x. x \<noteq> p) (used_proxies cs) @ (if hc_proxy c = p then [p] else []) \<or> hc_proxy c \<noteq> p"
proof -
  let ?f = "\<lambda>e. hc_proxy (snd e)"
  have "filter (\<lambda>x. x \<noteq> p) (map ?f (filter (\<lambda>(k', c). k' \<noteq> k) cs)) = filter (\<lambda>x. x \<noteq> p) (map ?f cs)"
    using assms by (induction cs) auto
  then have "filter (\<lambda>x. x \<noteq> p) (used_proxies (filter (\<lambda>(k', c). k' \<noteq> k) cs)) = filter (\<lambda>x. x \<noteq> p) (used_proxies cs)"
    by (simp only: remdups_filter [symmetric])
  then show ?thesis by (simp add: remdups_snoc)
qed

text \<open>The clients after a call, in the order of use.\<close>

lemma used_proxies_call:
  assumes "get_or_create k fresh capacity cs = ((c, ev), cs')" "length cs \<le> nat (max capacity 1)" "distinct (dkeys cs)"
    and "\<forall>e\<in>set cs. fst e = k \<longrightarrow> hc_proxy (snd e) = p" "hc_proxy c = p"
  shows "suffix (used_proxies cs') (filter (\<lambda>x. x \<noteq> p) (used_proxies cs) @ [p])"
    "length (used_proxies cs') \<le> nat (max capacity 1)"
proof -
  let ?all = "filter (\<lambda>(k', c). k' \<noteq> k) cs @ [(k, c)]" and ?n = "nat (max capacity 1)"
  have u: "used_proxies ?all = filter (\<lambda>x. x \<noteq> p) (used_proxies cs) @ [p]" using used_proxies_touch [OF assms(4), of c] assms(5) by simp
  have "\<exists>i. cs' = drop i ?all"
  proof (cases "dget cs k")
    case (Some c')
    then have "cs' = drop 0 ?all" using assms(1) by (auto simp: get_or_create_def ddel_def)
    then show ?thesis by blast
  next
    case None
    then have "filter (\<lambda>(k', c). k' \<noteq> k) cs = cs" by (force simp: dget_None_iff dkeys_def intro: filter_True)
    then have "cs' = drop (length ?all - ?n) ?all" using assms(1) None by (auto simp: get_or_create_def Let_def)
    then show ?thesis by blast
  qed
  then obtain i where i: "cs' = drop i ?all" ..
  have "suffix (used_proxies cs') (used_proxies ?all)"
    unfolding i drop_map [symmetric] by (rule suffix_remdups_drop)
  then show "suffix (used_proxies cs') (filter (\<lambda>x. x \<noteq> p) (used_proxies cs) @ [p])" by (simp only: u)
  have "length (used_proxies cs') \<le> length cs'" by (metis length_map length_remdups_leq)
  then show "length (used_proxies cs') \<le> ?n" using get_or_create_keys(2) [OF assms(1-3)] by simp
qed

lemma session_client_step:
  assumes inv: "store_inv n m (dl_verify dl) st" and p: "proxy_name p"
    and n: "n = shard_count cfg cur None (dl_per_shard dl)" and m: "m = nat (max (max (SESSION_CACHE_SIZE cfg) 1 * n) 1)"
    and s: "session_client cfg dl cur i p st = (c, st')"
  shows "store_inv n m (dl_verify dl) st'" "hc_proxy c = p" "hc_verify c = dl_verify dl"
    "\<exists>j. hc_cookies c = CkJar j \<and> dget (ss_jars st') p = Some j"
proof -
  let ?cap = "max (SESSION_CACHE_SIZE cfg) 1 * n" and ?key = "client_key n i p"
  note iv = inv [unfolded store_inv_def]
  have mm: "m = nat (max ?cap 1)" using m by simp
  obtain j evj jars where gj: "get_or_create p (ss_next st) ?cap (ss_jars st) = ((j, evj), jars)" by (metis surj_pair)
  let ?fresh = "make_client (Suc (ss_next st)) p (dl_verify dl) (CkJar j)"
  obtain c1 ev cs where gc: "get_or_create ?key ?fresh ?cap (ss_clients st) = ((c1, ev), cs)" by (metis surj_pair)
  have e: "c1 = c" "ss_jars st' = jars" "ss_clients st' = cs"
    using s by (auto simp: session_client_def Let_def n [symmetric] jar_for_def gj gc)
  note gc = gc [unfolded e(1)]
  have kj: "dkeys jars = lru_touch m p (dkeys (ss_jars st))" "length jars \<le> m" "distinct (dkeys jars)"
    using get_or_create_keys [OF gj] iv mm by auto
  have kc: "length cs \<le> m" "distinct (dkeys cs)" using get_or_create_keys [OF gc] iv mm by auto
  have own: "\<forall>e\<in>set (ss_clients st). fst e = ?key \<longrightarrow> hc_proxy (snd e) = p"
    using iv p client_key_inj [of n _ _ i p] unfolding client_fits_def by fastforce
  have jp: "dget jars p = Some j"
  proof -
    have "(p, j) \<in> set jars" using gj by (auto simp: get_or_create_def Let_def split: option.splits)
    then show ?thesis by (rule dget_in_set [OF kj(3)])
  qed
  have cp: "hc_proxy c = p \<and> hc_verify c = dl_verify dl \<and> hc_cookies c = CkJar j"
  proof (cases "dget (ss_clients st) ?key")
    case (Some c')
    then have cc: "c' = c" "(?key, c) \<in> set (ss_clients st)" using gc dget_Some_in by (fastforce simp: get_or_create_def)+
    then have f: "client_fits n (dl_verify dl) (ss_jars st) (?key, c)" "hc_proxy c = p" using iv own by auto
    then obtain j' where "hc_cookies c = CkJar j'" "dget (ss_jars st) p = Some j'" by (auto simp: client_fits_def)
    moreover from this(2) have "j' = j" using gj by (auto simp: get_or_create_def)
    ultimately show ?thesis using f by (auto simp: client_fits_def)
  qed (use gc p in \<open>auto simp: get_or_create_def Let_def\<close>)
  have u: "suffix (used_proxies cs) (filter (\<lambda>x. x \<noteq> p) (used_proxies (ss_clients st)) @ [p])" "length (used_proxies cs) \<le> m"
    using used_proxies_call [OF gc _ _ own] iv cp mm by auto
  have "suffix (used_proxies cs) (filter (\<lambda>x. x \<noteq> p) (dkeys (ss_jars st)) @ [p])"
    by (rule suffix_order.trans [OF u(1)]) (use iv in \<open>simp add: suffix_filter\<close>)
  then have suf: "suffix (used_proxies cs) (dkeys jars)"
    unfolding kj(1) lru_touch_def Let_def by (rule suffix_drop_length [OF _ u(2)])
  have fits: "client_fits n (dl_verify dl) jars e" if "e \<in> set cs" for e
  proof -
    obtain k c' where e': "e = (k, c')" by force
    have "hc_proxy c' \<in> set (used_proxies cs)" using that e' by force
    then have there: "hc_proxy c' \<in> set (dkeys jars)" using suf set_mono_suffix by fast
    from that get_or_create_entries(1) [OF gc] consider "e = (?key, c)" | "e \<in> set (ss_clients st)" by blast
    then show ?thesis
    proof cases
      case 1
      then show ?thesis using cp jp p by (auto simp: client_fits_def)
    next
      case 2
      then have f: "client_fits n (dl_verify dl) (ss_jars st) (k, c')" using iv e' by auto
      have "dget jars (hc_proxy c') = dget (ss_jars st) (hc_proxy c')"
      proof -
        obtain j' where j': "dget jars (hc_proxy c') = Some j'" using there by (metis dget_None_iff option.exhaust)
        then have "(hc_proxy c', j') \<in> insert (p, j) (set (ss_jars st))" using get_or_create_entries(1) [OF gj] dget_Some_in by fast
        then have "dget (ss_jars st) (hc_proxy c') = Some j' \<or> hc_proxy c' = p" using iv dget_in_set by fastforce
        moreover have "dget (ss_jars st) p = Some j" if "hc_proxy c' = p"
          using f that gj by (auto simp: client_fits_def get_or_create_def)
        ultimately show ?thesis using j' jp by auto
      qed
      then show ?thesis using f by (auto simp: client_fits_def e')
    qed
  qed
  show "store_inv n m (dl_verify dl) st'" using iv kj kc suf fits by (auto simp: store_inv_def e)
  show "hc_proxy c = p" "hc_verify c = dl_verify dl" "\<exists>j. hc_cookies c = CkJar j \<and> dget (ss_jars st') p = Some j"
    using cp jp e by auto
qed

text \<open>Calls of the threads \<open>i\<close> for the proxies \<open>p\<close>, one after the other.\<close>

fun session_run :: "setting \<Rightarrow> downloader \<Rightarrow> int option \<Rightarrow> (nat \<times> string option) list \<Rightarrow> session_store \<Rightarrow> session_store" where
  "session_run cfg dl cur [] st = st"
| "session_run cfg dl cur ((i, p) # xs) st = session_run cfg dl cur xs (snd (session_client cfg dl cur i p st))"

lemma session_run_inv:
  assumes "n = shard_count cfg cur None (dl_per_shard dl)" "m = nat (max (max (SESSION_CACHE_SIZE cfg) 1 * n) 1)"
  shows "store_inv n m (dl_verify dl) st \<Longrightarrow> \<forall>(i, p)\<in>set xs. proxy_name p \<Longrightarrow> store_inv n m (dl_verify dl) (session_run cfg dl cur xs st)"
proof (induction xs arbitrary: st)
  case (Cons x xs)
  obtain i p where x: "x = (i, p)" by force
  obtain c st1 where s: "session_client cfg dl cur i p st = (c, st1)" by force
  have "store_inv n m (dl_verify dl) st1"
    by (rule session_client_step(1) [OF Cons.prems(1) _ assms s]) (use Cons.prems(2) x in auto)
  then show ?case using Cons.IH [of st1] Cons.prems(2) by (simp add: x s)
qed simp

lemma empty_store_inv: "store_inv n m v empty_store"
  by (simp add: store_inv_def empty_store_def dkeys_def)

section \<open>Nothing stays open\<close>

lemma get_or_create_keeps:
  assumes "get_or_create k fresh capacity d = ((c, ev), d')" "distinct (dkeys d)"
  shows "snd ` set d \<subseteq> snd ` set d' \<union> set ev" "c \<in> snd ` set d' \<union> set ev"
proof -
  have "snd ` set d \<subseteq> snd ` set d' \<union> set ev \<and> c \<in> snd ` set d' \<union> set ev"
  proof (cases "dget d k")
    case (Some c')
    then have c: "c' = c" "d' = ddel d k @ [(k, c)]" using assms(1) by (auto simp: get_or_create_def)
    have "set d' = set d" using mset_eq_setD [OF ddel_end_mset [OF assms(2) Some]] c by simp
    then show ?thesis using dget_Some_in [OF Some] c(1) by force
  next
    case None
    let ?a = "d @ [(k, fresh)]" and ?i = "length (d @ [(k, fresh)]) - nat (max capacity 1)"
    have e: "d' = drop ?i ?a" "ev = map snd (take ?i ?a)" "c = fresh" using assms(1) None by (auto simp: get_or_create_def Let_def)
    have "set (take ?i ?a) \<union> set (drop ?i ?a) = set ?a" by (metis append_take_drop_id set_append)
    then have "snd ` set ?a = snd ` set d' \<union> set ev" unfolding e(1,2) set_map by blast
    then show ?thesis using e(3) by auto
  qed
  then show "snd ` set d \<subseteq> snd ` set d' \<union> set ev" "c \<in> snd ` set d' \<union> set ev" by blast+
qed

definition given_back :: "session_store \<Rightarrow> hclient \<Rightarrow> bool" where
  "given_back st c \<longleftrightarrow> hc_id c \<in> set (ss_closed st) \<or> c \<in> snd ` set (ss_clients st)"

text \<open>Downloads of the threads \<open>i\<close> with the proxies \<open>p\<close> that \<^verbatim>\<open>pick_proxy\<close> returned: the clients that were used, and the state.\<close>

fun download_run :: "setting \<Rightarrow> downloader \<Rightarrow> int option \<Rightarrow> (hclient \<Rightarrow> request \<Rightarrow> http_answer)
    \<Rightarrow> (nat \<times> request \<times> string option \<times> time) list \<Rightarrow> session_store \<times> proxy_pool option \<Rightarrow> hclient list \<times> session_store \<times> proxy_pool option" where
  "download_run cfg dl cur send [] w = ([], w)"
| "download_run cfg dl cur send ((i, r, p, now) # xs) w =
     (let c = fst (client_for cfg dl cur i r p (fst w));
          (cs, w2) = download_run cfg dl cur send xs (snd (http_download cfg dl cur i now now send r p w))
      in (c # cs, w2))"

lemma session_client_distinct:
  assumes "session_client cfg dl cur i p st = (c, st')" "distinct (dkeys (ss_clients st))"
  shows "distinct (dkeys (ss_clients st'))" "given_back st x \<Longrightarrow> given_back st' x" "given_back st' c"
proof -
  let ?n = "shard_count cfg cur None (dl_per_shard dl)"
  let ?cap = "max (SESSION_CACHE_SIZE cfg) 1 * ?n"
  obtain j st1 where j: "jar_for p ?cap st = (j, st1)" by force
  then have j1: "ss_clients st1 = ss_clients st" "ss_closed st1 = ss_closed st"
    by (auto simp: jar_for_def split: prod.splits)
  obtain c1 ev cs where g: "get_or_create (client_key ?n i p) (make_client (ss_next st1) p (dl_verify dl) (CkJar j)) ?cap (ss_clients st) = ((c1, ev), cs)"
    by (metis surj_pair)
  have e: "c1 = c" "ss_clients st' = cs" "ss_closed st' = ss_closed st @ map hc_id ev"
    using assms(1) by (auto simp: session_client_def Let_def j g j1)
  note d = assms(2)
  show "distinct (dkeys (ss_clients st'))" unfolding e(2) by (rule get_or_create_distinct [OF g d])
  show "given_back st x \<Longrightarrow> given_back st' x" "given_back st' c"
    using get_or_create_keeps [OF g d] e j1 by (auto simp: given_back_def)
qed

lemma http_download_state:
  "fst (snd (http_download cfg dl cur i now now2 send r p w)) =
     (case client_for cfg dl cur i r p (fst w) of (c, once, st) \<Rightarrow> if once then st\<lparr>ss_closed := ss_closed st @ [hc_id c]\<rparr> else st)"
  by (cases w) (simp add: http_download_def Let_def split: prod.split sum.split fetch_error.split)

lemma download_step:
  assumes "distinct (dkeys (ss_clients (fst w)))" and w1_def: "w1 = snd (http_download cfg dl cur i now now2 send r p w)"
  shows "distinct (dkeys (ss_clients (fst w1)))" "given_back (fst w) x \<Longrightarrow> given_back (fst w1) x"
    "given_back (fst w1) (fst (client_for cfg dl cur i r p (fst w)))"
proof -
  obtain c once st where c: "client_for cfg dl cur i r p (fst w) = (c, once, st)" by (metis prod_cases3)
  have f: "fst w1 = (if once then st\<lparr>ss_closed := ss_closed st @ [hc_id c]\<rparr> else st)" by (simp add: w1_def http_download_state c)
  have "distinct (dkeys (ss_clients (fst w1))) \<and> (given_back (fst w) x \<longrightarrow> given_back (fst w1) x) \<and> given_back (fst w1) c"
  proof (cases once)
    case True
    then have "ss_clients st = ss_clients (fst w)" "ss_closed st = ss_closed (fst w)"
      using c by (auto simp: client_for_def Let_def split: if_splits prod.splits)
    then show ?thesis using True f assms(1) by (auto simp: given_back_def)
  next
    case False
    then have "session_client cfg dl cur i p (fst w) = (c, st)" using c by (auto simp: client_for_def Let_def split: if_splits prod.splits)
    from session_client_distinct [OF this assms(1)] False f show ?thesis by auto
  qed
  then show "distinct (dkeys (ss_clients (fst w1)))" "given_back (fst w) x \<Longrightarrow> given_back (fst w1) x"
    "given_back (fst w1) (fst (client_for cfg dl cur i r p (fst w)))" by (simp_all add: c)
qed

lemma download_run_given_back:
  "download_run cfg dl cur send xs w = (cs, w') \<Longrightarrow> distinct (dkeys (ss_clients (fst w))) \<Longrightarrow> c \<in> set cs \<or> given_back (fst w) c
    \<Longrightarrow> given_back (fst w') c"
proof (induction xs arbitrary: w cs)
  case (Cons x xs)
  obtain i r p now where x: "x = (i, r, p, now)" by (metis prod_cases4)
  let ?w1 = "snd (http_download cfg dl cur i now now send r p w)"
  obtain cs1 w2 where d: "download_run cfg dl cur send xs ?w1 = (cs1, w2)" by (metis surj_pair)
  have e: "cs = fst (client_for cfg dl cur i r p (fst w)) # cs1" "w' = w2" using Cons.prems(1) by (auto simp: x d Let_def)
  have w1: "?w1 = snd (http_download cfg dl cur i now now send r p w)" by (rule HOL.refl)
  note st = download_step [OF Cons.prems(2) w1]
  have "c \<in> set cs1 \<or> given_back (fst ?w1) c" using Cons.prems(3) st(2) [of c] st(3) e(1) by auto
  from Cons.IH [OF d [folded e(2)] st(1) this] show ?case .
qed simp

section \<open>Properties\<close>



text \<open>C20: A request goes out with its own state and leaves none behind.  The client for a request goes through the request's proxy with the request's
  \<open>verify\<close>; a request with cookies (an account) gets a fresh client that carries exactly these cookies, is closed after use, and neither a
  cached client nor a jar is touched; a client that is shared carries a jar and only serves requests without cookies.\<close>

theorem request_state_stays_private:
  assumes "\<forall>(i, p)\<in>set calls. proxy_name p" and "proxy_name q" and "st = session_run cfg dl cur calls empty_store"
    and "client_for cfg dl cur i r q st = (c, once, st')"
  shows "hc_proxy c = q
    \<and> py_equal (hc_verify c) (case dget (requests_kwargs r) ''verify'' of Some v \<Rightarrow> v | None \<Rightarrow> dl_verify dl)
    \<and> (\<forall>v. dget (requests_kwargs r) ''cookies'' = Some v \<and> truthy v
         \<longrightarrow> once \<and> hc_id c = ss_next st \<and> hc_cookies c = CkGiven v \<and> ss_clients st' = ss_clients st \<and> ss_jars st' = ss_jars st)
    \<and> (\<not> once \<longrightarrow> (\<exists>j. hc_cookies c = CkJar j))"
proof (cases once)
  case True
  have "truthy v \<Longrightarrow> v \<noteq> VNone" for v by auto
  then show ?thesis using assms(2,4) True by (auto simp: client_for_def Let_def py_equal_def split: if_splits prod.splits)
next
  case False
  let ?v = "case dget (requests_kwargs r) ''verify'' of Some v \<Rightarrow> v | None \<Rightarrow> dl_verify dl"
  have s: "session_client cfg dl cur i q (session_run cfg dl cur calls empty_store) = (c, st')" "py_equal ?v (dl_verify dl)"
    "\<not> truthy (case dget (requests_kwargs r) ''cookies'' of Some v \<Rightarrow> v | None \<Rightarrow> VNone)"
    using assms(3,4) False by (auto simp: client_for_def Let_def split: if_splits prod.splits)
  define n where "n = shard_count cfg cur None (dl_per_shard dl)"
  define m where "m = nat (max (max (SESSION_CACHE_SIZE cfg) 1 * n) 1)"
  have iv: "store_inv n m (dl_verify dl) (session_run cfg dl cur calls empty_store)" by (rule session_run_inv [OF n_def m_def empty_store_inv assms(1)])
  from session_client_step(2-4) [OF iv assms(2) n_def m_def s(1)] s(2,3) False show ?thesis by (auto simp: py_equal_def)
qed

theorem request_state_stays_private_witness:
  "let r = (request_defaults ''u'')\<lparr>requests_kwargs := [(''cookies'', VDict [(''sid'', VStr ''1'')])]\<rparr>;
       (c, once, st') = client_for default_setting (httpx_downloader default_setting True) None 0 r (Some ''a'') empty_store
   in once \<and> hc_cookies c = CkGiven (VDict [(''sid'', VStr ''1'')])"
proof -
  let ?r = "(request_defaults ''u'')\<lparr>requests_kwargs := [(''cookies'', VDict [(''sid'', VStr ''1'')])]\<rparr>"
  let ?dl = "httpx_downloader default_setting True"
  obtain c once st' where c: "client_for default_setting ?dl None 0 ?r (Some ''a'') empty_store = (c, once, st')" by (metis prod_cases3)
  from request_state_stays_private [of "[]" "Some ''a''" empty_store default_setting ?dl None 0 ?r c once st'] c show ?thesis
    by (simp add: proxy_name_def)
qed



section \<open>The asynchronous downloader agrees with the synchronous ones\<close>

lemma stream_loop_read:
  "stream_loop limit (int (length buf)) cs = (xs, brk) \<Longrightarrow> 0 < limit \<Longrightarrow>
    read_loop limit xs buf = read_loop limit cs buf \<and> brk = (\<not> fst (read_loop limit cs buf))"
proof (induction cs arbitrary: buf xs brk)
  case (Cons c cs)
  show ?case
  proof (cases "int (length (buf @ c)) > limit")
    case True
    then show ?thesis using Cons.prems by auto
  next
    case False
    obtain ys brk' where y: "stream_loop limit (int (length (buf @ c))) cs = (ys, brk')" by (metis surj_pair)
    then have "xs = c # ys" "brk = brk'" using Cons.prems False by (auto simp: Let_def)
    then show ?thesis using Cons.IH [OF y Cons.prems(2)] False by simp
  qed
qed simp

lemma stream_loop_all: "\<not> 0 < limit \<Longrightarrow> stream_loop limit n cs = (cs, False)"
  by (induction cs arbitrary: n) (auto simp: Let_def)

abbreviation declared_too_large :: "setting \<Rightarrow> response \<Rightarrow> bool" where
  "declared_too_large cfg resp \<equiv> (\<exists>t n. dget (rs_headers resp) ''content-length'' = Some t \<and> t \<noteq> [] \<and> py_int t = Some n \<and> n > MAX_RESPONSE_SIZE cfg)"

text \<open>C24: The asynchronous downloader, which reads the body with a loop of its own, returns and raises exactly what the synchronous ones do on
  every answer of the network: same body, same size limit, same content-type refusal, same library error.  The exception is a response whose
  declared length is over the limit and whose connection also breaks: the synchronous ones refuse it before they read.\<close>

theorem async_fetch_agrees:
  assumes "\<And>resp chunks e. a = HAnswer resp chunks (Some e) \<Longrightarrow> 0 < MAX_RESPONSE_SIZE cfg \<Longrightarrow> \<not> declared_too_large cfg resp"
  shows "async_stream cfg a = sync_fetch cfg a"
proof (cases a)
  case (HAnswer resp chunks tail)
  let ?lim = "MAX_RESPONSE_SIZE cfg" and ?decl = "dget (rs_headers resp) ''content-length''"
  obtain xs brk where s: "stream_loop ?lim 0 chunks = (xs, brk)" by (metis surj_pair)
  show ?thesis
  proof (cases "0 < ?lim")
    case False
    then have "xs = chunks" "\<not> brk" using s by (simp_all add: stream_loop_all)
    then show ?thesis using False
      by (auto simp: HAnswer async_stream_def sync_fetch_def s read_capped_def split: sum.splits option.splits)
  next
    case True
    have rl: "read_loop ?lim xs [] = read_loop ?lim chunks []" "brk = (\<not> fst (read_loop ?lim chunks []))"
      using stream_loop_read [of ?lim "[]" chunks xs brk] s True by simp_all
    have rc: "read_capped cfg xs ?decl = read_capped cfg chunks ?decl" using True by (simp add: read_capped_def Let_def rl(1))
    have brkd: "\<exists>e. read_capped cfg chunks ?decl = Inl e" if brk
      using that True rl(2) by (auto simp: read_capped_def Let_def split: prod.splits bool.splits)
    have nocut: "\<exists>b. read_capped cfg chunks ?decl = Inr b" if "\<not> brk" "\<not> declared_too_large cfg resp"
      using that True rl(2) by (auto simp: read_capped_def Let_def split: prod.splits bool.splits option.splits)
    show ?thesis
    proof (cases tail)
      case None
      then show ?thesis by (simp add: HAnswer async_stream_def sync_fetch_def s rc split: sum.splits)
    next
      case (Some e)
      have "\<not> declared_too_large cfg resp" using assms [of resp chunks e] True by (simp add: HAnswer Some)
      then show ?thesis using brkd nocut
        by (cases brk) (auto simp: HAnswer Some async_stream_def sync_fetch_def s rc split: sum.splits)
    qed
  qed
qed (simp_all add: async_stream_def sync_fetch_def)

theorem async_fetch_agrees_witness:
  "async_stream (default_setting\<lparr>MAX_RESPONSE_SIZE := 2\<rparr>) (HAnswer resp_429 [''ab'', ''c'', ''d''] (Some \<lparr>hx_proxy_class = False, hx_code = None\<rparr>))
   = sync_fetch (default_setting\<lparr>MAX_RESPONSE_SIZE := 2\<rparr>) (HAnswer resp_429 [''ab'', ''c'', ''d''] (Some \<lparr>hx_proxy_class = False, hx_code = None\<rparr>))"
  by (rule async_fetch_agrees) (auto simp: resp_429_def dget_map_of py_int_def)

text \<open>Closing leaves no client of any shard open.\<close>

lemma close_shard_one:
  assumes "k < length (ay_shards st)"
  shows "ay_shards (close_shard k st) = (ay_shards st)[k := \<lparr>ay_default = None, ay_proxied = []\<rparr>]"
    "set (ay_closed (close_shard k st)) = set (ay_closed st) \<union> hc_id ` (snd ` set (ay_proxied (ay_shards st ! k))) \<union> hc_id ` set_option (ay_default (ay_shards st ! k))"
  using assms by (auto simp: close_shard_def cache_drain_def Let_def split: option.splits)

lemma async_close_all:
  assumes "sh \<in> set (ay_shards st)" "dget (ay_proxied sh) p = Some c \<or> ay_default sh = Some c"
  shows "hc_id c \<in> set (ay_closed (async_close st))"
proof -
  have step: "length (ay_shards (fold close_shard [0..<n] st)) = length (ay_shards st)
      \<and> (\<forall>k. n \<le> k \<longrightarrow> k < length (ay_shards st) \<longrightarrow> ay_shards (fold close_shard [0..<n] st) ! k = ay_shards st ! k)
      \<and> (\<forall>k < n. \<forall>c. c \<in> snd ` set (ay_proxied (ay_shards st ! k)) \<or> ay_default (ay_shards st ! k) = Some c
            \<longrightarrow> hc_id c \<in> set (ay_closed (fold close_shard [0..<n] st)))" if "n \<le> length (ay_shards st)" for n
    using that
  proof (induction n)
    case (Suc n)
    then have IH: "length (ay_shards (fold close_shard [0..<n] st)) = length (ay_shards st)"
      "ay_shards (fold close_shard [0..<n] st) ! n = ay_shards st ! n" by simp_all
    have n: "n < length (ay_shards (fold close_shard [0..<n] st))" using IH(1) Suc.prems by simp
    show ?case using Suc close_shard_one [OF n] IH by (auto simp: less_Suc_eq image_iff)
  qed simp
  obtain k where "k < length (ay_shards st)" "ay_shards st ! k = sh" using assms(1) by (metis in_set_conv_nth)
  then show ?thesis using step [of "length (ay_shards st)"] assms(2) by (force simp: async_close_def dget_map_of dest: map_of_SomeD)
qed

section \<open>What the asynchronous downloader does not guarantee\<close>

text \<open>
  The jars' capacity is the sum of the shards' capacities, but a shard evicts on its own: the other shards may use so many proxies that
  the jar of a proxy is evicted while one shard still has its client.  With room for one client in each of two shards, a call of
  shard 1 for \<open>q\<close>, then \<open>s\<close>, pushes out the jar of \<open>p\<close>, whose client shard 0 keeps; the next call of shard 1 for \<open>p\<close> makes a second jar, so a
  login made through one shard is not seen through the other.
\<close>

lemma async_jars_split:
  fixes cfg :: setting
  defines "cfg \<equiv> default_setting\<lparr>SESSION_CACHE_SIZE := 1\<rparr>"
  shows "\<exists>st c d. st = snd (async_client_for_proxy cfg 1 ''p'' (VBool True) (snd (async_client_for_proxy cfg 1 ''s'' (VBool True)
       (snd (async_client_for_proxy cfg 1 ''q'' (VBool True) (snd (async_client_for_proxy cfg 0 ''p'' (VBool True) (async_new cfg (VBool True) 2))))))))
     \<and> ay_proxied (ay_shards st ! 0) = [(Some ''p'', c)] \<and> ay_proxied (ay_shards st ! 1) = [(Some ''p'', d)] \<and> hc_cookies c \<noteq> hc_cookies d"
proof -
  let ?mk = "\<lambda>n p j. make_client n p (VBool True) (CkJar j)"
  let ?dflt = "\<lambda>n. Some (?mk n None 0)"
  have c: "SESSION_CACHE_SIZE cfg = 1" by (simp add: cfg_def)
  have s0: "async_new cfg (VBool True) 2 = \<lparr>ay_shards = [\<lparr>ay_default = ?dflt 1, ay_proxied = []\<rparr>, \<lparr>ay_default = ?dflt 3, ay_proxied = []\<rparr>],
      ay_jars = [(None, 0)], ay_next = 4, ay_closed = []\<rparr>"
    by (simp add: async_new_def numeral_2_eq_2 async_jar_def jar_capacity_def get_or_create_def ddel_def c numeral_3_eq_3)
  have s1: "snd (async_client_for_proxy cfg 0 ''p'' (VBool True) (async_new cfg (VBool True) 2)) =
     \<lparr>ay_shards = [\<lparr>ay_default = ?dflt 1, ay_proxied = [(Some ''p'', ?mk 5 (Some ''p'') 4)]\<rparr>, \<lparr>ay_default = ?dflt 3, ay_proxied = []\<rparr>],
      ay_jars = [(None, 0), (Some ''p'', 4)], ay_next = 6, ay_closed = []\<rparr>" (is "_ = ?S1")
    unfolding s0 by (simp add: async_client_for_proxy_def async_jar_def jar_capacity_def get_or_create_def Let_def c)
  have s2: "snd (async_client_for_proxy cfg 1 ''q'' (VBool True) ?S1) =
     \<lparr>ay_shards = [\<lparr>ay_default = ?dflt 1, ay_proxied = [(Some ''p'', ?mk 5 (Some ''p'') 4)]\<rparr>,
        \<lparr>ay_default = ?dflt 3, ay_proxied = [(Some ''q'', ?mk 7 (Some ''q'') 6)]\<rparr>],
      ay_jars = [(Some ''p'', 4), (Some ''q'', 6)], ay_next = 8, ay_closed = []\<rparr>" (is "_ = ?S2")
    by (simp add: async_client_for_proxy_def async_jar_def jar_capacity_def get_or_create_def Let_def c)
  have s3: "snd (async_client_for_proxy cfg 1 ''s'' (VBool True) ?S2) =
     \<lparr>ay_shards = [\<lparr>ay_default = ?dflt 1, ay_proxied = [(Some ''p'', ?mk 5 (Some ''p'') 4)]\<rparr>,
        \<lparr>ay_default = ?dflt 3, ay_proxied = [(Some ''s'', ?mk 9 (Some ''s'') 8)]\<rparr>],
      ay_jars = [(Some ''q'', 6), (Some ''s'', 8)], ay_next = 10, ay_closed = [7]\<rparr>" (is "_ = ?S3")
    by (simp add: async_client_for_proxy_def async_jar_def jar_capacity_def get_or_create_def Let_def c)
  have s4: "snd (async_client_for_proxy cfg 1 ''p'' (VBool True) ?S3) =
     \<lparr>ay_shards = [\<lparr>ay_default = ?dflt 1, ay_proxied = [(Some ''p'', ?mk 5 (Some ''p'') 4)]\<rparr>,
        \<lparr>ay_default = ?dflt 3, ay_proxied = [(Some ''p'', ?mk 11 (Some ''p'') 10)]\<rparr>],
      ay_jars = [(Some ''s'', 8), (Some ''p'', 10)], ay_next = 12, ay_closed = [7, 9]\<rparr>"
    by (simp add: async_client_for_proxy_def async_jar_def jar_capacity_def get_or_create_def Let_def c)
  show ?thesis unfolding s1 s2 s3 s4 by simp
qed

text \<open>
  The client of a proxy keeps the \<open>verify\<close> of the request that happened to create it: after one request with \<open>verify=False\<close> the certificates of
  all later requests through that proxy go unchecked, and a direct request's own \<open>verify\<close> is ignored.
\<close>

lemma async_client_for_proxy_hit:
  assumes "dget (ay_proxied (ay_shards st ! k)) (Some p) = Some c"
  shows "fst (async_client_for_proxy cfg k p v st) = c"
proof -
  obtain j stj where j: "async_jar (Some p) (jar_capacity cfg (int (length (ay_shards st)))) st = (j, stj)" by force
  then have "ay_shards stj = ay_shards st" by (auto simp: async_jar_def split: prod.splits)
  then show ?thesis using assms by (simp add: async_client_for_proxy_def Let_def j get_or_create_def)
qed

lemma async_verify_of_first_request:
  assumes "k < length (ay_shards st)" "ay_default (ay_shards st ! k) = Some dflt" "dget (ay_proxied (ay_shards st ! k)) (Some p) = None"
    and "async_client cfg (VBool True) k ((request_defaults u1)\<lparr>requests_kwargs := [(''verify'', VBool False)]\<rparr>) (Some p) st = (Inr (c1, b1), st1)"
    and "async_client cfg (VBool True) k (request_defaults u2) (Some p) st1 = (Inr (c2, b2), st2)" and "0 < SESSION_CACHE_SIZE cfg"
  shows "hc_verify c2 = VBool False"
proof -
  have def: "async_client_for_proxy cfg k p (VBool False) st = (c1, st1)"
    using assms(2,4) by (auto simp: async_client_def Let_def split: prod.splits)
  obtain j stj where j: "async_jar (Some p) (jar_capacity cfg (int (length (ay_shards st)))) st = (j, stj)" by force
  then have sj: "ay_shards stj = ay_shards st" by (auto simp: async_jar_def split: prod.splits)
  obtain c ev cs where g: "get_or_create (Some p) (make_client (ay_next stj) (Some p) (VBool False) (CkJar j)) (SESSION_CACHE_SIZE cfg)
      (ay_proxied (ay_shards st ! k)) = ((c, ev), cs)" by (metis surj_pair)
  have c1: "c = c1" "ay_shards st1 = (ay_shards st)[k := (ay_shards st ! k)\<lparr>ay_proxied := cs\<rparr>]"
    using def by (auto simp: async_client_for_proxy_def Let_def j sj g)
  have "hc_verify c1 = VBool False" "dget cs (Some p) = Some c1"
  proof -
    show "hc_verify c1 = VBool False" using g assms(3) c1 by (auto simp: get_or_create_def Let_def)
    let ?d = "ay_proxied (ay_shards st ! k)"
    have "cs = drop (Suc (length ?d) - nat (max (SESSION_CACHE_SIZE cfg) 1)) (?d @ [(Some p, c1)])"
      using g assms(3) c1 by (auto simp: get_or_create_def Let_def)
    moreover have "Suc (length ?d) - nat (max (SESSION_CACHE_SIZE cfg) 1) \<le> length ?d" using assms(6) by simp
    ultimately have "cs = drop (Suc (length ?d) - nat (max (SESSION_CACHE_SIZE cfg) 1)) ?d @ [(Some p, c1)]" by simp
    moreover have "(Some p, v) \<notin> set ?d" for v using assms(3) by (force simp: dget_None_iff dkeys_def)
    then have "dget (drop i ?d) (Some p) = None" for i by (force simp: dget_None_iff dkeys_def dest: in_set_dropD)
    ultimately show "dget cs (Some p) = Some c1" by (simp add: dget_map_of map_add_def del: drop_append split: option.split)
  qed
  moreover have s1: "ay_default (ay_shards st1 ! k) = Some dflt" "ay_proxied (ay_shards st1 ! k) = cs" using c1(2) assms(1,2) by simp_all
  moreover have "fst (async_client_for_proxy cfg k p (VBool True) st1) = c2"
    using assms(5) s1(1) by (simp add: async_client_def request_defaults_def split: prod.splits)
  ultimately show ?thesis using async_client_for_proxy_hit [of st1 k p c1] by simp
qed

end
