(* ===== verification/Response_Cache.thy ===== *)
theory Response_Cache
  imports Status_Policy
begin

text \<open>
  The response cache (\<^verbatim>\<open>network/cache.py\<close>), the dictionary form of a response (\<^verbatim>\<open>network/response.py\<close>) with the base64 text of its body,
  and \<^verbatim>\<open>download_request\<close> of \<^verbatim>\<open>network/downloader/__init__.py\<close>, which puts the cache before throttle and network.

  A body is a string of bytes.  The record has no \<^verbatim>\<open>elapsed\<close> (a float that only callbacks read): the responses here are those without one,
  as the browser makes them.  A file is its modification time and its text.
\<close>

section \<open>Base64\<close>

text \<open>The alphabet: the capital letters, the small letters, the digits, \<open>+\<close> and \<open>/\<close>.\<close>

definition b64_char :: "nat \<Rightarrow> char" where
  "b64_char v = char_of (if v < 26 then v + 65 else if v < 52 then v + 71 else if v < 62 then v - 4 else if v = 62 then 43 else (47 :: nat))"

text \<open>\<^verbatim>\<open>base64.b64encode\<close>.\<close>

fun b64encode :: "nat list \<Rightarrow> string" where
  "b64encode [] = []"
| "b64encode [a] = [b64_char (a div 4), b64_char ((a mod 4) * 16), CHR ''='', CHR ''='']"
| "b64encode [a, b] = [b64_char (a div 4), b64_char ((a mod 4) * 16 + b div 16), b64_char ((b mod 16) * 4), CHR ''='']"
| "b64encode (a # b # c # xs) =
     b64_char (a div 4) # b64_char ((a mod 4) * 16 + b div 16) # b64_char ((b mod 16) * 4 + c div 64) # b64_char (c mod 64) # b64encode xs"

definition sextet :: "char \<Rightarrow> nat option" where
  "sextet ch = (let n = (of_char ch :: nat) in
     if 65 \<le> n \<and> n \<le> 90 then Some (n - 65) else if 97 \<le> n \<and> n \<le> 122 then Some (n - 71)
     else if 48 \<le> n \<and> n \<le> 57 then Some (n + 4) else if n = 43 then Some 62 else if n = 47 then Some 63 else None)"

text \<open>The bytes that \<open>q\<close> sextets of an unfinished group have produced.\<close>

fun partial_bytes :: "nat list \<Rightarrow> nat list" where
  "partial_bytes [u, v] = [u * 4 + v div 16]"
| "partial_bytes [u, v, w] = [u * 4 + v div 16, (v mod 16) * 16 + w div 4]"
| "partial_bytes _ = []"

text \<open>
  \<^verbatim>\<open>base64.b64decode\<close>, not strict: characters outside the alphabet are skipped, padding ends the text as soon as it completes a group,
  and an incomplete group at the end raises \<^verbatim>\<open>binascii.Error\<close>, a \<^verbatim>\<open>ValueError\<close>.
\<close>

fun b64_scan :: "nat list \<Rightarrow> nat \<Rightarrow> string \<Rightarrow> nat list res" where
  "b64_scan q pads [] = (if q = [] then Inr [] else Inl (raise_of PyValueError))"
| "b64_scan q pads (ch # cs) =
     (if ch = CHR ''='' then
        (if 2 \<le> length q then (if 4 \<le> length q + Suc pads then Inr (partial_bytes q) else b64_scan q (Suc pads) cs) else b64_scan q pads cs)
      else (case sextet ch of
              None \<Rightarrow> b64_scan q pads cs
            | Some v \<Rightarrow>
                (case q of
                   [s, t, u] \<Rightarrow> map_sum id (\<lambda>bs. partial_bytes [s, t, u] @ [(u mod 4) * 64 + v] @ bs) (b64_scan [] 0 cs)
                 | _ \<Rightarrow> b64_scan (q @ [v]) 0 cs)))"

definition b64decode :: "string \<Rightarrow> nat list res" where
  "b64decode s = b64_scan [] 0 s"

definition bytes_of :: "string \<Rightarrow> nat list" where
  "bytes_of s = map of_char s"

definition of_bytes :: "nat list \<Rightarrow> string" where
  "of_bytes bs = map char_of bs"

lemma sextet_b64_char: "v < 64 \<Longrightarrow> sextet (b64_char v) = Some v"
  by (auto simp: sextet_def b64_char_def Let_def)

lemma b64_char_not_pad: "b64_char v \<noteq> CHR ''=''"
proof
  assume "b64_char v = CHR ''=''"
  then have "(of_char (b64_char v) :: nat) = of_char (CHR ''='')" by simp
  then show False by (auto simp: b64_char_def split: if_splits)
qed

lemma scan_step:
  "v < 64 \<Longrightarrow> length q < 3 \<Longrightarrow> b64_scan q pads (b64_char v # cs) = b64_scan (q @ [v]) 0 cs"
  "v < 64 \<Longrightarrow> b64_scan [s, t, u] pads (b64_char v # cs) =
     map_sum id (\<lambda>bs. partial_bytes [s, t, u] @ [(u mod 4) * 64 + v] @ bs) (b64_scan [] 0 cs)"
  by (auto simp: sextet_b64_char b64_char_not_pad split: list.split)

lemma b64_roundtrip: "\<forall>b\<in>set bs. b < 256 \<Longrightarrow> b64_scan [] 0 (b64encode bs) = Inr bs"
proof (induction bs rule: b64encode.induct)
  case (2 a)
  then have "a div 4 < 64" "(a mod 4) * 16 < 64" by auto
  then show ?case by (simp add: scan_step del: b64_scan.simps) simp
next
  case (3 a b)
  then have "a div 4 < 64" "(a mod 4) * 16 + b div 16 < 64" "(b mod 16) * 4 < 64" by auto
  moreover have "(a mod 4 * 16 + b div 16) div 16 = a mod 4" "(a mod 4 * 16 + b div 16) mod 16 = b div 16" using 3 by auto
  ultimately show ?case by (simp add: scan_step del: b64_scan.simps) simp
next
  case (4 a b c xs)
  have v: "a div 4 < 64" "(a mod 4) * 16 + b div 16 < 64" "(b mod 16) * 4 + c div 64 < 64" "c mod 64 < 64" using "4.prems" by auto
  have e: "(a mod 4 * 16 + b div 16) div 16 = a mod 4" "(a mod 4 * 16 + b div 16) mod 16 = b div 16"
    "(b mod 16 * 4 + c div 64) div 4 = b mod 16" "(b mod 16 * 4 + c div 64) mod 4 = c div 64"
    "b div 16 mod 16 = b div 16" "c div 64 mod 4 = c div 64" using "4.prems" by auto
  show ?case using 4 v by (simp add: scan_step e del: b64_scan.simps)
qed simp

lemma b64_text: "b64decode (b64encode (bytes_of s)) = Inr (bytes_of s)" "of_bytes (bytes_of s) = s"
proof -
  have "\<forall>b\<in>set (bytes_of s). b < 256" by (auto simp: bytes_of_def)
  then show "b64decode (b64encode (bytes_of s)) = Inr (bytes_of s)" by (simp add: b64decode_def b64_roundtrip)
  show "of_bytes (bytes_of s) = s" by (simp add: bytes_of_def of_bytes_def comp_def)
qed

section \<open>The dictionary form of a response\<close>

text \<open>\<^verbatim>\<open>Response.__init__\<close>; \<open>lower\<close> is \<^verbatim>\<open>str.lower\<close> of header names, which are ASCII.\<close>

definition lower_keys :: "(string, string) pydict \<Rightarrow> (string, string) pydict" where
  "lower_keys hs = fold (\<lambda>(k, v) d. dset d (ascii_lower k) v) hs []"

definition new_response :: "string \<Rightarrow> int \<Rightarrow> string \<Rightarrow> (string, string) pydict \<Rightarrow> (string, string) pydict \<Rightarrow> string option \<Rightarrow> string list \<Rightarrow> response" where
  "new_response u status content headers cookies enc history =
     \<lparr>rs_url = u, rs_status = status, rs_content = content, rs_headers = lower_keys headers, rs_cookies = cookies,
      rs_encoding = enc, rs_history = history\<rparr>"

abbreviation v_strs :: "(string, string) pydict \<Rightarrow> pyval" where
  "v_strs d \<equiv> VDict (map (\<lambda>(k, v). (k, VStr v)) d)"

definition response_to_dict :: "response \<Rightarrow> (string, pyval) pydict" where
  "response_to_dict r =
     [(''url'', VStr (rs_url r)), (''status_code'', VInt (rs_status r)), (''headers'', v_strs (rs_headers r)),
      (''cookies'', v_strs (rs_cookies r)), (''encoding'', v_str (rs_encoding r)), (''elapsed'', VNone),
      (''history'', VList (map VStr (rs_history r))), (''content_b64'', VStr (b64encode (bytes_of (rs_content r))))]"

fun all_strs :: "(string, pyval) pydict \<Rightarrow> (string, string) pydict res" where
  "all_strs [] = Inr []"
| "all_strs ((k, v) # d) = bind_res (get_str v) (\<lambda>s. map_sum id (\<lambda>d'. (k, s) # d') (all_strs d))"

fun all_str :: "pyval list \<Rightarrow> string list res" where
  "all_str [] = Inr []"
| "all_str (v # vs) = bind_res (get_str v) (\<lambda>s. map_sum id (\<lambda>l. s # l) (all_str vs))"

fun get_list :: "pyval \<Rightarrow> pyval list res" where
  "get_list (VList xs) = Inr xs"
| "get_list VNone = Inr []"
| "get_list _ = Inl (raise_of PyTypeError)"

abbreviation data_get :: "(string, pyval) pydict \<Rightarrow> string \<Rightarrow> pyval" where
  "data_get d k \<equiv> (case dget d k of None \<Rightarrow> VNone | Some v \<Rightarrow> v)"

definition need :: "(string, pyval) pydict \<Rightarrow> string \<Rightarrow> pyval res" where
  "need d k = (case dget d k of None \<Rightarrow> Inl (raise_of PyKeyError) | Some v \<Rightarrow> Inr v)"

text \<open>\<^verbatim>\<open>Response.from_dict\<close>; a value of another type than the annotation's is an error of the model.\<close>

definition response_from_dict :: "(string, pyval) pydict \<Rightarrow> response res" where
  "response_from_dict d =
     bind_res (bind_res (need d ''url'') get_str) (\<lambda>u.
     bind_res (bind_res (need d ''status_code'') get_int) (\<lambda>status.
     bind_res (bind_res (get_str (case dget d ''content_b64'' of None \<Rightarrow> VStr [] | Some v \<Rightarrow> v)) b64decode) (\<lambda>content.
     bind_res (bind_res (get_dict (data_get d ''headers'')) all_strs) (\<lambda>headers.
     bind_res (bind_res (get_dict (data_get d ''cookies'')) all_strs) (\<lambda>cookies.
     bind_res (get_opt get_str (data_get d ''encoding'')) (\<lambda>enc.
     bind_res (bind_res (get_list (data_get d ''history'')) all_str) (\<lambda>history.
     Inr (new_response u status (of_bytes content) headers cookies enc history))))))))"

text \<open>What the constructor makes of its arguments.\<close>

definition wf_response :: "response \<Rightarrow> bool" where
  "wf_response r \<longleftrightarrow> distinct (dkeys (rs_headers r)) \<and> list_all (\<lambda>k. ascii_lower k = k) (dkeys (rs_headers r))"

lemma lower_of_idem: "lower_of (lower_of c) = lower_of c"
proof -
  have "(of_char c :: nat) < 256" by simp
  then show ?thesis by (auto simp: lower_of_def Let_def)
qed

lemma ascii_lower_idem: "ascii_lower (ascii_lower k) = ascii_lower k"
  by (simp add: ascii_lower_def lower_of_idem comp_def)

lemma dkeys_simps [simp]: "dkeys [] = []" "dkeys (e # d) = fst e # dkeys d" "dkeys (d @ d') = dkeys d @ dkeys d'"
  by (simp_all add: dkeys_def)

lemma fold_dset_keys:
  "set (dkeys (fold (\<lambda>(k, v) d. dset d (f k) v) hs d0)) = set (dkeys d0) \<union> f ` set (dkeys hs)"
  by (induction hs arbitrary: d0) auto

lemma fold_dset_distinct:
  "distinct (dkeys d0) \<Longrightarrow> distinct (dkeys (fold (\<lambda>(k, v) d. dset d (f k) v) hs d0))"
  by (induction hs arbitrary: d0) auto

lemma new_response_wf: "wf_response (new_response u st c hs ck enc hist)"
  unfolding wf_response_def new_response_def lower_keys_def
  using fold_dset_keys [where f = ascii_lower and hs = hs and ?d0.0 = "[]"] fold_dset_distinct [where f = ascii_lower and hs = hs and ?d0.0 = "[]"]
  by (auto simp: list_all_iff ascii_lower_idem)

lemma lower_keys_id:
  assumes "distinct (dkeys hs)" "list_all (\<lambda>k. ascii_lower k = k) (dkeys hs)"
  shows "lower_keys hs = hs"
proof -
  have "fold (\<lambda>(k, v) d. dset d (ascii_lower k) v) hs d0 = d0 @ hs"
    if "distinct (dkeys d0 @ dkeys hs)" "list_all (\<lambda>k. ascii_lower k = k) (dkeys hs)" for d0
    using that
  proof (induction hs arbitrary: d0)
    case (Cons e hs)
    obtain k v where e: "e = (k, v)" by force
    have "k \<notin> set (dkeys d0)" using Cons.prems by (auto simp: e)
    then show ?case using Cons.IH [of "d0 @ [(k, v)]"] Cons.prems by (simp add: e dset_append_new)
  qed simp
  from this [of "[]"] show ?thesis using assms by (simp add: lower_keys_def)
qed

lemma all_strs_map: "all_strs (map (\<lambda>(k, v). (k, VStr v)) d) = Inr d"
  by (induction d) auto

lemma all_str_map: "all_str (map VStr xs) = Inr xs"
  by (induction xs) auto

lemma response_dict_roundtrip: "wf_response r \<Longrightarrow> response_from_dict (response_to_dict r) = Inr r"
  by (simp add: response_from_dict_def response_to_dict_def need_def b64_text all_strs_map all_str_map new_response_def
      wf_response_def lower_keys_id del: v_str_def)

section \<open>The cache\<close>

text \<open>The files below \<open>RESPONSE_CACHE_PATH\<close> that exist, by path; \<open>fp\<close> is \<^verbatim>\<open>request.fingerprint\<close>.\<close>

type_synonym cache_files = "string \<Rightarrow> (time \<times> string) option"

definition entry_path :: "setting \<Rightarrow> string \<Rightarrow> string" where
  "entry_path cfg fp = RESPONSE_CACHE_PATH cfg @ ''/'' @ take 2 fp @ ''/'' @ fp @ ''.json''"

definition part_path :: "setting \<Rightarrow> string \<Rightarrow> string" where
  "part_path cfg fp = RESPONSE_CACHE_PATH cfg @ ''/'' @ take 2 fp @ ''/'' @ fp @ ''.part''"

definition cacheable :: "request \<Rightarrow> bool" where
  "cacheable r = (http_method r = ''GET'')"

text \<open>\<^verbatim>\<open>load\<close>; \<open>readable\<close> says whether the file system answers.\<close>

definition cache_load :: "setting \<Rightarrow> (request \<Rightarrow> string) \<Rightarrow> bool \<Rightarrow> time \<Rightarrow> request \<Rightarrow> cache_files \<Rightarrow> response option" where
  "cache_load cfg fp readable now r fs =
     (if \<not> RESPONSE_CACHE_ENABLE cfg \<or> \<not> cacheable r then None
      else if \<not> readable then None
      else case fs (entry_path cfg (fp r)) of
        None \<Rightarrow> None
      | Some (mtime, text) \<Rightarrow>
          if 0 < RESPONSE_CACHE_EXPIRE cfg \<and> now - mtime > RESPONSE_CACHE_EXPIRE cfg then None
          else (case bind_res (loads_json text) (\<lambda>v. bind_res (case v of VDict d \<Rightarrow> Inr d | _ \<Rightarrow> Inl (raise_of PyTypeError)) response_from_dict) of
                  Inl _ \<Rightarrow> None | Inr resp \<Rightarrow> Some resp))"

text \<open>Where writing an entry may fail: creating the directory, in the middle of the text, or at the renaming.\<close>

datatype store_io = StoreOk | MkdirFails | WriteFails nat | ReplaceFails

definition cache_store :: "setting \<Rightarrow> (request \<Rightarrow> string) \<Rightarrow> store_io \<Rightarrow> time \<Rightarrow> request \<Rightarrow> response \<Rightarrow> cache_files \<Rightarrow> cache_files" where
  "cache_store cfg fp io now r resp fs =
     (if \<not> RESPONSE_CACHE_ENABLE cfg \<or> \<not> cacheable r then fs
      else if classify cfg resp \<noteq> VerdictOk then fs
      else let text = dumps_json (VDict (response_to_dict resp)); tmp = part_path cfg (fp r)
           in case io of
                StoreOk \<Rightarrow> (fs(tmp := None))(entry_path cfg (fp r) \<mapsto> (now, text))
              | MkdirFails \<Rightarrow> fs
              | WriteFails n \<Rightarrow> fs(tmp \<mapsto> (now, take n text))
              | ReplaceFails \<Rightarrow> fs(tmp \<mapsto> (now, text)))"

text \<open>
  \<^verbatim>\<open>download_request\<close>: \<open>enter\<close> and \<open>leave\<close> are the two halves of \<^verbatim>\<open>throttle.slot\<close>, \<open>get\<close> the chosen downloader; \<open>now\<close> and \<open>now2\<close> are the times
  of the lookup and of the storing.
\<close>

definition download_request :: "setting \<Rightarrow> (request \<Rightarrow> string) \<Rightarrow> (string \<Rightarrow> bool) \<times> (string \<Rightarrow> bool) \<Rightarrow> (string \<Rightarrow> 'w \<Rightarrow> 'w) \<Rightarrow> (string \<Rightarrow> 'w \<Rightarrow> 'w)
    \<Rightarrow> (request \<Rightarrow> 'w \<Rightarrow> response res \<times> 'w) \<Rightarrow> bool \<Rightarrow> store_io \<Rightarrow> time \<Rightarrow> time \<Rightarrow> request \<Rightarrow> cache_files \<times> 'w
    \<Rightarrow> response res \<times> cache_files \<times> 'w" where
  "download_request cfg fp pats enter leave get readable io now now2 r = (\<lambda>(fs, w).
     (case cache_load cfg fp readable now r fs of
        Some resp \<Rightarrow> (Inr resp, fs, w)
      | None \<Rightarrow>
          (case get r (enter (url r) w) of (x, w1) \<Rightarrow>
             let w2 = leave (url r) w1
             in case x of
                  Inl e \<Rightarrow> (Inl e, fs, w2)
                | Inr resp \<Rightarrow>
                    (case (if ANTIBOT_DETECT cfg then raise_if_blocked (fst pats) (snd pats) resp else Inr ()) of
                       Inl e \<Rightarrow> (Inl e, fs, w2)
                     | Inr _ \<Rightarrow> (Inr resp, cache_store cfg fp io now2 r resp fs, w2)))))"

definition cache_clear :: "string list \<Rightarrow> cache_files \<Rightarrow> nat \<times> cache_files" where
  "cache_clear json_paths fs = (length json_paths, fs |` (- set json_paths))"

lemma entry_not_part: "entry_path cfg a \<noteq> part_path cfg b"
proof
  assume "entry_path cfg a = part_path cfg b"
  then have "rev (entry_path cfg a) = rev (part_path cfg b)" by simp
  then show False by (simp add: entry_path_def part_path_def)
qed

lemma split_first: "a @ c # x = b @ c # y \<Longrightarrow> c \<notin> set a \<Longrightarrow> c \<notin> set b \<Longrightarrow> x = y"
proof (induction a arbitrary: b)
  case Nil
  then show ?case by (cases b) auto
next
  case (Cons d a)
  then show ?case by (cases b) auto
qed

lemma entry_path_inj:
  assumes "entry_path cfg a = entry_path cfg b" "CHR ''/'' \<notin> set a" "CHR ''/'' \<notin> set b"
  shows "a = b"
proof -
  have "take 2 a @ CHR ''/'' # (a @ ''.json'') = take 2 b @ CHR ''/'' # (b @ ''.json'')" using assms(1) by (simp add: entry_path_def)
  moreover have "CHR ''/'' \<notin> set (take 2 a)" "CHR ''/'' \<notin> set (take 2 b)" using assms(2,3) by (auto dest: in_set_takeD)
  ultimately have "a @ ''.json'' = b @ ''.json''" by (rule split_first)
  then show ?thesis by simp
qed

section \<open>Properties\<close>

text \<open>C23: A cached page is the page that was fetched.  When \<^verbatim>\<open>download_request\<close> has fetched and stored a normal page, every later \<open>GET\<close> request with the
  same fingerprint that comes before the entry expires gets exactly that response, body bytes, headers, cookies and history included, without
  taking a throttle slot or touching the network; whatever pages with other fingerprints were stored in between, and wherever
  writes of the same entry failed in between.\<close>

theorem cache_hit_is_the_page:
  assumes "RESPONSE_CACHE_ENABLE cfg" and "cacheable r" and "cacheable r'" and "fp r' = fp r" and "CHR ''/'' \<notin> set (fp r)"
    and "download_request cfg fp pats enter leave get True StoreOk now now2 r (fs, w) = (Inr resp, fs1, w1)"
    and "cache_load cfg fp True now r fs = None" and "classify cfg resp = VerdictOk" and "wf_response resp"
    and "\<forall>(io, t, q, x)\<in>set others. CHR ''/'' \<notin> set (fp q) \<and> (fp q = fp r \<longrightarrow> io \<noteq> StoreOk)"
    and "fs2 = fold (\<lambda>(io, t, q, x). cache_store cfg fp io t q x) others fs1"
    and "RESPONSE_CACHE_EXPIRE cfg = 0 \<or> later \<le> now2 + RESPONSE_CACHE_EXPIRE cfg"
  shows "download_request cfg fp pats enter leave get True io' later now3 r' (fs2, v) = (Inr resp, fs2, v)"
proof -
  let ?k = "entry_path cfg (fp r)" and ?text = "dumps_json (VDict (response_to_dict resp))"
  have 1: "fs1 ?k = Some (now2, ?text)"
  proof -
    obtain x w0 where g: "get r (enter (url r) w) = (x, w0)" by force
    have "fs1 = cache_store cfg fp StoreOk now2 r resp fs"
      using assms(6,7) by (auto simp: download_request_def g Let_def split: sum.splits)
    then show ?thesis using assms(1,2,8) by (simp add: cache_store_def Let_def)
  qed
  have keep: "\<forall>(io, t, q, x)\<in>set others. CHR ''/'' \<notin> set (fp q) \<and> (fp q = fp r \<longrightarrow> io \<noteq> StoreOk) \<Longrightarrow> fs0 ?k = Some e
      \<Longrightarrow> fold (\<lambda>(io, t, q, x). cache_store cfg fp io t q x) others fs0 ?k = Some e" for fs0 e
  proof (induction others arbitrary: fs0)
    case (Cons o' others)
    obtain io t q x where o': "o' = (io, t, q, x)" by (metis prod_cases4)
    have "entry_path cfg (fp q) \<noteq> ?k \<or> io \<noteq> StoreOk" using Cons.prems(1) entry_path_inj [of cfg "fp q" "fp r"] assms(5) by (auto simp: o')
    then have "cache_store cfg fp io t q x fs0 ?k = Some e"
      using Cons.prems(2) entry_not_part [of cfg "fp r" "fp q"] by (auto simp: cache_store_def Let_def split: store_io.split)
    then show ?case using Cons by (auto simp: o')
  qed simp
  from keep [of fs1 "(now2, ?text)", OF assms(10) 1] have "fs2 ?k = Some (now2, ?text)" using assms(11) by simp
  then have "cache_load cfg fp True later r' fs2 = Some resp"
    using assms(1,3,4,12) response_dict_roundtrip [OF assms(9)]
    by (auto simp: cache_load_def loads_dumps simp del: dumps_json.simps)
  then show ?thesis by (simp add: download_request_def)
qed

definition cached_page :: response where
  "cached_page = \<lparr>rs_url = ''u'', rs_status = 200, rs_content = ''hi'', rs_headers = [(''a'', ''b'')], rs_cookies = [], rs_encoding = None, rs_history = []\<rparr>"

theorem cache_hit_is_the_page_witness:
  "\<exists>fs. download_request (default_setting\<lparr>RESPONSE_CACHE_ENABLE := True, ANTIBOT_DETECT := False\<rparr>) url (\<lambda>_. False, \<lambda>_. False) (\<lambda>_ w. w) (\<lambda>_ w. w)
     (\<lambda>_ w. (Inl (raise_of RequestError), w)) True MkdirFails 3600 3600 (request_defaults ''u'') (fs, 0 :: nat) = (Inr cached_page, fs, 0)"
proof -
  let ?cfg = "default_setting\<lparr>RESPONSE_CACHE_ENABLE := True, ANTIBOT_DETECT := False\<rparr>"
  let ?get = "\<lambda>_ w. if w = (1 :: nat) then (Inr cached_page, w) else (Inl (raise_of RequestError), w)" and ?r = "request_defaults ''u''"
  let ?dl = "download_request ?cfg url (\<lambda>_. False, \<lambda>_. False) (\<lambda>_ w. w) (\<lambda>_ w. w) ?get True"
  have n: "cache_load ?cfg url True 0 ?r (\<lambda>_. None) = None" by (simp add: cache_load_def)
  obtain fs1 where d: "?dl StoreOk 0 0 ?r (\<lambda>_. None, 1) = (Inr cached_page, fs1, 1)" by (simp add: download_request_def n Let_def)
  have "?dl MkdirFails 3600 3600 ?r (fs1, 0) = (Inr cached_page, fs1, 0)"
    by (rule cache_hit_is_the_page [OF _ _ _ _ _ d n, of ?r "[]"])
      (simp_all add: cacheable_def request_defaults_def classify_def cached_page_def wf_response_def ascii_lower_def lower_of_def default_setting_def)
  then have "cache_load ?cfg url True 3600 ?r fs1 = Some cached_page" by (auto simp: download_request_def split: option.splits)
  then show ?thesis by (intro exI [of _ fs1]) (simp add: download_request_def)
qed

text \<open>The fingerprint does not contain how a page is fetched: a rendered request is served the page that was fetched without a browser, and a request with
  an account's cookies the page another account has fetched.\<close>

lemma cache_ignores_render_and_account:
  "cache_load cfg (fingerprint md5 canon) rd now (r\<lparr>render := True, requests_kwargs := dset (requests_kwargs r) ''cookies'' ck\<rparr>) fs
   = cache_load cfg (fingerprint md5 canon) rd now r fs" (is "cache_load _ _ _ _ ?r' _ = _")
proof -
  have "fingerprint md5 canon ?r' = fingerprint md5 canon r" by (simp add: fingerprint_def Let_def split: option.split)
  then show ?thesis by (simp add: cache_load_def cacheable_def)
qed

end
