(* ===== verification/Batch_Sql.thy ===== *)
theory Batch_Sql
  imports Batch
begin

text \<open>
  \<^verbatim>\<open>MysqlBatchStore\<close> (\<^verbatim>\<open>netspy/core/batch_store.py\<close>): each method as the effect of its SQL statement on the two tables, and the
  contract that both stores keep (the locale \<open>task_table\<close>).

  The server is the documented one: a statement is atomic and so is the transaction of \<^verbatim>\<open>claim_tasks\<close> (\<^verbatim>\<open>SELECT ... FOR UPDATE\<close> holds the
  rows until the commit); the id is the primary key; the task table is the one of \<^verbatim>\<open>docs/batch-spider.md\<close>, whose time column is
  \<^verbatim>\<open>ON UPDATE CURRENT_TIMESTAMP\<close>, that is, set when an \<^verbatim>\<open>UPDATE\<close> changes the row; \<^verbatim>\<open>NOW()\<close> has whole seconds.  The order of the rows is the
  order in which the server scans the table.
\<close>

section \<open>The two tables\<close>

record sql_task = task_row +
  q_time :: int

record sql_batch = batch_record +
  q_created :: int

record sql_db =
  sd_tasks :: "sql_task list"
  sd_batches :: "sql_batch list"
  sd_next :: nat

text \<open>A statement is executed, or fails before it took effect, or its effect is committed and the reply is lost.\<close>

datatype sql_io = SqlOk | SqlFails | ReplyLost

definition sql_call :: "sql_io \<Rightarrow> ('d \<Rightarrow> 'a \<times> 'd) \<Rightarrow> 'd \<Rightarrow> 'a res \<times> 'd" where
  "sql_call io f db =
     (case io of
        SqlOk \<Rightarrow> (case f db of (x, db1) \<Rightarrow> (Inr x, db1))
      | SqlFails \<Rightarrow> (Inl (raise_of PyOtherError), db)
      | ReplyLost \<Rightarrow> (Inl (raise_of PyOtherError), snd (f db)))"

definition sql_now :: "time \<Rightarrow> int" where
  "sql_now t = \<lfloor>t\<rfloor>"

text \<open>\<^verbatim>\<open>UPDATE ... SET state = x WHERE\<close> the rows that satisfy \<open>P\<close>: rows matched, and the table.\<close>

definition set_state :: "time \<Rightarrow> int \<Rightarrow> (sql_task \<Rightarrow> bool) \<Rightarrow> sql_db \<Rightarrow> nat \<times> sql_db" where
  "set_state now x P db =
     (length (filter P (sd_tasks db)),
      db\<lparr>sd_tasks := map (\<lambda>t. if P t \<and> t_state t \<noteq> x then t\<lparr>t_state := x, q_time := sql_now now\<rparr> else t) (sd_tasks db)\<rparr>)"

section \<open>Batch records\<close>

definition sql_latest_batch :: "sql_io \<Rightarrow> sql_db \<Rightarrow> batch_record option res \<times> sql_db" where
  "sql_latest_batch io = sql_call io (\<lambda>db.
     (case sd_batches db of [] \<Rightarrow> None
      | b # bs \<Rightarrow> Some (batch_record.truncate (fold (\<lambda>x y. if br_id x > br_id y then x else y) bs b)), db))"

definition sql_batch_age :: "sql_io \<Rightarrow> time \<Rightarrow> nat \<Rightarrow> sql_db \<Rightarrow> time res \<times> sql_db" where
  "sql_batch_age io now i = sql_call io (\<lambda>db.
     (case filter (\<lambda>b. br_id b = i) (sd_batches db) of [] \<Rightarrow> 0 | b # _ \<Rightarrow> of_int (sql_now now - q_created b), db))"

definition sql_create_batch :: "sql_io \<Rightarrow> time \<Rightarrow> string \<Rightarrow> nat \<Rightarrow> time \<Rightarrow> string \<Rightarrow> sql_db \<Rightarrow> batch_record res \<times> sql_db" where
  "sql_create_batch io now date n interval unit = sql_call io (\<lambda>db.
     let i = sd_next db;
         b = \<lparr>br_id = i, br_date = date, br_total = n, br_done = 0, br_fail = 0, br_interval = interval, br_unit = unit, br_is_done = False,
              q_created = sql_now now\<rparr>
     in (batch_record.truncate b, db\<lparr>sd_batches := sd_batches db @ [b], sd_next := Suc i\<rparr>))"

definition sql_update_batch_counts :: "sql_io \<Rightarrow> nat \<Rightarrow> nat \<Rightarrow> nat \<Rightarrow> nat \<Rightarrow> sql_db \<Rightarrow> unit res \<times> sql_db" where
  "sql_update_batch_counts io i dn failed n = sql_call io (\<lambda>db.
     ((), db\<lparr>sd_batches := map (\<lambda>b. if br_id b = i then b\<lparr>br_done := dn, br_fail := failed, br_total := n\<rparr> else b) (sd_batches db)\<rparr>))"

definition sql_finish_batch :: "sql_io \<Rightarrow> nat \<Rightarrow> sql_db \<Rightarrow> unit res \<times> sql_db" where
  "sql_finish_batch io i = sql_call io (\<lambda>db.
     ((), db\<lparr>sd_batches := map (\<lambda>b. if br_id b = i then b\<lparr>br_is_done := True\<rparr> else b) (sd_batches db)\<rparr>))"

section \<open>Tasks\<close>

text \<open>\<^verbatim>\<open>SELECT state, COUNT(*) ... GROUP BY state\<close>, in the order in which the states first occur.\<close>

definition group_counts :: "sql_task list \<Rightarrow> (int \<times> nat) list" where
  "group_counts ts = map (\<lambda>s. (s, length (filter (\<lambda>t. t_state t = s) ts))) (remdups (map t_state ts))"

definition sql_count_tasks :: "sql_io \<Rightarrow> sql_db \<Rightarrow> task_counts res \<times> sql_db" where
  "sql_count_tasks io = sql_call io (\<lambda>db.
     let by_state = group_counts (sd_tasks db); get = (\<lambda>s. case dget by_state s of None \<Rightarrow> 0 | Some c \<Rightarrow> c)
     in (\<lparr>tc_total = sum_list (map snd by_state), tc_todo = get TODO, tc_doing = get DOING, tc_done = get DONE, tc_failed = get FAILED\<rparr>, db))"

definition sql_reset_all_tasks :: "sql_io \<Rightarrow> time \<Rightarrow> sql_db \<Rightarrow> unit res \<times> sql_db" where
  "sql_reset_all_tasks io now = sql_call io (\<lambda>db. ((), snd (set_state now TODO (\<lambda>_. True) db)))"

definition sql_reset_lost_tasks :: "sql_io \<Rightarrow> time \<Rightarrow> time \<Rightarrow> sql_db \<Rightarrow> nat res \<times> sql_db" where
  "sql_reset_lost_tasks io now stale = sql_call io
     (set_state now TODO (\<lambda>t. t_state t = DOING \<and> q_time t < sql_now now - (if stale < 0 then \<lceil>stale\<rceil> else \<lfloor>stale\<rfloor>)))"

definition sql_claim_tasks :: "sql_io \<Rightarrow> time \<Rightarrow> int \<Rightarrow> sql_db \<Rightarrow> sql_task list res \<times> sql_db" where
  "sql_claim_tasks io now limit = sql_call io (\<lambda>db.
     let rows = take (nat (max 1 limit)) (filter (\<lambda>t. t_state t = TODO) (sd_tasks db))
     in if rows = [] then ([], db)
        else (rows, snd (set_state now DOING (\<lambda>t. t_id t \<in> set (map t_id rows)) db)))"

definition sql_mark_task :: "sql_io \<Rightarrow> time \<Rightarrow> pyval \<Rightarrow> int \<Rightarrow> sql_db \<Rightarrow> unit res \<times> sql_db" where
  "sql_mark_task io now i x = sql_call io (\<lambda>db. ((), snd (set_state now x (\<lambda>t. t_id t = i) db)))"

section \<open>The contract of a store\<close>

text \<open>\<open>state_of s i\<close>: the state of task \<open>i\<close>.  \<open>'c\<close> is what a call depends on besides its arguments: clock readings, faults.\<close>

locale task_table =
  fixes ok :: "'s \<Rightarrow> bool" and state_of :: "'s \<Rightarrow> pyval \<rightharpoonup> int"
    and claim :: "'c \<Rightarrow> int \<Rightarrow> 's \<Rightarrow> pyval list res \<times> 's" and mark :: "'c \<Rightarrow> pyval \<Rightarrow> int \<Rightarrow> 's \<Rightarrow> 's"
    and reset_lost :: "'c \<Rightarrow> 's \<Rightarrow> 's" and reset_all :: "'c \<Rightarrow> 's \<Rightarrow> 's"
  assumes keep_ok: "ok s \<Longrightarrow> ok (snd (claim c n s))" "ok s \<Longrightarrow> ok (mark c i x s)" "ok s \<Longrightarrow> ok (reset_lost c s)" "ok s \<Longrightarrow> ok (reset_all c s)"
    and claim_answer: "ok s \<Longrightarrow> claim c n s = (Inr ids, s') \<Longrightarrow>
      distinct ids \<and> (\<forall>i\<in>set ids. state_of s i = Some TODO) \<and> length ids = min (nat (max 1 n)) (card {i. state_of s i = Some TODO})
      \<and> (\<forall>i. state_of s' i = (if i \<in> set ids then Some DOING else state_of s i))"
    and claim_failed: "ok s \<Longrightarrow> claim c n s = (Inl e, s') \<Longrightarrow>
      state_of s' i = state_of s i \<or> state_of s i = Some TODO \<and> state_of s' i = Some DOING"
    and mark_one: "ok s \<Longrightarrow> state_of (mark c i x s) j = (if i = j \<and> state_of s i \<noteq> None then Some x else state_of s j)
        \<or> state_of (mark c i x s) j = state_of s j"
    and lost_back: "ok s \<Longrightarrow> state_of (reset_lost c s) i = state_of s i \<or> state_of s i = Some DOING \<and> state_of (reset_lost c s) i = Some TODO"
    and all_back: "ok s \<Longrightarrow> state_of (reset_all c s) i = state_of s i \<or> state_of s i \<noteq> None \<and> state_of (reset_all c s) i = Some TODO"

text \<open>Calls of the masters and the workers, one after the other; the answers of the claims.\<close>

datatype 'c table_op = OpClaim 'c int | OpMark 'c pyval int | OpLost 'c | OpAll 'c

fun run_table :: "('c \<Rightarrow> int \<Rightarrow> 's \<Rightarrow> pyval list res \<times> 's) \<Rightarrow> ('c \<Rightarrow> pyval \<Rightarrow> int \<Rightarrow> 's \<Rightarrow> 's) \<Rightarrow> ('c \<Rightarrow> 's \<Rightarrow> 's) \<Rightarrow> ('c \<Rightarrow> 's \<Rightarrow> 's)
    \<Rightarrow> 'c table_op list \<Rightarrow> 's \<Rightarrow> pyval list list \<times> 's" where
  "run_table claim mark lost al [] s = ([], s)"
| "run_table claim mark lost al (OpClaim c n # ops) s =
     (case claim c n s of (x, s1) \<Rightarrow> (case run_table claim mark lost al ops s1 of (out, s2) \<Rightarrow>
        ((case x of Inl _ \<Rightarrow> [] | Inr ids \<Rightarrow> ids) # out, s2)))"
| "run_table claim mark lost al (OpMark c i x # ops) s = run_table claim mark lost al ops (mark c i x s)"
| "run_table claim mark lost al (OpLost c # ops) s = run_table claim mark lost al ops (lost c s)"
| "run_table claim mark lost al (OpAll c # ops) s = run_table claim mark lost al ops (al c s)"

text \<open>The calls that may make task \<open>i\<close> claimable again.\<close>

fun reopens :: "pyval \<Rightarrow> 'c table_op \<Rightarrow> bool" where
  "reopens i (OpClaim c n) = False"
| "reopens i (OpMark c j x) = (i = j \<and> x = TODO)"
| "reopens i (OpLost c) = True"
| "reopens i (OpAll c) = True"

context task_table
begin

abbreviation run where "run \<equiv> run_table claim mark reset_lost reset_all"

lemma run_ok: "ok s \<Longrightarrow> run ops s = (out, s') \<Longrightarrow> ok s'"
proof (induction ops arbitrary: s out s')
  case (Cons o' ops)
  show ?case
  proof (cases o')
    case (OpClaim c n)
    obtain x s1 where c: "claim c n s = (x, s1)" by force
    obtain out1 s2 where r: "run ops s1 = (out1, s2)" by force
    show ?thesis using Cons.IH [OF _ r] keep_ok(1) [OF Cons.prems(1), of c n] Cons.prems(2) by (simp add: OpClaim c r)
  next
    case (OpMark c i x)
    then show ?thesis using Cons.IH [OF keep_ok(2) [OF Cons.prems(1)]] Cons.prems(2) by simp
  next
    case (OpLost c)
    then show ?thesis using Cons.IH [OF keep_ok(3) [OF Cons.prems(1)]] Cons.prems(2) by simp
  next
    case (OpAll c)
    then show ?thesis using Cons.IH [OF keep_ok(4) [OF Cons.prems(1)]] Cons.prems(2) by simp
  qed
qed simp

text \<open>A task that is not waiting is not handed out again.\<close>

lemma not_claimed_while_taken:
  "ok s \<Longrightarrow> state_of s i \<noteq> Some TODO \<Longrightarrow> \<forall>p\<in>set ops. \<not> reopens i p \<Longrightarrow> run ops s = (out, s') \<Longrightarrow> ids \<in> set out \<Longrightarrow> i \<notin> set ids"
proof (induction ops arbitrary: s out s')
  case (Cons o' ops)
  show ?case
  proof (cases o')
    case (OpClaim c n)
    obtain x s1 where c: "claim c n s = (x, s1)" by force
    obtain out1 s2 where r: "run ops s1 = (out1, s2)" by force
    have ok1: "ok s1" using keep_ok(1) [OF Cons.prems(1), of c n] c by simp
    have n1: "state_of s1 i \<noteq> Some TODO"
    proof (cases x)
      case (Inl e)
      from claim_failed [OF Cons.prems(1) c [unfolded Inl], of i] Cons.prems(2) show ?thesis by auto
    next
      case (Inr ids1)
      from claim_answer [OF Cons.prems(1) c [unfolded Inr]] Cons.prems(2) show ?thesis by (auto simp: TODO_def DOING_def)
    qed
    have "i \<notin> set ids1" if "x = Inr ids1" for ids1 using claim_answer [OF Cons.prems(1) c [unfolded that]] Cons.prems(2) by auto
    then show ?thesis using Cons.IH [OF ok1 n1 _ r] Cons.prems(3-5) by (auto simp: OpClaim c r split: sum.splits)
  next
    case (OpMark c j x)
    have "state_of (mark c j x s) i \<noteq> Some TODO" using mark_one [OF Cons.prems(1), of c j x i] Cons.prems(2,3) by (auto simp: OpMark split: if_splits)
    from Cons.IH [OF keep_ok(2) [OF Cons.prems(1)] this] Cons.prems(3-5) show ?thesis by (simp add: OpMark)
  qed (use Cons.prems(3) in auto)
qed simp

lemma claimed_once:
  assumes "ok s" "claim c n s = (Inr ids, s1)" "i \<in> set ids" "\<forall>p\<in>set ops. \<not> reopens i p" "run ops s1 = (out, s2)"
  shows "\<forall>ids'\<in>set out. i \<notin> set ids'"
proof -
  have "state_of s1 i \<noteq> Some TODO" using claim_answer [OF assms(1,2)] assms(3) by (auto simp: TODO_def DOING_def)
  moreover have "ok s1" using keep_ok(1) [OF assms(1), of c n] assms(2) by simp
  ultimately show ?thesis using not_claimed_while_taken assms(4,5) by blast
qed

text \<open>No task disappears, and none appears.\<close>

lemma run_dom: "ok s \<Longrightarrow> run ops s = (out, s') \<Longrightarrow> (state_of s' i = None) = (state_of s i = None)"
proof (induction ops arbitrary: s out s')
  case (Cons o' ops)
  show ?case
  proof (cases o')
    case (OpClaim c n)
    obtain x s1 where c: "claim c n s = (x, s1)" by force
    obtain out1 s2 where r: "run ops s1 = (out1, s2)" by force
    have ok1: "ok s1" using keep_ok(1) [OF Cons.prems(1), of c n] c by simp
    have "(state_of s1 i = None) = (state_of s i = None)"
    proof (cases x)
      case (Inl e)
      from claim_failed [OF Cons.prems(1) c [unfolded Inl], of i] show ?thesis by auto
    next
      case (Inr ids1)
      from claim_answer [OF Cons.prems(1) c [unfolded Inr]] show ?thesis by auto
    qed
    then show ?thesis using Cons.IH [OF ok1 r] Cons.prems(2) by (simp add: OpClaim c r)
  next
    case (OpMark c j x)
    have "(state_of (mark c j x s) i = None) = (state_of s i = None)" using mark_one [OF Cons.prems(1), of c j x i] by (auto split: if_splits)
    then show ?thesis using Cons.IH [OF keep_ok(2) [OF Cons.prems(1)]] Cons.prems(2) by (simp add: OpMark)
  next
    case (OpLost c)
    then show ?thesis using Cons.IH [OF keep_ok(3) [OF Cons.prems(1)]] Cons.prems(2) lost_back [OF Cons.prems(1), of c i] by auto
  next
    case (OpAll c)
    then show ?thesis using Cons.IH [OF keep_ok(4) [OF Cons.prems(1)]] Cons.prems(2) all_back [OF Cons.prems(1), of c i] by auto
  qed
qed simp

end

section \<open>Both stores refine one table\<close>

text \<open>The abstract table: ids and states in the order of the rows, and what the calls promise about it.\<close>

type_synonym table = "(pyval \<times> int) list"

definition view :: "'a task_row_scheme list \<Rightarrow> table" where
  "view ts = map (\<lambda>t. (t_id t, t_state t)) ts"

definition put_states :: "int \<Rightarrow> (pyval \<times> int \<Rightarrow> bool) \<Rightarrow> table \<Rightarrow> table" where
  "put_states x P v = map (\<lambda>e. if P e then (fst e, x) else e) v"

definition waiting :: "table \<Rightarrow> pyval list" where
  "waiting v = map fst (filter (\<lambda>e. snd e = TODO) v)"

definition spec_claim :: "int \<Rightarrow> table \<Rightarrow> pyval list \<times> table" where
  "spec_claim n v = (let ids = take (nat (max 1 n)) (waiting v) in (ids, put_states DOING (\<lambda>e. fst e \<in> set ids) v))"

lemma fst_put_states [simp]: "map fst (put_states x P v) = map fst v"
  by (auto simp: put_states_def)

lemma fst_spec_claim [simp]: "map fst (snd (spec_claim n v)) = map fst v"
  by (simp add: spec_claim_def Let_def)

lemma put_states_none [simp]: "put_states x (\<lambda>e. False) v = v"
  by (simp add: put_states_def)

lemma map_of_put_states:
  "distinct (map fst v) \<Longrightarrow> map_of (put_states x P v) i = (case map_of v i of None \<Rightarrow> None | Some y \<Rightarrow> Some (if P (i, y) then x else y))"
  unfolding put_states_def by (induction v) (auto split: option.splits)

lemma waiting_todo:
  assumes "distinct (map fst v)"
  shows "set (waiting v) = {i. map_of v i = Some TODO}" "distinct (waiting v)"
  using assms by (auto simp: waiting_def map_of_eq_Some_iff image_iff distinct_map_filter)

lemma spec_claim_contract:
  assumes d: "distinct (map fst v)" and c: "spec_claim n v = (ids, v')"
  shows "distinct ids" "\<forall>i\<in>set ids. map_of v i = Some TODO" "length ids = min (nat (max 1 n)) (card {i. map_of v i = Some TODO})"
    "map_of v' i = (if i \<in> set ids then Some DOING else map_of v i)"
proof -
  let ?m = "nat (max 1 n)"
  have ids: "ids = take ?m (waiting v)" and v': "v' = put_states DOING (\<lambda>e. fst e \<in> set ids) v"
    using c by (auto simp: spec_claim_def Let_def)
  note w = waiting_todo [OF d]
  show "distinct ids" by (simp add: ids w(2))
  show todo: "\<forall>i\<in>set ids. map_of v i = Some TODO" using w(1) by (auto simp: ids dest: in_set_takeD)
  show "length ids = min ?m (card {i. map_of v i = Some TODO})"
    using distinct_card [OF w(2)] by (simp add: ids w(1) [symmetric])
  show "map_of v' i = (if i \<in> set ids then Some DOING else map_of v i)"
    using todo by (auto simp: v' map_of_put_states [OF d] split: option.split)
qed

lemma view_map: "(\<And>t. t_id (f t) = t_id t) \<Longrightarrow> (\<And>t. t_state (f t) = (if P (t_id t, t_state t) then x else t_state t)) \<Longrightarrow>
    view (map f ts) = put_states x P (view ts)"
  by (simp add: view_def put_states_def)

lemma fst_view: "map fst (view ts) = map (\<lambda>t. t_id t) ts"
  by (simp add: view_def)

lemma waiting_view: "waiting (view ts) = map (\<lambda>t. t_id t) (filter (\<lambda>t. t_state t = TODO) ts)"
  by (simp add: waiting_def view_def filter_map comp_def)

subsection \<open>MySQL\<close>

text \<open>A call of the MySQL store: its fault and the server's clock.\<close>

type_synonym sql_ctx = "sql_io \<times> time"

definition sql_ok :: "sql_db \<Rightarrow> bool" where
  "sql_ok db = distinct (map fst (view (sd_tasks db)))"

definition sql_states :: "sql_db \<Rightarrow> pyval \<rightharpoonup> int" where
  "sql_states db = map_of (view (sd_tasks db))"

definition sql_claim_ids :: "sql_ctx \<Rightarrow> int \<Rightarrow> sql_db \<Rightarrow> pyval list res \<times> sql_db" where
  "sql_claim_ids c n db = (case sql_claim_tasks (fst c) (snd c) n db of (x, db1) \<Rightarrow> (map_sum id (map (\<lambda>t. t_id t)) x, db1))"

definition sql_mark :: "sql_ctx \<Rightarrow> pyval \<Rightarrow> int \<Rightarrow> sql_db \<Rightarrow> sql_db" where
  "sql_mark c i x db = snd (sql_mark_task (fst c) (snd c) i x db)"

definition sql_lost :: "time \<Rightarrow> sql_ctx \<Rightarrow> sql_db \<Rightarrow> sql_db" where
  "sql_lost stale c db = snd (sql_reset_lost_tasks (fst c) (snd c) stale db)"

definition sql_all :: "sql_ctx \<Rightarrow> sql_db \<Rightarrow> sql_db" where
  "sql_all c db = snd (sql_reset_all_tasks (fst c) (snd c) db)"

lemma snd_sql_call: "snd (sql_call io f db) = (if io = SqlFails then db else snd (f db))"
  by (cases io) (auto simp: sql_call_def split: prod.splits)

lemma view_set_state:
  assumes "\<And>t. P t = Q (t_id t, t_state t)"
  shows "view (sd_tasks (snd (set_state now x P db))) = put_states x Q (view (sd_tasks db))"
  by (simp add: set_state_def) (rule view_map, auto simp: assms)

lemma view_sql_mark: "view (sd_tasks (sql_mark c i x db)) = (if fst c = SqlFails then view (sd_tasks db) else put_states x (\<lambda>e. fst e = i) (view (sd_tasks db)))"
  by (simp add: sql_mark_def sql_mark_task_def snd_sql_call view_set_state [where Q = "\<lambda>e. fst e = i"])

lemma view_sql_all: "view (sd_tasks (sql_all c db)) = (if fst c = SqlFails then view (sd_tasks db) else put_states TODO (\<lambda>_. True) (view (sd_tasks db)))"
  by (simp add: sql_all_def sql_reset_all_tasks_def snd_sql_call view_set_state [where Q = "\<lambda>_. True"])

lemma sql_lost_rows:
  obtains f where "sd_tasks (sql_lost stale c db) = map f (sd_tasks db)" "\<And>t. t_id (f t) = t_id t"
    "\<And>t. t_state (f t) = t_state t \<or> t_state t = DOING \<and> t_state (f t) = TODO"
proof (cases "fst c = SqlFails")
  case True
  then show thesis using that [of id] by (simp add: sql_lost_def sql_reset_lost_tasks_def snd_sql_call)
next
  case False
  let ?P = "\<lambda>t. t_state t = DOING \<and> q_time t < sql_now (snd c) - (if stale < 0 then \<lceil>stale\<rceil> else \<lfloor>stale\<rfloor>)"
  show thesis
    by (rule that [of "\<lambda>t. if ?P t \<and> t_state t \<noteq> TODO then t\<lparr>t_state := TODO, q_time := sql_now (snd c)\<rparr> else t"])
      (use False in \<open>auto simp: sql_lost_def sql_reset_lost_tasks_def snd_sql_call set_state_def\<close>)
qed

lemma sql_claim_spec:
  "snd (sql_claim_ids c n db) = db \<and> fst c = SqlFails
   \<or> view (sd_tasks (snd (sql_claim_ids c n db))) = snd (spec_claim n (view (sd_tasks db)))"
  "fst c = SqlOk \<Longrightarrow> fst (sql_claim_ids c n db) = Inr (fst (spec_claim n (view (sd_tasks db))))"
  "fst (sql_claim_ids c n db) = Inr ids \<Longrightarrow> fst c = SqlOk"
proof -
  let ?rows = "take (nat (max 1 n)) (filter (\<lambda>t. t_state t = TODO) (sd_tasks db))"
  have ids: "fst (spec_claim n (view (sd_tasks db))) = map (\<lambda>t. t_id t) ?rows"
    by (simp add: spec_claim_def Let_def waiting_view take_map)
  have v: "view (sd_tasks (snd (set_state (snd c) DOING (\<lambda>t. t_id t \<in> set (map t_id ?rows)) db))) = snd (spec_claim n (view (sd_tasks db)))"
    by (subst view_set_state [where Q = "\<lambda>e. fst e \<in> set (map t_id ?rows)"]) (simp_all add: spec_claim_def Let_def waiting_view take_map)
  have e: "view (sd_tasks db) = snd (spec_claim n (view (sd_tasks db)))" if "?rows = []"
    using that ids by (simp add: spec_claim_def Let_def)
  show "snd (sql_claim_ids c n db) = db \<and> fst c = SqlFails
    \<or> view (sd_tasks (snd (sql_claim_ids c n db))) = snd (spec_claim n (view (sd_tasks db)))"
    using v e by (cases "fst c") (auto simp: sql_claim_ids_def sql_claim_tasks_def sql_call_def Let_def split: prod.splits if_splits)
  show "fst c = SqlOk \<Longrightarrow> fst (sql_claim_ids c n db) = Inr (fst (spec_claim n (view (sd_tasks db))))"
    unfolding ids by (auto simp: sql_claim_ids_def sql_claim_tasks_def sql_call_def Let_def split: prod.splits if_splits)
  show "fst (sql_claim_ids c n db) = Inr ids \<Longrightarrow> fst c = SqlOk"
    by (cases "fst c") (auto simp: sql_claim_ids_def sql_claim_tasks_def sql_call_def split: prod.splits)
qed

lemma sql_lost_states:
  assumes "distinct (map fst (view ts))" "\<And>t. t_id (f t) = t_id t" "\<And>t. t_state (f t) = t_state t \<or> t_state t = DOING \<and> t_state (f t) = TODO"
  shows "map_of (view (map f ts)) i = map_of (view ts) i \<or> map_of (view ts) i = Some DOING \<and> map_of (view (map f ts)) i = Some TODO"
  using assms(1) by (induction ts) (use assms(2,3) in \<open>auto simp: view_def\<close>)

interpretation sql_tt: task_table sql_ok sql_states sql_claim_ids sql_mark "sql_lost stale" sql_all
proof
  fix s s' :: sql_db and c n i j x ids e
  note st = sql_ok_def sql_states_def
  show "sql_ok s \<Longrightarrow> sql_ok (snd (sql_claim_ids c n s))"
    using sql_claim_spec(1) [of c n s] by (auto simp: sql_ok_def)
  show "sql_ok s \<Longrightarrow> sql_ok (sql_mark c i x s)" "sql_ok s \<Longrightarrow> sql_ok (sql_all c s)"
    by (simp_all add: sql_ok_def view_sql_mark view_sql_all)
  obtain f where f: "sd_tasks (sql_lost stale c s) = map f (sd_tasks s)" "\<And>t. t_id (f t) = t_id t"
    "\<And>t. t_state (f t) = t_state t \<or> t_state t = DOING \<and> t_state (f t) = TODO" by (rule sql_lost_rows [of stale c s]) (rule that)
  show "sql_ok s \<Longrightarrow> sql_ok (sql_lost stale c s)" by (simp add: sql_ok_def f view_def comp_def)
  show "sql_ok s \<Longrightarrow> sql_states (sql_lost stale c s) i = sql_states s i \<or> sql_states s i = Some DOING \<and> sql_states (sql_lost stale c s) i = Some TODO"
    using sql_lost_states [of "sd_tasks s" f i] f by (simp add: st)
  show "sql_ok s \<Longrightarrow> sql_states (sql_mark c i x s) j = (if i = j \<and> sql_states s i \<noteq> None then Some x else sql_states s j) \<or> sql_states (sql_mark c i x s) j = sql_states s j"
    by (auto simp: st view_sql_mark map_of_put_states simp del: map_of_eq_Some_iff split: option.split)
  show "sql_ok s \<Longrightarrow> sql_states (sql_all c s) i = sql_states s i \<or> sql_states s i \<noteq> None \<and> sql_states (sql_all c s) i = Some TODO"
    by (auto simp: st view_sql_all map_of_put_states simp del: map_of_eq_Some_iff split: option.split)
  show "sql_ok s \<Longrightarrow> sql_claim_ids c n s = (Inr ids, s') \<Longrightarrow>
      distinct ids \<and> (\<forall>i\<in>set ids. sql_states s i = Some TODO) \<and> length ids = min (nat (max 1 n)) (card {i. sql_states s i = Some TODO})
      \<and> (\<forall>i. sql_states s' i = (if i \<in> set ids then Some DOING else sql_states s i))"
  proof -
    assume ok: "sql_ok s" and c: "sql_claim_ids c n s = (Inr ids, s')"
    have io: "fst c = SqlOk" using sql_claim_spec(3) c by (metis fst_conv)
    obtain v' where v: "spec_claim n (view (sd_tasks s)) = (ids, v')"
      using sql_claim_spec(2) [OF io, of n s] c by (metis fst_conv sum.inject(2) surj_pair)
    have "view (sd_tasks s') = v'" using sql_claim_spec(1) [of c n s] c v io by simp
    then show ?thesis using spec_claim_contract [OF ok [unfolded sql_ok_def] v] by (simp add: sql_states_def)
  qed
  show "sql_ok s \<Longrightarrow> sql_claim_ids c n s = (Inl e, s') \<Longrightarrow> sql_states s' i = sql_states s i \<or> sql_states s i = Some TODO \<and> sql_states s' i = Some DOING"
  proof -
    assume ok: "sql_ok s" and c: "sql_claim_ids c n s = (Inl e, s')"
    obtain ids v' where v: "spec_claim n (view (sd_tasks s)) = (ids, v')" by (metis surj_pair)
    from sql_claim_spec(1) [of c n s] c v have "s' = s \<or> view (sd_tasks s') = v'" by auto
    then show ?thesis using spec_claim_contract(2,4) [OF ok [unfolded sql_ok_def] v] by (auto simp: sql_states_def)
  qed
qed

subsection \<open>Memory\<close>

text \<open>A call of the in-memory store depends on the clock.\<close>

definition mem_ok :: "batch_store \<Rightarrow> bool" where
  "mem_ok st = distinct (map fst (view (bs_tasks st)))"

definition mem_states :: "batch_store \<Rightarrow> pyval \<rightharpoonup> int" where
  "mem_states st = map_of (view (bs_tasks st))"

definition mem_claim_ids :: "time \<Rightarrow> int \<Rightarrow> batch_store \<Rightarrow> pyval list res \<times> batch_store" where
  "mem_claim_ids now n st = (case claim_tasks (\<lambda>_. now) n st of (cs, st1) \<Rightarrow> (Inr (map (\<lambda>t. t_id t) cs), st1))"

definition mem_lost :: "time \<Rightarrow> time \<Rightarrow> batch_store \<Rightarrow> batch_store" where
  "mem_lost stale now st = snd (reset_lost_tasks now stale st)"

definition mem_all :: "time \<Rightarrow> batch_store \<Rightarrow> batch_store" where
  "mem_all now st = reset_all_tasks st"

lemma view_claim_loop:
  assumes "claim_loop clk k limit ts = (cs, ts', touch)" "distinct (map fst (view ts))"
  shows "view ts' = put_states DOING (\<lambda>e. fst e \<in> t_id ` set cs) (view ts)"
  using assms
proof (induction clk k limit ts arbitrary: cs ts' touch rule: claim_loop.induct)
  case (2 clk k limit t ts)
  have d: "distinct (map fst (view ts))" and i: "t_id t \<notin> t_id ` set ts" using "2.prems"(2) by (auto simp: view_def)
  then have n: "\<forall>u\<in>set ts. t_id u \<noteq> t_id t" by (metis imageI)
  show ?case
  proof (cases "int k \<ge> max 1 limit")
    case True
    then show ?thesis using "2.prems"(1) by auto
  next
    case le: False
    show ?thesis
    proof (cases "t_state t = TODO")
      case True
      obtain cs1 ts1 tc where c: "claim_loop clk (Suc k) limit ts = (cs1, ts1, tc)" by (metis surj_pair)
      have "put_states DOING (\<lambda>e. fst e \<in> insert (t_id t) (t_id ` set cs1)) (view ts) = put_states DOING (\<lambda>e. fst e \<in> t_id ` set cs1) (view ts)"
        using n by (auto simp: put_states_def view_def)
      then show ?thesis using "2.IH"(1) [OF le True c d] "2.prems"(1) le True c by (auto simp: view_def put_states_def)
    next
      case False
      obtain cs1 ts1 tc where c: "claim_loop clk k limit ts = (cs1, ts1, tc)" by (metis surj_pair)
      have "t_id ` set cs1 \<subseteq> t_id ` set ts" using claim_loop_claims [OF c] by (auto dest!: in_set_takeD)
      then have "t_id t \<notin> t_id ` set cs1" using i by blast
      then show ?thesis using "2.IH"(2) [OF le False c d] "2.prems"(1) le False c by (auto simp: view_def put_states_def)
    qed
  qed
qed (simp add: view_def put_states_def)

lemma mem_claim_spec:
  assumes "mem_ok st"
  obtains st1 where "mem_claim_ids now n st = (Inr (fst (spec_claim n (view (bs_tasks st)))), st1)"
    "view (bs_tasks st1) = snd (spec_claim n (view (bs_tasks st)))"
proof -
  obtain cs ts' touch where c: "claim_loop (\<lambda>_. now) 0 n (bs_tasks st) = (cs, ts', touch)" by (metis surj_pair)
  have ids: "map (\<lambda>t. t_id t) cs = take (nat (max 1 n)) (waiting (view (bs_tasks st)))"
    using claim_loop_claims [OF c] by (simp add: waiting_view take_map comp_def)
  have i: "t_id ` set cs = set (map (\<lambda>t. t_id t) cs)" by simp
  have "view ts' = snd (spec_claim n (view (bs_tasks st)))"
    using view_claim_loop [OF c] assms unfolding i ids by (simp add: mem_ok_def spec_claim_def Let_def)
  then show thesis
    by (intro that [of "snd (mem_claim_ids now n st)"]) (simp_all add: mem_claim_ids_def claim_tasks_def c ids spec_claim_def Let_def)
qed

lemma view_mark_first: "distinct (map fst (view ts)) \<Longrightarrow> view (mark_first i x ts) = put_states x (\<lambda>e. fst e = i) (view ts)"
proof (induction ts)
  case (Cons t ts)
  have "put_states x (\<lambda>e. fst e = t_id t) (view ts) = view ts"
    using Cons.prems by (auto simp: put_states_def view_def intro: map_idI) (metis imageI)
  with Cons show ?case by (auto simp: view_def put_states_def)
qed (simp add: view_def put_states_def)

lemma view_mark_task:
  assumes "mem_ok st"
  shows "view (bs_tasks (mark_task now i x st)) = put_states x (\<lambda>e. fst e = i) (view (bs_tasks st))"
proof (cases "i \<in> t_id ` set (bs_tasks st)")
  case True
  then show ?thesis using view_mark_first [OF assms [unfolded mem_ok_def]] by (simp add: mark_task_def)
next
  case False
  then show ?thesis by (auto simp: mark_task_def put_states_def view_def)
qed

lemma view_mem_all: "view (bs_tasks (mem_all now st)) = put_states TODO (\<lambda>_. True) (view (bs_tasks st))"
  by (simp add: mem_all_def reset_all_tasks_def) (rule view_map, auto)

interpretation mem_tt: task_table mem_ok mem_states mem_claim_ids mark_task "mem_lost stale" mem_all
proof
  fix s s' :: batch_store and c n i j x ids e
  note st = mem_ok_def mem_states_def
  let ?f = "\<lambda>t. if is_lost c stale s t then t\<lparr>t_state := TODO\<rparr> else t"
  have f: "bs_tasks (mem_lost stale c s) = map ?f (bs_tasks s)" by (simp add: mem_lost_def reset_lost_tasks_def)
  show "mem_ok s \<Longrightarrow> mem_ok (snd (mem_claim_ids c n s))"
    using fst_spec_claim [of n "view (bs_tasks s)"] by (metis mem_claim_spec [of s c n] mem_ok_def snd_conv)
  show "mem_ok s \<Longrightarrow> mem_ok (mark_task c i x s)" using view_mark_task [of s c i x] by (simp add: mem_ok_def)
  show "mem_ok s \<Longrightarrow> mem_ok (mem_lost stale c s)" unfolding mem_ok_def f by (simp add: view_def comp_def if_distrib [of t_id] cong: if_cong)
  show "mem_ok s \<Longrightarrow> mem_ok (mem_all c s)" by (simp add: mem_ok_def view_mem_all)
  show "mem_ok s \<Longrightarrow> mem_states (mark_task c i x s) j = (if i = j \<and> mem_states s i \<noteq> None then Some x else mem_states s j) \<or> mem_states (mark_task c i x s) j = mem_states s j"
    using view_mark_task [of s c i x] by (auto simp: st map_of_put_states simp del: map_of_eq_Some_iff split: option.split)
  show "mem_ok s \<Longrightarrow> mem_states (mem_lost stale c s) i = mem_states s i \<or> mem_states s i = Some DOING \<and> mem_states (mem_lost stale c s) i = Some TODO"
    unfolding st f by (rule sql_lost_states) (auto simp: is_lost_def)
  show "mem_ok s \<Longrightarrow> mem_states (mem_all c s) i = mem_states s i \<or> mem_states s i \<noteq> None \<and> mem_states (mem_all c s) i = Some TODO"
    by (auto simp: st view_mem_all map_of_put_states simp del: map_of_eq_Some_iff split: option.split)
  show "mem_ok s \<Longrightarrow> mem_claim_ids c n s = (Inr ids, s') \<Longrightarrow>
      distinct ids \<and> (\<forall>i\<in>set ids. mem_states s i = Some TODO) \<and> length ids = min (nat (max 1 n)) (card {i. mem_states s i = Some TODO})
      \<and> (\<forall>i. mem_states s' i = (if i \<in> set ids then Some DOING else mem_states s i))"
  proof -
    assume ok: "mem_ok s" and cl: "mem_claim_ids c n s = (Inr ids, s')"
    obtain v' where v: "spec_claim n (view (bs_tasks s)) = (ids, v')" "view (bs_tasks s') = v'"
      by (rule mem_claim_spec [OF ok, of c n]) (use cl in \<open>auto intro!: that simp: prod_eq_iff\<close>)
    then show ?thesis using spec_claim_contract [OF ok [unfolded mem_ok_def] v(1)] by (simp add: mem_states_def)
  qed
  show "mem_ok s \<Longrightarrow> mem_claim_ids c n s = (Inl e, s') \<Longrightarrow> mem_states s' i = mem_states s i \<or> mem_states s i = Some TODO \<and> mem_states s' i = Some DOING"
    by (simp add: mem_claim_ids_def split: prod.splits)
qed

section \<open>A claimed task is nobody else's\<close>


definition waiting_task :: "int \<Rightarrow> sql_task" where
  "waiting_task i = \<lparr>t_id = VInt i, t_state = TODO, t_data = [], q_time = 0\<rparr>"

lemmas table_run = sql_claim_tasks_def sql_call_def set_state_def sql_claim_ids_def sql_mark_def sql_mark_task_def waiting_task_def sql_now_def
  TODO_def DOING_def DONE_def


section \<open>The two stores answer alike\<close>

lemma group_counts_sum: "sum_list (map snd (group_counts ts)) = length ts"
proof -
  have "sum_list (map snd (group_counts ts)) = (\<Sum>s\<leftarrow>remdups (map t_state ts). length (filter (\<lambda>t. t_state t = s) ts))"
    by (simp add: group_counts_def comp_def)
  also have "\<dots> = (\<Sum>s\<in>set (map t_state ts). length (filter (\<lambda>t. t_state t = s) ts))"
    by (metis distinct_remdups set_remdups sum.distinct_set_conv_list)
  also have "\<dots> = length ts"
  proof (induction ts)
    case (Cons t ts)
    have "length (filter (\<lambda>u. t_state u = s) (t # ts)) = (if s = t_state t then 1 else 0) + length (filter (\<lambda>u. t_state u = s) ts)" for s by simp
    then have "(\<Sum>s\<in>set (map t_state (t # ts)). length (filter (\<lambda>u. t_state u = s) (t # ts)))
      = 1 + (\<Sum>s\<in>set (map t_state (t # ts)). length (filter (\<lambda>u. t_state u = s) ts))"
      by (simp only: sum.distrib) simp
    also have "(\<Sum>s\<in>set (map t_state (t # ts)). length (filter (\<lambda>u. t_state u = s) ts)) = (\<Sum>s\<in>set (map t_state ts). length (filter (\<lambda>u. t_state u = s) ts))"
      by (rule sum.mono_neutral_right) (auto simp: filter_empty_conv)
    finally show ?case using Cons.IH by simp
  qed simp
  finally show ?thesis .
qed

lemma dget_group_counts: "(case dget (group_counts ts) x of None \<Rightarrow> 0 | Some c \<Rightarrow> c) = length (filter (\<lambda>t. t_state t = x) ts)"
proof -
  have "map_of (map (\<lambda>s. (s, f s)) xs) x = (if x \<in> set xs then Some (f x) else None)" for f :: "int \<Rightarrow> nat" and xs by (induction xs) auto
  then have "map_of (group_counts ts) x = (if x \<in> t_state ` set ts then Some (length (filter (\<lambda>t. t_state t = x) ts)) else None)"
    by (simp add: group_counts_def)
  moreover have "length (filter (\<lambda>t. t_state t = x) ts) = 0" if "x \<notin> t_state ` set ts" using that by (auto simp: filter_empty_conv)
  ultimately show ?thesis by (auto simp: dget_map_of)
qed

lemma filter_view: "length (filter (\<lambda>t. t_state t = x) ts) = length (filter (\<lambda>e. snd e = x) (view ts))"
  by (simp add: view_def filter_map comp_def)

lemma counts_agree:
  assumes "view (sd_tasks db) = view (bs_tasks st)"
  shows "fst (sql_count_tasks SqlOk db) = Inr (count_tasks st)"
proof -
  have "length (sd_tasks db) = length (bs_tasks st)" using assms by (metis length_map view_def)
  then show ?thesis
    by (simp add: sql_count_tasks_def sql_call_def count_tasks_def group_counts_sum dget_group_counts Let_def count_state_def filter_view assms)
qed

definition is_lost_op :: "'c table_op \<Rightarrow> bool" where
  "is_lost_op p = (case p of OpLost _ \<Rightarrow> True | _ \<Rightarrow> False)"


abbreviation agree_ops :: "sql_ctx table_op list" where
  "agree_ops \<equiv> [OpAll (SqlOk, 1), OpClaim (SqlOk, 2) 1, OpMark (SqlOk, 3) (VInt 1) DONE, OpClaim (SqlOk, 4) 0]"


section \<open>Where the stores differ\<close>

text \<open>A task that was claimed exactly \<^verbatim>\<open>stale_seconds\<close> ago is put back by the in-memory store, and is not by the MySQL store.\<close>

lemma lost_boundary:
  "fst (reset_lost_tasks 60 60 (snd (claim_tasks (\<lambda>_. 0) 1 (new_store [\<lparr>t_id = VInt 1, t_state = TODO, t_data = []\<rparr>])))) = 1"
  "fst (sql_reset_lost_tasks SqlOk 60 60 (snd (sql_claim_tasks SqlOk 0 1 \<lparr>sd_tasks = [waiting_task 1], sd_batches = [], sd_next = 1\<rparr>))) = Inr 0"
  by (simp_all add: reset_lost_tasks_def is_lost_def claim_tasks_def new_store_def sql_reset_lost_tasks_def table_run)

text \<open>The master pushes what a claim returns: rows that are in progress from memory, rows that still say \<^verbatim>\<open>TODO\<close> from MySQL.\<close>

lemma claimed_row_state:
  "map t_state (fst (claim_tasks clk 1 (new_store [\<lparr>t_id = VInt 1, t_state = TODO, t_data = []\<rparr>]))) = [DOING]"
  "map_sum id (map t_state) (fst (sql_claim_tasks SqlOk 0 1 \<lparr>sd_tasks = [waiting_task 1], sd_batches = [], sd_next = 1\<rparr>)) = Inr [TODO]"
  by (simp_all add: claim_tasks_def new_store_def table_run)

text \<open>A claim whose reply is lost leaves its rows in progress, with nobody working on them, until \<^verbatim>\<open>reset_lost_tasks\<close> finds them.\<close>

lemma lost_claim_comes_back:
  assumes "sql_claim_tasks ReplyLost now n db = (x, db1)" "t \<in> set (sd_tasks db1)" "t_state t = DOING"
    "sql_reset_lost_tasks SqlOk later stale db1 = (y, db2)" "0 \<le> stale" "real_of_int (q_time t) < real_of_int (sql_now later) - stale"
  shows "\<exists>u\<in>set (sd_tasks db2). t_id u = t_id t \<and> t_state u = TODO"
proof -
  have "q_time t < sql_now later - \<lfloor>stale\<rfloor>" using assms(6) by linarith
  then show ?thesis using assms(2-5)
    by (auto simp: sql_reset_lost_tasks_def sql_call_def set_state_def TODO_def DOING_def intro!: bexI [where x = "t\<lparr>t_state := 0, q_time := sql_now later\<rparr>"] image_eqI [where x = t])
qed

end
