(* ===== verification/Render_Input.thy ===== *)
theory Render_Input
  imports Proxy_Pool
begin

text \<open>
  What the browser downloader makes of a request before it opens a page: \<^verbatim>\<open>_render_inputs\<close> of
  \<^verbatim>\<open>netspy/network/downloader/_playwright.py\<close>, with the functions of \<^verbatim>\<open>urllib.parse\<close> it calls.

  The characters of a text are the bytes of its UTF-8 form here; what a percent escape of the URL decodes to is valid UTF-8 (Python
  would put a replacement character otherwise).  The part of a URL before the query is kept as it is: its scheme is in
  small letters and it contains no control character.
\<close>

section \<open>Queries\<close>

definition hex_upper :: "nat \<Rightarrow> char" where
  "hex_upper n = (if n < 10 then char_of (48 + n) else char_of (55 + n))"

definition unreserved :: "char \<Rightarrow> bool" where
  "unreserved c = (let n = (of_char c :: nat) in
     48 \<le> n \<and> n \<le> 57 \<or> 65 \<le> n \<and> n \<le> 90 \<or> 97 \<le> n \<and> n \<le> 122 \<or> c \<in> {CHR ''_'', CHR ''.'', CHR ''-'', CHR ''~''})"

text \<open>\<^verbatim>\<open>quote_plus\<close>, \<^verbatim>\<open>urlencode\<close>.\<close>

definition quote_char :: "char \<Rightarrow> string" where
  "quote_char c =
     (if unreserved c then [c] else if c = CHR '' '' then ''+''
      else let n = (of_char c :: nat) in [CHR 0x25, hex_upper (n div 16), hex_upper (n mod 16)])"

definition quote_plus :: "string \<Rightarrow> string" where
  "quote_plus s = concat (map quote_char s)"

fun urlencode :: "(string \<times> string) list \<Rightarrow> string" where
  "urlencode [] = []"
| "urlencode [(k, v)] = quote_plus k @ ''='' @ quote_plus v"
| "urlencode ((k, v) # e # es) = quote_plus k @ ''='' @ quote_plus v @ ''&'' @ urlencode (e # es)"

text \<open>\<^verbatim>\<open>unquote\<close> after \<^verbatim>\<open>replace("+", " ")\<close>: a \<^verbatim>\<open>%\<close> without two hexadecimal digits stays.\<close>

fun unquote_plus :: "string \<Rightarrow> string" where
  "unquote_plus [] = []"
| "unquote_plus (c # cs) =
     (if c = CHR ''+'' then CHR '' '' # unquote_plus cs
      else if c = CHR 0x25
      then (case cs of
              a # b # rest \<Rightarrow> (case (hex_val a, hex_val b) of
                 (Some x, Some y) \<Rightarrow> char_of (16 * x + y) # unquote_plus rest
               | _ \<Rightarrow> c # unquote_plus cs)
            | _ \<Rightarrow> c # unquote_plus cs)
      else c # unquote_plus cs)"

fun split_all :: "char \<Rightarrow> string \<Rightarrow> string list" where
  "split_all sep [] = [[]]"
| "split_all sep (c # cs) =
     (if c = sep then [] # split_all sep cs else (case split_all sep cs of [] \<Rightarrow> [[c]] | p # ps \<Rightarrow> (c # p) # ps))"

text \<open>\<^verbatim>\<open>parse_qsl(query, keep_blank_values=True)\<close>\<close>

definition parse_qsl :: "string \<Rightarrow> (string \<times> string) list" where
  "parse_qsl q =
     map (\<lambda>p. (unquote_plus (before_sep ''='' p), case split_at ''='' p of None \<Rightarrow> [] | Some (_, v) \<Rightarrow> unquote_plus v))
       (filter (\<lambda>p. p \<noteq> []) (split_all CHR ''&'' q))"

text \<open>\<^verbatim>\<open>urlsplit\<close> and \<^verbatim>\<open>urlunsplit\<close>: what is before the query, the query, the fragment.\<close>

definition url_parts :: "string \<Rightarrow> string \<times> string \<times> string" where
  "url_parts u =
     (let (h, frag) = (case split_at ''#'' u of None \<Rightarrow> (u, []) | Some p \<Rightarrow> p);
          (base, q) = (case split_at ''?'' h of None \<Rightarrow> (h, []) | Some p \<Rightarrow> p)
      in (base, q, frag))"

definition url_unsplit :: "string \<times> string \<times> string \<Rightarrow> string" where
  "url_unsplit = (\<lambda>(base, q, frag). base @ (if q = [] then [] else ''?'' @ q) @ (if frag = [] then [] else ''#'' @ frag))"

section \<open>The inputs of a rendering\<close>

definition BODY_KEYS :: "string list" where
  "BODY_KEYS = [''data'', ''json'', ''content'', ''files'']"

text \<open>\<^verbatim>\<open>for k, v in ...\<close>: unpacking an element into two.\<close>

fun unpack2 :: "pyval \<Rightarrow> (pyval \<times> pyval) res" where
  "unpack2 (VList [a, b]) = Inr (a, b)"
| "unpack2 (VStr [a, b]) = Inr (VStr [a], VStr [b])"
| "unpack2 (VDict [(a, _), (b, _)]) = Inr (VStr a, VStr b)"
| "unpack2 (VList _) = Inl (raise_of PyValueError)"
| "unpack2 (VStr _) = Inl (raise_of PyValueError)"
| "unpack2 (VDict _) = Inl (raise_of PyValueError)"
| "unpack2 _ = Inl (raise_of PyTypeError)"

fun unpack_all :: "pyval list \<Rightarrow> (pyval \<times> pyval) list res" where
  "unpack_all [] = Inr []"
| "unpack_all (v # vs) = bind_res (unpack2 v) (\<lambda>p. bind_res (unpack_all vs) (\<lambda>ps. Inr (p # ps)))"

fun pairs_of :: "pyval \<Rightarrow> (pyval \<times> pyval) list res" where
  "pairs_of (VDict d) = Inr (map (\<lambda>(k, v). (VStr k, v)) d)"
| "pairs_of (VList vs) = unpack_all vs"
| "pairs_of (VStr s) = unpack_all (map (\<lambda>c. VStr [c]) s)"
| "pairs_of _ = Inl (raise_of PyTypeError)"

text \<open>\<^verbatim>\<open>dict(raw)\<close>; a name that is no string is refused here (the browser refuses it later).\<close>

fun cookie_dict :: "(pyval \<times> pyval) list \<Rightarrow> (string, pyval) pydict \<Rightarrow> (string, pyval) pydict res" where
  "cookie_dict [] d = Inr d"
| "cookie_dict ((VStr k, v) # ps) d = cookie_dict ps (dset d k v)"
| "cookie_dict (_ # ps) d = Inl (raise_of PyTypeError)"

definition kwarg :: "request \<Rightarrow> string \<Rightarrow> pyval" where
  "kwarg r k = (case dget (requests_kwargs r) k of None \<Rightarrow> VNone | Some v \<Rightarrow> v)"

definition render_headers :: "(pyval \<Rightarrow> string) \<Rightarrow> pyval \<Rightarrow> (string, string) pydict res" where
  "render_headers repr v =
     (if \<not> truthy v then Inr []
      else case v of
        VDict d \<Rightarrow> Inr (map (\<lambda>(k, x). (k, py_str repr x)) (filter (\<lambda>(k, x). ascii_lower k \<noteq> ''user-agent'') d))
      | _ \<Rightarrow> Inl (raise_of PyOtherError))"

definition render_inputs :: "(pyval \<Rightarrow> string) \<Rightarrow> request \<Rightarrow> (string \<times> (string, string) pydict \<times> (string, pyval) pydict) res" where
  "render_inputs repr r =
     (if http_method r \<noteq> ''GET'' \<or> (\<exists>k\<in>set BODY_KEYS. kwarg r k \<noteq> VNone) then Inl (raise_of RequestError)
      else bind_res
        (if truthy (kwarg r ''params'')
         then bind_res (pairs_of (kwarg r ''params'')) (\<lambda>items.
                case url_parts (url r) of (base, q, frag) \<Rightarrow>
                  Inr (url_unsplit (base, urlencode (parse_qsl q @ map (\<lambda>(k, v). (py_str repr k, py_str repr v)) items), frag)))
         else Inr (url r)) (\<lambda>u.
      bind_res (render_headers repr (kwarg r ''headers'')) (\<lambda>hs.
      bind_res (if truthy (kwarg r ''cookies'') then bind_res (pairs_of (kwarg r ''cookies'')) (\<lambda>ps. cookie_dict ps []) else Inr []) (\<lambda>cs.
      Inr (u, hs, cs)))))"

section \<open>What is encoded reads back\<close>

lemma hex_val_hex_upper: "k < 16 \<Longrightarrow> hex_val (hex_upper k) = Some k"
  by (auto simp: hex_val_def hex_upper_def Let_def)

lemma quote_char_chars:
  "d \<in> set (quote_char c) \<Longrightarrow> unreserved d \<or> d = CHR ''+'' \<or> d = CHR 0x25"
proof -
  have "unreserved (hex_upper k)" if "k < 16" for k
    using that by (auto simp: unreserved_def hex_upper_def Let_def)
  then have "unreserved (hex_upper (of_char c div 16))" "unreserved (hex_upper (of_char c mod 16))"
    by (simp_all add: less_mult_imp_div_less)
  then show "d \<in> set (quote_char c) \<Longrightarrow> unreserved d \<or> d = CHR ''+'' \<or> d = CHR 0x25"
    by (auto simp: quote_char_def Let_def split: if_splits)
qed

lemma quote_plus_chars: "d \<in> set (quote_plus s) \<Longrightarrow> d \<notin> {CHR ''&'', CHR ''='', CHR ''#'', CHR ''?''}"
  using quote_char_chars by (fastforce simp: quote_plus_def unreserved_def Let_def)

lemma unquote_quote_char: "unquote_plus (quote_char c @ s) = c # unquote_plus s"
proof (cases "unreserved c")
  case True
  then have "c \<noteq> CHR ''+''" "c \<noteq> CHR 0x25" by (auto simp: unreserved_def Let_def)
  then show ?thesis using True by (simp add: quote_char_def)
next
  case False
  have "hex_val (hex_upper (of_char c div 16)) = Some (of_char c div 16)" "hex_val (hex_upper (of_char c mod 16)) = Some (of_char c mod 16)"
    by (rule hex_val_hex_upper, simp add: less_mult_imp_div_less)+
  moreover have "16 * (of_char c div 16) + of_char c mod 16 = (of_char c :: nat)" by simp
  ultimately show ?thesis using False by (simp add: quote_char_def Let_def)
qed

lemma unquote_quote: "unquote_plus (quote_plus s) = s"
  by (induction s) (simp_all add: quote_plus_def unquote_quote_char)

lemma split_all_append: "sep \<notin> set a \<Longrightarrow> split_all sep (a @ sep # b) = a # split_all sep b"
  by (induction a) auto

lemma split_all_none: "sep \<notin> set a \<Longrightarrow> split_all sep a = [a]"
  by (induction a) auto

lemma split_at_first: "c \<notin> set a \<Longrightarrow> split_at [c] (a @ c # b) = Some (a, b)"
  by (induction a) auto

lemma split_at_absent: "c \<notin> set a \<Longrightarrow> split_at [c] a = None"
  by (induction a) auto

abbreviation pair_text :: "string \<times> string \<Rightarrow> string" where
  "pair_text e \<equiv> quote_plus (fst e) @ ''='' @ quote_plus (snd e)"

lemma pair_text_plain: "CHR ''&'' \<notin> set (pair_text e)" "CHR ''#'' \<notin> set (pair_text e)"
  using quote_plus_chars by fastforce+

lemma urlencode_Cons: "es \<noteq> [] \<Longrightarrow> urlencode (e # es) = pair_text e @ ''&'' @ urlencode es"
  by (cases e; cases es) auto

lemma parse_qsl_pairs: "es \<noteq> [] \<Longrightarrow> split_all CHR ''&'' (urlencode es) = map pair_text es"
proof (induction es)
  case (Cons e es)
  show ?case
  proof (cases "es = []")
    case True
    then show ?thesis using split_all_none [OF pair_text_plain(1) [of e]] by (cases e) simp
  next
    case False
    then show ?thesis using Cons.IH split_all_append [OF pair_text_plain(1) [of e], of "urlencode es"] by (simp add: urlencode_Cons)
  qed
qed simp

lemma parse_urlencode: "parse_qsl (urlencode es) = es"
proof (cases "es = []")
  case False
  have e: "split_at ''='' (pair_text e) = Some (quote_plus (fst e), quote_plus (snd e))" for e
  proof -
    have "CHR ''='' \<notin> set (quote_plus (fst e))" using quote_plus_chars by blast
    from split_at_first [OF this] show ?thesis by simp
  qed
  have f: "filter (\<lambda>p. p \<noteq> []) (map pair_text es) = map pair_text es" by (auto intro: filter_True)
  show ?thesis unfolding parse_qsl_def parse_qsl_pairs [OF False] f
    by (simp add: e before_sep_def unquote_quote comp_def del: append_assoc append_Cons)
qed (simp add: parse_qsl_def)

lemma urlencode_no_hash: "CHR ''#'' \<notin> set (urlencode es)"
proof (induction es)
  case (Cons e es)
  then show ?case using pair_text_plain(2) [of e] by (cases "es = []"; cases e) (auto simp: urlencode_Cons)
qed simp

lemma url_parts_plain:
  assumes "url_parts u = (base, q, frag)"
  shows "CHR ''?'' \<notin> set base" "CHR ''#'' \<notin> set base"
proof -
  have keep: "c \<notin> set a" if "split_at [c] s = Some (a, b)" for c a b s
    using that by (induction s arbitrary: a) (auto split: if_splits)
  have absent: "c \<notin> set s" if "split_at [c] s = None" for c s
    using that by (induction s) (auto split: if_splits)
  have sub: "set a \<subseteq> set s" if "split_at [c] s = Some (a, b)" for c a b s
    using that by (induction s arbitrary: a) (auto split: if_splits)
  obtain h where h: "CHR ''#'' \<notin> set h" "(case split_at ''?'' h of None \<Rightarrow> (h, []) | Some p \<Rightarrow> p) = (base, q)"
    using assms by (cases "split_at ''#'' u") (auto simp: url_parts_def Let_def split: prod.splits dest: keep absent)
  show "CHR ''?'' \<notin> set base" "CHR ''#'' \<notin> set base"
    using h sub by (cases "split_at ''?'' h"; force dest: keep absent)+
qed

lemma url_parts_unsplit:
  assumes "CHR ''?'' \<notin> set base" "CHR ''#'' \<notin> set base" "CHR ''#'' \<notin> set q"
  shows "url_parts (url_unsplit (base, q, frag)) = (base, q, frag)"
proof -
  let ?h = "base @ (if q = [] then [] else ''?'' @ q)"
  have h: "CHR ''#'' \<notin> set ?h" using assms by auto
  have 1: "(case split_at ''#'' (url_unsplit (base, q, frag)) of None \<Rightarrow> (url_unsplit (base, q, frag), []) | Some p \<Rightarrow> p) = (?h, frag)"
    using split_at_first [OF h, of frag] split_at_absent [OF h] by (cases frag) (simp_all add: url_unsplit_def)
  have 2: "(case split_at ''?'' ?h of None \<Rightarrow> (?h, []) | Some p \<Rightarrow> p) = (base, q)"
    using split_at_first [OF assms(1), of q] split_at_absent [OF assms(1)] by (cases q) simp_all
  show ?thesis unfolding url_parts_def by (simp only: 1 2 Let_def prod.case)
qed

section \<open>The request that is rendered is the request that was made\<close>

lemma cookie_dict_append:
  "distinct (dkeys d @ map fst cs) \<Longrightarrow> cookie_dict (map (\<lambda>(k, v). (VStr k, v)) cs) d = Inr (d @ cs)"
proof (induction cs arbitrary: d)
  case (Cons e cs)
  obtain k v where e: "e = (k, v)" by force
  have "k \<notin> set (dkeys d)" using Cons.prems by (auto simp: e)
  then have "dset d k v = d @ [(k, v)]" by (induction d k v rule: dset.induct) (auto simp: dkeys_def)
  moreover have "distinct (dkeys (d @ [(k, v)]) @ map fst cs)" using Cons.prems by (auto simp: e dkeys_def)
  ultimately show ?case using Cons.IH by (simp add: e)
qed simp


definition search_page :: request where
  "search_page = (request_defaults ''http://h/a?x=1#top'')\<lparr>requests_kwargs :=
     [(''params'', VDict [(''q'', VStr ''a&b'')]), (''headers'', VDict [(''User-Agent'', VStr ''x''), (''Referer'', VStr ''y'')]), (''cookies'', VDict [(''sid'', VStr ''7'')])]\<rparr>"


end
