(* ===== verification/Render_Browser.thy ===== *)
theory Render_Browser
  imports Render_Input Downloader Status_Policy
begin

text \<open>
  A render thread (\<^verbatim>\<open>_RenderWorker\<close> of \<^verbatim>\<open>netspy/network/downloader/_playwright.py\<close>) and its browser: the browser is started with the first
  job, a context is kept for every exit, a request with cookies gets a context of its own.

  The browser is a record of handles (numbers) of what was opened and closed; a context is its number, its own proxy, what was
  installed in it and its cookie jar.  What the browser does with a page is a function from the context and the inputs to an
  answer; which of the driver's calls fail is a set per job.  The arguments of the launch other than the proxy only go to the driver.  The configuration is the dictionary \<^verbatim>\<open>WEBDRIVER\<close>.
\<close>

section \<open>Contexts and the state of a thread\<close>

type_synonym cookie_jar = "(string, pyval) pydict"

record bcontext =
  cx_id :: nat
  cx_proxy :: "string option"
  cx_kwargs :: "(string, pyval) pydict"
  cx_blocking :: bool
  cx_stealth :: bool
  cx_jar :: cookie_jar

record render_worker =
  rw_index :: nat
  rw_pw :: "nat option"
  rw_browser :: "nat option"
  rw_context :: "bcontext option"
  rw_kwargs :: "(string, pyval) pydict"
  rw_proxies :: "(string, bcontext) pydict"
  rw_next :: nat
  rw_closed :: "nat list"
  rw_visits :: "(bcontext \<times> request \<times> string option) list"

text \<open>\<open>rw_visits\<close> is a history: the contexts in which pages were opened, as they were then.\<close>

definition new_worker :: "nat \<Rightarrow> render_worker" where
  "new_worker i = \<lparr>rw_index = i, rw_pw = None, rw_browser = None, rw_context = None, rw_kwargs = [], rw_proxies = [], rw_next = 0,
     rw_closed = [], rw_visits = []\<rparr>"

datatype driver_call = CImport | CStart | CLaunch | CContext | CRoute | CScript | CCookies | CPage

text \<open>What a visit gives: the exception, or URL, status, headers (\<open>None\<close>: no navigation response) and page text; and the jar afterwards.\<close>

datatype page_answer = PageFails exn cookie_jar | PageShows string "(int \<times> (string, string) pydict) option" string cookie_jar

type_synonym visit = "bcontext \<Rightarrow> string \<Rightarrow> (string, string) pydict \<Rightarrow> pyval \<Rightarrow> pyval \<Rightarrow> page_answer"

abbreviation cget :: "(string, pyval) pydict \<Rightarrow> string \<Rightarrow> pyval \<Rightarrow> pyval" where
  "cget cfg k d \<equiv> (case dget cfg k of None \<Rightarrow> d | Some v \<Rightarrow> v)"

text \<open>\<^verbatim>\<open>config.get("proxy") or None\<close>; a proxy that is no string fails in the driver.\<close>

definition default_proxy :: "(string, pyval) pydict \<Rightarrow> string option" where
  "default_proxy wd = (case cget wd ''proxy'' VNone of VStr (c # cs) \<Rightarrow> Some (c # cs) | _ \<Rightarrow> None)"

section \<open>Opening the browser\<close>

definition open_handle :: "render_worker \<Rightarrow> nat \<times> render_worker" where
  "open_handle w = (rw_next w, w\<lparr>rw_next := Suc (rw_next w)\<rparr>)"

text \<open>\<^verbatim>\<open>_prepare_context\<close>\<close>

definition prepare_context :: "(string, pyval) pydict \<Rightarrow> driver_call set \<Rightarrow> bcontext \<Rightarrow> unit res \<times> bcontext" where
  "prepare_context wd io c =
     (let block = \<not> truthy (cget wd ''load_images'' (VBool False)); c1 = (if block then c\<lparr>cx_blocking := True\<rparr> else c)
      in if block \<and> CRoute \<in> io then (Inl (raise_of PyOtherError), c)
         else if truthy (cget wd ''stealth'' (VBool True))
         then (if CScript \<in> io then (Inl (raise_of PyOtherError), c1) else (Inr (), c1\<lparr>cx_stealth := True\<rparr>))
         else (Inr (), c1))"

text \<open>The keyword arguments of the contexts; \<open>ua\<close> is what \<^verbatim>\<open>get_random_user_agent\<close> draws.\<close>

definition context_kwargs :: "setting \<Rightarrow> string \<Rightarrow> (string, pyval) pydict \<Rightarrow> (string, pyval) pydict res" where
  "context_kwargs cfg ua wd =
     (let u = cget wd ''user_agent'' VNone;
          u1 = (if \<not> truthy u \<and> RANDOM_USER_AGENT cfg then VStr ua else u);
          k1 = (if truthy u1 then [(''user_agent'', u1)] else []);
          vp = cget wd ''viewport'' VNone;
          rest = filter (\<lambda>(k, v). truthy v) (map (\<lambda>k. (k, cget wd k VNone)) [''locale'', ''timezone_id''])
      in if \<not> truthy vp then Inr (k1 @ rest)
         else (case vp of
                 VList (a # b # _) \<Rightarrow> Inr (k1 @ [(''viewport'', VDict [(''width'', a), (''height'', b)])] @ rest)
               | VList _ \<Rightarrow> Inl (raise_of PyIndexError)
               | _ \<Rightarrow> Inl (raise_of PyTypeError)))"

text \<open>\<^verbatim>\<open>_ensure_browser\<close>: the driver, then the browser and its default context, or the context of the persistent profile.\<close>

definition launch_browser :: "(string, pyval) pydict \<Rightarrow> driver_call set \<Rightarrow> render_worker \<Rightarrow> unit res \<times> render_worker" where
  "launch_browser wd io w =
     (if truthy (cget wd ''user_data_dir'' VNone) then (Inr (), w)
      else if CLaunch \<in> io then (Inl (raise_of PyOtherError), w)
      else (case open_handle w of (n, w1) \<Rightarrow> (Inr (), w1\<lparr>rw_browser := Some n\<rparr>)))"

definition open_default :: "(string, pyval) pydict \<Rightarrow> driver_call set \<Rightarrow> (string, pyval) pydict \<Rightarrow> render_worker \<Rightarrow> unit res \<times> render_worker" where
  "open_default wd io kw w =
     (if CContext \<in> io then (Inl (raise_of PyOtherError), w)
      else (case open_handle w of (n, w1) \<Rightarrow>
              (case prepare_context wd io
                      \<lparr>cx_id = n, cx_proxy = None, cx_kwargs = kw, cx_blocking = False, cx_stealth = False, cx_jar = []\<rparr> of
                 (x, c) \<Rightarrow> (x, w1\<lparr>rw_context := Some c, rw_kwargs := kw\<rparr>))))"

definition ensure_browser :: "setting \<Rightarrow> string \<Rightarrow> (string, pyval) pydict \<Rightarrow> driver_call set \<Rightarrow> render_worker \<Rightarrow> unit res \<times> render_worker" where
  "ensure_browser cfg ua wd io w =
     (if rw_context w \<noteq> None then (Inr (), w)
      else if CImport \<in> io \<or> CStart \<in> io then (Inl (raise_of PyOtherError), w)
      else let (p, w0) = open_handle w; w1 = w0\<lparr>rw_pw := Some p\<rparr>
           in if cget wd ''browser'' (VStr ''chromium'') \<notin> VStr ` {''chromium'', ''firefox'', ''webkit''} then (Inl (raise_of PyOtherError), w1)
              else if dget wd ''headless'' = None then (Inl (raise_of PyKeyError), w1)
              else case context_kwargs cfg ua wd of
                     Inl e \<Rightarrow> (Inl e, w1)
                   | Inr kw \<Rightarrow> (case launch_browser wd io w1 of
                        (Inl e, w2) \<Rightarrow> (Inl e, w2)
                      | (Inr _, w2) \<Rightarrow> open_default wd io kw w2))"

section \<open>The context of a request\<close>

text \<open>\<^verbatim>\<open>_new_context\<close>\<close>

definition new_context :: "(string, pyval) pydict \<Rightarrow> driver_call set \<Rightarrow> string option \<Rightarrow> render_worker \<Rightarrow> bcontext res \<times> render_worker" where
  "new_context wd io proxy w =
     (if CContext \<in> io then (Inl (raise_of PyOtherError), w)
      else case open_handle w of (n, w1) \<Rightarrow>
             (case prepare_context wd io
                \<lparr>cx_id = n, cx_proxy = (if proxy \<noteq> default_proxy wd then proxy else None), cx_kwargs = rw_kwargs w,
                   cx_blocking = False, cx_stealth = False, cx_jar = []\<rparr> of
                (Inl e, c) \<Rightarrow> (Inl e, w1)
              | (Inr _, c) \<Rightarrow> (Inr c, w1)))"

definition close_handle :: "nat \<Rightarrow> render_worker \<Rightarrow> render_worker" where
  "close_handle n w = w\<lparr>rw_closed := rw_closed w @ [n]\<rparr>"

text \<open>\<^verbatim>\<open>_context_for\<close>: the default context only for its own exit, else a cached one (moved to the end), else a new one, the oldest
  being closed when there are too many.\<close>

definition context_for :: "setting \<Rightarrow> (string, pyval) pydict \<Rightarrow> driver_call set \<Rightarrow> string option \<Rightarrow> render_worker \<Rightarrow> bcontext res \<times> render_worker" where
  "context_for cfg wd io proxy w =
     (case rw_context w of
        None \<Rightarrow> (Inl (raise_of PyOtherError), w)
      | Some dflt \<Rightarrow>
          (case proxy of
             None \<Rightarrow> (Inr dflt, w)
           | Some p \<Rightarrow>
               if default_proxy wd = Some p then (Inr dflt, w)
               else if rw_browser w = None then (Inl (raise_of RequestError), w)
               else (case dget (rw_proxies w) p of
                       Some c \<Rightarrow> (Inr c, w\<lparr>rw_proxies := ddel (rw_proxies w) p @ [(p, c)]\<rparr>)
                     | None \<Rightarrow>
                         (case new_context wd io (Some p) w of
                            (Inl e, w1) \<Rightarrow> (Inl e, w1)
                          | (Inr c, w1) \<Rightarrow>
                              let all = rw_proxies w1 @ [(p, c)]; limit = nat (max (SESSION_CACHE_SIZE cfg) 1); over = length all - limit
                              in (Inr c, w1\<lparr>rw_proxies := drop over all, rw_closed := rw_closed w1 @ map (cx_id \<circ> snd) (take over all)\<rparr>)))))"

section \<open>Rendering\<close>

text \<open>The jar of the context with number \<open>n\<close>, wherever the thread keeps it.\<close>

definition put_jar :: "nat \<Rightarrow> cookie_jar \<Rightarrow> render_worker \<Rightarrow> render_worker" where
  "put_jar n j w =
     (let f = (\<lambda>c. if cx_id c = n then c\<lparr>cx_jar := j\<rparr> else c)
      in w\<lparr>rw_context := map_option f (rw_context w), rw_proxies := map (\<lambda>(p, c). (p, f c)) (rw_proxies w)\<rparr>)"

definition add_cookies :: "(pyval \<Rightarrow> string) \<Rightarrow> cookie_jar \<Rightarrow> cookie_jar \<Rightarrow> cookie_jar" where
  "add_cookies repr cs jar = fold (\<lambda>(k, v) j. dset j k (VStr (py_str repr v))) cs jar"

definition shown_response :: "setting \<Rightarrow> (pyval \<Rightarrow> string) \<Rightarrow> page_answer \<Rightarrow> response res" where
  "shown_response cfg repr a =
     (case a of
        PageFails e _ \<Rightarrow> Inl e
      | PageShows u nav body jar \<Rightarrow>
          bind_res (check_size cfg body) (\<lambda>_.
            let hs = (case nav of None \<Rightarrow> [] | Some (_, h) \<Rightarrow> h);
                hs1 = (if dget hs ''content-type'' = None then dset hs ''content-type'' ''text/html; charset=utf-8'' else hs)
            in Inr \<lparr>rs_url = u, rs_status = (case nav of None \<Rightarrow> 200 | Some (st, _) \<Rightarrow> st), rs_content = body,
                    rs_headers = fold (\<lambda>(k, v) d. dset d (ascii_lower k) v) hs1 [],
                    rs_cookies = map (\<lambda>(k, v). (k, py_str repr v)) jar, rs_encoding = Some ''utf-8'', rs_history = []\<rparr>))"

definition jar_after :: "page_answer \<Rightarrow> cookie_jar" where
  "jar_after a = (case a of PageFails _ j \<Rightarrow> j | PageShows _ _ _ j \<Rightarrow> j)"

text \<open>
  \<^verbatim>\<open>_render\<close> once it has the context \<open>c\<close>, which is closed at the end when it is \<open>owned\<close>.  \<open>visit\<close> gets the context, the URL, the headers, what is
  waited for and for how long; the user's script is part of it.
\<close>

definition open_page :: "setting \<Rightarrow> (pyval \<Rightarrow> string) \<Rightarrow> (string, pyval) pydict \<Rightarrow> driver_call set \<Rightarrow> visit \<Rightarrow> request \<Rightarrow> string option
    \<Rightarrow> string \<times> (string, string) pydict \<times> cookie_jar \<Rightarrow> bool \<Rightarrow> bcontext \<Rightarrow> render_worker \<Rightarrow> response res \<times> render_worker" where
  "open_page cfg repr wd io visit r proxy inp owned c w =
     (case inp of (u, hs, cs) \<Rightarrow>
        let done = (\<lambda>w'. if owned then close_handle (cx_id c) w' else w');
            j1 = (if cs \<noteq> [] \<and> CCookies \<notin> io then add_cookies repr cs (cx_jar c) else cx_jar c);
            w1 = put_jar (cx_id c) j1 w
        in if cs \<noteq> [] \<and> CCookies \<in> io \<or> CPage \<in> io then (Inl (raise_of PyOtherError), done w1)
           else let c1 = c\<lparr>cx_jar := j1\<rparr>;
                    wait = (case wait_for r of Some (x # xs) \<Rightarrow> VStr (x # xs) | _ \<Rightarrow> cget wd ''wait_for'' VNone);
                    extra = (case render_time r of Some t \<Rightarrow> VInt t | None \<Rightarrow> cget wd ''render_time'' (VInt 0));
                    a = visit c1 u hs wait extra;
                    w2 = put_jar (cx_id c) (jar_after a) (w1\<lparr>rw_visits := rw_visits w1 @ [(c1, r, proxy)]\<rparr>)
                in (shown_response cfg repr a, done w2))"

definition render_page :: "setting \<Rightarrow> (pyval \<Rightarrow> string) \<Rightarrow> (string, pyval) pydict \<Rightarrow> driver_call set \<Rightarrow> visit \<Rightarrow> request \<Rightarrow> string option
    \<Rightarrow> render_worker \<Rightarrow> response res \<times> render_worker" where
  "render_page cfg repr wd io visit r proxy w =
     (if dget wd ''timeout'' = None then (Inl (raise_of PyKeyError), w)
      else case render_inputs repr r of
        Inl e \<Rightarrow> (Inl e, w)
      | Inr inp \<Rightarrow>
          let owned = (snd (snd inp) \<noteq> [] \<and> rw_browser w \<noteq> None)
          in (case (if owned then new_context wd io proxy w else context_for cfg wd io proxy w) of
                (Inl e, w1) \<Rightarrow> (Inl e, w1)
              | (Inr c, w1) \<Rightarrow> open_page cfg repr wd io visit r proxy inp owned c w1))"

text \<open>One job of \<^verbatim>\<open>run\<close>: \<open>io0\<close> are the calls that fail while the browser is started, \<open>io\<close> those that fail while the page is rendered.\<close>

definition render_job :: "setting \<Rightarrow> (pyval \<Rightarrow> string) \<Rightarrow> (string, pyval) pydict \<Rightarrow> string \<Rightarrow> driver_call set \<Rightarrow> driver_call set \<Rightarrow> visit
    \<Rightarrow> request \<Rightarrow> string option \<Rightarrow> render_worker \<Rightarrow> response res \<times> render_worker" where
  "render_job cfg repr wd ua io0 io visit r proxy w =
     (case ensure_browser cfg ua wd io0 w of
        (Inl e, w1) \<Rightarrow> (Inl e, w1)
      | (Inr _, w1) \<Rightarrow> render_page cfg repr wd io visit r proxy w1)"

text \<open>\<^verbatim>\<open>_teardown\<close>\<close>

definition teardown_browser :: "render_worker \<Rightarrow> render_worker" where
  "teardown_browser w =
     w\<lparr>rw_closed := rw_closed w @ map (cx_id \<circ> snd) (rw_proxies w)
          @ (case rw_context w of None \<Rightarrow> [] | Some c \<Rightarrow> [cx_id c])
          @ (case rw_browser w of None \<Rightarrow> [] | Some n \<Rightarrow> [n]) @ (case rw_pw w of None \<Rightarrow> [] | Some n \<Rightarrow> [n]),
       rw_proxies := [], rw_context := None, rw_browser := None, rw_pw := None\<rparr>"

section \<open>The exit of a page\<close>

text \<open>A context without a proxy of its own uses the one the browser was launched with.\<close>

definition exit_of :: "(string, pyval) pydict \<Rightarrow> bcontext \<Rightarrow> string option" where
  "exit_of wd c = (case cx_proxy c of Some p \<Rightarrow> Some p | None \<Rightarrow> default_proxy wd)"

definition right_exit :: "(string, pyval) pydict \<Rightarrow> bcontext \<Rightarrow> string option \<Rightarrow> bool" where
  "right_exit wd c p \<longleftrightarrow> exit_of wd c = (case p of None \<Rightarrow> default_proxy wd | Some q \<Rightarrow> Some q)"

definition exits_ok :: "(string, pyval) pydict \<Rightarrow> render_worker \<Rightarrow> bool" where
  "exits_ok wd w \<longleftrightarrow> (\<forall>c. rw_context w = Some c \<longrightarrow> cx_proxy c = None) \<and> (\<forall>(p, c)\<in>set (rw_proxies w). cx_proxy c = Some p)
     \<and> (\<forall>(c, r, p)\<in>set (rw_visits w). right_exit wd c p)"

lemma prepare_context_sel:
  "prepare_context wd io c = (x, c') \<Longrightarrow> cx_id c' = cx_id c \<and> cx_proxy c' = cx_proxy c \<and> cx_jar c' = cx_jar c \<and> cx_kwargs c' = cx_kwargs c"
  by (auto simp: prepare_context_def Let_def split: if_splits)

lemma new_context_sel:
  assumes "new_context wd io proxy w = (x, w')"
  shows "w' = w \<or> w' = w\<lparr>rw_next := Suc (rw_next w)\<rparr>"
    "x = Inr c \<Longrightarrow> w' = w\<lparr>rw_next := Suc (rw_next w)\<rparr> \<and> cx_id c = rw_next w \<and> cx_jar c = []
        \<and> cx_proxy c = (if proxy \<noteq> default_proxy wd then proxy else None)"
  using assms by (auto simp: new_context_def open_handle_def split: if_splits prod.splits sum.splits dest!: prepare_context_sel)

lemma new_context_exit: "new_context wd io proxy w = (Inr c, w') \<Longrightarrow> right_exit wd c proxy"
  using new_context_sel(2) [of wd io proxy w "Inr c" w' c] by (auto simp: right_exit_def exit_of_def split: option.splits)

lemma put_jar_exits: "exits_ok wd (put_jar n j w) = exits_ok wd w"
  by (cases "rw_context w") (auto simp: exits_ok_def put_jar_def Let_def split_def)

lemma launch_browser_sel:
  "launch_browser wd io w = (x, w') \<Longrightarrow> w' = w \<or> w' = w\<lparr>rw_next := Suc (rw_next w), rw_browser := Some (rw_next w)\<rparr>"
  by (auto simp: launch_browser_def open_handle_def split: if_splits)

lemma open_default_sel:
  "open_default wd io kw w = (x, w') \<Longrightarrow> x \<noteq> Inr () \<and> w' = w
    \<or> (\<exists>c. w' = w\<lparr>rw_next := Suc (rw_next w), rw_context := Some c, rw_kwargs := kw\<rparr> \<and> cx_id c = rw_next w \<and> cx_proxy c = None \<and> cx_jar c = [])"
  by (auto simp: open_default_def open_handle_def split: if_splits prod.splits dest!: prepare_context_sel)

lemma ensure_browser_sel:
  assumes "ensure_browser cfg ua wd io w = (x, w')"
  shows "rw_proxies w' = rw_proxies w" "rw_visits w' = rw_visits w" "rw_closed w' = rw_closed w"
    "rw_context w' = rw_context w \<or> rw_context w = None \<and> (\<exists>c. rw_context w' = Some c \<and> cx_proxy c = None \<and> cx_jar c = [])"
    "x = Inr () \<Longrightarrow> rw_context w' \<noteq> None"
  using assms
  by (auto simp: ensure_browser_def open_handle_def Let_def split: if_splits prod.splits sum.splits dest!: launch_browser_sel open_default_sel)

lemma context_for_exit:
  assumes "context_for cfg wd io proxy w = (x, w')" "exits_ok wd w"
  shows "exits_ok wd w'" "x = Inr c \<Longrightarrow> right_exit wd c proxy"
proof -
  have "exits_ok wd w' \<and> (\<forall>c. x = Inr c \<longrightarrow> right_exit wd c proxy)"
  proof (cases "rw_context w")
    case None
    then show ?thesis using assms by (auto simp: context_for_def)
  next
    case (Some dflt)
    then have d: "cx_proxy dflt = None" using assms(2) by (simp add: exits_ok_def)
    show ?thesis
    proof (cases "proxy = None \<or> default_proxy wd = proxy \<or> rw_browser w = None")
      case True
      then show ?thesis using assms d by (auto simp: context_for_def Some right_exit_def exit_of_def split: option.splits if_splits)
    next
      case False
      then obtain p where p: "proxy = Some p" "default_proxy wd \<noteq> Some p" "rw_browser w \<noteq> None" by auto
      show ?thesis
      proof (cases "dget (rw_proxies w) p")
        case (Some c)
        then have "(p, c) \<in> set (rw_proxies w)" by (simp add: dget_Some_in)
        then have "cx_proxy c = Some p" "\<forall>(q, d)\<in>set (ddel (rw_proxies w) p @ [(p, c)]). cx_proxy d = Some q"
          using assms(2) by (auto simp: exits_ok_def ddel_def)
        then show ?thesis using assms p Some \<open>rw_context w = Some dflt\<close>
          by (auto simp: context_for_def exits_ok_def right_exit_def exit_of_def simp del: set_append)
      next
        case None
        obtain y w1 where n: "new_context wd io (Some p) w = (y, w1)" by (metis surj_pair)
        show ?thesis
        proof (cases y)
          case (Inl e)
          then show ?thesis using assms p None n \<open>rw_context w = Some dflt\<close> new_context_sel(1) [OF n]
            by (auto simp: context_for_def exits_ok_def)
        next
          case (Inr c)
          note s = new_context_sel(2) [OF n Inr]
          have old: "cx_proxy d = Some q" if "(q, d) \<in> set (drop k (rw_proxies w))" for k q d
            using assms(2) in_set_dropD [OF that] by (auto simp: exits_ok_def)
          have "cx_proxy c = Some p" using s p by simp
          then show ?thesis using assms p None n Inr \<open>rw_context w = Some dflt\<close> s new_context_exit [OF n [unfolded Inr]]
            by (auto simp: context_for_def exits_ok_def Let_def dest: old)
        qed
      qed
    qed
  qed
  then show "exits_ok wd w'" "x = Inr c \<Longrightarrow> right_exit wd c proxy" by auto
qed

lemma open_page_exits:
  assumes "exits_ok wd w" "right_exit wd c proxy"
  shows "exits_ok wd (snd (open_page cfg repr wd io visit r proxy inp owned c w))"
proof -
  have cl: "exits_ok wd (close_handle n v) = exits_ok wd v" for n v by (simp add: exits_ok_def close_handle_def)
  have "exits_ok wd (put_jar n j w\<lparr>rw_visits := rw_visits (put_jar n j w) @ [(c\<lparr>cx_jar := k\<rparr>, r, proxy)]\<rparr>)" for n j k
    using assms put_jar_exits [of wd n j w] by (auto simp: exits_ok_def right_exit_def exit_of_def)
  then show ?thesis using assms(1) by (simp add: open_page_def Let_def cl put_jar_exits split: prod.split)
qed

lemma render_page_exits:
  assumes "exits_ok wd w"
  shows "exits_ok wd (snd (render_page cfg repr wd io visit r proxy w))"
proof (cases "dget wd ''timeout'' = None \<or> (\<exists>e. render_inputs repr r = Inl e)")
  case True
  then show ?thesis using assms by (auto simp: render_page_def)
next
  case False
  then obtain inp where i: "render_inputs repr r = Inr inp" by (cases "render_inputs repr r") auto
  let ?owned = "snd (snd inp) \<noteq> [] \<and> rw_browser w \<noteq> None"
  obtain y w1 where c: "(if ?owned then new_context wd io proxy w else context_for cfg wd io proxy w) = (y, w1)" by (metis surj_pair)
  have 1: "exits_ok wd w1 \<and> (\<forall>c. y = Inr c \<longrightarrow> right_exit wd c proxy)"
  proof (cases ?owned)
    case True
    then have n: "new_context wd io proxy w = (y, w1)" using c by simp
    then show ?thesis using assms new_context_sel(1) [OF n] new_context_exit by (auto simp: exits_ok_def)
  next
    case False
    then have n: "context_for cfg wd io proxy w = (y, w1)" using c by (simp split: if_splits)
    then show ?thesis using context_for_exit [OF n assms] by auto
  qed
  show ?thesis
    unfolding render_page_def using False by (simp only: i sum.case Let_def c prod.case) (use 1 in \<open>auto split: sum.split intro: open_page_exits\<close>)
qed

type_synonym render_task = "driver_call set \<times> driver_call set \<times> visit \<times> request \<times> string option"

fun render_run :: "setting \<Rightarrow> (pyval \<Rightarrow> string) \<Rightarrow> (string, pyval) pydict \<Rightarrow> string \<Rightarrow> render_task list \<Rightarrow> render_worker \<Rightarrow> render_worker" where
  "render_run cfg repr wd ua [] w = w"
| "render_run cfg repr wd ua ((io0, io, visit, r, p) # js) w =
     render_run cfg repr wd ua js (snd (render_job cfg repr wd ua io0 io visit r p w))"

lemma render_job_exits:
  assumes "exits_ok wd w"
  shows "exits_ok wd (snd (render_job cfg repr wd ua io0 io visit r p w))"
proof -
  obtain x w1 where e: "ensure_browser cfg ua wd io0 w = (x, w1)" by (metis surj_pair)
  have "exits_ok wd w1" using assms ensure_browser_sel(1,2,4) [OF e] by (auto simp: exits_ok_def)
  then show ?thesis using render_page_exits [of wd w1] e by (simp add: render_job_def split: sum.split)
qed

lemma render_run_exits: "exits_ok wd w \<Longrightarrow> exits_ok wd (render_run cfg repr wd ua js w)"
  by (induction cfg repr wd ua js w rule: render_run.induct) (simp_all add: render_job_exits)


text \<open>The defaults of \<^verbatim>\<open>WEBDRIVER\<close>.\<close>

definition WEBDRIVER :: "(string, pyval) pydict" where
  "WEBDRIVER =
     [(''pool_size'', VInt 1), (''browser'', VStr ''chromium''), (''headless'', VBool True), (''load_images'', VBool False), (''timeout'', VInt 30),
      (''render_time'', VInt 0), (''wait_until'', VStr ''domcontentloaded''), (''wait_for'', VNone), (''user_agent'', VNone), (''proxy'', VNone),
      (''stealth'', VBool True), (''viewport'', VList [VInt 1920, VInt 1080]), (''channel'', VNone), (''locale'', VNone), (''timezone_id'', VNone),
      (''engine'', VStr ''playwright''), (''user_data_dir'', VNone)]"

lemma webdriver_gets:
  "dget WEBDRIVER ''headless'' = Some (VBool True)" "dget WEBDRIVER ''timeout'' = Some (VInt 30)" "dget WEBDRIVER ''proxy'' = Some VNone"
  "dget WEBDRIVER ''browser'' = Some (VStr ''chromium'')" "dget WEBDRIVER ''user_data_dir'' = Some VNone" "dget WEBDRIVER ''stealth'' = Some (VBool True)"
  "dget WEBDRIVER ''load_images'' = Some (VBool False)" "dget WEBDRIVER ''viewport'' = Some (VList [VInt 1920, VInt 1080])"
  "dget WEBDRIVER ''user_agent'' = Some VNone" "dget WEBDRIVER ''locale'' = Some VNone" "dget WEBDRIVER ''timezone_id'' = Some VNone"
  by (simp_all add: WEBDRIVER_def)

abbreviation blank_visit :: visit where
  "blank_visit \<equiv> (\<lambda>c u hs wait extra. PageShows u None [] (cx_jar c))"

lemmas render_eval = render_job_def ensure_browser_def launch_browser_def open_default_def render_page_def open_page_def context_for_def new_context_def prepare_context_def open_handle_def
  context_kwargs_def put_jar_def close_handle_def default_proxy_def webdriver_gets new_worker_def render_inputs_def render_headers_def kwarg_def
  request_defaults_def BODY_KEYS_def Let_def


section \<open>Handles\<close>

definition open_handles :: "render_worker \<Rightarrow> nat list" where
  "open_handles w = map (cx_id \<circ> snd) (rw_proxies w) @ (case rw_context w of None \<Rightarrow> [] | Some c \<Rightarrow> [cx_id c])
     @ (case rw_browser w of None \<Rightarrow> [] | Some n \<Rightarrow> [n]) @ (case rw_pw w of None \<Rightarrow> [] | Some n \<Rightarrow> [n])"

definition ids_ok :: "render_worker \<Rightarrow> bool" where
  "ids_ok w \<longleftrightarrow> set (open_handles w) \<subseteq> {..<rw_next w}"

lemma open_handles_put_jar [simp]: "open_handles (put_jar n j w) = open_handles w"
  by (auto simp: open_handles_def put_jar_def Let_def comp_def split_def split: option.splits)

lemma put_jar_sel [simp]:
  "rw_next (put_jar n j w) = rw_next w" "rw_closed (put_jar n j w) = rw_closed w" "rw_visits (put_jar n j w) = rw_visits w"
  "rw_browser (put_jar n j w) = rw_browser w" "rw_context (put_jar n j w) = None \<longleftrightarrow> rw_context w = None"
  by (simp_all add: put_jar_def Let_def)

lemma put_jar_other:
  assumes "ids_ok w" "rw_next w \<le> n"
  shows "rw_context (put_jar n j w) = rw_context w" "rw_proxies (put_jar n j w) = rw_proxies w"
proof -
  have "cx_id c \<noteq> n" if "rw_context w = Some c" for c using assms that by (auto simp: ids_ok_def open_handles_def)
  then show "rw_context (put_jar n j w) = rw_context w" by (cases "rw_context w") (auto simp: put_jar_def Let_def)
  have "cx_id c \<noteq> n" if "(p, c) \<in> set (rw_proxies w)" for p c using assms that by (force simp: ids_ok_def open_handles_def)
  then show "rw_proxies (put_jar n j w) = rw_proxies w" by (auto simp: put_jar_def Let_def intro!: map_idI)
qed

lemma ids_ok_iff: "ids_ok w \<longleftrightarrow> (\<forall>p c. (p, c) \<in> set (rw_proxies w) \<longrightarrow> cx_id c < rw_next w) \<and> (\<forall>c. rw_context w = Some c \<longrightarrow> cx_id c < rw_next w)
    \<and> (\<forall>n. rw_browser w = Some n \<longrightarrow> n < rw_next w) \<and> (\<forall>n. rw_pw w = Some n \<longrightarrow> n < rw_next w)"
  by (fastforce simp: ids_ok_def open_handles_def split: option.splits)

lemma ensure_browser_ids:
  assumes "ids_ok w"
  shows "ids_ok (snd (ensure_browser cfg ua wd io w))"
proof -
  have pw: "ids_ok (w\<lparr>rw_next := Suc (rw_next w), rw_pw := Some (rw_next w)\<rparr>)" using assms by (auto simp: ids_ok_iff less_Suc_eq)
  have lb: "ids_ok v'" if "launch_browser wd io v = (y, v')" "ids_ok v" for v y v'
    using launch_browser_sel [OF that(1)] that(2) by (auto simp: ids_ok_iff less_Suc_eq)
  have od: "ids_ok (snd (open_default wd io kw v))" if "ids_ok v" for kw v
    using open_default_sel [of wd io kw v "fst (open_default wd io kw v)" "snd (open_default wd io kw v)"] that by (auto simp: ids_ok_iff less_Suc_eq)
  show ?thesis using assms pw lb od
    by (auto simp: ensure_browser_def open_handle_def Let_def split: prod.split sum.split)
qed

lemma context_for_ids:
  assumes "ids_ok w"
  shows "ids_ok (snd (context_for cfg wd io proxy w))"
proof (cases "\<exists>p. proxy = Some p \<and> dget (rw_proxies w) p = None \<and> rw_context w \<noteq> None \<and> default_proxy wd \<noteq> Some p \<and> rw_browser w \<noteq> None")
  case False
  then show ?thesis using assms
    by (auto simp: context_for_def ids_ok_iff ddel_def dest!: dget_Some_in split: option.splits)
next
  case True
  then obtain p where p: "proxy = Some p" "dget (rw_proxies w) p = None" "default_proxy wd \<noteq> Some p" by blast
  obtain y w1 where n: "new_context wd io (Some p) w = (y, w1)" by (metis surj_pair)
  show ?thesis
  proof (cases y)
    case (Inl e)
    then show ?thesis using True p n assms new_context_sel(1) [OF n] by (auto simp: context_for_def ids_ok_iff less_Suc_eq)
  next
    case (Inr c)
    have "cx_id d < rw_next w" if "(q, d) \<in> set (drop k (rw_proxies w))" for q d k using assms in_set_dropD [OF that] by (auto simp: ids_ok_iff)
    then show ?thesis using True p n assms new_context_sel(2) [OF n Inr] Inr
      by (auto simp: context_for_def ids_ok_iff Let_def less_Suc_eq)
  qed
qed

lemma new_context_ids: "ids_ok w \<Longrightarrow> ids_ok (snd (new_context wd io proxy w))"
  using new_context_sel(1) [of wd io proxy w "fst (new_context wd io proxy w)" "snd (new_context wd io proxy w)"]
  by (auto simp: ids_ok_iff less_Suc_eq)

lemma open_handles_visits [simp]: "open_handles (w\<lparr>rw_visits := v\<rparr>) = open_handles w" "open_handles (close_handle n w) = open_handles w"
  by (simp_all add: open_handles_def close_handle_def)

lemma close_handle_sel [simp]:
  "rw_next (close_handle n w) = rw_next w" "rw_closed (close_handle n w) = rw_closed w @ [n]" "rw_visits (close_handle n w) = rw_visits w"
  "rw_context (close_handle n w) = rw_context w" "rw_proxies (close_handle n w) = rw_proxies w" "rw_browser (close_handle n w) = rw_browser w"
  by (simp_all add: close_handle_def)

lemma open_page_sel:
  "open_handles (snd (open_page cfg repr wd io visit r proxy inp owned c w)) = open_handles w"
  "rw_next (snd (open_page cfg repr wd io visit r proxy inp owned c w)) = rw_next w"
  "rw_closed (snd (open_page cfg repr wd io visit r proxy inp owned c w)) = rw_closed w @ (if owned then [cx_id c] else [])"
  "rw_context (snd (open_page cfg repr wd io visit r proxy inp owned c w)) = None \<longleftrightarrow> rw_context w = None"
  by (simp_all add: open_page_def Let_def split: prod.split)

lemma render_page_ids: "ids_ok w \<Longrightarrow> ids_ok (snd (render_page cfg repr wd io visit r proxy w))"
  using new_context_ids [of w wd io proxy] context_for_ids [of w cfg wd io proxy]
  by (auto simp: render_page_def Let_def ids_ok_def open_page_sel split: sum.split prod.split)

lemma render_job_ids: "ids_ok w \<Longrightarrow> ids_ok (snd (render_job cfg repr wd ua io0 io visit r p w))"
  using ensure_browser_ids [of w cfg ua wd io0] by (auto simp: render_job_def render_page_ids split: sum.split prod.split)

lemma render_run_ids: "ids_ok w \<Longrightarrow> ids_ok (render_run cfg repr wd ua js w)"
  by (induction cfg repr wd ua js w rule: render_run.induct) (simp_all add: render_job_ids)

lemma new_worker_ids: "ids_ok (new_worker i)"
  by (simp add: ids_ok_iff new_worker_def)

section \<open>Cookies of a request\<close>


definition login_page :: request where
  "login_page = (request_defaults ''u'')\<lparr>requests_kwargs := [(''cookies'', VDict [(''sid'', VStr ''7'')])]\<rparr>"


section \<open>Nothing stays open\<close>

definition config_ok :: "setting \<Rightarrow> string \<Rightarrow> (string, pyval) pydict \<Rightarrow> bool" where
  "config_ok cfg ua wd \<longleftrightarrow> cget wd ''browser'' (VStr ''chromium'') \<in> VStr ` {''chromium'', ''firefox'', ''webkit''} \<and> dget wd ''headless'' \<noteq> None
     \<and> (\<exists>kw. context_kwargs cfg ua wd = Inr kw)"

definition accounted :: "render_worker \<Rightarrow> bool" where
  "accounted w \<longleftrightarrow> {..<rw_next w} \<subseteq> set (open_handles w) \<union> set (rw_closed w) \<and> (rw_context w = None \<longrightarrow> open_handles w = [])
     \<and> distinct (dkeys (rw_proxies w))"

lemma prepare_context_succeeds: "CRoute \<notin> io \<Longrightarrow> CScript \<notin> io \<Longrightarrow> prepare_context wd io c \<noteq> (Inl e, d)"
  by (auto simp: prepare_context_def Let_def split: if_splits)

lemma new_context_succeeds:
  assumes "CRoute \<notin> io" "CScript \<notin> io" "new_context wd io proxy w = (Inl e, w')"
  shows "w' = w"
  using assms by (auto simp: new_context_def open_handle_def prepare_context_succeeds split: if_splits sum.splits prod.splits)

lemma open_default_succeeds:
  obtains c where "open_default wd {} kw w = (Inr (), w\<lparr>rw_next := Suc (rw_next w), rw_context := Some c, rw_kwargs := kw\<rparr>)" "cx_id c = rw_next w"
proof -
  obtain x c where p: "prepare_context wd {} \<lparr>cx_id = rw_next w, cx_proxy = None, cx_kwargs = kw, cx_blocking = False, cx_stealth = False, cx_jar = []\<rparr> = (x, c)"
    by (metis surj_pair)
  then have "x = Inr ()" using prepare_context_succeeds [of "{}" wd] by (cases x) auto
  then show thesis using that [of c] p prepare_context_sel [OF p] by (simp add: open_default_def open_handle_def)
qed

lemma ensure_browser_accounted:
  assumes "accounted w" "config_ok cfg ua wd"
  shows "accounted (snd (ensure_browser cfg ua wd {} w))"
proof (cases "rw_context w")
  case None
  obtain kw where kw: "context_kwargs cfg ua wd = Inr kw" using assms(2) by (auto simp: config_ok_def)
  have o: "open_handles w = []" using assms(1) None by (simp add: accounted_def)
  then have f: "rw_proxies w = []" by (simp add: open_handles_def)
  have c: "{..<rw_next w} \<subseteq> set (rw_closed w)" using assms(1) o by (simp add: accounted_def)
  define w1 where "w1 = w\<lparr>rw_next := Suc (rw_next w), rw_pw := Some (rw_next w)\<rparr>"
  obtain w2 where l: "launch_browser wd {} w1 = (Inr (), w2)" "{..<rw_next w2} \<subseteq> set_option (rw_pw w2) \<union> set_option (rw_browser w2) \<union> set (rw_closed w2)"
    "rw_proxies w2 = []"
    using c f by (cases "truthy (cget wd ''user_data_dir'' VNone)") (auto simp: launch_browser_def open_handle_def w1_def lessThan_Suc)
  obtain c where "open_default wd {} kw w2 = (Inr (), w2\<lparr>rw_next := Suc (rw_next w2), rw_context := Some c, rw_kwargs := kw\<rparr>)" "cx_id c = rw_next w2"
    by (rule open_default_succeeds)
  then have "snd (ensure_browser cfg ua wd {} w) = w2\<lparr>rw_next := Suc (rw_next w2), rw_context := Some c, rw_kwargs := kw\<rparr>" "cx_id c = rw_next w2"
    using None assms(2) kw l(1) by (auto simp: ensure_browser_def config_ok_def open_handle_def w1_def)
  then show ?thesis using l(2,3) by (auto simp: accounted_def open_handles_def less_Suc_eq dkeys_def subset_iff split: option.splits)
next
  case (Some c)
  then show ?thesis using assms by (simp add: ensure_browser_def)
qed

lemma dkeys_append: "dkeys (d @ [(p, c)]) = dkeys d @ [p]"
  by (simp add: dkeys_def)

lemma move_to_end_set:
  assumes "distinct (dkeys d)" "dget d p = Some c"
  shows "set (ddel d p @ [(p, c)]) = set d"
proof -
  have "(p, c) \<in> set d" using assms(2) by (simp add: dget_Some_in)
  moreover have "(p, b) \<in> set d \<longleftrightarrow> b = c" for b using dget_in_set [OF assms(1), of p b] assms(2) calculation by auto
  ultimately show ?thesis by (auto simp: ddel_def)
qed

lemma context_for_accounted:
  assumes "accounted w" "CRoute \<notin> io" "CScript \<notin> io"
  shows "accounted (snd (context_for cfg wd io proxy w))"
proof (cases "\<exists>p. proxy = Some p \<and> rw_context w \<noteq> None \<and> default_proxy wd \<noteq> Some p \<and> rw_browser w \<noteq> None")
  case False
  then show ?thesis using assms(1) by (auto simp: context_for_def split: option.split)
next
  case True
  then obtain p dflt where p: "proxy = Some p" "rw_context w = Some dflt" "default_proxy wd \<noteq> Some p" "rw_browser w \<noteq> None" by blast
  show ?thesis
  proof (cases "dget (rw_proxies w) p")
    case (Some c)
    have d: "distinct (dkeys (rw_proxies w))" using assms(1) by (simp add: accounted_def)
    define ps where "ps = ddel (rw_proxies w) p @ [(p, c)]"
    have "distinct (dkeys ps)" using d by (simp add: ps_def dkeys_append set_dkeys_ddel)
    moreover have "set ps = set (rw_proxies w)" unfolding ps_def by (rule move_to_end_set [OF d Some])
    moreover have "snd (context_for cfg wd io proxy w) = w\<lparr>rw_proxies := ps\<rparr>" using p Some by (auto simp: context_for_def ps_def)
    ultimately show ?thesis using assms(1) p(2) by (simp add: accounted_def open_handles_def)
  next
    case None
    obtain y w1 where n: "new_context wd io (Some p) w = (y, w1)" by (metis surj_pair)
    show ?thesis
    proof (cases y)
      case (Inl e)
      then show ?thesis using assms p None n new_context_succeeds [OF assms(2,3) n [unfolded Inl]] by (simp add: context_for_def)
    next
      case (Inr c)
      note s = new_context_sel(2) [OF n Inr]
      define pss where "pss = rw_proxies w @ [(p, c)]"
      define k where "k = length pss - nat (max (SESSION_CACHE_SIZE cfg) 1)"
      define ps es where "ps = drop k pss" and "es = take k pss"
      have "pss = es @ ps" by (simp add: ps_def es_def)
      then have "(cx_id \<circ> snd) ` set es \<union> (cx_id \<circ> snd) ` set ps = (cx_id \<circ> snd) ` set pss" by (simp only: image_Un set_append)
      then have u: "(cx_id \<circ> snd) ` set es \<union> (cx_id \<circ> snd) ` set ps = insert (rw_next w) ((cx_id \<circ> snd) ` set (rw_proxies w))"
        using s by (simp add: pss_def)
      have "distinct (map fst pss)" using assms(1) None by (auto simp: accounted_def dkeys_def dget_None_iff pss_def)
      then have d: "distinct (dkeys ps)" unfolding dkeys_def ps_def drop_map [symmetric] by (rule distinct_drop)
      have "snd (context_for cfg wd io proxy w) = w\<lparr>rw_next := Suc (rw_next w), rw_proxies := ps, rw_closed := rw_closed w @ map (cx_id \<circ> snd) es\<rparr>"
        using p None n s Inr by (auto simp: context_for_def Let_def ps_def es_def k_def pss_def)
      then show ?thesis using assms(1) p(2) d u by (simp add: accounted_def open_handles_def lessThan_Suc) blast
    qed
  qed
qed

lemma new_context_accounted:
  assumes "accounted w" "CRoute \<notin> io" "CScript \<notin> io" "new_context wd io proxy w = (Inl e, w1)"
  shows "accounted w1"
  using new_context_succeeds [OF assms(2-4)] assms(1) by simp

lemma render_page_accounted:
  assumes "accounted w" "CRoute \<notin> io" "CScript \<notin> io"
  shows "accounted (snd (render_page cfg repr wd io visit r proxy w))"
proof -
  have px: "dkeys (rw_proxies (snd (open_page cfg repr wd io visit r proxy inp owned c v))) = dkeys (rw_proxies v)" for inp owned c v
    by (simp add: open_page_def Let_def put_jar_def close_handle_def dkeys_def comp_def split_def)
  note sel = open_page_sel px
  have "accounted (snd (open_page cfg repr wd io visit r proxy inp True c w1))"
    if n: "new_context wd io proxy w = (Inr c, w1)" for inp c w1
  proof -
    note s = new_context_sel(2) [OF n refl]
    then have "open_handles w1 = open_handles w" by (simp add: open_handles_def)
    then show ?thesis using assms(1) s by (auto simp: accounted_def sel lessThan_Suc)
  qed
  moreover have "accounted (snd (open_page cfg repr wd io visit r proxy inp False c w1))"
    if "context_for cfg wd io proxy w = (Inr c, w1)" for inp c w1
    using context_for_accounted [OF assms, of cfg wd proxy] that by (simp add: accounted_def sel)
  moreover have "accounted w1" if "context_for cfg wd io proxy w = (Inl e, w1)" for e w1
    using context_for_accounted [OF assms, of cfg wd proxy] that by simp
  ultimately show ?thesis using new_context_accounted [OF assms] assms(1)
    by (auto simp: render_page_def Let_def split: sum.split prod.split)
qed

lemma render_run_accounted:
  assumes "config_ok cfg ua wd"
  shows "accounted w \<Longrightarrow> \<forall>(io0, io, _)\<in>set js. io0 = {} \<and> CRoute \<notin> io \<and> CScript \<notin> io \<Longrightarrow> accounted (render_run cfg repr wd ua js w)"
proof (induction js arbitrary: w)
  case (Cons j js)
  obtain io0 io visit r p where j: "j = (io0, io, visit, r, p)" by (metis prod_cases5)
  then have io: "io0 = {}" "CRoute \<notin> io" "CScript \<notin> io" using Cons.prems(2) by auto
  have "accounted (snd (render_job cfg repr wd ua io0 io visit r p w))"
    using ensure_browser_accounted [OF Cons.prems(1) assms] render_page_accounted [OF _ io(2,3)] io(1)
    by (auto simp: render_job_def split: sum.split prod.split)
  with Cons j show ?case by auto
qed simp

text \<open>A render thread leaves nothing running.  When the browser itself could be started and prepared, everything the thread ever opened, driver, browser,
  the shared contexts and the contexts of single requests, has been closed after its teardown, whatever pages failed in between and however
  many proxies pushed each other out.\<close>

theorem teardown_closes_all:
  assumes "config_ok cfg ua wd" "\<forall>(io0, io, _)\<in>set js. io0 = {} \<and> CRoute \<notin> io \<and> CScript \<notin> io"
    "w = teardown_browser (render_run cfg repr wd ua js (new_worker i))" "n < rw_next w"
  shows "n \<in> set (rw_closed w)"
proof -
  have "accounted (new_worker i)" by (simp add: accounted_def new_worker_def open_handles_def dkeys_def)
  from render_run_accounted [OF assms(1) this assms(2)] have "accounted (render_run cfg repr wd ua js (new_worker i))" .
  then show ?thesis using assms(3,4) by (auto simp: accounted_def teardown_browser_def open_handles_def)
qed

theorem teardown_closes_all_witness:
  "let w = teardown_browser (render_run (default_setting\<lparr>SESSION_CACHE_SIZE := 1\<rparr>) repr WEBDRIVER ''x''
      [({}, {CPage}, blank_visit, request_defaults ''u'', Some ''p''), ({}, {}, blank_visit, request_defaults ''u'', Some ''q'')] (new_worker 0))
   in set [0..<rw_next w] \<subseteq> set (rw_closed w)"
proof -
  let ?js = "[({}, {CPage}, blank_visit, request_defaults ''u'', Some ''p''), ({}, {}, blank_visit, request_defaults ''u'', Some ''q'')]"
  have c: "config_ok (default_setting\<lparr>SESSION_CACHE_SIZE := 1\<rparr>) ''x'' WEBDRIVER"
    by (simp add: config_ok_def webdriver_gets context_kwargs_def Let_def)
  have j: "\<forall>(io0, io, _)\<in>set ?js. io0 = {} \<and> CRoute \<notin> io \<and> CScript \<notin> io" by simp
  show ?thesis using teardown_closes_all [OF c j refl] unfolding Let_def by auto
qed

section \<open>A start that fails half-way\<close>

text \<open>
  When the first context cannot be opened, the next job starts a second driver and a second browser over the first ones: these are never
  closed, not even by the teardown.
\<close>

lemma failed_start_leaks_browser:
  "\<exists>w. w = teardown_browser (render_run default_setting repr WEBDRIVER ''x'' [({CContext}, {}, blank_visit, request_defaults ''u'', None),
      ({}, {}, blank_visit, request_defaults ''u'', None)] (new_worker 0)) \<and> rw_next w = 5 \<and> rw_closed w = [4, 3, 2]"
  by (simp add: render_eval teardown_browser_def)

text \<open>
  When the script that hides the automation cannot be installed (the library is missing, say), the first job fails, but its context stays: the
  jobs after it are rendered in it, without the script, although the configuration asks for it.
\<close>

lemma failed_script_is_forgotten:
  "\<exists>c r p. rw_visits (render_run default_setting repr WEBDRIVER ''x'' [({CScript}, {}, blank_visit, request_defaults ''u'', None),
      ({}, {}, blank_visit, request_defaults ''u'', None)] (new_worker 0)) = [(c, r, p)] \<and> \<not> cx_stealth c"
  by (simp add: render_eval)

end
