(* ===== verification/Render_Pool.thy ===== *)
theory Render_Pool
  imports Render_Browser
begin

text \<open>
  The pool of render threads (\<^verbatim>\<open>_Job\<close>, \<^verbatim>\<open>_RenderPool\<close>, the loop of \<^verbatim>\<open>_RenderWorker\<close>) and the downloader that owns it
  (\<^verbatim>\<open>netspy/network/downloader/_playwright.py\<close>).

  Callers, render threads and the thread that closes the pool run concurrently.  A state is the queue, where every thread
  stands, and what is known of every job; a step is one atomic action of one of them (a method of the queue, of an event, a
  section under the lock).  An action that cannot happen in a state is \<open>None\<close>.  What a rendering does is in \<open>Render_Browser\<close>; here it ends with
  a response, with an exception, or with an exception that also ends the thread.
\<close>

section \<open>Jobs, threads, steps\<close>

datatype job_end = Rendered | JobFailed | NoResult

datatype render_thread = AtHead | Getting | Busy nat | Gone

datatype caller = CallerReady | CallerWaits | CallerBack job_end

datatype close_phase = Unlocked | Stopping nat | Putting nat | Joining nat | Draining

record render_pool =
  rp_queue :: "nat option list"
  rp_threads :: "render_thread list"
  rp_stopped :: "nat set"
  rp_started :: bool
  rp_closed :: bool
  rp_phase :: close_phase
  rp_callers :: "nat \<rightharpoonup> caller"
  rp_events :: "nat \<rightharpoonup> job_end"
  rp_taken :: "nat list"
  rp_late :: "nat set"

text \<open>\<open>rp_taken\<close> and \<open>rp_late\<close> are histories: the jobs in the order in which threads took them, and those put after the pool had been closed.\<close>

definition new_pool_r :: render_pool where
  "new_pool_r = \<lparr>rp_queue = [], rp_threads = [], rp_stopped = {}, rp_started = False, rp_closed = False, rp_phase = Unlocked,
     rp_callers = (\<lambda>_. None), rp_events = (\<lambda>_. None), rp_taken = [], rp_late = {}\<rparr>"

datatype pool_event =
    Enter nat | Put nat | Look nat | Get nat | GetEmpty nat | Finish nat bool | Die nat | Timeout nat | Return nat
  | CloseEnter | CloseStop | ClosePut | CloseJoin | CloseJoinTimeout | CloseDrain

text \<open>\<^verbatim>\<open>_Job.fail\<close> and \<^verbatim>\<open>event.set()\<close>: the first end of a job stays.\<close>

definition settle :: "nat \<Rightarrow> job_end \<Rightarrow> render_pool \<Rightarrow> render_pool" where
  "settle j x s = (if rp_events s j = None then s\<lparr>rp_events := (rp_events s)(j \<mapsto> x)\<rparr> else s)"

text \<open>\<^verbatim>\<open>_ensure_started\<close>\<close>

definition ensure_started :: "nat \<Rightarrow> render_pool \<Rightarrow> render_pool" where
  "ensure_started n s =
     (if rp_closed s \<or> rp_started s then s else s\<lparr>rp_threads := rp_threads s @ replicate (max 1 n) AtHead, rp_started := True\<rparr>)"

definition set_thread :: "nat \<Rightarrow> render_thread \<Rightarrow> render_pool \<Rightarrow> render_pool" where
  "set_thread k t s = s\<lparr>rp_threads := (rp_threads s)[k := t]\<rparr>"

abbreviation thread_is :: "render_pool \<Rightarrow> nat \<Rightarrow> render_thread \<Rightarrow> bool" where
  "thread_is s k t \<equiv> k < length (rp_threads s) \<and> rp_threads s ! k = t"

text \<open>The caller's side: \<^verbatim>\<open>submit\<close>.\<close>

definition enter_submit :: "nat \<Rightarrow> nat \<Rightarrow> render_pool \<Rightarrow> render_pool option" where
  "enter_submit n j s =
     (if rp_phase s = Unlocked \<and> rp_callers s j = None
      then (let s1 = ensure_started n s in Some (s1\<lparr>rp_callers := (rp_callers s1)(j \<mapsto> CallerReady)\<rparr>)) else None)"

definition put_job :: "nat \<Rightarrow> render_pool \<Rightarrow> render_pool option" where
  "put_job j s =
     (if rp_callers s j = Some CallerReady
      then Some (s\<lparr>rp_queue := rp_queue s @ [Some j], rp_callers := (rp_callers s)(j \<mapsto> CallerWaits),
                   rp_late := (if rp_closed s \<and> rp_phase s = Unlocked then insert j (rp_late s) else rp_late s)\<rparr>) else None)"

definition time_out :: "nat \<Rightarrow> render_pool \<Rightarrow> render_pool option" where
  "time_out j s = (if rp_callers s j = Some CallerWaits then Some (settle j JobFailed s) else None)"

definition return_job :: "nat \<Rightarrow> render_pool \<Rightarrow> render_pool option" where
  "return_job j s =
     (case rp_events s j of
        Some x \<Rightarrow> if rp_callers s j = Some CallerWaits then Some (s\<lparr>rp_callers := (rp_callers s)(j \<mapsto> CallerBack x)\<rparr>) else None
      | None \<Rightarrow> None)"

text \<open>The loop of a render thread: look at the stop flag, wait for a job, render.\<close>

definition look :: "nat \<Rightarrow> render_pool \<Rightarrow> render_pool option" where
  "look k s = (if thread_is s k AtHead then Some (set_thread k (if k \<in> rp_stopped s then Gone else Getting) s) else None)"

definition get_job :: "nat \<Rightarrow> render_pool \<Rightarrow> render_pool option" where
  "get_job k s =
     (if thread_is s k Getting
      then (case rp_queue s of
              [] \<Rightarrow> None
            | None # q \<Rightarrow> Some (set_thread k Gone (s\<lparr>rp_queue := q\<rparr>))
            | Some j # q \<Rightarrow> Some (set_thread k (Busy j) (s\<lparr>rp_queue := q, rp_taken := rp_taken s @ [j]\<rparr>)))
      else None)"

definition get_empty :: "nat \<Rightarrow> render_pool \<Rightarrow> render_pool option" where
  "get_empty k s = (if thread_is s k Getting \<and> rp_queue s = [] then Some (set_thread k AtHead s) else None)"

definition finish_job :: "nat \<Rightarrow> bool \<Rightarrow> render_pool \<Rightarrow> render_pool option" where
  "finish_job k ok s =
     (if k < length (rp_threads s)
      then (case rp_threads s ! k of Busy j \<Rightarrow> Some (set_thread k AtHead (settle j (if ok then Rendered else JobFailed) s)) | _ \<Rightarrow> None) else None)"

definition die :: "nat \<Rightarrow> render_pool \<Rightarrow> render_pool option" where
  "die k s =
     (if k < length (rp_threads s)
      then (case rp_threads s ! k of Busy j \<Rightarrow> Some (set_thread k Gone (settle j NoResult s)) | _ \<Rightarrow> None) else None)"

text \<open>\<^verbatim>\<open>close\<close>, which holds the lock from its first to its last step, and \<^verbatim>\<open>_drain\<close>.\<close>

definition close_enter :: "render_pool \<Rightarrow> render_pool option" where
  "close_enter s =
     (if rp_phase s \<noteq> Unlocked then None
      else if rp_closed s then Some s
      else Some (s\<lparr>rp_closed := True, rp_phase := (if rp_started s then Stopping 0 else Unlocked)\<rparr>))"

definition close_stop :: "render_pool \<Rightarrow> render_pool option" where
  "close_stop s =
     (case rp_phase s of
        Stopping k \<Rightarrow> if k < length (rp_threads s) then Some (s\<lparr>rp_stopped := insert k (rp_stopped s), rp_phase := Stopping (Suc k)\<rparr>)
                      else Some (s\<lparr>rp_phase := Putting 0\<rparr>)
      | _ \<Rightarrow> None)"

definition close_put :: "render_pool \<Rightarrow> render_pool option" where
  "close_put s =
     (case rp_phase s of
        Putting k \<Rightarrow> if k < length (rp_threads s) then Some (s\<lparr>rp_queue := rp_queue s @ [None], rp_phase := Putting (Suc k)\<rparr>)
                     else Some (s\<lparr>rp_phase := Joining 0\<rparr>)
      | _ \<Rightarrow> None)"

definition close_join :: "bool \<Rightarrow> render_pool \<Rightarrow> render_pool option" where
  "close_join expired s =
     (case rp_phase s of
        Joining k \<Rightarrow> if k < length (rp_threads s)
                     then (if expired \<or> rp_threads s ! k = Gone then Some (s\<lparr>rp_phase := Joining (Suc k)\<rparr>) else None)
                     else Some (s\<lparr>rp_started := False, rp_phase := Draining\<rparr>)
      | _ \<Rightarrow> None)"

definition close_drain :: "render_pool \<Rightarrow> render_pool option" where
  "close_drain s =
     (if rp_phase s \<noteq> Draining then None
      else case rp_queue s of
             [] \<Rightarrow> Some (s\<lparr>rp_phase := Unlocked\<rparr>)
           | None # q \<Rightarrow> Some (s\<lparr>rp_queue := q\<rparr>)
           | Some j # q \<Rightarrow> Some (settle j JobFailed (s\<lparr>rp_queue := q\<rparr>)))"

fun pool_step_r :: "nat \<Rightarrow> pool_event \<Rightarrow> render_pool \<Rightarrow> render_pool option" where
  "pool_step_r n (Enter j) s = enter_submit n j s"
| "pool_step_r n (Put j) s = put_job j s"
| "pool_step_r n (Look k) s = look k s"
| "pool_step_r n (Get k) s = get_job k s"
| "pool_step_r n (GetEmpty k) s = get_empty k s"
| "pool_step_r n (Finish k ok) s = finish_job k ok s"
| "pool_step_r n (Die k) s = die k s"
| "pool_step_r n (Timeout j) s = time_out j s"
| "pool_step_r n (Return j) s = return_job j s"
| "pool_step_r n CloseEnter s = close_enter s"
| "pool_step_r n CloseStop s = close_stop s"
| "pool_step_r n ClosePut s = close_put s"
| "pool_step_r n CloseJoin s = close_join False s"
| "pool_step_r n CloseJoinTimeout s = close_join True s"
| "pool_step_r n CloseDrain s = close_drain s"

text \<open>The states that the threads together can reach.\<close>

inductive pool_reach :: "nat \<Rightarrow> render_pool \<Rightarrow> bool" for n where
  pool_init: "pool_reach n new_pool_r"
| pool_next: "pool_reach n s \<Longrightarrow> pool_step_r n e s = Some s' \<Longrightarrow> pool_reach n s'"

section \<open>Where a job is\<close>

definition was_put :: "nat \<Rightarrow> render_pool \<Rightarrow> bool" where
  "was_put j s \<longleftrightarrow> (case rp_callers s j of None \<Rightarrow> False | Some c \<Rightarrow> c \<noteq> CallerReady)"

definition jobs_in :: "nat option list \<Rightarrow> nat list" where
  "jobs_in q = concat (map (\<lambda>x. case x of None \<Rightarrow> [] | Some j \<Rightarrow> [j]) q)"

lemma jobs_in_simps [simp]: "jobs_in [] = []" "jobs_in (None # q) = jobs_in q" "jobs_in (Some j # q) = j # jobs_in q" "jobs_in (q @ r) = jobs_in q @ jobs_in r"
  by (simp_all add: jobs_in_def)

lemma set_jobs_in: "j \<in> set (jobs_in q) \<longleftrightarrow> Some j \<in> set q"
  by (induction q) (auto simp: jobs_in_def split: option.splits)

definition threads_ok :: "nat \<Rightarrow> render_pool \<Rightarrow> bool" where
  "threads_ok n s \<longleftrightarrow> (rp_threads s = [] \<or> length (rp_threads s) = max 1 n)
     \<and> (rp_threads s = [] \<longrightarrow> \<not> rp_started s \<and> rp_phase s = Unlocked) \<and> (rp_phase s \<noteq> Unlocked \<longrightarrow> rp_closed s)
     \<and> (\<not> rp_closed s \<longrightarrow> rp_threads s = [] \<or> rp_started s) \<and> (rp_closed s \<and> rp_started s \<longrightarrow> rp_phase s \<noteq> Unlocked)
     \<and> (\<not> rp_closed s \<and> \<not> rp_started s \<longrightarrow> (\<forall>j. rp_callers s j = None)) \<and> (rp_phase s = Draining \<longrightarrow> \<not> rp_started s)"

definition jobs_ok :: "render_pool \<Rightarrow> bool" where
  "jobs_ok s \<longleftrightarrow> distinct (rp_taken s @ jobs_in (rp_queue s)) \<and> (\<forall>j\<in>set (rp_taken s @ jobs_in (rp_queue s)). was_put j s)
     \<and> (\<forall>j. Busy j \<in> set (rp_threads s) \<longrightarrow> j \<in> set (rp_taken s))"

definition kept :: "nat \<Rightarrow> render_pool \<Rightarrow> bool" where
  "kept j s \<longleftrightarrow> (was_put j s \<longrightarrow> rp_events s j \<noteq> None \<or> j \<in> set (jobs_in (rp_queue s)) \<or> Busy j \<in> set (rp_threads s))"

definition drained_ok :: "render_pool \<Rightarrow> bool" where
  "drained_ok s \<longleftrightarrow> (rp_closed s \<and> rp_phase s = Unlocked \<longrightarrow> set (jobs_in (rp_queue s)) \<subseteq> rp_late s)"

lemma settle_sel [simp]:
  "rp_queue (settle j x s) = rp_queue s" "rp_threads (settle j x s) = rp_threads s" "rp_stopped (settle j x s) = rp_stopped s"
  "rp_started (settle j x s) = rp_started s" "rp_closed (settle j x s) = rp_closed s" "rp_phase (settle j x s) = rp_phase s"
  "rp_callers (settle j x s) = rp_callers s" "rp_taken (settle j x s) = rp_taken s" "rp_late (settle j x s) = rp_late s"
  "rp_events (settle j x s) i = None \<longleftrightarrow> i \<noteq> j \<and> rp_events s i = None"
  by (auto simp: settle_def)

lemma set_thread_sel [simp]:
  "rp_queue (set_thread k t s) = rp_queue s" "rp_threads (set_thread k t s) = (rp_threads s)[k := t]" "rp_stopped (set_thread k t s) = rp_stopped s"
  "rp_started (set_thread k t s) = rp_started s" "rp_closed (set_thread k t s) = rp_closed s" "rp_phase (set_thread k t s) = rp_phase s"
  "rp_callers (set_thread k t s) = rp_callers s" "rp_taken (set_thread k t s) = rp_taken s" "rp_late (set_thread k t s) = rp_late s"
  "rp_events (set_thread k t s) = rp_events s"
  by (simp_all add: set_thread_def)

text \<open>A thread that changes its state leaves the other threads' jobs.\<close>

lemma busy_new: "Busy j \<in> set (xs[k := t]) \<Longrightarrow> Busy j = t \<or> Busy j \<in> set xs"
  using set_update_subset_insert [of xs k t] by auto

lemma busy_stays: "Busy j \<in> set xs \<Longrightarrow> k < length xs \<Longrightarrow> xs ! k \<noteq> Busy j \<Longrightarrow> Busy j \<in> set (xs[k := t])"
  by (metis in_set_conv_nth length_list_update nth_list_update_neq)

text \<open>What a step of a thread, and a step of the closing thread, does.\<close>

lemma get_job_elim:
  assumes "get_job k s = Some s'"
  obtains (sentinel) q where "thread_is s k Getting" "rp_queue s = None # q" "s' = set_thread k Gone (s\<lparr>rp_queue := q\<rparr>)"
  | (job) j q where "thread_is s k Getting" "rp_queue s = Some j # q" "s' = set_thread k (Busy j) (s\<lparr>rp_queue := q, rp_taken := rp_taken s @ [j]\<rparr>)"
  using assms by (auto simp: get_job_def split: if_splits list.splits option.splits)

lemma end_job_elim:
  assumes "finish_job k ok s = Some s' \<or> die k s = Some s'"
  obtains j x t where "thread_is s k (Busy j)" "s' = set_thread k t (settle j x s)" "t = AtHead \<or> t = Gone"
  using assms by (auto simp: finish_job_def die_def split: if_splits render_thread.splits)

lemma idle_elim:
  assumes "look k s = Some s' \<or> get_empty k s = Some s'"
  obtains t where "k < length (rp_threads s)" "rp_threads s ! k = AtHead \<or> rp_threads s ! k = Getting" "s' = set_thread k t s"
    "t = AtHead \<or> t = Gone \<or> t = Getting"
  using assms by (auto simp: look_def get_empty_def split: if_splits)

lemma close_drain_elim:
  assumes "close_drain s = Some s'"
  obtains (empty) "rp_phase s = Draining" "rp_queue s = []" "s' = s\<lparr>rp_phase := Unlocked\<rparr>"
  | (sentinel) q where "rp_phase s = Draining" "rp_queue s = None # q" "s' = s\<lparr>rp_queue := q\<rparr>"
  | (job) j q where "rp_phase s = Draining" "rp_queue s = Some j # q" "s' = settle j JobFailed (s\<lparr>rp_queue := q\<rparr>)"
  using assms by (auto simp: close_drain_def split: if_splits list.splits option.splits)

lemma put_job_step:
  assumes "put_job j s = Some s'"
  shows "rp_callers s j = Some CallerReady" "rp_callers s' = (rp_callers s)(j \<mapsto> CallerWaits)" "rp_queue s' = rp_queue s @ [Some j]"
    "rp_threads s' = rp_threads s" "rp_closed s' = rp_closed s" "rp_started s' = rp_started s" "rp_phase s' = rp_phase s" "rp_taken s' = rp_taken s"
    "rp_events s' = rp_events s" "rp_late s' = (if rp_closed s \<and> rp_phase s = Unlocked then insert j (rp_late s) else rp_late s)"
  using assms by (auto simp: put_job_def split: if_splits)

lemma return_job_step:
  assumes "return_job j s = Some s'"
  obtains x where "rp_callers s j = Some CallerWaits" "rp_events s j = Some x" "s' = s\<lparr>rp_callers := (rp_callers s)(j \<mapsto> CallerBack x)\<rparr>"
  using assms by (auto simp: return_job_def split: if_splits option.splits)

lemma enter_submit_step:
  assumes "enter_submit n j s = Some s'"
  shows "rp_phase s = Unlocked" "rp_callers s j = None" "rp_callers s' = (rp_callers s)(j \<mapsto> CallerReady)" "rp_queue s' = rp_queue s"
    "rp_threads s' = (if rp_closed s \<or> rp_started s then rp_threads s else rp_threads s @ replicate (max 1 n) AtHead)"
    "rp_started s' = (rp_started s \<or> \<not> rp_closed s)" "rp_closed s' = rp_closed s" "rp_phase s' = rp_phase s" "rp_taken s' = rp_taken s"
    "rp_events s' = rp_events s" "rp_late s' = rp_late s"
  using assms by (auto simp: enter_submit_def ensure_started_def Let_def split: if_splits)

lemma close_phase_step:
  assumes "close_stop s = Some s' \<or> close_put s = Some s' \<or> close_join b s = Some s'"
  shows "rp_phase s \<noteq> Unlocked" "rp_phase s' \<noteq> Unlocked" "jobs_in (rp_queue s') = jobs_in (rp_queue s)" "rp_threads s' = rp_threads s"
    "rp_callers s' = rp_callers s" "rp_events s' = rp_events s" "rp_taken s' = rp_taken s" "rp_late s' = rp_late s" "rp_closed s' = rp_closed s"
    "rp_started s' \<longrightarrow> rp_started s" "rp_phase s' = Draining \<longrightarrow> \<not> rp_started s'"
  using assms by (auto simp: close_stop_def close_put_def close_join_def split: close_phase.splits if_splits)

section \<open>Invariants\<close>

lemma threads_ok_upd [simp]:
  "threads_ok n (set_thread k t s) = threads_ok n s" "threads_ok n (settle j x s) = threads_ok n s"
  "threads_ok n (s\<lparr>rp_queue := q\<rparr>) = threads_ok n s" "threads_ok n (s\<lparr>rp_taken := u\<rparr>) = threads_ok n s"
  by (simp_all add: threads_ok_def)

lemma threads_ok_waits: "threads_ok n s \<Longrightarrow> rp_callers s j = Some c \<Longrightarrow> rp_closed s \<or> rp_started s"
  by (auto simp: threads_ok_def)

lemma step_threads_ok:
  assumes "threads_ok n s" "pool_step_r n e s = Some s'"
  shows "threads_ok n s'"
proof (cases e)
  case (Enter j)
  then show ?thesis using assms enter_submit_step [of n j s s'] by (auto simp: threads_ok_def)
next
  case (Put j)
  then show ?thesis using assms put_job_step [of j s s'] threads_ok_waits [OF assms(1), of j] by (simp add: threads_ok_def)
next
  case (Timeout j)
  then show ?thesis using assms by (auto simp: time_out_def split: if_splits)
next
  case (Return j)
  then have "return_job j s = Some s'" using assms(2) by simp
  then show ?thesis using assms(1) threads_ok_waits [OF assms(1), of j] by (elim return_job_step) (simp add: threads_ok_def)
next
  case (Get k)
  then have "get_job k s = Some s'" using assms(2) by simp
  then show ?thesis using assms(1) by (cases rule: get_job_elim) simp_all
next
  case CloseEnter
  then show ?thesis using assms by (auto simp: close_enter_def threads_ok_def split: if_splits)
next
  case CloseDrain
  then have "close_drain s = Some s'" using assms(2) by simp
  then show ?thesis using assms(1) by (cases rule: close_drain_elim) (auto simp: threads_ok_def)
next
  case (Look k)
  then show ?thesis using idle_elim [of k s s' "threads_ok n s'"] assms by simp
next
  case (GetEmpty k)
  then show ?thesis using idle_elim [of k s s' "threads_ok n s'"] assms by simp
next
  case (Finish k ok)
  then show ?thesis using end_job_elim [of k ok s s' "threads_ok n s'"] assms by simp
next
  case (Die k)
  then show ?thesis using end_job_elim [of k True s s' "threads_ok n s'"] assms by simp
qed (use close_phase_step [of s s' True] close_phase_step [of s s' False] assms in \<open>auto simp: threads_ok_def\<close>)

lemma was_put_upd [simp]:
  "was_put j (set_thread k t s) = was_put j s" "was_put j (settle i x s) = was_put j s" "was_put j (s\<lparr>rp_queue := q\<rparr>) = was_put j s"
  "was_put j (s\<lparr>rp_taken := u\<rparr>) = was_put j s" "was_put j (s\<lparr>rp_phase := ph\<rparr>) = was_put j s"
  by (simp_all add: was_put_def)

lemma was_put_same: "rp_callers s' = rp_callers s \<Longrightarrow> was_put j s' = was_put j s"
  by (simp add: was_put_def)

lemma step_jobs_ok:
  assumes "jobs_ok s" "pool_step_r n e s = Some s'"
  shows "jobs_ok s'"
proof -
  have ended: "jobs_ok s'" if "finish_job k ok s = Some s' \<or> die k s = Some s'" for k ok
    using that assms(1) by (elim end_job_elim) (auto simp: jobs_ok_def dest!: busy_new)
  have idle: "jobs_ok s'" if "look k s = Some s' \<or> get_empty k s = Some s'" for k
    using that assms(1) by (elim idle_elim) (auto simp: jobs_ok_def dest!: busy_new)
  have phase: "jobs_ok s'" if "close_stop s = Some s' \<or> close_put s = Some s' \<or> close_join b s = Some s'" for b
    using close_phase_step [OF that] assms(1) by (simp add: jobs_ok_def was_put_same [of s' s])
  show ?thesis
  proof (cases e)
    case (Enter j)
    then have en: "enter_submit n j s = Some s'" using assms(2) by simp
    have "was_put i s' = was_put i s" for i using enter_submit_step(2,3) [OF en] by (simp add: was_put_def)
    then show ?thesis using assms(1) enter_submit_step [OF en] by (auto simp: jobs_ok_def)
  next
    case (Put j)
    then have pu: "put_job j s = Some s'" using assms(2) by simp
    have w: "was_put i s' \<longleftrightarrow> i = j \<or> was_put i s" for i using put_job_step(1,2) [OF pu] by (simp add: was_put_def)
    have "\<not> was_put j s" using put_job_step(1) [OF pu] by (simp add: was_put_def)
    then have "j \<notin> set (rp_taken s @ jobs_in (rp_queue s))" using assms(1) by (auto simp: jobs_ok_def)
    then show ?thesis using assms(1) put_job_step(3,4,8) [OF pu] by (auto simp: jobs_ok_def w)
  next
    case (Timeout j)
    then show ?thesis using assms by (auto simp: time_out_def jobs_ok_def split: if_splits)
  next
    case (Return j)
    then have "return_job j s = Some s'" using assms(2) by simp
    then obtain x where x: "rp_callers s j = Some CallerWaits" "s' = s\<lparr>rp_callers := (rp_callers s)(j \<mapsto> CallerBack x)\<rparr>" by (rule return_job_step)
    then have "was_put i s' = was_put i s" for i by (simp add: was_put_def)
    then show ?thesis using assms(1) x(2) by (simp add: jobs_ok_def)
  next
    case (Get k)
    then have "get_job k s = Some s'" using assms(2) by simp
    then show ?thesis using assms(1) by (cases rule: get_job_elim) (auto simp: jobs_ok_def dest!: busy_new)
  next
    case CloseEnter
    then show ?thesis using assms by (auto simp: close_enter_def jobs_ok_def was_put_def split: if_splits)
  next
    case CloseDrain
    then have "close_drain s = Some s'" using assms(2) by simp
    then show ?thesis using assms(1) by (cases rule: close_drain_elim) (auto simp: jobs_ok_def)
  qed (use ended idle phase assms(2) in \<open>simp_all, blast+\<close>)
qed

lemma step_kept:
  assumes "kept j s" "pool_step_r n e s = Some s'"
  shows "kept j s'"
proof -
  have idle: "kept j s'" if "look k s = Some s' \<or> get_empty k s = Some s'" for k
    using that
  proof (rule idle_elim)
    fix t assume t: "k < length (rp_threads s)" "rp_threads s ! k = AtHead \<or> rp_threads s ! k = Getting" "s' = set_thread k t s"
    have "Busy j \<in> set ((rp_threads s)[k := t])" if "Busy j \<in> set (rp_threads s)" using busy_stays [OF that t(1)] t(2) by auto
    then show ?thesis using assms(1) t(3) by (auto simp: kept_def)
  qed
  have ended: "kept j s'" if "finish_job k ok s = Some s' \<or> die k s = Some s'" for k ok
    using that
  proof (rule end_job_elim)
    fix i x t assume t: "thread_is s k (Busy i)" "s' = set_thread k t (settle i x s)"
    have "Busy j \<in> set ((rp_threads s)[k := t]) \<or> j = i" if "Busy j \<in> set (rp_threads s)" using busy_stays [OF that, of k t] t(1) by auto
    then show ?thesis using assms(1) t(2) by (auto simp: kept_def simp del: not_None_eq)
  qed
  have phase: "kept j s'" if "close_stop s = Some s' \<or> close_put s = Some s' \<or> close_join b s = Some s'" for b
    using close_phase_step [OF that] assms(1) by (simp add: kept_def was_put_same [of s' s])
  show ?thesis
  proof (cases e)
    case (Enter i)
    then have en: "enter_submit n i s = Some s'" using assms(2) by simp
    have "was_put j s' = was_put j s" using enter_submit_step(2,3) [OF en] by (simp add: was_put_def)
    then show ?thesis using assms(1) enter_submit_step [OF en] by (auto simp: kept_def simp del: not_None_eq)
  next
    case (Put i)
    then have pu: "put_job i s = Some s'" using assms(2) by simp
    have "was_put j s' \<longleftrightarrow> j = i \<or> was_put j s" using put_job_step(1,2) [OF pu] by (simp add: was_put_def)
    then show ?thesis using assms(1) put_job_step(3,4,9) [OF pu] by (auto simp: kept_def simp del: not_None_eq)
  next
    case (Timeout i)
    then show ?thesis using assms by (auto simp: time_out_def kept_def simp del: not_None_eq split: if_splits)
  next
    case (Return i)
    then have "return_job i s = Some s'" using assms(2) by simp
    then obtain x where x: "rp_callers s i = Some CallerWaits" "s' = s\<lparr>rp_callers := (rp_callers s)(i \<mapsto> CallerBack x)\<rparr>" by (rule return_job_step)
    then have "was_put j s' = was_put j s" by (simp add: was_put_def)
    then show ?thesis using assms(1) x(2) by (simp add: kept_def del: not_None_eq)
  next
    case (Get k)
    then have "get_job k s = Some s'" using assms(2) by simp
    then show ?thesis
    proof (cases rule: get_job_elim)
      case (sentinel q)
      have "Busy j \<in> set ((rp_threads s)[k := Gone])" if "Busy j \<in> set (rp_threads s)" using busy_stays [OF that, of k Gone] sentinel(1) by auto
      then show ?thesis using assms(1) sentinel by (auto simp: kept_def simp del: not_None_eq)
    next
      case (job i q)
      have "Busy j \<in> set ((rp_threads s)[k := Busy i])" if "Busy j \<in> set (rp_threads s)" using busy_stays [OF that, of k "Busy i"] job(1) by auto
      moreover have "Busy i \<in> set ((rp_threads s)[k := Busy i])" using job(1) by (simp add: set_update_memI)
      ultimately show ?thesis using assms(1) job(2,3) by (auto simp: kept_def simp del: not_None_eq)
    qed
  next
    case CloseEnter
    then show ?thesis using assms by (auto simp: close_enter_def kept_def was_put_def simp del: not_None_eq split: if_splits)
  next
    case CloseDrain
    then have "close_drain s = Some s'" using assms(2) by simp
    then show ?thesis using assms(1) by (cases rule: close_drain_elim) (auto simp: kept_def simp del: not_None_eq)
  qed (use ended idle phase assms(2) in \<open>simp_all, blast+\<close>)
qed

lemma step_drained_ok:
  assumes "drained_ok s" "threads_ok n s" "pool_step_r n e s = Some s'" "jobs_ok s"
  shows "drained_ok s'"
proof -
  have same: "drained_ok s'" if "rp_closed s' = rp_closed s" "rp_phase s' = rp_phase s" "set (jobs_in (rp_queue s')) \<subseteq> set (jobs_in (rp_queue s))" "rp_late s' = rp_late s"
    using that assms(1) by (auto simp: drained_ok_def)
  have idle: "drained_ok s'" if "look k s = Some s' \<or> get_empty k s = Some s'" for k
    using that by (rule idle_elim) (rule same, auto)
  have ended: "drained_ok s'" if "finish_job k ok s = Some s' \<or> die k s = Some s'" for k ok
    using that by (rule end_job_elim) (rule same, auto)
  have phase: "drained_ok s'" if "close_stop s = Some s' \<or> close_put s = Some s' \<or> close_join b s = Some s'" for b
    using close_phase_step [OF that] by (simp add: drained_ok_def)
  show ?thesis
  proof (cases e)
    case (Enter j)
    then have en: "enter_submit n j s = Some s'" using assms(3) by simp
    show ?thesis by (rule same) (simp_all add: enter_submit_step [OF en])
  next
    case (Put j)
    then have pu: "put_job j s = Some s'" using assms(3) by simp
    show ?thesis using assms(1) put_job_step(3,5,7,10) [OF pu] by (auto simp: drained_ok_def)
  next
    case (Timeout j)
    then have "s' = settle j JobFailed s" using assms(3) by (simp add: time_out_def split: if_splits)
    then show ?thesis by (intro same) simp_all
  next
    case (Return j)
    then have "return_job j s = Some s'" using assms(3) by simp
    then show ?thesis by (rule return_job_step) (rule same, auto)
  next
    case (Get k)
    then have "get_job k s = Some s'" using assms(3) by simp
    then show ?thesis
    proof (cases rule: get_job_elim)
      case (sentinel q)
      then show ?thesis by (intro same) auto
    next
      case (job j q)
      then show ?thesis by (intro same) auto
    qed
  next
    case CloseEnter
    have "jobs_in (rp_queue s) = []" if "\<not> rp_started s" "\<not> rp_closed s"
    proof -
      have "\<not> was_put j s" for j using that assms(2) by (simp add: threads_ok_def was_put_def)
      then show ?thesis using assms(4) by (cases "jobs_in (rp_queue s)") (auto simp: jobs_ok_def)
    qed
    then show ?thesis using assms CloseEnter by (auto simp: close_enter_def drained_ok_def split: if_splits)
  next
    case CloseDrain
    then have "close_drain s = Some s'" using assms(3) by simp
    then show ?thesis
      by (cases rule: close_drain_elim) (auto simp: drained_ok_def)
  qed (use ended idle phase assms(3) in \<open>simp_all, blast+\<close>)
qed

lemma pool_reach_inv: "pool_reach n s \<Longrightarrow> threads_ok n s \<and> jobs_ok s \<and> drained_ok s \<and> kept j s"
proof (induction rule: pool_reach.induct)
  case pool_init
  show ?case by (simp add: threads_ok_def jobs_ok_def drained_ok_def kept_def new_pool_r_def was_put_def)
next
  case (pool_next s e s')
  then show ?case using step_threads_ok step_jobs_ok step_drained_ok step_kept by blast
qed

section \<open>What callers can rely on\<close>

text \<open>C14: Closing the pool leaves no caller hanging.  In every interleaving of callers, render threads and the closing thread: once \<open>close\<close> has returned,
  every caller that still waits, unless it handed its job in after that, finds its job ended, or a thread that outlived its join is still
  working on it.\<close>

theorem close_strands_no_caller:
  assumes "pool_reach n s" "rp_closed s" "rp_phase s = Unlocked" "rp_callers s j = Some CallerWaits" "j \<notin> rp_late s"
  shows "rp_events s j \<noteq> None \<or> (\<exists>k. thread_is s k (Busy j))"
proof -
  have d: "drained_ok s" and k: "kept j s" using pool_reach_inv [OF assms(1)] by blast+
  have "was_put j s" using assms(4) by (simp add: was_put_def)
  moreover have "j \<notin> set (jobs_in (rp_queue s))" using d assms(2,3,5) by (auto simp: drained_ok_def)
  ultimately have "rp_events s j \<noteq> None \<or> Busy j \<in> set (rp_threads s)" using k by (auto simp: kept_def simp del: not_None_eq)
  then show ?thesis unfolding in_set_conv_nth by blast
qed

fun pool_run_r :: "nat \<Rightarrow> pool_event list \<Rightarrow> render_pool \<Rightarrow> render_pool option" where
  "pool_run_r n [] s = Some s"
| "pool_run_r n (e # es) s = (case pool_step_r n e s of None \<Rightarrow> None | Some s1 \<Rightarrow> pool_run_r n es s1)"

lemma pool_run_reach: "pool_reach n s \<Longrightarrow> pool_run_r n es s = Some s' \<Longrightarrow> pool_reach n s'"
  by (induction es arbitrary: s) (auto split: option.splits intro: pool_next)

text \<open>One thread; job 0 is being rendered and jobs 1 and 2 are queued when the pool is closed.\<close>

definition closing_run :: "pool_event list" where
  "closing_run = [Enter 0, Put 0, Look 0, Get 0, Enter 1, Put 1, Enter 2, Put 2, CloseEnter, CloseStop, CloseStop, ClosePut, ClosePut,
     CloseJoinTimeout, CloseJoin, CloseDrain, CloseDrain, CloseDrain, CloseDrain]"

lemmas run_pool = new_pool_r_def enter_submit_def put_job_def time_out_def return_job_def look_def get_job_def get_empty_def finish_job_def die_def
  close_enter_def close_stop_def close_put_def close_join_def close_drain_def ensure_started_def settle_def set_thread_def

theorem close_strands_no_caller_witness:
  "\<exists>s. pool_run_r 1 closing_run new_pool_r = Some s \<and> rp_callers s 2 = Some CallerWaits \<and> rp_threads s = [Busy 0] \<and> rp_events s 2 \<noteq> None"
proof -
  obtain s where s: "pool_run_r 1 closing_run new_pool_r = Some s" "rp_closed s" "rp_phase s = Unlocked" "rp_callers s 2 = Some CallerWaits"
    "rp_late s = {}" "rp_threads s = [Busy 0]"
    by (simp add: closing_run_def run_pool)
  have "pool_reach 1 s" using pool_run_reach [OF pool_init s(1)] .
  from close_strands_no_caller [OF this s(2,3,4)] s(5,6) have "rp_events s 2 \<noteq> None" by (auto simp: nth_Cons')
  with s show ?thesis by blast
qed

lemma step_threads_length:
  "rp_closed s \<Longrightarrow> pool_step_r n e s = Some s' \<Longrightarrow> length (rp_threads s') = length (rp_threads s) \<and> rp_closed s'"
proof (cases e)
  case (Enter j)
  then show "rp_closed s \<Longrightarrow> pool_step_r n e s = Some s' \<Longrightarrow> ?thesis" using enter_submit_step(5,7) [of n j s s'] by simp
next
  case (Put j)
  then show "rp_closed s \<Longrightarrow> pool_step_r n e s = Some s' \<Longrightarrow> ?thesis" using put_job_step(4,5) [of j s s'] by simp
next
  case (Return j)
  then show "rp_closed s \<Longrightarrow> pool_step_r n e s = Some s' \<Longrightarrow> ?thesis" using return_job_step [of j s s' ?thesis] by simp
next
  case (Get k)
  then show "rp_closed s \<Longrightarrow> pool_step_r n e s = Some s' \<Longrightarrow> ?thesis" using get_job_elim [of k s s' ?thesis] by simp
next
  case CloseDrain
  then show "rp_closed s \<Longrightarrow> pool_step_r n e s = Some s' \<Longrightarrow> ?thesis" using close_drain_elim [of s s' ?thesis] by simp
next
  case (Look k)
  then show "rp_closed s \<Longrightarrow> pool_step_r n e s = Some s' \<Longrightarrow> ?thesis" using idle_elim [of k s s' ?thesis] by simp
next
  case (GetEmpty k)
  then show "rp_closed s \<Longrightarrow> pool_step_r n e s = Some s' \<Longrightarrow> ?thesis" using idle_elim [of k s s' ?thesis] by simp
next
  case (Finish k ok)
  then show "rp_closed s \<Longrightarrow> pool_step_r n e s = Some s' \<Longrightarrow> ?thesis" using end_job_elim [of k ok s s' ?thesis] by simp
next
  case (Die k)
  then show "rp_closed s \<Longrightarrow> pool_step_r n e s = Some s' \<Longrightarrow> ?thesis" using end_job_elim [of k True s s' ?thesis] by simp
qed (use close_phase_step [of s s' True] close_phase_step [of s s' False] in \<open>auto simp: close_enter_def time_out_def split: if_splits\<close>)

lemma step_events:
  assumes "pool_step_r n e s = Some s'" "rp_events s j = Some x"
  shows "rp_events s' j = Some x"
proof -
  have settle: "rp_events (settle i y v) j = Some x" if "rp_events v j = Some x" for i y v using that by (auto simp: settle_def)
  show ?thesis
  proof (cases e)
    case (Get k)
    then show ?thesis using get_job_elim [of k s s' ?thesis] assms by simp
  next
    case CloseDrain
    then show ?thesis using close_drain_elim [of s s' ?thesis] assms by (simp add: settle)
  next
    case (Finish k ok)
    then show ?thesis using end_job_elim [of k ok s s' ?thesis] assms by (simp add: settle)
  next
    case (Die k)
    then show ?thesis using end_job_elim [of k True s s' ?thesis] assms by (simp add: settle)
  next
    case (Look k)
    then show ?thesis using idle_elim [of k s s' ?thesis] assms by simp
  next
    case (GetEmpty k)
    then show ?thesis using idle_elim [of k s s' ?thesis] assms by simp
  next
    case (Enter i)
    then show ?thesis using enter_submit_step(10) [of n i s s'] assms by simp
  next
    case (Put i)
    then show ?thesis using put_job_step(9) [of i s s'] assms by simp
  next
    case (Return i)
    then show ?thesis using return_job_step [of i s s' ?thesis] assms by simp
  next
    case (Timeout i)
    then have "s' = settle i JobFailed s" using assms(1) by (simp add: time_out_def split: if_splits)
    then show ?thesis using settle assms(2) by simp
  qed (use close_phase_step(6) [of s s' True] close_phase_step(6) [of s s' False] assms in \<open>auto simp: close_enter_def split: if_splits\<close>)
qed



text \<open>
  A job that is handed in after the pool was closed is touched by nobody: its caller waits for the full time limit (twice the rendering's limit
  and half a minute), although it is known from the start that nobody will render it.
\<close>

lemma late_job_waits:
  assumes "rp_closed s" "rp_phase s = Unlocked" "\<forall>t\<in>set (rp_threads s). t = Gone" "rp_events s j = None" "pool_step_r n e s = Some s'" "e \<noteq> Timeout j"
  shows "rp_events s' j = None \<and> rp_closed s' \<and> rp_phase s' = Unlocked \<and> (\<forall>t\<in>set (rp_threads s'). t = Gone)"
proof -
  have gone: "\<not> thread_is s k t" if "t \<noteq> Gone" for k t using assms(3) that by (metis nth_mem)
  show ?thesis using assms(5)
  proof (cases e)
    case (Enter i)
    then have en: "enter_submit n i s = Some s'" using assms(5) by simp
    show ?thesis using assms(1-4) by (simp add: enter_submit_step [OF en])
  next
    case (Put i)
    then have pu: "put_job i s = Some s'" using assms(5) by simp
    show ?thesis using assms(1-4) put_job_step [OF pu] by simp
  next
    case (Return i)
    then show ?thesis using assms return_job_step [of i s s' ?thesis] by simp
  next
    case (Timeout i)
    then show ?thesis using assms by (auto simp: time_out_def settle_def split: if_splits)
  next
    case CloseEnter
    then show ?thesis using assms by (auto simp: close_enter_def split: if_splits)
  next
    case (Get k)
    then have g: "get_job k s = Some s'" using assms(5) by simp
    show ?thesis by (rule get_job_elim [OF g]) (use gone in blast)+
  next
    case (Look k)
    then show ?thesis using assms(5) gone [of AtHead k] by (simp add: look_def)
  next
    case (GetEmpty k)
    then show ?thesis using assms(5) gone [of Getting k] by (simp add: get_empty_def)
  next
    case (Finish k ok)
    then have g: "finish_job k ok s = Some s' \<or> die k s = Some s'" using assms(5) by simp
    show ?thesis by (rule end_job_elim [OF g]) (use gone in blast)
  next
    case (Die k)
    then have g: "finish_job k True s = Some s' \<or> die k s = Some s'" using assms(5) by simp
    show ?thesis by (rule end_job_elim [OF g]) (use gone in blast)
  qed (use assms(2) in \<open>auto simp: close_stop_def close_put_def close_join_def close_drain_def\<close>)
qed

section \<open>The downloader\<close>

text \<open>\<^verbatim>\<open>{**setting.WEBDRIVER, **config}\<close> and the check of the engine.\<close>

definition new_playwright :: "(string, pyval) pydict \<Rightarrow> (string, pyval) pydict res" where
  "new_playwright config =
     (let wd = fold (\<lambda>(k, v) d. dset d k v) config WEBDRIVER
      in if cget wd ''engine'' (VStr ''playwright'') = VStr ''patchright'' \<and> cget wd ''browser'' (VStr ''chromium'') \<noteq> VStr ''chromium''
         then Inl (raise_of ConfigError) else Inr wd)"

definition PROXY_FAULT_MARKERS :: "string list" where
  "PROXY_FAULT_MARKERS = [''ERR_PROXY_CONNECTION_FAILED'', ''ERR_TUNNEL_CONNECTION_FAILED'', ''ERR_PROXY_AUTH'', ''ERR_NO_SUPPORTED_PROXIES'']"

text \<open>\<^verbatim>\<open>_report_render_proxy_failure\<close>: \<open>text\<close> is the exception's, \<open>e\<close> what \<^verbatim>\<open>report_proxy_failure\<close> looks at.\<close>

definition report_render_failure :: "setting \<Rightarrow> time \<Rightarrow> time \<Rightarrow> string \<Rightarrow> string \<Rightarrow> http_exn \<Rightarrow> proxy_pool option \<Rightarrow> proxy_pool option" where
  "report_render_failure cfg now now2 proxy text e pool =
     (if list_ex (\<lambda>m. contains m text) PROXY_FAULT_MARKERS then map_option (report_bad cfg now proxy) pool
      else report_proxy_failure cfg now now2 proxy e pool)"

text \<open>\<open>pick\<close> is \<^verbatim>\<open>pick_proxy\<close> with the request and the fallback; \<open>submit\<close> is the pool, and gives the response, or the exception that \<open>submit\<close> raises with
  text and kind of its cause.\<close>

definition playwright_download :: "setting \<Rightarrow> (string, pyval) pydict \<Rightarrow> time \<Rightarrow> time \<Rightarrow> (request \<Rightarrow> pyval \<Rightarrow> string option res)
    \<Rightarrow> (request \<Rightarrow> string option \<Rightarrow> exn \<times> string \<times> http_exn + response) \<Rightarrow> request \<Rightarrow> proxy_pool option \<Rightarrow> response res \<times> proxy_pool option" where
  "playwright_download cfg wd now now2 pick submit r pool =
     (let explicit = (if truthy (kwarg r ''proxy'') then kwarg r ''proxy'' else if truthy (kwarg r ''proxies'') then kwarg r ''proxies''
                      else if truthy (cget wd ''proxy'' VNone) then cget wd ''proxy'' VNone else VNone)
      in case pick r explicit of
           Inl e \<Rightarrow> (Inl e, pool)
         | Inr proxy \<Rightarrow>
             let own = (if explicit = VNone then proxy else None)
             in case submit r proxy of
                  Inl (e, text, kind) \<Rightarrow>
                    (Inl e, (if isinst e RequestError then (case own of Some p \<Rightarrow> report_render_failure cfg now now2 p text kind pool | None \<Rightarrow> pool) else pool))
                | Inr resp \<Rightarrow> (Inr resp, (case own of Some p \<Rightarrow> report_good_proxy p pool | None \<Rightarrow> pool)))"

lemma explicit_proxy_not_reported:
  "truthy (kwarg r ''proxy'') \<Longrightarrow> snd (playwright_download cfg wd now now2 pick submit r pool) = pool"
  by (cases "kwarg r ''proxy''") (auto simp: playwright_download_def Let_def split: sum.split)

end

