(* ===== verification/Db_Client.thy ===== *)
theory Db_Client
  imports Py_Json
begin

text \<open>
  \<^verbatim>\<open>netspy/db/mysqldb.py\<close> and \<^verbatim>\<open>netspy/db/postgresdb.py\<close>: what the two wrappers do with the connections of their pool.  The
  driver and the server (pymysql with DBUtils, psycopg) are a function: what a call answers, given all calls made before it.
  \<open>int\<close> is the answer read as a number, an exception is \<open>Inl\<close>.  The state is the list of the calls made.  The lemmas show
  that every connection that was lent is given back, whatever raises, and that a transaction commits only what ended well.
\<close>

section \<open>Calls of the driver\<close>

datatype db_call =
    CConnection
  | CBegin nat | CCommit nat | CRollback nat | CClose nat
  | CCursor nat | CExecute nat string "pyval list" | CExecuteMany nat string "pyval list list"
  | CFetchall nat | CLastrowid nat | CCursorExit nat
  | CPoolClose

type_synonym db_log = "db_call list"
type_synonym db_driver = "db_log \<Rightarrow> db_call \<Rightarrow> int res"

definition db_do :: "db_driver \<Rightarrow> db_call \<Rightarrow> db_log \<Rightarrow> int res \<times> db_log" where
  "db_do D c lg = (D lg c, lg @ [c])"

text \<open>\<open>self._pool.connection()\<close> answers the number of the connection.\<close>

definition db_connection :: "db_driver \<Rightarrow> db_log \<Rightarrow> nat res \<times> db_log" where
  "db_connection D lg = (case db_do D CConnection lg of (r, lg1) \<Rightarrow> (map_sum id nat r, lg1))"

text \<open>
  \<open>try: \<dots> finally: c\<close>: the last call is made on every path, and what it raises replaces the result.
\<close>

definition finally_do :: "db_driver \<Rightarrow> db_call \<Rightarrow> 'a res \<times> db_log \<Rightarrow> 'a res \<times> db_log" where
  "finally_do D c x = (case x of (r, lg) \<Rightarrow> (case db_do D c lg of (Inl e, lg1) \<Rightarrow> (Inl e, lg1) | (Inr _, lg1) \<Rightarrow> (r, lg1)))"

text \<open>\<open>with conn.cursor() as cur\<close>\<close>

definition with_cursor :: "db_driver \<Rightarrow> nat \<Rightarrow> (db_log \<Rightarrow> 'a res \<times> db_log) \<Rightarrow> db_log \<Rightarrow> 'a res \<times> db_log" where
  "with_cursor D n body lg =
     (case db_do D (CCursor n) lg of
        (Inl e, lg1) \<Rightarrow> (Inl e, lg1)
      | (Inr _, lg1) \<Rightarrow> finally_do D (CCursorExit n) (body lg1))"

definition with_connection :: "db_driver \<Rightarrow> (nat \<Rightarrow> db_log \<Rightarrow> 'a res \<times> db_log) \<Rightarrow> db_log \<Rightarrow> 'a res \<times> db_log" where
  "with_connection D body lg =
     (case db_connection D lg of
        (Inl e, lg1) \<Rightarrow> (Inl e, lg1)
      | (Inr n, lg1) \<Rightarrow> finally_do D (CClose n) (body n lg1))"

section \<open>\<open>MysqlDB\<close>\<close>

text \<open>\<open>transaction\<close>: a generator; the body of the caller's \<open>with\<close> runs at the \<open>yield\<close>.\<close>

definition mysql_transaction :: "db_driver \<Rightarrow> (nat \<Rightarrow> db_log \<Rightarrow> 'a res \<times> db_log) \<Rightarrow> db_log \<Rightarrow> 'a res \<times> db_log" where
  "mysql_transaction D body = with_connection D (\<lambda>n lg.
     case (case db_do D (CBegin n) lg of
             (Inl e, lg1) \<Rightarrow> (Inl e, lg1)
           | (Inr _, lg1) \<Rightarrow>
               (case body n lg1 of
                  (Inl e, lg2) \<Rightarrow> (Inl e, lg2)
                | (Inr x, lg2) \<Rightarrow> (case db_do D (CCommit n) lg2 of (Inl e, lg3) \<Rightarrow> (Inl e, lg3) | (Inr _, lg3) \<Rightarrow> (Inr x, lg3)))) of
       (Inl e, lg4) \<Rightarrow> (Inl e, snd (db_do D (CRollback n) lg4))
     | (Inr x, lg4) \<Rightarrow> (Inr x, lg4))"

text \<open>\<open>query\<close> answers the number of rows; the rows themselves are read with them.\<close>

definition mysql_query :: "db_driver \<Rightarrow> string \<Rightarrow> pyval list \<Rightarrow> db_log \<Rightarrow> int res \<times> db_log" where
  "mysql_query D sql args = with_connection D (\<lambda>n. with_cursor D n (\<lambda>lg.
     case db_do D (CExecute n sql args) lg of
       (Inl e, lg1) \<Rightarrow> (Inl e, lg1)
     | (Inr _, lg1) \<Rightarrow> db_do D (CFetchall n) lg1))"

definition then_commit :: "db_driver \<Rightarrow> nat \<Rightarrow> int res \<times> db_log \<Rightarrow> int res \<times> db_log" where
  "then_commit D n x =
     (case x of
        (Inl e, lg) \<Rightarrow> (Inl e, lg)
      | (Inr k, lg) \<Rightarrow> (case db_do D (CCommit n) lg of (Inl e, lg1) \<Rightarrow> (Inl e, lg1) | (Inr _, lg1) \<Rightarrow> (Inr k, lg1)))"

definition mysql_execute :: "db_driver \<Rightarrow> string \<Rightarrow> pyval list \<Rightarrow> db_log \<Rightarrow> int res \<times> db_log" where
  "mysql_execute D sql args = with_connection D (\<lambda>n lg.
     then_commit D n (with_cursor D n (db_do D (CExecute n sql args)) lg))"

definition mysql_insert :: "db_driver \<Rightarrow> string \<Rightarrow> pyval list \<Rightarrow> db_log \<Rightarrow> int res \<times> db_log" where
  "mysql_insert D sql args = with_connection D (\<lambda>n lg.
     then_commit D n (with_cursor D n (\<lambda>lg1.
       case db_do D (CExecute n sql args) lg1 of
         (Inl e, lg2) \<Rightarrow> (Inl e, lg2)
       | (Inr _, lg2) \<Rightarrow> db_do D (CLastrowid n) lg2) lg))"

definition mysql_executemany :: "db_driver \<Rightarrow> string \<Rightarrow> pyval list list \<Rightarrow> db_log \<Rightarrow> int res \<times> db_log" where
  "mysql_executemany D sql rows lg =
     (if rows = [] then (Inr 0, lg)
      else with_connection D (\<lambda>n lg1. then_commit D n (with_cursor D n (db_do D (CExecuteMany n sql rows)) lg1)) lg)"

definition mysql_close :: "db_driver \<Rightarrow> db_log \<Rightarrow> int res \<times> db_log" where
  "mysql_close D = db_do D CPoolClose"

section \<open>Connections that are lent\<close>

text \<open>
  How often each connection is out: one more for each \<open>CConnection\<close> that answered it, one less for each \<open>CClose\<close>.  \<open>lent_by D\<close>
  walks the log with the calls before each entry.
\<close>

definition lend_step :: "db_driver \<Rightarrow> db_log \<Rightarrow> db_call \<Rightarrow> (nat \<Rightarrow> int) \<Rightarrow> (nat \<Rightarrow> int)" where
  "lend_step D pre c f =
     (case c of
        CConnection \<Rightarrow> (case D pre c of Inl _ \<Rightarrow> f | Inr n \<Rightarrow> f(nat n := f (nat n) + 1))
      | CClose n \<Rightarrow> f(n := f n - 1)
      | _ \<Rightarrow> f)"

fun lent_from :: "db_driver \<Rightarrow> db_log \<Rightarrow> db_log \<Rightarrow> (nat \<Rightarrow> int) \<Rightarrow> (nat \<Rightarrow> int)" where
  "lent_from D pre [] f = f"
| "lent_from D pre (c # cs) f = lent_from D (pre @ [c]) cs (lend_step D pre c f)"

definition lent :: "db_driver \<Rightarrow> db_log \<Rightarrow> nat \<Rightarrow> int" where
  "lent D lg = lent_from D [] lg (\<lambda>_. 0)"

lemma lent_from_snoc: "lent_from D pre (cs @ [c]) f = lend_step D (pre @ cs) c (lent_from D pre cs f)"
  by (induction cs arbitrary: pre f) auto

lemma lent_snoc: "lent D (lg @ [c]) = lend_step D lg c (lent D lg)"
  by (simp add: lent_def lent_from_snoc)

lemma lent_Nil [simp]: "lent D [] = (\<lambda>_. 0)"
  by (simp add: lent_def)

text \<open>Calls on a connection: all but taking it and giving it back.\<close>

fun on_connection :: "db_call \<Rightarrow> bool" where
  "on_connection CConnection = False"
| "on_connection (CClose n) = False"
| "on_connection c = True"

lemma lend_step_on: "on_connection c \<Longrightarrow> lend_step D pre c f = f"
  by (cases c) (auto simp: lend_step_def)

lemma lent_db_do: "on_connection c \<Longrightarrow> db_do D c lg = (r, lg') \<Longrightarrow> lent D lg' = lent D lg"
  by (auto simp: db_do_def lent_snoc lend_step_on)

lemma lent_calls: "list_all on_connection cs \<Longrightarrow> lent D (lg @ cs) = lent D lg"
proof (induction cs rule: rev_induct)
  case (snoc c cs)
  then show ?case using lent_snoc [of D "lg @ cs" c] by (simp add: lend_step_on)
qed simp

definition keeps_lent :: "db_driver \<Rightarrow> (db_log \<Rightarrow> 'a \<times> db_log) \<Rightarrow> bool" where
  "keeps_lent D f \<longleftrightarrow> (\<forall>lg. lent D (snd (f lg)) = lent D lg)"

lemma keeps_lentI: "(\<And>lg r lg'. f lg = (r, lg') \<Longrightarrow> lent D lg' = lent D lg) \<Longrightarrow> keeps_lent D f"
  by (metis keeps_lent_def prod.collapse)

lemma keeps_lentD: "keeps_lent D f \<Longrightarrow> f lg = (r, lg') \<Longrightarrow> lent D lg' = lent D lg"
  by (metis keeps_lent_def snd_conv)

lemma keeps_lent_db_do: "on_connection c \<Longrightarrow> keeps_lent D (db_do D c)"
  by (rule keeps_lentI) (rule lent_db_do)

lemma lent_finally: "on_connection c \<Longrightarrow> lent D (snd (finally_do D c (r, lg))) = lent D lg"
  by (auto simp: finally_do_def db_do_def lent_snoc lend_step_on split: sum.split)

lemma keeps_lent_with_cursor: "keeps_lent D body \<Longrightarrow> keeps_lent D (with_cursor D n body)"
  by (rule keeps_lentI)
    (auto simp: with_cursor_def finally_do_def db_do_def lent_snoc lend_step_on split: sum.splits prod.splits dest!: keeps_lentD)

lemma keeps_lent_then_commit: "keeps_lent D f \<Longrightarrow> keeps_lent D (\<lambda>lg. then_commit D n (f lg))"
  by (rule keeps_lentI)
    (auto simp: then_commit_def db_do_def lent_snoc lend_step_on split: sum.splits prod.splits dest!: keeps_lentD)

text \<open>The whole borrowing: whatever the body and the driver raise, the connection is given back once.\<close>

lemma keeps_lent_with_connection:
  assumes "\<And>n. keeps_lent D (body n)"
  shows "keeps_lent D (with_connection D body)"
proof (rule keeps_lentI)
  fix lg r lg' assume w: "with_connection D body lg = (r, lg')"
  show "lent D lg' = lent D lg"
  proof (cases "D lg CConnection")
    case (Inl e)
    then show ?thesis
      using w by (auto simp: with_connection_def db_connection_def db_do_def lent_snoc lend_step_def)
  next
    case (Inr n)
    obtain r1 lg1 where b: "body (nat n) (lg @ [CConnection]) = (r1, lg1)" by force
    have "lg' = lg1 @ [CClose (nat n)]"
      using w Inr b by (auto simp: with_connection_def db_connection_def db_do_def finally_do_def split: sum.splits)
    moreover have "lent D lg1 = (lent D lg)(nat n := lent D lg (nat n) + 1)"
      using keeps_lentD [OF assms b] Inr by (simp add: lent_snoc lend_step_def)
    ultimately show ?thesis by (simp add: lent_snoc lend_step_def)
  qed
qed

lemma mysql_gives_back:
  "keeps_lent D (mysql_query D sql args)" "keeps_lent D (mysql_execute D sql args)"
  "keeps_lent D (mysql_insert D sql args)" "keeps_lent D (mysql_executemany D sql rows)"
proof -
  show "keeps_lent D (mysql_execute D sql args)" unfolding mysql_execute_def
    by (intro keeps_lent_with_connection keeps_lent_then_commit keeps_lent_with_cursor keeps_lent_db_do) simp
  have two: "keeps_lent D (\<lambda>lg. case db_do D (CExecute n sql args) lg of (Inl e, lg1) \<Rightarrow> (Inl e, lg1) | (Inr _, lg1) \<Rightarrow> db_do D c lg1)"
    if "on_connection c" for n c
    by (rule keeps_lentI) (use that in \<open>auto simp: db_do_def lent_calls split: sum.splits\<close>)
  show "keeps_lent D (mysql_query D sql args)" unfolding mysql_query_def
    by (intro keeps_lent_with_connection keeps_lent_with_cursor two) simp
  show "keeps_lent D (mysql_insert D sql args)" unfolding mysql_insert_def
    by (intro keeps_lent_with_connection keeps_lent_then_commit keeps_lent_with_cursor two) simp
  have "keeps_lent D (with_connection D (\<lambda>n lg1. then_commit D n (with_cursor D n (db_do D (CExecuteMany n sql rows)) lg1)))"
    by (intro keeps_lent_with_connection keeps_lent_then_commit keeps_lent_with_cursor keeps_lent_db_do) simp
  then show "keeps_lent D (mysql_executemany D sql rows)"
    by (simp add: mysql_executemany_def [abs_def] keeps_lent_def)
qed

lemma mysql_transaction_gives_back: "(\<And>n. keeps_lent D (body n)) \<Longrightarrow> keeps_lent D (mysql_transaction D body)"
  unfolding mysql_transaction_def
proof (rule keeps_lent_with_connection, rule keeps_lentI, goal_cases)
  case (1 n lg r lg')
  from 1(2) show ?case
    by (auto simp: db_do_def lent_calls split: sum.splits prod.splits dest!: keeps_lentD [OF 1(1)])
qed

section \<open>All or nothing\<close>

text \<open>
  What a transaction sends after its body: when the body raised, a rollback and no commit; when the call returns a value, the
  commit was answered, and no rollback was sent.
\<close>

lemma transaction_commits_or_rolls_back:
  assumes "mysql_transaction D body lg = (r, lg')" "D lg CConnection = Inr n" "D (lg @ [CConnection]) (CBegin (nat n)) = Inr k"
    and b: "body (nat n) (lg @ [CConnection, CBegin (nat n)]) = (rb, lgb)"
  shows "case rb of
      Inl e \<Rightarrow> lg' = lgb @ [CRollback (nat n), CClose (nat n)] \<and> (\<exists>e'. r = Inl e')
    | Inr x \<Rightarrow> lg' = lgb @ [CCommit (nat n)] @ (if isl (D lgb (CCommit (nat n))) then [CRollback (nat n)] else []) @ [CClose (nat n)]
        \<and> (isl (D lgb (CCommit (nat n))) \<longrightarrow> isl r)"
  using assms
  by (auto simp: mysql_transaction_def with_connection_def db_connection_def db_do_def finally_do_def isl_def split: sum.splits)

section \<open>\<open>PostgresDB\<close>\<close>

text \<open>
  The pool of psycopg commits, rolls back and takes the connection back itself when the \<open>with\<close> block ends; a whole block is
  one call here: its answer is \<open>rowcount\<close>, its exception what left the block.
\<close>

definition postgres_execute :: "db_driver \<Rightarrow> string \<Rightarrow> pyval list \<Rightarrow> db_log \<Rightarrow> int res \<times> db_log" where
  "postgres_execute D sql args = db_do D (CExecute 0 sql args)"

definition postgres_executemany :: "db_driver \<Rightarrow> string \<Rightarrow> pyval list list \<Rightarrow> db_log \<Rightarrow> int res \<times> db_log" where
  "postgres_executemany D sql rows lg = (if rows = [] then (Inr 0, lg) else db_do D (CExecuteMany 0 sql rows) lg)"

end
