(* ===== verification/Sql_Pipelines.thy ===== *)
theory Sql_Pipelines
  imports Db_Client Pipelines
begin

text \<open>
  \<^verbatim>\<open>netspy/pipelines/_sql.py\<close> with its two dialects \<^verbatim>\<open>mysql.py\<close> and \<^verbatim>\<open>postgres.py\<close>: the text of the statements, what is sent
  for a batch and when a batch counts as written.  The client of the database is a record of two functions over an opaque state
  (\<open>MysqlDB\<close> of \<open>Db_Client\<close> is one).  A reader of SQL text, written after the lexical rules of the two servers and of the
  drivers' placeholders, shows what a statement means whatever characters the names have.
\<close>

section \<open>Statements\<close>

datatype sql_dialect = MySQL | Postgres

definition BACKTICK :: char where "BACKTICK = CHR 0x60"

definition mysql_quote :: "string \<Rightarrow> string" where
  "mysql_quote x = [BACKTICK] @ x @ [BACKTICK]"

text \<open>\<open>ident.replace('"', '""')\<close>\<close>

definition double_quotes :: "string \<Rightarrow> string" where
  "double_quotes x = concat (map (\<lambda>c. if c = QUOTE then [QUOTE, QUOTE] else [c]) x)"

definition postgres_quote :: "string \<Rightarrow> string" where
  "postgres_quote x = [QUOTE] @ double_quotes x @ [QUOTE]"

definition sql_quote :: "sql_dialect \<Rightarrow> string \<Rightarrow> string" where
  "sql_quote d = (case d of MySQL \<Rightarrow> mysql_quote | Postgres \<Rightarrow> postgres_quote)"

definition mysql_conflict_clause :: "setting \<Rightarrow> string list \<Rightarrow> string" where
  "mysql_conflict_clause cfg cols =
     (if \<not> MYSQL_UPDATE_ON_DUPLICATE cfg then []
      else '' ON DUPLICATE KEY UPDATE '' @ join '', '' (map (\<lambda>c. mysql_quote c @ ''=VALUES('' @ mysql_quote c @ '')'') cols))"

text \<open>The second component is \<open>_warned_no_target\<close> afterwards.\<close>

definition postgres_conflict_clause :: "setting \<Rightarrow> string list \<Rightarrow> bool \<Rightarrow> string \<times> bool" where
  "postgres_conflict_clause cfg cols warned =
     (let mode = POSTGRES_ON_CONFLICT cfg; target = POSTGRES_CONFLICT_TARGET cfg;
          target_sql = join '', '' (map postgres_quote target); upd_cols = filter (\<lambda>c. c \<notin> set target) cols
      in if mode = ''error'' then ([], warned)
         else if mode = ''update'' then
           (if target \<noteq> [] then
              (if upd_cols \<noteq> []
               then ('' ON CONFLICT ('' @ target_sql @ '') DO UPDATE SET ''
                       @ join '', '' (map (\<lambda>c. postgres_quote c @ ''=EXCLUDED.'' @ postgres_quote c) upd_cols), warned)
               else ('' ON CONFLICT ('' @ target_sql @ '') DO NOTHING'', warned))
            else ('' ON CONFLICT DO NOTHING'', True))
         else ('' ON CONFLICT DO NOTHING'', warned))"

definition conflict_clause :: "sql_dialect \<Rightarrow> setting \<Rightarrow> string list \<Rightarrow> bool \<Rightarrow> string \<times> bool" where
  "conflict_clause d cfg cols warned =
     (case d of MySQL \<Rightarrow> (mysql_conflict_clause cfg cols, warned) | Postgres \<Rightarrow> postgres_conflict_clause cfg cols warned)"

definition insert_sql :: "sql_dialect \<Rightarrow> setting \<Rightarrow> string \<Rightarrow> string list \<Rightarrow> bool \<Rightarrow> string \<times> bool" where
  "insert_sql d cfg t cols warned =
     (let col_sql = join '', '' (map (sql_quote d) cols); placeholders = join '', '' (replicate (length cols) ''%s'');
          sql = ''INSERT INTO '' @ sql_quote d t @ '' ('' @ col_sql @ '') VALUES ('' @ placeholders @ '')''
      in case conflict_clause d cfg cols warned of (c, w) \<Rightarrow> (sql @ c, w))"

definition update_sql :: "sql_dialect \<Rightarrow> string \<Rightarrow> string list \<Rightarrow> string list \<Rightarrow> string" where
  "update_sql d t set_cols keys =
     ''UPDATE '' @ sql_quote d t @ '' SET '' @ join '', '' (map (\<lambda>c. sql_quote d c @ ''=%s'') set_cols)
       @ '' WHERE '' @ join '' AND '' (map (\<lambda>k. sql_quote d k @ ''=%s'') keys)"

section \<open>\<open>save_items\<close> and \<open>update_items\<close>\<close>

record 'd sql_client =
  q_execute :: "string \<Rightarrow> pyval list \<Rightarrow> 'd \<Rightarrow> int res \<times> 'd"
  q_executemany :: "string \<Rightarrow> pyval list list \<Rightarrow> 'd \<Rightarrow> int res \<times> 'd"

type_synonym row = "(string, pyval) pydict"

text \<open>\<open>item.get(c)\<close>\<close>

definition cell :: "row \<Rightarrow> string \<Rightarrow> pyval" where
  "cell it c = (case dget it c of None \<Rightarrow> VNone | Some v \<Rightarrow> v)"

text \<open>Result, \<open>_warned_no_target\<close>, state of the database.\<close>

definition sql_save_items :: "'d sql_client \<Rightarrow> sql_dialect \<Rightarrow> setting \<Rightarrow> string \<Rightarrow> row list \<Rightarrow> bool \<Rightarrow> 'd \<Rightarrow> bool \<times> bool \<times> 'd" where
  "sql_save_items C d cfg t items warned s =
     (case items of
        [] \<Rightarrow> (True, warned, s)
      | it # _ \<Rightarrow>
          (let cols = dkeys it; args = map (\<lambda>it. map (cell it) cols) items
           in case insert_sql d cfg t cols warned of (sql, warned1) \<Rightarrow>
                (case q_executemany C sql args s of (Inl _, s1) \<Rightarrow> (False, warned1, s1) | (Inr _, s1) \<Rightarrow> (True, warned1, s1))))"

definition set_cols_of :: "string list \<Rightarrow> row \<Rightarrow> string list" where
  "set_cols_of keys it = filter (\<lambda>c. c \<notin> set keys) (dkeys it)"

fun sql_update_loop :: "'d sql_client \<Rightarrow> sql_dialect \<Rightarrow> string \<Rightarrow> string list \<Rightarrow> row list \<Rightarrow> pyval list list \<Rightarrow> 'd
    \<Rightarrow> pyval list list res \<times> 'd" where
  "sql_update_loop C d t keys [] missed s = (Inr missed, s)"
| "sql_update_loop C d t keys (it # its) missed s =
     (let set_cols = set_cols_of keys it; ks = map (cell it) keys
      in if set_cols = [] then sql_update_loop C d t keys its missed s
         else case q_execute C (update_sql d t set_cols keys) (map (cell it) set_cols @ ks) s of
                (Inl e, s1) \<Rightarrow> (Inl e, s1)
              | (Inr n, s1) \<Rightarrow> sql_update_loop C d t keys its (if n = 0 then missed @ [ks] else missed) s1)"

definition sql_update_items :: "'d sql_client \<Rightarrow> sql_dialect \<Rightarrow> string \<Rightarrow> row list \<Rightarrow> string list \<Rightarrow> 'd \<Rightarrow> bool \<times> 'd" where
  "sql_update_items C d t items keys s =
     (if items = [] then (True, s)
      else case sql_update_loop C d t keys items [] s of
        (Inl _, s1) \<Rightarrow> (False, s1)
      | (Inr missed, s1) \<Rightarrow> (missed = [], s1))"

text \<open>\<open>MysqlPipeline\<close> and \<open>PostgresPipeline\<close> on the clients of \<^verbatim>\<open>netspy/db\<close>.\<close>

definition mysql_client :: "db_driver \<Rightarrow> db_log sql_client" where
  "mysql_client D = \<lparr>q_execute = mysql_execute D, q_executemany = mysql_executemany D\<rparr>"

definition postgres_client :: "db_driver \<Rightarrow> db_log sql_client" where
  "postgres_client D = \<lparr>q_execute = postgres_execute D, q_executemany = postgres_executemany D\<rparr>"

section \<open>Reading SQL text\<close>

text \<open>
  The lexical rules of the servers as far as the statements use them: names in quote characters, in which a doubled quote stands
  for one; words; single signs.  \<^verbatim>\<open>%s\<close> is a placeholder wherever it stands, also inside a name: the drivers replace it before the
  server sees the text, so a name with a percent sign has no reading.
\<close>

datatype sql_token = TIdent string | TParam | TWord string | TSym char

fun scan_ident :: "char \<Rightarrow> string \<Rightarrow> (string \<times> string) option" where
  "scan_ident q [] = None"
| "scan_ident q [c] = (if c = q then Some ([], []) else None)"
| "scan_ident q (c # c' # s) =
     (if c = CHR ''%'' then None
      else if c = q then (if c' = q then map_option (\<lambda>(x, r). (q # x, r)) (scan_ident q s) else Some ([], c' # s))
      else map_option (\<lambda>(x, r). (c # x, r)) (scan_ident q (c' # s)))"

lemma scan_ident_shorter: "scan_ident q s = Some (x, r) \<Longrightarrow> length r < length s"
  by (induction q s arbitrary: x rule: scan_ident.induct) (auto split: if_splits)

definition is_word :: "char \<Rightarrow> bool" where
  "is_word c = (65 \<le> (of_char c :: nat) \<and> (of_char c :: nat) \<le> 90)"

function sql_tokens :: "char \<Rightarrow> string \<Rightarrow> sql_token list option" where
  "sql_tokens q [] = Some []"
| "sql_tokens q (c # s) =
     (if c = q then (case scan_ident q s of None \<Rightarrow> None | Some (x, r) \<Rightarrow> map_option ((#) (TIdent x)) (sql_tokens q r))
      else if c = CHR ''%''
        then (case s of c' # r \<Rightarrow> if c' = CHR ''s'' then map_option ((#) TParam) (sql_tokens q r) else None | [] \<Rightarrow> None)
      else if c = CHR '' '' then sql_tokens q s
      else if is_word c
        then map_option ((#) (TWord (c # takeWhile is_word s))) (sql_tokens q (dropWhile is_word s))
      else map_option ((#) (TSym c)) (sql_tokens q s))"
  by pat_completeness auto
termination
  by (relation "measure (\<lambda>(q, s). length s)")
    (auto dest: scan_ident_shorter simp: less_Suc_eq_le length_dropWhile_le)

definition ident_quote :: "sql_dialect \<Rightarrow> char" where
  "ident_quote d = (case d of MySQL \<Rightarrow> BACKTICK | Postgres \<Rightarrow> QUOTE)"

text \<open>Names that a dialect can carry: no percent sign; for MySQL, whose \<open>_quote\<close> doubles nothing, no backtick.\<close>

definition name_ok :: "sql_dialect \<Rightarrow> string \<Rightarrow> bool" where
  "name_ok d x = (CHR ''%'' \<notin> set x \<and> (d = MySQL \<longrightarrow> BACKTICK \<notin> set x))"

text \<open>What the statements are meant to say.\<close>

fun comma_list :: "sql_token list list \<Rightarrow> sql_token list" where
  "comma_list [] = []"
| "comma_list [x] = x"
| "comma_list (x # y # ys) = x @ [TSym CHR '',''] @ comma_list (y # ys)"

fun and_list :: "sql_token list list \<Rightarrow> sql_token list" where
  "and_list [] = []"
| "and_list [x] = x"
| "and_list (x # y # ys) = x @ [TWord ''AND''] @ and_list (y # ys)"

definition in_parens :: "sql_token list \<Rightarrow> sql_token list" where
  "in_parens ts = [TSym CHR ''(''] @ ts @ [TSym CHR '')'']"

definition conflict_meaning :: "sql_dialect \<Rightarrow> setting \<Rightarrow> string list \<Rightarrow> sql_token list" where
  "conflict_meaning d cfg cols =
     (case d of
        MySQL \<Rightarrow>
          if MYSQL_UPDATE_ON_DUPLICATE cfg
          then map TWord [''ON'', ''DUPLICATE'', ''KEY'', ''UPDATE'']
            @ comma_list (map (\<lambda>c. [TIdent c, TSym CHR ''='', TWord ''VALUES''] @ in_parens [TIdent c]) cols)
          else []
      | Postgres \<Rightarrow>
          let target = POSTGRES_CONFLICT_TARGET cfg; upd = filter (\<lambda>c. c \<notin> set target) cols;
              on_target = map TWord [''ON'', ''CONFLICT''] @ in_parens (comma_list (map (\<lambda>c. [TIdent c]) target))
          in if POSTGRES_ON_CONFLICT cfg = ''error'' then []
             else if POSTGRES_ON_CONFLICT cfg = ''update'' \<and> target \<noteq> [] \<and> upd \<noteq> []
             then on_target @ map TWord [''DO'', ''UPDATE'', ''SET'']
               @ comma_list (map (\<lambda>c. [TIdent c, TSym CHR ''='', TWord ''EXCLUDED'', TSym CHR ''.'', TIdent c]) upd)
             else if POSTGRES_ON_CONFLICT cfg = ''update'' \<and> target \<noteq> [] then on_target @ map TWord [''DO'', ''NOTHING'']
             else map TWord [''ON'', ''CONFLICT'', ''DO'', ''NOTHING''])"

definition insert_meaning :: "sql_dialect \<Rightarrow> setting \<Rightarrow> string \<Rightarrow> string list \<Rightarrow> sql_token list" where
  "insert_meaning d cfg t cols =
     map TWord [''INSERT'', ''INTO''] @ [TIdent t] @ in_parens (comma_list (map (\<lambda>c. [TIdent c]) cols))
       @ [TWord ''VALUES''] @ in_parens (comma_list (replicate (length cols) [TParam])) @ conflict_meaning d cfg cols"

definition update_meaning :: "string \<Rightarrow> string list \<Rightarrow> string list \<Rightarrow> sql_token list" where
  "update_meaning t set_cols keys =
     [TWord ''UPDATE'', TIdent t, TWord ''SET''] @ comma_list (map (\<lambda>c. [TIdent c, TSym CHR ''='', TParam]) set_cols)
       @ [TWord ''WHERE''] @ and_list (map (\<lambda>k. [TIdent k, TSym CHR ''='', TParam]) keys)"

section \<open>The text says what is meant\<close>

text \<open>
  \<open>opens\<close>: a piece of text reads as these tokens whatever follows; \<open>reads\<close>: when neither a quote nor a letter follows, which
  could continue a name or a word.
\<close>

definition safe_rest :: "char \<Rightarrow> string \<Rightarrow> bool" where
  "safe_rest q r = (case r of [] \<Rightarrow> True | c # _ \<Rightarrow> c \<noteq> q \<and> \<not> is_word c)"

definition prepend :: "sql_token list \<Rightarrow> sql_token list option \<Rightarrow> sql_token list option" where
  "prepend ts m = (case m of None \<Rightarrow> None | Some us \<Rightarrow> Some (ts @ us))"

definition opens :: "char \<Rightarrow> string \<Rightarrow> sql_token list \<Rightarrow> bool" where
  "opens q s ts \<longleftrightarrow> (\<forall>r. sql_tokens q (s @ r) = prepend ts (sql_tokens q r))"

definition reads :: "char \<Rightarrow> string \<Rightarrow> sql_token list \<Rightarrow> bool" where
  "reads q s ts \<longleftrightarrow> (\<forall>r. safe_rest q r \<longrightarrow> sql_tokens q (s @ r) = prepend ts (sql_tokens q r))"

lemma prepend_simps [simp]:
  "prepend [] m = m" "prepend ts (prepend us m) = prepend (ts @ us) m" "prepend ts (Some us) = Some (ts @ us)"
  "map_option ((#) t) m = prepend [t] m"
  by (cases m; simp add: prepend_def)+

lemma opens_reads: "opens q s ts \<Longrightarrow> reads q s ts"
  by (simp add: opens_def reads_def)

lemma opens_opens: "opens q s ts \<Longrightarrow> opens q s' ts' \<Longrightarrow> opens q (s @ s') (ts @ ts')"
  by (simp add: opens_def)

lemma opens_then: "opens q s ts \<Longrightarrow> reads q s' ts' \<Longrightarrow> reads q (s @ s') (ts @ ts')"
  by (simp add: opens_def reads_def)

lemma reads_then: "reads q s ts \<Longrightarrow> reads q s' ts' \<Longrightarrow> s' \<noteq> [] \<Longrightarrow> safe_rest q s' \<Longrightarrow> reads q (s @ s') (ts @ ts')"
proof -
  assume a: "reads q s ts" "reads q s' ts'" "s' \<noteq> []" "safe_rest q s'"
  have "safe_rest q (s' @ r)" for r using a(3,4) by (cases s') (simp_all add: safe_rest_def)
  then show ?thesis using a(1,2) by (simp add: reads_def)
qed

lemma reads_whole: "reads q s ts \<Longrightarrow> sql_tokens q s = Some ts"
  unfolding reads_def by (drule spec [of _ "[]"]) (simp add: safe_rest_def)

lemma reads_Nil: "reads q [] []"
  by (simp add: reads_def)

lemma scan_ident_Cons: "s \<noteq> [] \<Longrightarrow> c \<noteq> q \<Longrightarrow> c \<noteq> CHR ''%'' \<Longrightarrow> scan_ident q (c # s) = map_option (\<lambda>(x, r). (c # x, r)) (scan_ident q s)"
  by (cases s) auto

lemma scan_postgres: "CHR ''%'' \<notin> set x \<Longrightarrow> safe_rest QUOTE r \<Longrightarrow> scan_ident QUOTE (double_quotes x @ QUOTE # r) = Some (x, r)"
  by (induction x) (auto simp: double_quotes_def scan_ident_Cons safe_rest_def split: list.splits)

lemma scan_mysql: "CHR ''%'' \<notin> set x \<Longrightarrow> BACKTICK \<notin> set x \<Longrightarrow> safe_rest BACKTICK r \<Longrightarrow> scan_ident BACKTICK (x @ BACKTICK # r) = Some (x, r)"
  by (induction x) (auto simp: scan_ident_Cons safe_rest_def BACKTICK_def split: list.splits)

lemma reads_ident: "name_ok d x \<Longrightarrow> reads (ident_quote d) (sql_quote d x) [TIdent x]"
  by (cases d)
    (auto simp: reads_def sql_quote_def ident_quote_def name_ok_def mysql_quote_def postgres_quote_def scan_postgres scan_mysql)

lemma letters: "list_all is_word ''ABCDEFGHIJKLMNOPQRSTUVWXYZ''" "list_all (\<lambda>c. \<not> is_word c) '' ,.()=%s''"
  "\<not> is_word BACKTICK" "\<not> is_word QUOTE"
  by (simp_all add: is_word_def BACKTICK_def)

lemmas letter_facts = letters [simplified]

lemma safe_quote_char: "safe_rest (ident_quote d) (CHR ''='' # r)" "safe_rest (ident_quote d) (CHR '','' # r)"
  "safe_rest (ident_quote d) (CHR '' '' # r)" "safe_rest (ident_quote d) (CHR '')'' # r)" "safe_rest (ident_quote d) (CHR ''.'' # r)"
  by (cases d; simp add: safe_rest_def ident_quote_def BACKTICK_def letter_facts)+

text \<open>The fixed pieces of the statements.\<close>

lemma opens_insert:
  "opens (ident_quote d) ''INSERT INTO '' (map TWord [''INSERT'', ''INTO''])"
  "opens (ident_quote d) '' ('' [TSym CHR ''('']"
  "opens (ident_quote d) '') VALUES ('' [TSym CHR '')'', TWord ''VALUES'', TSym CHR ''('']"
  "opens (ident_quote d) '')'' [TSym CHR '')'']"
  "opens (ident_quote d) '', '' [TSym CHR '','']"
  "opens (ident_quote d) ''%s'' [TParam]"
  by (cases d; simp add: opens_def ident_quote_def BACKTICK_def letter_facts)+

lemma opens_update:
  "opens (ident_quote d) ''=%s'' [TSym CHR ''='', TParam]"
  "opens (ident_quote d) '' AND '' [TWord ''AND'']"
  "opens (ident_quote d) ''UPDATE '' [TWord ''UPDATE'']"
  "opens (ident_quote d) '' SET '' [TWord ''SET'']"
  "opens (ident_quote d) '' WHERE '' [TWord ''WHERE'']"
  by (cases d; simp add: opens_def ident_quote_def BACKTICK_def letter_facts)+

lemma opens_conflict:
  "opens (ident_quote d) '' ON DUPLICATE KEY UPDATE '' (map TWord [''ON'', ''DUPLICATE'', ''KEY'', ''UPDATE''])"
  "opens (ident_quote d) ''=VALUES('' [TSym CHR ''='', TWord ''VALUES'', TSym CHR ''('']"
  "opens (ident_quote d) '' ON CONFLICT ('' (map TWord [''ON'', ''CONFLICT''] @ [TSym CHR ''(''])"
  "opens (ident_quote d) '') DO UPDATE SET '' ([TSym CHR '')''] @ map TWord [''DO'', ''UPDATE'', ''SET''])"
  "opens (ident_quote d) ''=EXCLUDED.'' [TSym CHR ''='', TWord ''EXCLUDED'', TSym CHR ''.'']"
  by (cases d; simp add: opens_def ident_quote_def BACKTICK_def letter_facts)+

lemma words_stop: "safe_rest q r \<Longrightarrow> takeWhile is_word r = []" "safe_rest q r \<Longrightarrow> dropWhile is_word r = r"
  by (cases r; simp add: safe_rest_def)+

lemma reads_conflict_end:
  "reads (ident_quote d) '') DO NOTHING'' ([TSym CHR '')''] @ map TWord [''DO'', ''NOTHING''])"
  "reads (ident_quote d) '' ON CONFLICT DO NOTHING'' (map TWord [''ON'', ''CONFLICT'', ''DO'', ''NOTHING''])"
  by (cases d; simp add: reads_def ident_quote_def BACKTICK_def letter_facts words_stop)+

lemma reads_join:
  assumes "\<And>x. x \<in> set xs \<Longrightarrow> reads (ident_quote d) (f x) (g x)"
  shows "reads (ident_quote d) (join '', '' (map f xs)) (comma_list (map g xs))"
  using assms
proof (induction xs rule: induct_list012)
  case (3 x y zs)
  have "reads (ident_quote d) ('', '' @ join '', '' (map f (y # zs))) ([TSym CHR '',''] @ comma_list (map g (y # zs)))"
    by (rule opens_then [OF opens_insert(5)]) (use 3 in simp)
  then show ?case
    using reads_then [of "ident_quote d" "f x" "g x" "'', '' @ join '', '' (map f (y # zs))"] 3(3) safe_quote_char(2) [of d]
    by simp
qed (simp_all add: reads_Nil)

lemma reads_join_and:
  assumes "\<And>x. x \<in> set xs \<Longrightarrow> reads (ident_quote d) (f x) (g x)"
  shows "reads (ident_quote d) (join '' AND '' (map f xs)) (and_list (map g xs))"
  using assms
proof (induction xs rule: induct_list012)
  case (3 x y zs)
  have "reads (ident_quote d) ('' AND '' @ join '' AND '' (map f (y # zs))) ([TWord ''AND''] @ and_list (map g (y # zs)))"
    by (rule opens_then [OF opens_update(2)]) (use 3 in simp)
  then show ?case
    using reads_then [of "ident_quote d" "f x" "g x" "'' AND '' @ join '' AND '' (map f (y # zs))"] 3(3) safe_quote_char(3) [of d]
    by simp
qed (simp_all add: reads_Nil)

lemma reads_param: "name_ok d x \<Longrightarrow> reads (ident_quote d) (sql_quote d x @ ''=%s'') [TIdent x, TSym CHR ''='', TParam]"
  using reads_then [OF reads_ident opens_reads [OF opens_update(1)]] safe_quote_char(1) [of d] by simp

lemma reads_update_sql:
  assumes "name_ok d t" "list_all (name_ok d) set_cols" "list_all (name_ok d) keys"
  shows "reads (ident_quote d) (update_sql d t set_cols keys) (update_meaning t set_cols keys)"
proof -
  have w: "reads (ident_quote d) ('' WHERE '' @ join '' AND '' (map (\<lambda>k. sql_quote d k @ ''=%s'') keys))
      ([TWord ''WHERE''] @ and_list (map (\<lambda>k. [TIdent k, TSym CHR ''='', TParam]) keys))" (is "reads _ ?w ?wt")
    by (rule opens_then [OF opens_update(5) reads_join_and]) (use assms(3) in \<open>auto simp: list_all_iff intro: reads_param\<close>)
  have j: "reads (ident_quote d) (join '', '' (map (\<lambda>k. sql_quote d k @ ''=%s'') set_cols))
      (comma_list (map (\<lambda>k. [TIdent k, TSym CHR ''='', TParam]) set_cols))"
    by (rule reads_join) (use assms(2) in \<open>auto simp: list_all_iff intro: reads_param\<close>)
  note c = reads_then [OF j w, simplified, OF safe_quote_char(3)]
  note b = opens_then [OF opens_update(4) c]
  have "reads (ident_quote d) (sql_quote d t @ '' SET '' @ join '', '' (map (\<lambda>k. sql_quote d k @ ''=%s'') set_cols) @ ?w)
      ([TIdent t] @ [TWord ''SET''] @ comma_list (map (\<lambda>k. [TIdent k, TSym CHR ''='', TParam]) set_cols) @ ?wt)"
    using reads_then [OF reads_ident [OF assms(1)] b] safe_quote_char(3) [of d] by simp
  from opens_then [OF opens_update(3) this] show ?thesis by (simp add: update_sql_def update_meaning_def)
qed

lemma reads_placeholders: "reads (ident_quote d) (join '', '' (replicate n ''%s'')) (comma_list (replicate n [TParam]))"
  using reads_join [of "replicate n ()" d "\<lambda>_. ''%s''" "\<lambda>_. [TParam]"] opens_reads [OF opens_insert(6)] by simp

lemma reads_names: "list_all (name_ok d) cols \<Longrightarrow>
    reads (ident_quote d) (join '', '' (map (sql_quote d) cols)) (comma_list (map (\<lambda>c. [TIdent c]) cols))"
  by (rule reads_join) (auto simp: list_all_iff intro: reads_ident)

lemma reads_mysql_pair: "name_ok MySQL c \<Longrightarrow>
    reads (ident_quote MySQL) (mysql_quote c @ ''=VALUES('' @ mysql_quote c @ '')'')
      ([TIdent c, TSym CHR ''='', TWord ''VALUES''] @ in_parens [TIdent c])"
proof -
  assume ok: "name_ok MySQL c"
  note q = reads_ident [OF ok, unfolded sql_quote_def sql_dialect.case]
  note 1 = reads_then [OF q opens_reads [OF opens_insert(4)], simplified, OF safe_quote_char(4)]
  note 2 = reads_then [OF q opens_then [OF opens_conflict(2) 1], simplified, OF safe_quote_char(1)]
  then show ?thesis by (simp add: in_parens_def)
qed

lemma reads_postgres_pair: "name_ok Postgres c \<Longrightarrow>
    reads (ident_quote Postgres) (postgres_quote c @ ''=EXCLUDED.'' @ postgres_quote c)
      [TIdent c, TSym CHR ''='', TWord ''EXCLUDED'', TSym CHR ''.'', TIdent c]"
proof -
  assume ok: "name_ok Postgres c"
  note q = reads_ident [OF ok, unfolded sql_quote_def sql_dialect.case]
  from reads_then [OF q opens_then [OF opens_conflict(5) q], simplified, OF safe_quote_char(1)] show ?thesis by simp
qed

text \<open>The conflict clause is empty or starts with a space, so it can follow the closing parenthesis.\<close>

lemma reads_conflict:
  assumes "list_all (name_ok d) cols" "d = Postgres \<Longrightarrow> list_all (name_ok d) (POSTGRES_CONFLICT_TARGET cfg)"
  shows "reads (ident_quote d) (fst (conflict_clause d cfg cols warned)) (conflict_meaning d cfg cols)"
proof (cases d)
  case MySQL
  have "reads (ident_quote MySQL) (join '', '' (map (\<lambda>c. mysql_quote c @ ''=VALUES('' @ mysql_quote c @ '')'') cols))
      (comma_list (map (\<lambda>c. [TIdent c, TSym CHR ''='', TWord ''VALUES''] @ in_parens [TIdent c]) cols))"
    by (rule reads_join, rule reads_mysql_pair) (use assms(1) MySQL in \<open>auto simp: list_all_iff\<close>)
  from opens_then [OF opens_conflict(1) this] show ?thesis
    by (simp add: MySQL conflict_clause_def mysql_conflict_clause_def conflict_meaning_def reads_Nil)
next
  case Postgres
  let ?T = "POSTGRES_CONFLICT_TARGET cfg" and ?u = "filter (\<lambda>c. c \<notin> set (POSTGRES_CONFLICT_TARGET cfg)) cols"
  let ?pair = "\<lambda>c. postgres_quote c @ ''=EXCLUDED.'' @ postgres_quote c"
    and ?pt = "\<lambda>c. [TIdent c, TSym CHR ''='', TWord ''EXCLUDED'', TSym CHR ''.'', TIdent c]"
  have T: "reads (ident_quote Postgres) (join '', '' (map postgres_quote ?T)) (comma_list (map (\<lambda>c. [TIdent c]) ?T))"
    using reads_names [of Postgres ?T] assms(2) Postgres by (simp add: sql_quote_def)
  have "reads (ident_quote Postgres) (join '', '' (map ?pair ?u)) (comma_list (map ?pt ?u))"
    by (rule reads_join, rule reads_postgres_pair) (use assms(1) Postgres in \<open>auto simp: list_all_iff\<close>)
  note 1 = opens_then [OF opens_conflict(3) reads_then [OF T opens_then [OF opens_conflict(4) this], simplified, OF safe_quote_char(4)]]
  note 2 = opens_then [OF opens_conflict(3) reads_then [OF T reads_conflict_end(1), simplified, OF safe_quote_char(4)]]
  show ?thesis using 1 2 reads_conflict_end(2) [of Postgres]
    by (simp add: Postgres conflict_clause_def postgres_conflict_clause_def conflict_meaning_def Let_def reads_Nil in_parens_def)
qed

lemma reads_insert_sql:
  assumes "name_ok d t" "list_all (name_ok d) cols" "d = Postgres \<Longrightarrow> list_all (name_ok d) (POSTGRES_CONFLICT_TARGET cfg)"
  shows "reads (ident_quote d) (fst (insert_sql d cfg t cols warned)) (insert_meaning d cfg t cols)"
proof -
  note c = opens_then [OF opens_insert(4) reads_conflict [OF assms(2,3), of warned]]
  note p = reads_then [OF reads_placeholders [of d "length cols"] c, simplified, OF safe_quote_char(4)]
  note n = reads_then [OF reads_names [OF assms(2)] opens_then [OF opens_insert(3) p], simplified, OF safe_quote_char(4)]
  note b = reads_then [OF reads_ident [OF assms(1)] opens_then [OF opens_insert(2) n], simplified, OF safe_quote_char(3)]
  from opens_then [OF opens_insert(1) b] show ?thesis
    by (simp add: insert_sql_def insert_meaning_def in_parens_def Let_def prod.case_eq_if)
qed

text \<open>C18: The SQL that is sent says what was meant, whatever the scraped names are. For both dialects, if table, columns and keys can
  be carried by the dialect (no percent sign, and for MySQL no backtick; in Postgres any quotes), the servers' reading of the
  INSERT text is exactly: insert into this table these columns in this order, as many placeholders as columns, and the conflict
  handling the settings ask for; the reading of the UPDATE text is exactly: set these columns of this table where the keys are
  equal to the parameters. No name can end its quotation and be read as SQL.
\<close>

theorem sql_text_is_faithful:
  assumes "name_ok d t" "list_all (name_ok d) cols" "list_all (name_ok d) keys"
    and "d = Postgres \<Longrightarrow> list_all (name_ok d) (POSTGRES_CONFLICT_TARGET cfg)"
  shows "sql_tokens (ident_quote d) (fst (insert_sql d cfg t cols warned)) = Some (insert_meaning d cfg t cols)
    \<and> sql_tokens (ident_quote d) (update_sql d t cols keys) = Some (update_meaning t cols keys)"
  using reads_whole [OF reads_insert_sql [OF assms(1,2,4)]] reads_whole [OF reads_update_sql [OF assms(1-3)]] by blast

definition upsert_setting :: setting where
  "upsert_setting = default_setting\<lparr>POSTGRES_ON_CONFLICT := ''update'', POSTGRES_CONFLICT_TARGET := [''id'']\<rparr>"

definition nasty_name :: string where
  "nasty_name = ''x'' @ [QUOTE] @ ''; DROP TABLE t; --''"

theorem sql_text_is_faithful_witness:
  "sql_tokens QUOTE (fst (insert_sql Postgres upsert_setting ''t'' [''id'', nasty_name] False))
     = Some (insert_meaning Postgres upsert_setting ''t'' [''id'', nasty_name])
   \<and> sql_tokens QUOTE (update_sql Postgres ''t'' [''id'', nasty_name] [''id''])
     = Some (update_meaning ''t'' [''id'', nasty_name] [''id''])"
  using sql_text_is_faithful [of Postgres "''t''" "[''id'', nasty_name]" "[''id'']" upsert_setting False]
  by (simp add: name_ok_def nasty_name_def upsert_setting_def ident_quote_def)

text \<open>
  \<open>MysqlPipeline._quote\<close> does not double backticks: this column name, a field name found on a page, sets another column as well.
\<close>

lemma backtick_breaks_out:
  "sql_tokens BACKTICK (update_sql MySQL ''t'' [''n'' @ [BACKTICK] @ ''=0,'' @ [BACKTICK] @ ''m''] [''id''])
     = Some ([TWord ''UPDATE'', TIdent ''t'', TWord ''SET'', TIdent ''n'', TSym CHR ''='', TSym CHR ''0'', TSym CHR '','',
         TIdent ''m'', TSym CHR ''='', TParam, TWord ''WHERE'', TIdent ''id'', TSym CHR ''='', TParam])"
  by (simp add: update_sql_def sql_quote_def mysql_quote_def BACKTICK_def is_word_def)

text \<open>A percent sign in a name is taken for a placeholder by the driver: such a batch can never be written, however often it is replayed.\<close>

lemma percent_has_no_reading: "sql_tokens QUOTE (fst (insert_sql Postgres default_setting ''t'' [''a%b''] False)) = None"
  by (simp add: insert_sql_def sql_quote_def postgres_quote_def double_quotes_def is_word_def conflict_clause_def
      postgres_conflict_clause_def default_setting_def Let_def prepend_def)

section \<open>When an update counts as written\<close>

text \<open>
  The statements of a batch in order, up to the first exception, with the numbers of rows they matched.
\<close>

definition update_stmt :: "sql_dialect \<Rightarrow> string \<Rightarrow> string list \<Rightarrow> row \<Rightarrow> string \<times> pyval list" where
  "update_stmt d t keys it = (update_sql d t (set_cols_of keys it) keys, map (cell it) (set_cols_of keys it @ keys))"

fun run_stmts :: "'d sql_client \<Rightarrow> (string \<times> pyval list) list \<Rightarrow> 'd \<Rightarrow> int list res \<times> 'd" where
  "run_stmts C [] s = (Inr [], s)"
| "run_stmts C ((sql, args) # sts) s =
     (case q_execute C sql args s of
        (Inl e, s1) \<Rightarrow> (Inl e, s1)
      | (Inr n, s1) \<Rightarrow> (case run_stmts C sts s1 of (Inl e, s2) \<Rightarrow> (Inl e, s2) | (Inr ns, s2) \<Rightarrow> (Inr (n # ns), s2)))"

definition batch_stmts :: "sql_dialect \<Rightarrow> string \<Rightarrow> string list \<Rightarrow> row list \<Rightarrow> (string \<times> pyval list) list" where
  "batch_stmts d t keys items = map (update_stmt d t keys) (filter (\<lambda>it. set_cols_of keys it \<noteq> []) items)"

lemma sql_update_loop_runs:
  "sql_update_loop C d t keys items missed s =
     (case run_stmts C (batch_stmts d t keys items) s of
        (Inl e, s1) \<Rightarrow> (Inl e, s1)
      | (Inr ns, s1) \<Rightarrow>
          (Inr (missed @ map (\<lambda>(it, n). map (cell it) keys)
             (filter (\<lambda>(it, n). n = 0) (zip (filter (\<lambda>it. set_cols_of keys it \<noteq> []) items) ns))), s1))"
  by (induction items arbitrary: missed s) (auto simp: batch_stmts_def update_stmt_def Let_def split: prod.split sum.split)

lemma run_stmts_length: "run_stmts C sts s = (Inr ns, s') \<Longrightarrow> length ns = length sts"
  by (induction sts arbitrary: s ns) (auto split: prod.splits sum.splits)

lemma no_zero_pairs:
  "length xs = length ns \<Longrightarrow> map f (filter (\<lambda>(x, n). n = 0) (zip xs ns)) = [] \<longleftrightarrow> (0 :: int) \<notin> set ns"
  by (induction xs ns rule: list_induct2) auto

lemma sql_update_items_iff:
  "sql_update_items C d t items keys s =
     (case run_stmts C (batch_stmts d t keys items) s of (Inl e, s1) \<Rightarrow> (False, s1) | (Inr ns, s1) \<Rightarrow> (0 \<notin> set ns, s1))"
proof (cases "items = []")
  case False
  obtain r s1 where r: "run_stmts C (batch_stmts d t keys items) s = (r, s1)" by force
  show ?thesis
  proof (cases r)
    case (Inr ns)
    have "length (filter (\<lambda>it. set_cols_of keys it \<noteq> []) items) = length ns"
      using run_stmts_length r Inr by (fastforce simp: batch_stmts_def)
    from no_zero_pairs [OF this, of "\<lambda>(it, n). map (cell it) keys"] show ?thesis
      using False r Inr by (simp only: sql_update_items_def sql_update_loop_runs if_False prod.case sum.case append_Nil)
  qed (use False r in \<open>simp add: sql_update_items_def sql_update_loop_runs\<close>)
qed (simp add: sql_update_items_def batch_stmts_def)

text \<open>An update that has only its keys is never sent and counts as written, whether its record exists or not.\<close>

lemma keys_only_counts_as_written:
  "sql_update_items C d t [[(''id'', VInt 7)]] [''id''] s = (True, s)"
  by (simp add: sql_update_items_iff batch_stmts_def set_cols_of_def dkeys_def)

text \<open>Columns that the first row of a batch lacks are not sent for any row.\<close>

lemma later_columns_dropped:
  "sql_save_items C Postgres default_setting ''t'' [[(''a'', VInt 1)], [(''a'', VInt 2), (''b'', VInt 3)]] False s
    = (case q_executemany C (fst (insert_sql Postgres default_setting ''t'' [''a''] False)) [[VInt 1], [VInt 2]] s of
         (Inl e, s1) \<Rightarrow> (False, False, s1) | (Inr n, s1) \<Rightarrow> (True, False, s1))"
  by (simp add: sql_save_items_def cell_def dkeys_def insert_sql_def conflict_clause_def postgres_conflict_clause_def
      default_setting_def Let_def split: prod.split sum.split)

section \<open>Connections of the MySQL pipeline\<close>

lemma run_stmts_gives_back: "keeps_lent D (run_stmts (mysql_client D) sts)"
proof (rule keeps_lentI)
  fix lg r lg' assume "run_stmts (mysql_client D) sts lg = (r, lg')"
  then show "lent D lg' = lent D lg"
  proof (induction sts arbitrary: lg r)
    case (Cons st sts)
    obtain sql args where st: "st = (sql, args)" by force
    obtain r1 lg1 where e: "mysql_execute D sql args lg = (r1, lg1)" by force
    have "lent D lg1 = lent D lg" by (rule keeps_lentD [OF mysql_gives_back(2) e])
    then show ?case using Cons e by (auto simp: st mysql_client_def split: sum.splits prod.splits)
  qed simp
qed

text \<open>Whatever the server and the driver raise, \<open>save_items\<close> and \<open>update_items\<close> leave no connection of the pool out.\<close>

lemma mysql_pipeline_gives_back:
  "lent D (snd (snd (sql_save_items (mysql_client D) MySQL cfg t items warned lg))) = lent D lg"
  "lent D (snd (sql_update_items (mysql_client D) MySQL t items keys lg)) = lent D lg"
proof -
  show "lent D (snd (snd (sql_save_items (mysql_client D) MySQL cfg t items warned lg))) = lent D lg"
    using keeps_lentD [OF mysql_gives_back(4)]
    by (auto simp: sql_save_items_def mysql_client_def Let_def split: list.split prod.split sum.split)
  show "lent D (snd (sql_update_items (mysql_client D) MySQL t items keys lg)) = lent D lg"
    using keeps_lentD [OF run_stmts_gives_back]
    by (auto simp: sql_update_items_iff split: prod.split sum.split)
qed

end
