(* ===== verification/Doc_Pipelines.thy ===== *)
theory Doc_Pipelines
  imports Sql_Pipelines
begin

text \<open>
  The pipelines without SQL: \<^verbatim>\<open>netspy/pipelines/mongo.py\<close>, \<^verbatim>\<open>elasticsearch.py\<close> and \<^verbatim>\<open>kafka.py\<close>.  Their clients (pymongo, the
  \<^verbatim>\<open>helpers.bulk\<close> of elasticsearch, the producer of kafka) are functions over an opaque state.
\<close>

section \<open>\<open>MongoPipeline\<close>\<close>

text \<open>
  \<open>insert_many\<close> changes the documents it is given: pymongo puts the generated \<^verbatim>\<open>_id\<close> into each dict that has none.  So it answers
  the documents as the caller finds them afterwards.  \<open>update_one\<close> gets the filter and the document of its \<^verbatim>\<open>$set\<close>.
\<close>

record 'd mongo_client =
  m_insert_many :: "string \<Rightarrow> row list \<Rightarrow> 'd \<Rightarrow> unit res \<times> row list \<times> 'd"
  m_update_one :: "string \<Rightarrow> row \<Rightarrow> row \<Rightarrow> 'd \<Rightarrow> unit res \<times> 'd"

definition mongo_save_items :: "'d mongo_client \<Rightarrow> string \<Rightarrow> row list \<Rightarrow> 'd \<Rightarrow> bool \<times> row list \<times> 'd" where
  "mongo_save_items M t items s =
     (if items = [] then (True, items, s)
      else case m_insert_many M t items s of (Inl _, items1, s1) \<Rightarrow> (False, items1, s1) | (Inr _, items1, s1) \<Rightarrow> (True, items1, s1))"

text \<open>\<open>{k: item[k] for k in update_keys if k in item} or dict(item)\<close>\<close>

definition mongo_filter :: "string list \<Rightarrow> row \<Rightarrow> row" where
  "mongo_filter keys it =
     (let flt = foldl (\<lambda>f k. case dget it k of None \<Rightarrow> f | Some v \<Rightarrow> dset f k v) [] keys in if flt = [] then it else flt)"

fun mongo_update_loop :: "'d mongo_client \<Rightarrow> string \<Rightarrow> string list \<Rightarrow> row list \<Rightarrow> 'd \<Rightarrow> unit res \<times> 'd" where
  "mongo_update_loop M t keys [] s = (Inr (), s)"
| "mongo_update_loop M t keys (it # its) s =
     (case m_update_one M t (mongo_filter keys it) it s of
        (Inl e, s1) \<Rightarrow> (Inl e, s1)
      | (Inr _, s1) \<Rightarrow> mongo_update_loop M t keys its s1)"

definition mongo_update_items :: "'d mongo_client \<Rightarrow> string \<Rightarrow> row list \<Rightarrow> string list \<Rightarrow> 'd \<Rightarrow> bool \<times> 'd" where
  "mongo_update_items M t items keys s =
     (if items = [] then (True, s)
      else case mongo_update_loop M t keys items s of (Inl _, s1) \<Rightarrow> (False, s1) | (Inr _, s1) \<Rightarrow> (True, s1))"

text \<open>The filter of an update holds the item's value of every key it has; keys that are missing do not restrict it.\<close>

lemma mongo_filter_acc:
  "dget (foldl (\<lambda>f k. case dget it k of None \<Rightarrow> f | Some v \<Rightarrow> dset f k v) f keys) c
     = (if c \<in> set keys \<and> dget it c \<noteq> None then dget it c else dget f c)"
  by (induction keys arbitrary: f) (auto split: option.split)

lemma mongo_filter_values:
  "(\<exists>k \<in> set keys. dget it k \<noteq> None) \<Longrightarrow> dget (mongo_filter keys it) c = (if c \<in> set keys then dget it c else None)"
  "(\<forall>k \<in> set keys. dget it k = None) \<Longrightarrow> mongo_filter keys it = it"
proof -
  let ?f = "foldl (\<lambda>f k. case dget it k of None \<Rightarrow> f | Some v \<Rightarrow> dset f k v) [] keys"
  show "dget (mongo_filter keys it) c = (if c \<in> set keys then dget it c else None)" if k: "\<exists>k \<in> set keys. dget it k \<noteq> None"
  proof -
    from k obtain k where "k \<in> set keys" "dget it k \<noteq> None" by blast
    then have "dget ?f k \<noteq> None" by (simp add: mongo_filter_acc)
    then have "?f \<noteq> []" by auto
    then show ?thesis using mongo_filter_acc [of it "[]" keys c] by (auto simp: mongo_filter_def Let_def)
  qed
  show "mongo_filter keys it = it" if "\<forall>k \<in> set keys. dget it k = None"
  proof -
    have "?f = []" using that by (induction keys) auto
    then show ?thesis by (simp add: mongo_filter_def)
  qed
qed

section \<open>Several pipelines get the same rows\<close>

text \<open>
  \<open>ItemBuffer\<close> hands the list of rows to one pipeline after the other, the same objects.  A pipeline in this sense: result, the
  rows as it leaves them, the state.
\<close>

type_synonym 'd row_writer = "row list \<Rightarrow> 'd \<Rightarrow> bool \<times> row list \<times> 'd"

fun write_shared :: "'d row_writer list \<Rightarrow> 'd row_writer" where
  "write_shared [] rows s = (True, rows, s)"
| "write_shared (w # ws) rows s = (case w rows s of (True, rows1, s1) \<Rightarrow> write_shared ws rows1 s1 | (False, rows1, s1) \<Rightarrow> (False, rows1, s1))"

definition sql_writer :: "'d sql_client \<Rightarrow> sql_dialect \<Rightarrow> setting \<Rightarrow> string \<Rightarrow> 'd row_writer" where
  "sql_writer C d cfg t rows s = (case sql_save_items C d cfg t rows False s of (b, _, s1) \<Rightarrow> (b, rows, s1))"

text \<open>
  A client as documented, and a SQL table with the columns of the item: behind MongoDB in \<^verbatim>\<open>ITEM_PIPELINES\<close> the SQL pipeline is
  asked to write the column \<^verbatim>\<open>_id\<close>, which the table does not have.
\<close>

definition id_client :: "(string \<times> pyval list) list mongo_client" where
  "id_client = \<lparr>m_insert_many = (\<lambda>t rows s. (Inr (), map (\<lambda>r. if dget r ''_id'' = None then r @ [(''_id'', VStr ''6650'')] else r) rows, s)),
     m_update_one = (\<lambda>t f r s. (Inr (), s))\<rparr>"

definition one_column_table :: "(string \<times> pyval list) list sql_client" where
  "one_column_table = \<lparr>q_execute = (\<lambda>sql args s. (Inl (raise_of PyOtherError), s)),
     q_executemany = (\<lambda>sql rows s.
       if sql_tokens QUOTE sql = Some (insert_meaning Postgres default_setting ''t'' [''title''])
       then (Inr (int (length rows)), s @ map (Pair sql) rows) else (Inl (raise_of PyOtherError), s))\<rparr>"

lemma sql_alone_writes:
  "fst (write_shared [sql_writer one_column_table Postgres default_setting ''t''] [[(''title'', VStr ''a'')]] []) = True"
proof -
  have "sql_tokens QUOTE (fst (insert_sql Postgres default_setting ''t'' [''title''] False))
      = Some (insert_meaning Postgres default_setting ''t'' [''title''])"
    using reads_whole [OF reads_insert_sql [of Postgres "''t''" "[''title'']" default_setting False]]
    by (simp add: name_ok_def ident_quote_def default_setting_def)
  then show ?thesis
    by (simp add: sql_writer_def sql_save_items_def one_column_table_def dkeys_def Let_def prod.case_eq_if)
qed

lemma mongo_id_reaches_next:
  "fst (write_shared [\<lambda>rows s. mongo_save_items id_client ''t'' rows s, sql_writer one_column_table Postgres default_setting ''t'']
     [[(''title'', VStr ''a'')]] []) = False"
proof -
  have "sql_tokens QUOTE (fst (insert_sql Postgres default_setting ''t'' [''title'', ''_id''] False))
      = Some (insert_meaning Postgres default_setting ''t'' [''title'', ''_id''])"
    using reads_whole [OF reads_insert_sql [of Postgres "''t''" "[''title'', ''_id'']" default_setting False]]
    by (simp add: name_ok_def ident_quote_def default_setting_def)
  then show ?thesis
    by (simp add: mongo_save_items_def id_client_def sql_writer_def sql_save_items_def one_column_table_def dkeys_def Let_def
        prod.case_eq_if insert_meaning_def in_parens_def)
qed

section \<open>\<open>ElasticsearchPipeline\<close>\<close>

datatype es_action =
    EsIndex (es_index: string) (es_source: row)
  | EsUpsert (es_index: string) (es_id: string) (es_source: row)

type_synonym 'd es_bulk = "es_action list \<Rightarrow> 'd \<Rightarrow> unit res \<times> 'd"

definition es_do_bulk :: "'d es_bulk \<Rightarrow> es_action list \<Rightarrow> 'd \<Rightarrow> bool \<times> 'd" where
  "es_do_bulk B actions s = (case B actions s of (Inl _, s1) \<Rightarrow> (False, s1) | (Inr _, s1) \<Rightarrow> (True, s1))"

definition es_save_items :: "'d es_bulk \<Rightarrow> string \<Rightarrow> row list \<Rightarrow> 'd \<Rightarrow> bool \<times> 'd" where
  "es_save_items B t items s = (if items = [] then (True, s) else es_do_bulk B (map (EsIndex t) items) s)"

text \<open>\<open>str(value)\<close>; the text of a list or dict is Python's \<open>repr\<close>.\<close>

fun py_str :: "(pyval \<Rightarrow> string) \<Rightarrow> pyval \<Rightarrow> string" where
  "py_str repr (VList xs) = repr (VList xs)"
| "py_str repr (VDict d) = repr (VDict d)"
| "py_str repr v = stringify v"

definition es_doc_id :: "(pyval \<Rightarrow> string) \<Rightarrow> string list \<Rightarrow> row \<Rightarrow> string" where
  "es_doc_id repr keys it = join ''_'' (map (\<lambda>k. case dget it k of None \<Rightarrow> [] | Some v \<Rightarrow> py_str repr v) keys)"

definition es_update_items :: "(pyval \<Rightarrow> string) \<Rightarrow> 'd es_bulk \<Rightarrow> string \<Rightarrow> row list \<Rightarrow> string list \<Rightarrow> 'd \<Rightarrow> bool \<times> 'd" where
  "es_update_items repr B t items keys s =
     (if items = [] then (True, s) else es_do_bulk B (map (\<lambda>it. EsUpsert t (es_doc_id repr keys it) it) items) s)"

lemma join_cut:
  "c \<notin> set x \<Longrightarrow> c \<notin> set y \<Longrightarrow> x @ c # r = y @ c # r' \<Longrightarrow> x = y \<and> r = r'"
  by (induction x arbitrary: y) (auto simp: Cons_eq_append_conv)

lemma join_inj:
  "length xs = length ys \<Longrightarrow> list_all (\<lambda>x. CHR ''_'' \<notin> set x) xs \<Longrightarrow> list_all (\<lambda>x. CHR ''_'' \<notin> set x) ys
    \<Longrightarrow> join ''_'' xs = join ''_'' ys \<Longrightarrow> xs = ys"
proof (induction xs ys rule: list_induct2)
  case (Cons x xs y ys)
  show ?case
  proof (cases xs)
    case (Cons x' xs')
    then obtain y' ys' where ys: "ys = y' # ys'" using \<open>length xs = length ys\<close> by (cases ys) auto
    have "x = y \<and> join ''_'' xs = join ''_'' ys"
      using join_cut [of "CHR ''_''" x y "join ''_'' xs" "join ''_'' ys"] Cons.prems by (simp add: Cons ys)
    then show ?thesis using Cons.IH Cons.prems by simp
  qed (use Cons in auto)
qed simp

text \<open>
  Documents with different key texts get different ids as long as no key text has an underscore.  With underscores two records
  share an id, and the second upsert writes over the first.
\<close>

lemma es_doc_id_inj:
  assumes "list_all (\<lambda>k. CHR ''_'' \<notin> set (py_str repr (cell it k)) \<and> CHR ''_'' \<notin> set (py_str repr (cell it' k))
      \<and> dget it k \<noteq> None \<and> dget it' k \<noteq> None) keys"
    and "es_doc_id repr keys it = es_doc_id repr keys it'" "k \<in> set keys"
  shows "py_str repr (cell it k) = py_str repr (cell it' k)"
proof -
  have "es_doc_id repr keys i = join ''_'' (map (\<lambda>k. py_str repr (cell i k)) keys)" if "i = it \<or> i = it'" for i
    unfolding es_doc_id_def using assms(1) that by (intro arg_cong [where f = "join _"] map_cong) (auto simp: list_all_iff cell_def)
  then have "map (\<lambda>k. py_str repr (cell it k)) keys = map (\<lambda>k. py_str repr (cell it' k)) keys"
    using assms(1,2) by (intro join_inj) (auto simp: list_all_iff)
  then show ?thesis using assms(3) by simp
qed

lemma es_ids_collide:
  "es_doc_id repr [''site'', ''sku''] [(''site'', VStr ''a_b''), (''sku'', VStr ''c'')]
     = es_doc_id repr [''site'', ''sku''] [(''site'', VStr ''a''), (''sku'', VStr ''b_c'')]"
  by (simp add: es_doc_id_def)

section \<open>\<open>KafkaPipeline\<close>\<close>

text \<open>\<open>update_items\<close> is the one of the base class, which raises \<open>NotImplementedError\<close>.\<close>

record 'd kafka_producer =
  k_send :: "string \<Rightarrow> row \<Rightarrow> 'd \<Rightarrow> unit res \<times> 'd"
  k_flush :: "'d \<Rightarrow> unit res \<times> 'd"

fun kafka_send_all :: "'d kafka_producer \<Rightarrow> string \<Rightarrow> row list \<Rightarrow> 'd \<Rightarrow> unit res \<times> 'd" where
  "kafka_send_all K t [] s = (Inr (), s)"
| "kafka_send_all K t (it # its) s = (case k_send K t it s of (Inl e, s1) \<Rightarrow> (Inl e, s1) | (Inr _, s1) \<Rightarrow> kafka_send_all K t its s1)"

definition kafka_save_items :: "'d kafka_producer \<Rightarrow> string \<Rightarrow> row list \<Rightarrow> 'd \<Rightarrow> bool \<times> 'd" where
  "kafka_save_items K t items s =
     (if items = [] then (True, s)
      else case kafka_send_all K t items s of
        (Inl _, s1) \<Rightarrow> (False, s1)
      | (Inr _, s1) \<Rightarrow> (case k_flush K s1 of (Inl _, s2) \<Rightarrow> (False, s2) | (Inr _, s2) \<Rightarrow> (True, s2)))"

definition kafka_update_items :: "'d \<Rightarrow> bool res \<times> 'd" where
  "kafka_update_items s = (Inl (raise_of PyNotImplementedError), s)"

lemma kafka_true_was_flushed:
  "kafka_save_items K t items s = (True, s') \<Longrightarrow> items \<noteq> [] \<Longrightarrow>
     \<exists>s1. kafka_send_all K t items s = (Inr (), s1) \<and> k_flush K s1 = (Inr (), s')"
  by (auto simp: kafka_save_items_def split: prod.splits sum.splits if_splits)

end
