(* ===== verification/Lifecycle.thy ===== *)
theory Lifecycle
  imports Scheduler
begin

text \<open>
  The run of a scheduler from start to exit (\<^verbatim>\<open>run\<close>, \<^verbatim>\<open>_teardown\<close> and the signal handling of \<^verbatim>\<open>netspy/core/base_scheduler.py\<close>).  What the
  phases do to queue, buffers and threads is an argument (\<open>'x\<close> is their state; \<open>Scheduler\<close> models the methods); here are the order of
  the phases, which of them run when one raises, and what the signals that arrive in between do.  Python runs a signal handler in the main thread
  between two bytecodes; in the model it runs between two phases, two rounds of the waiting loop or two steps of the teardown.
\<close>

section \<open>Signals\<close>

datatype sig = SIGINT | SIGTERM

text \<open>
  How a piece of code ends: normally, with an exception that \<^verbatim>\<open>except Exception\<close> catches, with \<open>KeyboardInterrupt\<close>, which it does not
  catch, or the process is gone.
\<close>

datatype flow = Goes | Raises exn | Interrupt | Killed

text \<open>The installed handler of a signal: Python's default, someone else's (with what calling it does), or \<open>_on_signal\<close>.\<close>

datatype handler = HDefault | HOther flow | HOnSignal

record 'x life =
  lf_handler :: "sig \<Rightarrow> handler"
  lf_orig :: "(sig, handler) pydict"
  lf_interrupted :: bool
  lf_stop :: bool
  lf_trace :: "string list"
  lf_x :: 'x

definition SIGNALS :: "sig list" where
  "SIGNALS = [SIGINT, SIGTERM]"

text \<open>\<open>can sg\<close>: \<open>signal.signal\<close> works for this signal here.\<close>

definition install_one :: "(sig \<Rightarrow> bool) \<Rightarrow> sig \<Rightarrow> 'x life \<Rightarrow> 'x life" where
  "install_one can sg st =
     (let st1 = st\<lparr>lf_orig := dset (lf_orig st) sg (lf_handler st sg)\<rparr>
      in if can sg then st1\<lparr>lf_handler := (lf_handler st1)(sg := HOnSignal)\<rparr> else st1\<lparr>lf_orig := ddel (lf_orig st1) sg\<rparr>)"

definition install_signal :: "(sig \<Rightarrow> bool) \<Rightarrow> bool \<Rightarrow> 'x life \<Rightarrow> 'x life" where
  "install_signal can main st = (if \<not> main then st else fold (install_one can) SIGNALS st)"

definition restore_one :: "(sig \<Rightarrow> bool) \<Rightarrow> sig \<times> handler \<Rightarrow> 'x life \<Rightarrow> 'x life" where
  "restore_one can e st = (if can (fst e) then st\<lparr>lf_handler := (lf_handler st)(fst e := snd e)\<rparr> else st)"

definition restore_signal :: "(sig \<Rightarrow> bool) \<Rightarrow> bool \<Rightarrow> 'x life \<Rightarrow> 'x life" where
  "restore_signal can main st = (if \<not> main then st else (fold (restore_one can) (lf_orig st) st)\<lparr>lf_orig := []\<rparr>)"

text \<open>\<open>_on_signal\<close> runs in the main thread.\<close>

definition on_signal :: "(sig \<Rightarrow> bool) \<Rightarrow> 'x life \<Rightarrow> flow \<times> 'x life" where
  "on_signal can st =
     (if lf_interrupted st then (Interrupt, restore_signal can True st)
      else (Goes, st\<lparr>lf_interrupted := True, lf_stop := True\<rparr>))"

definition deliver :: "(sig \<Rightarrow> bool) \<Rightarrow> sig \<Rightarrow> 'x life \<Rightarrow> flow \<times> 'x life" where
  "deliver can sg st =
     (case lf_handler st sg of
        HOnSignal \<Rightarrow> on_signal can st
      | HOther f \<Rightarrow> (f, st)
      | HDefault \<Rightarrow> (case sg of SIGINT \<Rightarrow> (Interrupt, st) | SIGTERM \<Rightarrow> (Killed, st)))"

fun deliver_all :: "(sig \<Rightarrow> bool) \<Rightarrow> sig list \<Rightarrow> 'x life \<Rightarrow> flow \<times> 'x life" where
  "deliver_all can [] st = (Goes, st)"
| "deliver_all can (sg # sgs) st = (case deliver can sg st of (Goes, st1) \<Rightarrow> deliver_all can sgs st1 | (f, st1) \<Rightarrow> (f, st1))"

section \<open>The run\<close>

text \<open>The methods that \<open>run\<close> calls, over the state of the scheduler.  \<open>p_wait k\<close>: time is up, or what \<open>_is_done\<close> says, in round \<open>k\<close>.\<close>

datatype round_check = TimeUp | Check "bool res"

record 'x program =
  p_start_callback :: "'x \<Rightarrow> unit res \<times> 'x"
  p_seed :: "'x \<Rightarrow> unit res \<times> 'x"
  p_start_threads :: "'x \<Rightarrow> unit res \<times> 'x"
  p_on_start :: "'x \<Rightarrow> unit res \<times> 'x"
  p_round :: "nat \<Rightarrow> 'x \<Rightarrow> round_check \<times> 'x"
  p_stop_workers :: "'x \<Rightarrow> unit res \<times> 'x"
  p_stop_metrics :: "'x \<Rightarrow> unit res \<times> 'x"
  p_stop_buffers :: "'x \<Rightarrow> unit res \<times> 'x"
  p_flush_requests :: "'x \<Rightarrow> unit res \<times> 'x"
  p_flush_items :: "'x \<Rightarrow> unit res \<times> 'x"
  p_close_pipelines :: "'x \<Rightarrow> unit res \<times> 'x"
  p_close_downloaders :: "'x \<Rightarrow> unit res \<times> 'x"
  p_close_proxy_pool :: "'x \<Rightarrow> unit res \<times> 'x"
  p_close_user_pool :: "'x \<Rightarrow> unit res \<times> 'x"
  p_on_shutdown :: "'x \<Rightarrow> unit res \<times> 'x"
  p_end_callback :: "'x \<Rightarrow> unit res \<times> 'x"

text \<open>A phase: first the signals that have arrived, then the method; its name goes to the trace when it has ended.\<close>

definition call :: "string \<Rightarrow> ('x \<Rightarrow> unit res \<times> 'x) \<Rightarrow> 'x life \<Rightarrow> unit res \<times> 'x life" where
  "call nm f st = (case f (lf_x st) of (r, x) \<Rightarrow> (r, st\<lparr>lf_x := x, lf_trace := lf_trace st @ [nm]\<rparr>))"

definition phase :: "(sig \<Rightarrow> bool) \<Rightarrow> sig list \<Rightarrow> ('x life \<Rightarrow> unit res \<times> 'x life) \<Rightarrow> 'x life \<Rightarrow> flow \<times> 'x life" where
  "phase can sgs f st =
     (case deliver_all can sgs st of
        (Goes, st1) \<Rightarrow> (case f st1 of (Inl e, st2) \<Rightarrow> (Raises e, st2) | (Inr _, st2) \<Rightarrow> (Goes, st2))
      | (fl, st1) \<Rightarrow> (fl, st1))"

definition calls :: "(string \<times> ('x \<Rightarrow> unit res \<times> 'x)) list \<Rightarrow> ('x life \<Rightarrow> unit res \<times> 'x life) list" where
  "calls specs = map (\<lambda>(nm, f). call nm f) specs"

text \<open>Phases in a row; the first that does not end normally ends the row.  \<open>arr k\<close>: the signals that arrive before phase \<open>k\<close>.\<close>

fun phases :: "(sig \<Rightarrow> bool) \<Rightarrow> (nat \<Rightarrow> sig list) \<Rightarrow> nat \<Rightarrow> ('x life \<Rightarrow> unit res \<times> 'x life) list \<Rightarrow> 'x life \<Rightarrow> flow \<times> 'x life" where
  "phases can arr k [] st = (Goes, st)"
| "phases can arr k (f # fs) st = (case phase can (arr k) f st of (Goes, st1) \<Rightarrow> phases can arr (Suc k) fs st1 | (fl, st1) \<Rightarrow> (fl, st1))"

text \<open>\<open>_wait_until_done\<close> with its signals; \<open>None\<close>: the fuel is used up.\<close>

fun wait_rounds :: "nat \<Rightarrow> (sig \<Rightarrow> bool) \<Rightarrow> (nat \<Rightarrow> sig list) \<Rightarrow> int \<Rightarrow> ('x program) \<Rightarrow> nat \<Rightarrow> int \<Rightarrow> 'x life \<Rightarrow> (flow \<times> 'x life) option" where
  "wait_rounds 0 can arr need P k streak st = None"
| "wait_rounds (Suc fuel) can arr need P k streak st =
     (case deliver_all can (arr k) st of
        (Goes, st1) \<Rightarrow>
          (if lf_stop st1 then Some (Goes, st1)
           else case p_round P k (lf_x st1) of
             (TimeUp, x) \<Rightarrow> Some (Goes, st1\<lparr>lf_x := x, lf_stop := True\<rparr>)
           | (Check (Inl e), x) \<Rightarrow> Some (Raises e, st1\<lparr>lf_x := x\<rparr>)
           | (Check (Inr True), x) \<Rightarrow>
               if streak + 1 \<ge> need then Some (Goes, st1\<lparr>lf_x := x\<rparr>)
               else wait_rounds fuel can arr need P (Suc k) (streak + 1) (st1\<lparr>lf_x := x\<rparr>)
           | (Check (Inr False), x) \<Rightarrow> wait_rounds fuel can arr need P (Suc k) 0 (st1\<lparr>lf_x := x\<rparr>))
      | (fl, st1) \<Rightarrow> Some (fl, st1))"

text \<open>\<open>_teardown\<close>: \<^verbatim>\<open>except Exception\<close> around every step.\<close>

fun teardown_steps :: "(sig \<Rightarrow> bool) \<Rightarrow> (nat \<Rightarrow> sig list) \<Rightarrow> nat \<Rightarrow> ('x life \<Rightarrow> unit res \<times> 'x life) list \<Rightarrow> 'x life \<Rightarrow> flow \<times> 'x life" where
  "teardown_steps can arr k [] st = (Goes, st)"
| "teardown_steps can arr k (f # fs) st =
     (case phase can (arr k) f st of
        (Goes, st1) \<Rightarrow> teardown_steps can arr (Suc k) fs st1
      | (Raises _, st1) \<Rightarrow> teardown_steps can arr (Suc k) fs st1
      | (fl, st1) \<Rightarrow> (fl, st1))"

definition steps_before_restore :: "'x program \<Rightarrow> (string \<times> ('x \<Rightarrow> unit res \<times> 'x)) list" where
  "steps_before_restore P = [(''stop_workers'', p_stop_workers P), (''stop_metrics'', p_stop_metrics P),
     (''stop_buffers'', p_stop_buffers P), (''flush_requests'', p_flush_requests P), (''flush_items'', p_flush_items P),
     (''close_pipelines'', p_close_pipelines P)]"

definition restore_step :: "(sig \<Rightarrow> bool) \<Rightarrow> bool \<Rightarrow> 'x life \<Rightarrow> unit res \<times> 'x life" where
  "restore_step can main st = (Inr (), (restore_signal can main st)\<lparr>lf_trace := lf_trace st @ [''restore_signal'']\<rparr>)"

definition steps_after_restore :: "'x program \<Rightarrow> (string \<times> ('x \<Rightarrow> unit res \<times> 'x)) list" where
  "steps_after_restore P = [(''close_downloaders'', p_close_downloaders P), (''close_proxy_pool'', p_close_proxy_pool P),
     (''close_user_pool'', p_close_user_pool P), (''on_shutdown'', p_on_shutdown P)]"

definition run_teardown :: "(sig \<Rightarrow> bool) \<Rightarrow> bool \<Rightarrow> (nat \<Rightarrow> sig list) \<Rightarrow> 'x program \<Rightarrow> 'x life \<Rightarrow> flow \<times> 'x life" where
  "run_teardown can main arr P = teardown_steps can arr 0 (calls (steps_before_restore P) @ restore_step can main # calls (steps_after_restore P))"

text \<open>When signals arrive: before the phases of the start, in the rounds of the waiting loop, before the steps of the teardown, and at the end.\<close>

record arrivals =
  ar_start :: "nat \<Rightarrow> sig list"
  ar_wait :: "nat \<Rightarrow> sig list"
  ar_teardown :: "nat \<Rightarrow> sig list"
  ar_end :: "nat \<Rightarrow> sig list"

text \<open>Phase 1 installs the handlers; the \<^verbatim>\<open>try\<close> covers the waiting loop only.\<close>

definition start_phases :: "(sig \<Rightarrow> bool) \<Rightarrow> bool \<Rightarrow> 'x program \<Rightarrow> ('x life \<Rightarrow> unit res \<times> 'x life) list" where
  "start_phases can main P = [call ''start_callback'' (p_start_callback P), \<lambda>st. (Inr (), install_signal can main st),
     call ''seed'' (p_seed P), call ''start_threads'' (p_start_threads P), call ''on_start'' (p_on_start P)]"

definition run_life :: "nat \<Rightarrow> (sig \<Rightarrow> bool) \<Rightarrow> bool \<Rightarrow> arrivals \<Rightarrow> int \<Rightarrow> 'x program \<Rightarrow> 'x life \<Rightarrow> (flow \<times> 'x life) option" where
  "run_life fuel can main A need P st =
     (case phases can (ar_start A) 0 (start_phases can main P) st of
        (Goes, st1) \<Rightarrow>
          (case wait_rounds fuel can (ar_wait A) need P 0 0 st1 of
             None \<Rightarrow> None
           | Some (Killed, st2) \<Rightarrow> Some (Killed, st2)
           | Some (fl, st2) \<Rightarrow>
               (case run_teardown can main (ar_teardown A) P st2 of
                  (Goes, st3) \<Rightarrow>
                    (if fl = Goes then Some (phases can (ar_end A) 0 [call ''end_callback'' (p_end_callback P)] st3) else Some (fl, st3))
                | (fl3, st3) \<Rightarrow> Some (fl3, st3)))
      | (fl, st1) \<Rightarrow> Some (fl, st1))"

text \<open>\<open>stop()\<close>, which other threads may call.\<close>

definition stop_life :: "'x life \<Rightarrow> 'x life" where
  "stop_life st = st\<lparr>lf_interrupted := True, lf_stop := True\<rparr>"

section \<open>One signal\<close>

definition quiet :: "(nat \<Rightarrow> sig list) \<Rightarrow> nat \<Rightarrow> bool" where
  "quiet arr k \<longleftrightarrow> (\<forall>j \<ge> k. arr j = [])"

text \<open>From phase \<open>k\<close> on at most one signal is still to come; none when one has come.\<close>

definition at_most_one :: "(nat \<Rightarrow> sig list) \<Rightarrow> nat \<Rightarrow> bool \<Rightarrow> bool" where
  "at_most_one arr k i \<longleftrightarrow> quiet arr k \<or> (\<not> i \<and> (\<exists>j \<ge> k. \<exists>sg. arr j = [sg] \<and> (\<forall>l \<ge> k. l \<noteq> j \<longrightarrow> arr l = [])))"

text \<open>Both handlers are installed, and what they replaced is remembered.\<close>

definition armed :: "(sig \<Rightarrow> handler) \<Rightarrow> 'x life \<Rightarrow> bool" where
  "armed old st \<longleftrightarrow> lf_handler st = (\<lambda>_. HOnSignal) \<and> lf_orig st = [(SIGINT, old SIGINT), (SIGTERM, old SIGTERM)]"

text \<open>What phases leave alone: the handlers; and what they add to the trace.\<close>

definition moved :: "'x life \<Rightarrow> string list \<Rightarrow> 'x life \<Rightarrow> bool" where
  "moved st nms st' \<longleftrightarrow> lf_handler st' = lf_handler st \<and> lf_orig st' = lf_orig st \<and> lf_trace st' = lf_trace st @ nms"

lemma moved_refl [simp]: "moved st [] st"
  by (simp add: moved_def)

lemma moved_trans: "moved st ns st' \<Longrightarrow> moved st' ms st'' \<Longrightarrow> moved st (ns @ ms) st''"
  by (simp add: moved_def)

lemma moved_armed: "moved st nms st' \<Longrightarrow> armed old st \<Longrightarrow> armed old st'"
  by (simp add: armed_def moved_def)

lemma at_most_one_Nil: "at_most_one arr k i \<Longrightarrow> arr k = [] \<Longrightarrow> at_most_one arr (Suc k) i"
  unfolding at_most_one_def quiet_def by (metis Suc_leD Suc_leI le_neq_implies_less list.distinct(1))

lemma at_most_one_Cons: "at_most_one arr k i \<Longrightarrow> arr k \<noteq> [] \<Longrightarrow> \<exists>sg. arr k = [sg] \<and> \<not> i \<and> quiet arr (Suc k)"
  unfolding at_most_one_def quiet_def by (metis Suc_leD Suc_n_not_le_n order_refl)

lemma deliver_armed:
  assumes "armed old st" "at_most_one arr k (lf_interrupted st)"
  shows "\<exists>st'. deliver_all can (arr k) st = (Goes, st') \<and> moved st [] st' \<and> at_most_one arr (Suc k) (lf_interrupted st')
    \<and> (quiet arr k \<longrightarrow> st' = st) \<and> lf_x st' = lf_x st \<and> (arr k \<noteq> [] \<or> lf_stop st \<longrightarrow> lf_stop st')"
proof (cases "arr k = []")
  case True
  then show ?thesis using at_most_one_Nil [OF assms(2)] by simp
next
  case False
  then obtain sg where q: "arr k = [sg]" "\<not> lf_interrupted st" "quiet arr (Suc k)"
    using at_most_one_Cons [OF assms(2)] by blast
  have "deliver_all can (arr k) st = (Goes, st\<lparr>lf_interrupted := True, lf_stop := True\<rparr>)"
    using assms(1) q(1,2) by (simp add: deliver_def armed_def on_signal_def)
  then show ?thesis using q(1,3) by (auto simp: at_most_one_def moved_def quiet_def)
qed

lemma call_moved: "call nm f st = (r, st') \<Longrightarrow> moved st [nm] st' \<and> lf_interrupted st' = lf_interrupted st \<and> lf_stop st' = lf_stop st"
  by (auto simp: call_def moved_def split: prod.splits)

lemma teardown_append:
  "teardown_steps can arr k (fs @ gs) st =
     (case teardown_steps can arr k fs st of (Goes, st1) \<Rightarrow> teardown_steps can arr (k + length fs) gs st1 | (fl, st1) \<Rightarrow> (fl, st1))"
  by (induction fs arbitrary: k st) (auto split: prod.split flow.split)

text \<open>Teardown steps all run, whatever they raise, when at most one signal comes while the handlers are installed.\<close>

lemma teardown_calls_armed:
  assumes "armed old st" "at_most_one arr k (lf_interrupted st)"
  shows "\<exists>st'. teardown_steps can arr k (calls specs) st = (Goes, st') \<and> moved st (map fst specs) st'
    \<and> at_most_one arr (k + length specs) (lf_interrupted st')"
  using assms
proof (induction specs arbitrary: k st)
  case (Cons sp specs)
  obtain nm f where sp: "sp = (nm, f)" by force
  obtain s1 where s1: "deliver_all can (arr k) st = (Goes, s1)" "moved st [] s1" "at_most_one arr (Suc k) (lf_interrupted s1)"
    using deliver_armed [OF Cons.prems] by blast
  obtain r s2 where c: "call nm f s1 = (r, s2)" by force
  note m = call_moved [OF c]
  have m2: "moved st [nm] s2" using moved_trans [OF s1(2)] m by fastforce
  then have "armed old s2" using Cons.prems(1) by (rule moved_armed)
  then obtain s3 where s3: "teardown_steps can arr (Suc k) (calls specs) s2 = (Goes, s3)" "moved s2 (map fst specs) s3"
      "at_most_one arr (Suc k + length specs) (lf_interrupted s3)"
    using Cons.IH [of s2 "Suc k"] s1(3) m by auto
  have "teardown_steps can arr k (calls (sp # specs)) st = (Goes, s3)"
    using s1(1) c s3(1) by (cases r) (simp_all add: calls_def sp phase_def)
  then show ?case using moved_trans [OF m2 s3(2)] s3(3) by (auto simp: sp)
qed (auto simp: calls_def)

lemma teardown_calls_quiet:
  assumes "quiet arr k"
  shows "\<exists>st'. teardown_steps can arr k (calls specs) st = (Goes, st') \<and> moved st (map fst specs) st'"
  using assms
proof (induction specs arbitrary: k st)
  case (Cons sp specs)
  obtain nm f where sp: "sp = (nm, f)" by force
  obtain r s2 where c: "call nm f st = (r, s2)" by force
  have "quiet arr (Suc k)" using Cons.prems by (auto simp: quiet_def)
  then obtain s3 where s3: "teardown_steps can arr (Suc k) (calls specs) s2 = (Goes, s3)" "moved s2 (map fst specs) s3"
    using Cons.IH by blast
  have "arr k = []" using Cons.prems by (simp add: quiet_def)
  then have "teardown_steps can arr k (calls (sp # specs)) st = (Goes, s3)"
    using c s3(1) by (cases r) (simp_all add: calls_def sp phase_def)
  then show ?case using moved_trans [of st "[nm]" s2 "map fst specs" s3] call_moved [OF c] s3(2) by (auto simp: sp)
qed (auto simp: calls_def)

lemma restore_armed:
  assumes "armed old st" "\<And>sg. can sg"
  shows "restore_signal can True st = st\<lparr>lf_handler := old, lf_orig := []\<rparr>"
proof -
  have "((lf_handler st)(SIGINT := old SIGINT))(SIGTERM := old SIGTERM) = old"
    by (rule ext) (metis (full_types) fun_upd_apply sig.exhaust)
  then show ?thesis using assms by (simp add: restore_signal_def restore_one_def armed_def)
qed

lemma install_arms:
  assumes "\<And>sg. can sg" "lf_orig st = []"
  shows "armed (lf_handler st) (install_signal can True st)"
    "install_signal can True st = st\<lparr>lf_handler := (\<lambda>_. HOnSignal), lf_orig := [(SIGINT, lf_handler st SIGINT), (SIGTERM, lf_handler st SIGTERM)]\<rparr>"
proof -
  have "(h(SIGINT := HOnSignal))(SIGTERM := HOnSignal) = (\<lambda>_. HOnSignal)" for h
    by (rule ext) (metis (full_types) fun_upd_apply sig.exhaust)
  then show e: "install_signal can True st = st\<lparr>lf_handler := (\<lambda>_. HOnSignal), lf_orig := [(SIGINT, lf_handler st SIGINT), (SIGTERM, lf_handler st SIGTERM)]\<rparr>"
    using assms by (simp add: install_signal_def SIGNALS_def install_one_def Let_def)
  then show "armed (lf_handler st) (install_signal can True st)" by (simp add: armed_def)
qed

text \<open>Methods that all return, one after the other.\<close>

fun all_end :: "(string \<times> ('x \<Rightarrow> unit res \<times> 'x)) list \<Rightarrow> 'x \<Rightarrow> bool" where
  "all_end [] x = True"
| "all_end ((nm, f) # specs) x = (case f x of (Inl _, _) \<Rightarrow> False | (Inr _, x1) \<Rightarrow> all_end specs x1)"

lemma phases_calls_armed:
  assumes "armed old st" "at_most_one arr k (lf_interrupted st)" "all_end specs (lf_x st)"
  shows "\<exists>st'. phases can arr k (calls specs) st = (Goes, st') \<and> moved st (map fst specs) st'
    \<and> (quiet arr k \<longrightarrow> lf_interrupted st' = lf_interrupted st)
    \<and> ((\<exists>j. k \<le> j \<and> j < k + length specs \<and> arr j \<noteq> []) \<or> lf_stop st \<longrightarrow> lf_stop st')"
  using assms
proof (induction specs arbitrary: k st)
  case (Cons sp specs)
  obtain nm f where sp: "sp = (nm, f)" by force
  obtain s1 where s1: "deliver_all can (arr k) st = (Goes, s1)" "moved st [] s1" "at_most_one arr (Suc k) (lf_interrupted s1)"
      "quiet arr k \<longrightarrow> s1 = st" "lf_x s1 = lf_x st" "arr k \<noteq> [] \<or> lf_stop st \<longrightarrow> lf_stop s1"
    using deliver_armed [OF Cons.prems(1,2)] by blast
  obtain u x1 where f: "f (lf_x st) = (Inr u, x1)" "all_end specs x1"
    using Cons.prems(3) by (auto simp: sp split: prod.splits sum.splits)
  obtain r s2 where c: "call nm f s1 = (r, s2)" by force
  have r: "r = Inr u" "lf_x s2 = x1" using c f(1) s1(5) by (auto simp: call_def)
  note m = call_moved [OF c]
  have m2: "moved st [nm] s2" using moved_trans [OF s1(2)] m by fastforce
  then have "armed old s2" using Cons.prems(1) by (rule moved_armed)
  then obtain s3 where s3: "phases can arr (Suc k) (calls specs) s2 = (Goes, s3)" "moved s2 (map fst specs) s3"
      "quiet arr (Suc k) \<longrightarrow> lf_interrupted s3 = lf_interrupted s2"
      "(\<exists>j. Suc k \<le> j \<and> j < Suc k + length specs \<and> arr j \<noteq> []) \<or> lf_stop s2 \<longrightarrow> lf_stop s3"
    using Cons.IH [of s2 "Suc k"] s1(3) m f(2) r(2) by auto
  have "phases can arr k (calls (sp # specs)) st = (Goes, s3)"
    using s1(1) c s3(1) r(1) by (simp add: calls_def sp phase_def)
  moreover have "moved st (map fst (sp # specs)) s3" using moved_trans [OF m2 s3(2)] by (simp add: sp)
  moreover have "quiet arr k \<longrightarrow> lf_interrupted s3 = lf_interrupted st" using s1(4) s3(3) m by (auto simp: quiet_def)
  moreover have "lf_stop s3" if h: "(\<exists>j. k \<le> j \<and> j < k + length (sp # specs) \<and> arr j \<noteq> []) \<or> lf_stop st"
  proof (cases "arr k \<noteq> [] \<or> lf_stop st")
    case True
    then show ?thesis using s1(6) m s3(4) by simp
  next
    case False
    then obtain j where "k \<le> j" "j < k + length (sp # specs)" "arr j \<noteq> []" using h by blast
    moreover have "j \<noteq> k" using False calculation(3) by auto
    ultimately show ?thesis using s3(4) by auto
  qed
  ultimately show ?case by blast
qed (auto simp: calls_def)

lemma wait_rounds_armed:
  assumes "armed old st" "at_most_one arr k (lf_interrupted st)" "wait_rounds fuel can arr need P k streak st = Some (fl, st')"
  shows "(fl = Goes \<or> (\<exists>e. fl = Raises e)) \<and> moved st [] st' \<and> (quiet arr k \<longrightarrow> lf_interrupted st' = lf_interrupted st)"
  using assms
proof (induction fuel arbitrary: k streak st)
  case (Suc fuel)
  obtain s1 where s1: "deliver_all can (arr k) st = (Goes, s1)" "moved st [] s1" "at_most_one arr (Suc k) (lf_interrupted s1)"
      "quiet arr k \<longrightarrow> s1 = st"
    using deliver_armed [OF Suc.prems(1,2)] by blast
  have m: "moved st [] (s1\<lparr>lf_x := x\<rparr>)" for x using s1(2) by (simp add: moved_def)
  have next_round: "(fl = Goes \<or> (\<exists>e. fl = Raises e)) \<and> moved st [] st' \<and> (quiet arr k \<longrightarrow> lf_interrupted st' = lf_interrupted st)"
    if "wait_rounds fuel can arr need P (Suc k) sk (s1\<lparr>lf_x := x\<rparr>) = Some (fl, st')" for sk x
    using Suc.IH [OF moved_armed [OF m Suc.prems(1)] _ that] s1(3,4) moved_trans [OF m]
    by (fastforce simp: quiet_def)
  show ?case
  proof (cases "lf_stop s1")
    case True
    then show ?thesis using Suc.prems(3) s1 by auto
  next
    case False
    obtain rc x where rc: "p_round P k (lf_x s1) = (rc, x)" by force
    have m3: "moved st [] (s1\<lparr>lf_x := x, lf_stop := True\<rparr>)" using m by (simp add: moved_def)
    show ?thesis
      using Suc.prems(3) s1(1,4) False rc next_round m m3
      by (auto split: round_check.splits sum.splits bool.splits if_splits)
  qed
qed simp

lemma wait_rounds_ends:
  assumes "armed old st" "at_most_one arr k (lf_interrupted st)" "lf_stop st \<or> (\<exists>j. k \<le> j \<and> j < k + fuel \<and> arr j \<noteq> [])" "fuel > 0"
  shows "wait_rounds fuel can arr need P k streak st \<noteq> None"
  using assms
proof (induction fuel arbitrary: k streak st)
  case (Suc fuel)
  obtain s1 where s1: "deliver_all can (arr k) st = (Goes, s1)" "moved st [] s1" "at_most_one arr (Suc k) (lf_interrupted s1)"
      "arr k \<noteq> [] \<or> lf_stop st \<longrightarrow> lf_stop s1"
    using deliver_armed [OF Suc.prems(1,2)] by blast
  show ?case
  proof (cases "lf_stop s1")
    case False
    then have later: "\<exists>j. Suc k \<le> j \<and> j < Suc k + fuel \<and> arr j \<noteq> []"
      using s1(4) Suc.prems(3) by (metis Suc_leI add_Suc add_Suc_right le_neq_implies_less)
    then have "fuel > 0" by auto
    have a: "armed old (s1\<lparr>lf_x := x\<rparr>)" for x using s1(2) Suc.prems(1) by (simp add: armed_def moved_def)
    have "wait_rounds fuel can arr need P (Suc k) sk (s1\<lparr>lf_x := x\<rparr>) \<noteq> None" for sk x
      by (rule Suc.IH [OF a]) (use s1(3) later \<open>fuel > 0\<close> in auto)
    then show ?thesis using s1(1) False by (auto split: prod.splits round_check.splits sum.splits bool.splits)
  qed (use s1(1) in simp)
qed simp

section \<open>Where the signal arrives\<close>

datatype place = AtStart nat | AtWait nat | AtTeardown nat

definition one_signal :: "place \<Rightarrow> sig \<Rightarrow> arrivals" where
  "one_signal p sg = \<lparr>
     ar_start = (\<lambda>k. if p = AtStart k then [sg] else []), ar_wait = (\<lambda>k. if p = AtWait k then [sg] else []),
     ar_teardown = (\<lambda>k. if p = AtTeardown k then [sg] else []), ar_end = (\<lambda>_. [])\<rparr>"

text \<open>After the handlers have been installed and before they are taken away again.\<close>

fun while_armed :: "place \<Rightarrow> bool" where
  "while_armed (AtStart k) = (2 \<le> k \<and> k \<le> 4)"
| "while_armed (AtWait k) = True"
| "while_armed (AtTeardown k) = (k \<le> 6)"

definition start_specs :: "'x program \<Rightarrow> (string \<times> ('x \<Rightarrow> unit res \<times> 'x)) list" where
  "start_specs P = [(''seed'', p_seed P), (''start_threads'', p_start_threads P), (''on_start'', p_on_start P)]"

lemma start_phases_armed:
  assumes "\<And>sg. can sg" "lf_orig st = []" "all_end ((''start_callback'', p_start_callback P) # start_specs P) (lf_x st)"
    and arr: "arr 0 = []" "arr 1 = []" "at_most_one arr 2 (lf_interrupted st)"
  shows "\<exists>st'. phases can arr 0 (start_phases can True P) st = (Goes, st') \<and> armed (lf_handler st) st'
    \<and> lf_trace st' = lf_trace st @ [''start_callback'', ''seed'', ''start_threads'', ''on_start'']
    \<and> (quiet arr 2 \<longrightarrow> lf_interrupted st' = lf_interrupted st) \<and> ((\<exists>j. 2 \<le> j \<and> j \<le> 4 \<and> arr j \<noteq> []) \<longrightarrow> lf_stop st')"
proof -
  obtain u x1 where f: "p_start_callback P (lf_x st) = (Inr u, x1)" "all_end (start_specs P) x1"
    using assms(3) by (auto split: prod.splits sum.splits)
  obtain r s1 where c: "call ''start_callback'' (p_start_callback P) st = (r, s1)" by force
  note m = call_moved [OF c]
  have r: "r = Inr u" "lf_x s1 = x1" using c f(1) by (auto simp: call_def)
  let ?s2 = "install_signal can True s1"
  have "lf_orig s1 = []" using m assms(2) by (simp add: moved_def)
  note i = install_arms [of can s1, OF assms(1) this]
  have s2: "lf_x ?s2 = x1" "lf_interrupted ?s2 = lf_interrupted st" "lf_trace ?s2 = lf_trace st @ [''start_callback'']" "lf_handler s1 = lf_handler st"
    using m r(2) by (simp_all add: i(2) moved_def)
  obtain s3 where s3: "phases can arr 2 (calls (start_specs P)) ?s2 = (Goes, s3)" "moved ?s2 (map fst (start_specs P)) s3"
      "quiet arr 2 \<longrightarrow> lf_interrupted s3 = lf_interrupted ?s2"
      "(\<exists>j. 2 \<le> j \<and> j < 2 + length (start_specs P) \<and> arr j \<noteq> []) \<or> lf_stop ?s2 \<longrightarrow> lf_stop s3"
    using phases_calls_armed [OF i(1), of arr 2 "start_specs P" can] arr(3) s2(1,2) f(2) by auto
  have "phases can arr 0 (start_phases can True P) st = phases can arr 2 (calls (start_specs P)) ?s2"
    using c r(1) arr(1,2) by (simp add: start_phases_def phase_def calls_def start_specs_def numeral_2_eq_2)
  moreover have "armed (lf_handler st) s3" using moved_armed [OF s3(2) i(1)] s2(4) by simp
  moreover have "lf_trace s3 = lf_trace st @ [''start_callback'', ''seed'', ''start_threads'', ''on_start'']"
    using s3(2) s2(3) by (simp add: moved_def start_specs_def)
  ultimately show ?thesis using s3 s2(2) by (auto simp: start_specs_def)
qed

definition teardown_names :: "string list" where
  "teardown_names = [''stop_workers'', ''stop_metrics'', ''stop_buffers'', ''flush_requests'', ''flush_items'', ''close_pipelines'',
     ''restore_signal'', ''close_downloaders'', ''close_proxy_pool'', ''close_user_pool'', ''on_shutdown'']"

lemma run_teardown_armed:
  assumes "armed old st" "\<And>sg. can sg" "at_most_one arr 0 (lf_interrupted st)" "quiet arr 7"
  shows "\<exists>st'. run_teardown can True arr P st = (Goes, st') \<and> lf_handler st' = old \<and> lf_orig st' = [] \<and> lf_trace st' = lf_trace st @ teardown_names"
proof -
  let ?B = "steps_before_restore P" and ?A = "steps_after_restore P"
  have lb: "length (calls ?B) = 6" "length ?B = 6" by (simp_all add: steps_before_restore_def calls_def)
  obtain s1 where s1: "teardown_steps can arr 0 (calls ?B) st = (Goes, s1)" "moved st (map fst ?B) s1" "at_most_one arr 6 (lf_interrupted s1)"
    using teardown_calls_armed [OF assms(1,3), of can ?B] lb by auto
  note a1 = moved_armed [OF s1(2) assms(1)]
  obtain s2 where s2: "deliver_all can (arr 6) s1 = (Goes, s2)" "moved s1 [] s2" using deliver_armed [OF a1 s1(3)] by blast
  note a2 = moved_armed [OF s2(2) a1]
  let ?s3 = "s2\<lparr>lf_handler := old, lf_orig := [], lf_trace := lf_trace s2 @ [''restore_signal'']\<rparr>"
  have r: "restore_step can True s2 = (Inr (), ?s3)" using restore_armed [OF a2 assms(2)] by (simp add: restore_step_def)
  obtain s4 where s4: "teardown_steps can arr 7 (calls ?A) ?s3 = (Goes, s4)" "moved ?s3 (map fst ?A) s4"
    using teardown_calls_quiet [OF assms(4)] by blast
  have "run_teardown can True arr P st = (Goes, s4)"
    using s1(1) s2(1) r s4(1) lb by (simp add: run_teardown_def teardown_append phase_def)
  then show ?thesis using s1(2) s2(2) s4(2)
    by (simp add: moved_def teardown_names_def steps_before_restore_def steps_after_restore_def)
qed

text \<open>What a graceful end is: the process lives, every step of the teardown ran in its order, the old handlers are back.\<close>

definition ended_well :: "'x life \<Rightarrow> flow \<Rightarrow> 'x life \<Rightarrow> bool" where
  "ended_well st fl st' \<longleftrightarrow> fl \<noteq> Interrupt \<and> fl \<noteq> Killed \<and> lf_handler st' = lf_handler st \<and> lf_orig st' = []
     \<and> take (length (lf_trace st) + 15) (lf_trace st')
         = lf_trace st @ [''start_callback'', ''seed'', ''start_threads'', ''on_start''] @ teardown_names"

lemma end_phase:
  assumes "arr 0 = []"
  shows "\<exists>fl st'. phases can arr 0 [call nm f] st = (fl, st') \<and> (fl = Goes \<or> (\<exists>e. fl = Raises e)) \<and> moved st [nm] st'"
proof -
  obtain r s1 where "call nm f st = (r, s1)" by force
  with call_moved [OF this] show ?thesis using assms by (cases r) (auto simp: phase_def)
qed

text \<open>How the arrivals of one signal look to each part of the run.\<close>

lemma at_most_one_single: "\<not> i \<Longrightarrow> at_most_one (\<lambda>k. if p = f k then [sg] else []) n i" if "inj f"
proof (cases "\<exists>j \<ge> n. p = f j")
  case True
  then obtain j where j: "j \<ge> n" "p = f j" by blast
  then have "\<forall>l \<ge> n. l \<noteq> j \<longrightarrow> p \<noteq> f l" using that by (auto dest: injD)
  then show "\<not> i \<Longrightarrow> at_most_one (\<lambda>k. if p = f k then [sg] else []) n i"
    unfolding at_most_one_def using j by auto
qed (auto simp: at_most_one_def quiet_def)

lemma place_inj: "inj AtStart" "inj AtWait" "inj AtTeardown"
  by (simp_all add: inj_def)

lemma one_signal_parts:
  "\<not> i \<Longrightarrow> at_most_one (ar_start (one_signal p sg)) n i" "\<not> i \<Longrightarrow> at_most_one (ar_wait (one_signal p sg)) n i"
  "\<not> i \<Longrightarrow> at_most_one (ar_teardown (one_signal p sg)) n i"
  using at_most_one_single place_inj by (simp_all add: one_signal_def)

lemma one_signal_elsewhere:
  "p = AtWait k \<or> p = AtTeardown k \<Longrightarrow> quiet (ar_start (one_signal p sg)) n" "p = AtStart k \<or> p = AtTeardown k \<Longrightarrow> quiet (ar_wait (one_signal p sg)) n"
  "p = AtStart k \<or> p = AtWait k \<Longrightarrow> quiet (ar_teardown (one_signal p sg)) n"
  by (auto simp: one_signal_def quiet_def)

text \<open>The parts of a run with one signal: up to the waiting loop, the loop, and what follows it.\<close>

lemma one_signal_start:
  assumes "all_end ((''start_callback'', p_start_callback P) # start_specs P) (lf_x st)" "lf_orig st = []" "\<not> lf_interrupted st" "while_armed p"
  obtains s1 where "phases (\<lambda>_. True) (ar_start (one_signal p sg)) 0 (start_phases (\<lambda>_. True) True P) st = (Goes, s1)" "armed (lf_handler st) s1"
    "lf_trace s1 = lf_trace st @ [''start_callback'', ''seed'', ''start_threads'', ''on_start'']"
    "at_most_one (ar_wait (one_signal p sg)) 0 (lf_interrupted s1)"
    "\<And>k. p = AtStart k \<Longrightarrow> lf_stop s1" "\<And>k. p = AtTeardown k \<Longrightarrow> \<not> lf_interrupted s1"
proof -
  let ?A = "one_signal p sg"
  have arr: "ar_start ?A 0 = []" "ar_start ?A 1 = []"
    using assms(4) by (cases p; auto simp: one_signal_def)+
  note start = one_signal_parts(1) [OF assms(3), of p sg 2]
  obtain s1 where s1: "phases (\<lambda>_. True) (ar_start ?A) 0 (start_phases (\<lambda>_. True) True P) st = (Goes, s1)" "armed (lf_handler st) s1"
      "lf_trace s1 = lf_trace st @ [''start_callback'', ''seed'', ''start_threads'', ''on_start'']"
      "quiet (ar_start ?A) 2 \<longrightarrow> lf_interrupted s1 = lf_interrupted st"
      "(\<exists>j. 2 \<le> j \<and> j \<le> 4 \<and> ar_start ?A j \<noteq> []) \<longrightarrow> lf_stop s1"
    using start_phases_armed [of "\<lambda>_. True" st P "ar_start ?A", OF TrueI assms(2,1) arr start] by metis
  have calm: "\<not> lf_interrupted s1" if "p = AtWait k \<or> p = AtTeardown k" for k
    using s1(4) assms(3) one_signal_elsewhere(1) [of p k sg 2] that by simp
  have "at_most_one (ar_wait ?A) 0 (lf_interrupted s1)"
  proof (cases "\<exists>k. p = AtWait k")
    case True
    then show ?thesis using calm by (intro one_signal_parts(2)) blast
  next
    case False
    then obtain k where "p = AtStart k \<or> p = AtTeardown k" by (cases p) auto
    then show ?thesis using one_signal_elsewhere(2) [of p k sg 0] by (simp add: at_most_one_def)
  qed
  moreover have "lf_stop s1" if "p = AtStart k" for k using s1(5) assms(4) that by (auto simp: one_signal_def)
  ultimately show thesis using s1(1-3) calm by (intro that) auto
qed

lemma one_signal_wait:
  assumes "armed old s1" "at_most_one (ar_wait (one_signal p sg)) 0 (lf_interrupted s1)" "\<And>k. p = AtStart k \<Longrightarrow> lf_stop s1"
    and "wait_rounds fuel (\<lambda>_. True) (ar_wait (one_signal p sg)) need P 0 0 s1 = None"
  shows "case p of AtStart k \<Rightarrow> fuel = 0 | AtWait k \<Rightarrow> fuel \<le> k | AtTeardown k \<Rightarrow> True"
proof -
  let ?A = "one_signal p sg"
  have e: "\<not> (lf_stop s1 \<or> (\<exists>j. 0 \<le> j \<and> j < 0 + fuel \<and> ar_wait ?A j \<noteq> []))" if "fuel > 0"
    using wait_rounds_ends [OF assms(1,2) _ that, of "\<lambda>_. True" need P 0] assms(4) by metis
  show ?thesis
  proof (cases p)
    case (AtStart k)
    then show ?thesis using e assms(3) by auto
  next
    case (AtWait k)
    then have "ar_wait ?A k \<noteq> []" by (simp add: one_signal_def)
    then have "\<not> k < fuel" using e by auto
    then show ?thesis using AtWait by simp
  qed simp
qed

lemma one_signal_teardown:
  assumes "armed (lf_handler st) s1" "lf_trace s1 = lf_trace st @ [''start_callback'', ''seed'', ''start_threads'', ''on_start'']"
    and "at_most_one (ar_wait (one_signal p sg)) 0 (lf_interrupted s1)" "\<And>k. p = AtTeardown k \<Longrightarrow> \<not> lf_interrupted s1" "while_armed p"
    and "wait_rounds fuel (\<lambda>_. True) (ar_wait (one_signal p sg)) need P 0 0 s1 = Some (fl, s2)"
  obtains s3 where "run_teardown (\<lambda>_. True) True (ar_teardown (one_signal p sg)) P s2 = (Goes, s3)"
    "fl = Goes \<or> (\<exists>e. fl = Raises e)" "ended_well st fl s3"
    "\<And>fl4 s4. fl4 = Goes \<or> (\<exists>e. fl4 = Raises e) \<Longrightarrow> moved s3 [''end_callback''] s4 \<Longrightarrow> ended_well st fl4 s4"
proof -
  let ?A = "one_signal p sg" and ?can = "\<lambda>_ :: sig. True"
  have arr: "quiet (ar_teardown ?A) 7" using assms(5) by (cases p; auto simp: one_signal_def quiet_def)
  note w = wait_rounds_armed [OF assms(1,3,6)]
  have fl: "fl = Goes \<or> (\<exists>e. fl = Raises e)" and m2: "moved s1 [] s2" using w by blast+
  have t1: "at_most_one (ar_teardown ?A) 0 (lf_interrupted s2)"
  proof (cases "\<exists>k. p = AtTeardown k")
    case True
    then obtain k where k: "p = AtTeardown k" by blast
    then have "\<not> lf_interrupted s2" using w assms(4) one_signal_elsewhere(2) [of p k sg 0] by simp
    then show ?thesis by (rule one_signal_parts(3))
  next
    case False
    then obtain k where "p = AtStart k \<or> p = AtWait k" by (cases p) auto
    then show ?thesis using one_signal_elsewhere(3) [of p k sg 0] by (simp add: at_most_one_def)
  qed
  obtain s3 where s3: "run_teardown ?can True (ar_teardown ?A) P s2 = (Goes, s3)" "lf_handler s3 = lf_handler st" "lf_orig s3 = []"
      "lf_trace s3 = lf_trace s2 @ teardown_names"
    using run_teardown_armed [OF moved_armed [OF m2 assms(1)] _ t1 arr, of ?can P] by blast
  have tr: "lf_trace s3 = lf_trace st @ [''start_callback'', ''seed'', ''start_threads'', ''on_start''] @ teardown_names"
    using s3(4) m2 assms(2) by (simp add: moved_def)
  have len: "length teardown_names = 11" by (simp add: teardown_names_def)
  show thesis
  proof (rule that [OF s3(1) fl])
    show "ended_well st fl s3" using fl s3(2,3) tr len by (elim disjE exE) (simp_all add: ended_well_def)
    show "ended_well st fl4 s4" if "fl4 = Goes \<or> (\<exists>e. fl4 = Raises e)" "moved s3 [''end_callback''] s4" for fl4 s4
      using that s3(2,3) tr len by (elim disjE exE) (simp_all add: ended_well_def moved_def)
  qed
qed

text \<open>C11: One signal never costs a crawl. If SIGINT or SIGTERM arrives once, at any moment between the installation of the handlers and the
  teardown step that takes them away (while seeding, while threads start, in any round of the waiting loop, in the teardown
  itself), then the run neither dies nor is cut short: the waiting loop ends in that round at the latest, all eleven steps of the teardown run
  in their order, whatever they raise (requests and items are flushed before the shutdown hook puts the held tasks back), and the handlers that
  the program found are in place again. The only way not to end is a waiting loop that no signal has reached yet.
\<close>

theorem one_signal_is_graceful:
  assumes "all_end ((''start_callback'', p_start_callback P) # start_specs P) (lf_x st)"
    and "lf_orig st = []" "\<not> lf_interrupted st" "while_armed p"
  shows "case run_life fuel (\<lambda>_. True) True (one_signal p sg) need P st of
      None \<Rightarrow> (case p of AtStart k \<Rightarrow> fuel = 0 | AtWait k \<Rightarrow> fuel \<le> k | AtTeardown k \<Rightarrow> True)
    | Some (fl, st') \<Rightarrow> ended_well st fl st'"
proof -
  let ?A = "one_signal p sg" and ?can = "\<lambda>_ :: sig. True"
  obtain s1 where s1: "phases ?can (ar_start ?A) 0 (start_phases ?can True P) st = (Goes, s1)" "armed (lf_handler st) s1"
      "lf_trace s1 = lf_trace st @ [''start_callback'', ''seed'', ''start_threads'', ''on_start'']"
      "at_most_one (ar_wait ?A) 0 (lf_interrupted s1)" "\<And>k. p = AtStart k \<Longrightarrow> lf_stop s1" "\<And>k. p = AtTeardown k \<Longrightarrow> \<not> lf_interrupted s1"
    using one_signal_start [OF assms, of sg] by metis
  show ?thesis
  proof (cases "wait_rounds fuel ?can (ar_wait ?A) need P 0 0 s1")
    case None
    then show ?thesis using s1(1) one_signal_wait [OF s1(2,4,5) None] by (simp add: run_life_def)
  next
    case (Some fs)
    obtain fl s2 where fs: "fs = (fl, s2)" by force
    obtain s3 where s3: "run_teardown ?can True (ar_teardown ?A) P s2 = (Goes, s3)" "fl = Goes \<or> (\<exists>e. fl = Raises e)" "ended_well st fl s3"
        "\<And>fl4 s4. fl4 = Goes \<or> (\<exists>e. fl4 = Raises e) \<Longrightarrow> moved s3 [''end_callback''] s4 \<Longrightarrow> ended_well st fl4 s4"
      using one_signal_teardown [OF s1(2,3,4,6) assms(4) Some [unfolded fs]] by metis
    have "ar_end ?A 0 = []" by (simp add: one_signal_def)
    then obtain fl4 s4 where e: "phases ?can (ar_end ?A) 0 [call ''end_callback'' (p_end_callback P)] s3 = (fl4, s4)"
        "fl4 = Goes \<or> (\<exists>e. fl4 = Raises e)" "moved s3 [''end_callback''] s4"
      using end_phase by blast
    have "run_life fuel ?can True ?A need P st = Some (if fl = Goes then (fl4, s4) else (fl, s3))"
      using s1(1) Some fs s3(1,2) e(1) by (elim disjE exE) (simp_all add: run_life_def)
    then show ?thesis using s3(3) s3(4) [OF e(2,3)] by simp
  qed
qed

text \<open>A program whose phases all return, and one whose teardown steps raise.\<close>

definition idle_program :: "nat program" where
  "idle_program = \<lparr>p_start_callback = Pair (Inr ()), p_seed = Pair (Inr ()), p_start_threads = Pair (Inr ()), p_on_start = Pair (Inr ()),
     p_round = (\<lambda>k n. (Check (Inr False), Suc n)), p_stop_workers = Pair (Inr ()), p_stop_metrics = Pair (Inr ()), p_stop_buffers = Pair (Inr ()),
     p_flush_requests = Pair (Inl (raise_of RedisCallError)), p_flush_items = Pair (Inr ()), p_close_pipelines = Pair (Inr ()),
     p_close_downloaders = Pair (Inr ()), p_close_proxy_pool = Pair (Inr ()), p_close_user_pool = Pair (Inr ()), p_on_shutdown = Pair (Inr ()),
     p_end_callback = Pair (Inr ())\<rparr>"

definition fresh_life :: "nat life" where
  "fresh_life = \<lparr>lf_handler = (\<lambda>_. HDefault), lf_orig = [], lf_interrupted = False, lf_stop = False, lf_trace = [], lf_x = 0\<rparr>"

theorem one_signal_is_graceful_witness:
  "\<exists>fl st'. run_life 5 (\<lambda>_. True) True (one_signal (AtWait 2) SIGTERM) 3 idle_program fresh_life = Some (fl, st') \<and> ended_well fresh_life fl st'"
  using one_signal_is_graceful [of idle_program fresh_life "AtWait 2" 5 SIGTERM 3]
  by (auto simp: idle_program_def fresh_life_def start_specs_def split: option.splits)

text \<open>The second signal is the way out: it puts the old handlers back and raises \<open>KeyboardInterrupt\<close>, so a third acts as it did before the run.\<close>

lemma second_signal_forces:
  "armed old st \<Longrightarrow> lf_interrupted st \<Longrightarrow>
     deliver_all (\<lambda>_. True) [sg] st = (Interrupt, st\<lparr>lf_handler := old, lf_orig := []\<rparr>)"
  using restore_armed [of old st "\<lambda>_. True"] by (simp add: deliver_def armed_def on_signal_def)

text \<open>In rounds without signals the waiting loop is the one of \<open>Scheduler\<close>.\<close>

definition wait_flow :: "(wait_end res \<times> nat) option \<Rightarrow> flow option" where
  "wait_flow w = map_option (\<lambda>(r, _). case r of Inl e \<Rightarrow> Raises e | Inr _ \<Rightarrow> Goes) w"

lemma wait_rounds_is_wait_loop:
  assumes "\<And>k. arr k = []" "\<not> lf_stop st" "\<And>k x. fst (p_round P k x) = (if (case d of None \<Rightarrow> False | Some t \<Rightarrow> clk k \<ge> t) then TimeUp else Check (chk k))"
  shows "map_option fst (wait_rounds fuel can arr (DONE_CHECK_TIMES cfg) P k streak st)
    = wait_flow (wait_loop fuel k cfg d (\<lambda>_. False) clk chk streak)"
  using assms(2)
proof (induction fuel arbitrary: k streak st)
  case (Suc fuel)
  obtain rc x where rc: "p_round P k (lf_x st) = (rc, x)" by force
  have "rc = (if (case d of None \<Rightarrow> False | Some t \<Rightarrow> clk k \<ge> t) then TimeUp else Check (chk k))" using assms(3) [of k "lf_x st"] unfolding rc fst_conv .
  show ?case
  proof (cases "case d of None \<Rightarrow> False | Some t \<Rightarrow> clk k \<ge> t")
    case True
    with \<open>rc = _\<close> show ?thesis using rc assms(1) [of k] Suc.prems by (simp add: wait_flow_def)
  next
    case False
    with \<open>rc = _\<close> have rc': "p_round P k (lf_x st) = (Check (chk k), x)" using rc by simp
    have ih: "map_option fst (wait_rounds fuel can arr (DONE_CHECK_TIMES cfg) P (Suc k) sk (st\<lparr>lf_x := x\<rparr>))
        = wait_flow (wait_loop fuel (Suc k) cfg d (\<lambda>_. False) clk chk sk)" for sk
      by (rule Suc.IH) (use Suc.prems in simp)
    show ?thesis
    proof (cases "chk k")
      case (Inl e)
      then show ?thesis using rc' False assms(1) [of k] Suc.prems by (simp add: wait_flow_def)
    next
      case (Inr b)
      then show ?thesis using rc' False assms(1) [of k] Suc.prems ih
        by (cases b) (simp_all add: wait_flow_def)
    qed
  qed
qed (simp add: wait_flow_def)

section \<open>The start is not covered\<close>

text \<open>
  \<open>run\<close> protects the waiting loop only.  When seeding raises (\<open>start_requests\<close> of the user, a call of the server), no step of the
  teardown runs and the handlers stay installed.  The failed requests of the last run, which the replay had taken from the disk, are
  then in the request buffer and nowhere else: both files are gone, and nothing flushes or dumps the buffer.
\<close>

definition seed_phase :: "setting \<Rightarrow> 'w benv \<Rightarrow> nat \<Rightarrow> request option list \<times> exn option \<Rightarrow> 'w node \<Rightarrow> unit res \<times> 'w node" where
  "seed_phase cfg B o' start nd =
     (case seed_requests cfg B (replay_file cfg B IoOk o') start nd of (r, nd1) \<Rightarrow> (map_sum id (\<lambda>_. ()) r, nd1))"

lemma failing_start_loses_replayed:
  assumes "RETRY_FAILED_ON_START cfg" "\<forall>r\<in>set rs. wf_request r" "rs \<noteq> []" "nd_failed nd0 = None"
    "int (length (rb_pending (nd_rbuf nd0)) + length rs) < REQUEST_BUFFER_MAX_CACHED cfg"
    and P: "p_start_callback P = Pair (Inr ())" "p_seed P = seed_phase cfg B o' ([], Some e)"
    and st: "lf_orig st = []" "lf_x st = append_requests None rs nd0"
  shows "\<exists>st'. run_life fuel (\<lambda>_. True) True \<lparr>ar_start = (\<lambda>_. []), ar_wait = (\<lambda>_. []), ar_teardown = (\<lambda>_. []), ar_end = (\<lambda>_. [])\<rparr> need P st
      = Some (Raises e, st')
    \<and> lf_trace st' = lf_trace st @ [''start_callback'', ''seed''] \<and> lf_handler st' = (\<lambda>_. HOnSignal)
    \<and> nd_failed (lf_x st') = None \<and> nd_staging (lf_x st') = None
    \<and> rb_pending (nd_rbuf (lf_x st')) = rb_pending (nd_rbuf nd0) @ numbered o' rs"
proof -
  have f: "filter (\<lambda>l. strip l \<noteq> []) (map payload rs) = map payload rs" using payload_not_blank by (auto intro: filter_True)
  have "replay_file cfg B IoOk o' (append_requests None rs nd0) =
      (Inr (length rs), nd0\<lparr>nd_staging := None, nd_rbuf := (nd_rbuf nd0)\<lparr>rb_pending := rb_pending (nd_rbuf nd0) @ numbered o' rs\<rparr>\<rparr>)"
    using assms(1-5) by (simp add: replay_file_def append_requests_def Let_def f replay_loop_payloads)
  then have s: "seed_phase cfg B o' ([], Some e) (append_requests None rs nd0) =
      (Inl e, nd0\<lparr>nd_staging := None, nd_rbuf := (nd_rbuf nd0)\<lparr>rb_pending := rb_pending (nd_rbuf nd0) @ numbered o' rs\<rparr>\<rparr>)"
    by (simp add: seed_phase_def seed_requests_def)
  let ?s1 = "st\<lparr>lf_trace := lf_trace st @ [''start_callback'']\<rparr>"
  have o1: "lf_orig ?s1 = []" using st(1) by simp
  have i: "install_signal (\<lambda>_. True) True ?s1 = ?s1\<lparr>lf_handler := (\<lambda>_. HOnSignal), lf_orig := [(SIGINT, lf_handler st SIGINT), (SIGTERM, lf_handler st SIGTERM)]\<rparr>"
    using install_arms(2) [of "\<lambda>_. True", OF _ o1] by simp
  show ?thesis
    by (simp add: run_life_def start_phases_def phase_def call_def P st s i assms(4))
qed

section \<open>The phases on a node\<close>

text \<open>
  The teardown of a node with the methods of \<open>Scheduler\<close>: \<open>flush_requests\<close>, \<open>flush_items\<close> and the shutdown hook act on item buffer and node;
  without signals the run over these steps is \<open>teardown\<close>.
\<close>

definition node_program :: "(ibuf \<times> 'w node) program \<Rightarrow> setting \<Rightarrow> 'w benv \<Rightarrow> ('w node) item_env \<Rightarrow> ('w node \<Rightarrow> 'w node) \<Rightarrow> (ibuf \<times> 'w node) program" where
  "node_program P cfg B E on_shutdown = P\<lparr>
     p_flush_requests := (\<lambda>(ib, nd). case buf_flush B nd of (x, nd1) \<Rightarrow> (x, ib, nd1)),
     p_flush_items := (\<lambda>(ib, nd). ibuf_flush cfg E ib nd),
     p_on_shutdown := (\<lambda>(ib, nd). (Inr (), ib, on_shutdown nd))\<rparr>"

definition seq_all :: "('x \<Rightarrow> unit res \<times> 'x) list \<Rightarrow> 'x \<Rightarrow> unit res \<times> 'x" where
  "seq_all fs x = (Inr (), run_steps fs x)"

lemma run_steps_append: "run_steps (fs @ gs) x = run_steps gs (run_steps fs x)"
  by (induction fs arbitrary: x) auto

lemma teardown_calls_run:
  assumes "quiet arr k"
  shows "lf_x (snd (teardown_steps can arr k (calls specs) st)) = run_steps (map snd specs) (lf_x st)"
    "fst (teardown_steps can arr k (calls specs) st) = Goes"
proof -
  have "lf_x (snd (teardown_steps can arr k (calls specs) st)) = run_steps (map snd specs) (lf_x st)
      \<and> fst (teardown_steps can arr k (calls specs) st) = Goes"
    using assms
  proof (induction specs arbitrary: k st)
    case (Cons sp specs)
    obtain nm f where sp: "sp = (nm, f)" by force
    have a: "arr k = []" "quiet arr (Suc k)" using Cons.prems by (auto simp: quiet_def)
    obtain r x where f: "f (lf_x st) = (r, x)" by force
    show ?case
      using Cons.IH [OF a(2), of "st\<lparr>lf_x := x, lf_trace := lf_trace st @ [nm]\<rparr>"] a(1) f
      by (cases r) (simp_all add: calls_def sp phase_def call_def)
  qed (simp add: calls_def)
  then show "lf_x (snd (teardown_steps can arr k (calls specs) st)) = run_steps (map snd specs) (lf_x st)"
    "fst (teardown_steps can arr k (calls specs) st) = Goes" by auto
qed

lemma restore_keeps_x: "lf_x (restore_signal can main st) = lf_x st"
proof -
  have "lf_x (fold (restore_one can) es s) = lf_x s" for es and s :: "'a life"
    by (induction es arbitrary: s) (auto simp: restore_one_def)
  then show ?thesis by (simp add: restore_signal_def)
qed

lemma run_teardown_is_teardown:
  assumes "quiet arr 0"
  shows "lf_x (snd (run_teardown can main arr (node_program P cfg B E hook) st)) =
    teardown cfg B E (seq_all [p_stop_workers P, p_stop_metrics P, p_stop_buffers P])
      (seq_all [p_close_pipelines P, p_close_downloaders P, p_close_proxy_pool P, p_close_user_pool P]) hook (lf_x st)"
proof -
  let ?P = "node_program P cfg B E hook"
  let ?b = "teardown_steps can arr 0 (calls (steps_before_restore ?P)) st"
  have q: "quiet arr n" for n using assms by (simp add: quiet_def)
  have len: "length (calls (steps_before_restore ?P)) = 6" by (simp add: steps_before_restore_def calls_def)
  obtain s1 where s1: "?b = (Goes, s1)" "lf_x s1 = run_steps (map snd (steps_before_restore ?P)) (lf_x st)"
    using teardown_calls_run [OF assms, of can "steps_before_restore ?P" st] by (cases ?b) auto
  let ?s2 = "(restore_signal can main s1)\<lparr>lf_trace := lf_trace s1 @ [''restore_signal'']\<rparr>"
  have "arr 6 = []" using assms by (simp add: quiet_def)
  then have "run_teardown can main arr ?P st = teardown_steps can arr 7 (calls (steps_after_restore ?P)) ?s2"
    using s1(1) len by (simp add: run_teardown_def teardown_append phase_def restore_step_def)
  then show ?thesis
    using teardown_calls_run(1) [OF q, of can 7 "steps_after_restore ?P" ?s2] s1(2)
    by (simp add: restore_keeps_x teardown_def seq_all_def steps_before_restore_def steps_after_restore_def node_program_def)
qed

end
