(* ===== verification/Alert_Channels.thy ===== *)
theory Alert_Channels
  imports Alert Render_Input Response_Cache
begin

text \<open>
  The notification channels of \<^verbatim>\<open>netspy/utils/alert.py\<close>: the webhooks of Feishu, DingTalk and WeChat Work with the check of their answers, the
  signature of DingTalk, mail, and the list of channels the settings ask for.  The network, the mail server and HMAC are arguments.
  Log lines go to the log of the world; their wording is English here.
\<close>

section \<open>One message to a webhook\<close>

text \<open>What \<open>httpx.post\<close>, \<open>raise_for_status\<close> and \<open>resp.json()\<close> together give; \<open>HookRaises\<close>: an exception that is neither
  \<open>HTTPError\<close> nor \<open>ValueError\<close> (an invalid URL).\<close>

datatype hook_reply = HookHttpError | HookNotJson | HookRaises exn | HookBody pyval

record 'w channels =
  ch_post :: "string \<Rightarrow> pyval \<Rightarrow> 'w \<Rightarrow> hook_reply \<times> 'w"
  ch_log :: "string \<Rightarrow> 'w \<Rightarrow> 'w"
  ch_hmac :: "string \<Rightarrow> string \<Rightarrow> nat list"

text \<open>
  \<open>field in body\<close> and \<open>body[field]\<close>, as JSON of any shape answers them: a dict by its keys, a list by its elements, a text by its
  parts; \<open>in\<close> on a number or null and indexing a list or a text with a string raise \<open>TypeError\<close>.
\<close>

fun body_field :: "pyval \<Rightarrow> string \<Rightarrow> pyval option res" where
  "body_field (VDict d) f = Inr (dget d f)"
| "body_field (VList xs) f = (if VStr f \<in> set xs then Inl (raise_of PyTypeError) else Inr None)"
| "body_field (VStr s) f = (if contains f s then Inl (raise_of PyTypeError) else Inr None)"
| "body_field _ f = Inl (raise_of PyTypeError)"

text \<open>\<open>value in (0, None)\<close>: \<open>False\<close> equals 0.\<close>

definition code_ok :: "pyval \<Rightarrow> bool" where
  "code_ok v = (v = VInt 0 \<or> v = VBool False \<or> v = VNone)"

definition CODE_FIELDS :: "string list" where
  "CODE_FIELDS = [''errcode'', ''code'', ''StatusCode'']"

text \<open>The first code that is no success; \<open>None\<close>: accepted.\<close>

fun refused_by :: "pyval \<Rightarrow> string list \<Rightarrow> string option res" where
  "refused_by body [] = Inr None"
| "refused_by body (f # fs) =
     (case body_field body f of
        Inl e \<Rightarrow> Inl e
      | Inr (Some v) \<Rightarrow> if code_ok v then refused_by body fs else Inr (Some f)
      | Inr None \<Rightarrow> refused_by body fs)"

definition post_webhook :: "'w channels \<Rightarrow> string \<Rightarrow> string \<Rightarrow> pyval \<Rightarrow> 'w \<Rightarrow> unit res \<times> 'w" where
  "post_webhook C name hook msg w =
     (case ch_post C hook msg w of
        (HookHttpError, w1) \<Rightarrow> (Inr (), ch_log C (name @ '' send failed'') w1)
      | (HookNotJson, w1) \<Rightarrow> (Inr (), ch_log C (name @ '' answer is not JSON'') w1)
      | (HookRaises e, w1) \<Rightarrow> (Inl e, w1)
      | (HookBody body, w1) \<Rightarrow>
          (case refused_by body CODE_FIELDS of
             Inl e \<Rightarrow> (Inl e, w1)
           | Inr (Some f) \<Rightarrow> (Inr (), ch_log C (name @ '' refused: '' @ f) w1)
           | Inr None \<Rightarrow> (Inr (), w1)))"

section \<open>The channels\<close>

text \<open>A message: title and text.  The brackets around the title are CJK signs in the source.\<close>

definition text_payload :: "string \<Rightarrow> string \<Rightarrow> pyval" where
  "text_payload title message = VDict [(''msgtype'', VStr ''text''),
     (''text'', VDict [(''content'', VStr (''[Netspy]'' @ title @ '':'' @ message))])]"

definition feishu_send :: "'w channels \<Rightarrow> string \<Rightarrow> string \<Rightarrow> string \<Rightarrow> 'w \<Rightarrow> unit res \<times> 'w" where
  "feishu_send C hook title message = post_webhook C ''feishu'' hook
     (VDict [(''msg_type'', VStr ''text''), (''content'', VDict [(''text'', VStr (''['' @ title @ '']'' @ message))])])"

text \<open>\<open>_signed_url\<close>; \<open>ts\<close> is the time in milliseconds.\<close>

definition signature_of :: "'w channels \<Rightarrow> string \<Rightarrow> int \<Rightarrow> string" where
  "signature_of C secret ts = b64encode (ch_hmac C secret (show_int ts @ [CHR 0x0A] @ secret))"

definition signed_url :: "'w channels \<Rightarrow> string \<Rightarrow> string \<Rightarrow> int \<Rightarrow> string" where
  "signed_url C hook secret ts =
     (if secret = [] then hook
      else hook @ (if CHR ''?'' \<in> set hook then ''&'' else ''?'') @ ''timestamp='' @ show_int ts @ ''&sign='' @ quote_plus (signature_of C secret ts))"

definition dingtalk_send :: "'w channels \<Rightarrow> string \<Rightarrow> string \<Rightarrow> int \<Rightarrow> string \<Rightarrow> string \<Rightarrow> 'w \<Rightarrow> unit res \<times> 'w" where
  "dingtalk_send C hook secret ts title message = post_webhook C ''dingtalk'' (signed_url C hook secret ts) (text_payload title message)"

definition wechat_send :: "'w channels \<Rightarrow> string \<Rightarrow> string \<Rightarrow> string \<Rightarrow> 'w \<Rightarrow> unit res \<times> 'w" where
  "wechat_send C hook title message = post_webhook C ''wechat'' hook (text_payload title message)"

definition log_send :: "'w channels \<Rightarrow> string \<Rightarrow> string \<Rightarrow> 'w \<Rightarrow> unit res \<times> 'w" where
  "log_send C title message w = (Inr (), ch_log C (title @ '':'' @ message) w)"

text \<open>Mail: \<open>deliver_mail\<close> is the whole \<^verbatim>\<open>with\<close> block of smtplib; what it raises is logged.  Without recipients nothing is sent.\<close>

definition email_send :: "'w channels \<Rightarrow> (pyval \<Rightarrow> string \<Rightarrow> string \<Rightarrow> 'w \<Rightarrow> unit res \<times> 'w) \<Rightarrow> pyval \<Rightarrow> string \<Rightarrow> string \<Rightarrow> 'w \<Rightarrow> unit res \<times> 'w" where
  "email_send C deliver_mail to title message w =
     (if \<not> truthy to then (Inr (), w)
      else case deliver_mail to (''[Netspy] '' @ title) message w of
        (Inl e, w1) \<Rightarrow> (Inr (), ch_log C ''mail failed'' w1)
      | (Inr _, w1) \<Rightarrow> (Inr (), w1))"

section \<open>Which channels\<close>

record channel_setting =
  WARNING_FEISHU_WEBHOOK :: string
  WARNING_DINGTALK_WEBHOOK :: string
  WARNING_DINGTALK_SECRET :: string
  WARNING_WECHAT_WEBHOOK :: string
  WARNING_EMAIL_HOST :: string
  WARNING_EMAIL_TO :: pyval

datatype channel = LogChannel | Feishu string | DingTalk string string | WeChatWork string | Email pyval

definition build_notifiers :: "channel_setting \<Rightarrow> channel list" where
  "build_notifiers cs =
     [LogChannel]
     @ (if WARNING_FEISHU_WEBHOOK cs \<noteq> [] then [Feishu (WARNING_FEISHU_WEBHOOK cs)] else [])
     @ (if WARNING_DINGTALK_WEBHOOK cs \<noteq> [] then [DingTalk (WARNING_DINGTALK_WEBHOOK cs) (WARNING_DINGTALK_SECRET cs)] else [])
     @ (if WARNING_WECHAT_WEBHOOK cs \<noteq> [] then [WeChatWork (WARNING_WECHAT_WEBHOOK cs)] else [])
     @ (if WARNING_EMAIL_HOST cs \<noteq> [] then [Email (WARNING_EMAIL_TO cs)] else [])"

fun send_to :: "'w channels \<Rightarrow> (pyval \<Rightarrow> string \<Rightarrow> string \<Rightarrow> 'w \<Rightarrow> unit res \<times> 'w) \<Rightarrow> int \<Rightarrow> string \<Rightarrow> channel \<Rightarrow> 'w notifier" where
  "send_to C mail ts message LogChannel title = log_send C title message"
| "send_to C mail ts message (Feishu hook) title = feishu_send C hook title message"
| "send_to C mail ts message (DingTalk hook secret) title = dingtalk_send C hook secret ts title message"
| "send_to C mail ts message (WeChatWork hook) title = wechat_send C hook title message"
| "send_to C mail ts message (Email to) title = email_send C mail to title message"

section \<open>A refusal is not taken for a delivery\<close>

lemma refused_by_None:
  "refused_by (VDict d) fs = Inr None \<longleftrightarrow> list_all (\<lambda>f. case dget d f of None \<Rightarrow> True | Some v \<Rightarrow> code_ok v) fs"
  by (induction fs) (auto split: option.split)

text \<open>
  A webhook call that returns without a line in the log was accepted: the answer arrived, was JSON, and every code field it has
  says success.  \<open>log_adds\<close>: the log only grows.
\<close>

lemma silent_means_accepted:
  assumes "post_webhook C name hook msg w = (Inr (), w')" "ch_post C hook msg w = (reply, w1)" "\<And>l. ch_log C l w1 \<noteq> w1" "w' = w1"
  shows "\<exists>body. reply = HookBody body \<and> refused_by body CODE_FIELDS = Inr None"
  using assms by (auto simp: post_webhook_def split: hook_reply.splits sum.splits option.splits)

lemma accepted_codes:
  assumes "refused_by (VDict d) CODE_FIELDS = Inr None" "f \<in> {''errcode'', ''code'', ''StatusCode''}" "dget d f = Some v"
  shows "code_ok v"
  using assms unfolding refused_by_None CODE_FIELDS_def by auto

text \<open>The server reads the signature that was computed, whatever signs its base64 text has.\<close>

lemma signature_arrives:
  assumes "secret \<noteq> []" "CHR ''?'' \<notin> set hook" "CHR ''#'' \<notin> set hook"
  shows "\<exists>q. url_parts (signed_url C hook secret ts) = (hook, q, [])
    \<and> parse_qsl q = [(''timestamp'', show_int ts), (''sign'', signature_of C secret ts)]"
proof -
  let ?es = "[(''timestamp'', show_int ts), (''sign'', signature_of C secret ts)]"
  have num: "quote_plus (show_int ts) = show_int ts"
  proof -
    have "quote_char c = [c]" if "c \<in> set (show_int ts)" for c
    proof -
      have "is_digit c \<or> c = CHR ''-''"
        using that show_nat_digits [of "nat ts"] show_nat_digits [of "nat (- ts)"] by (auto simp: show_int_def list_all_iff split: if_splits)
      then show ?thesis by (auto simp: quote_char_def unreserved_def is_digit_def Let_def)
    qed
    then have m: "map quote_char (show_int ts) = map (\<lambda>c. [c]) (show_int ts)" by (intro map_cong) auto
    show ?thesis unfolding quote_plus_def m by simp
  qed
  have names: "quote_plus ''timestamp'' = ''timestamp''" "quote_plus ''sign'' = ''sign''"
    by (simp_all add: quote_plus_def quote_char_def unreserved_def)
  have "signed_url C hook secret ts = url_unsplit (hook, urlencode ?es, [])"
    using assms(1,2) by (simp add: signed_url_def url_unsplit_def num names)
  then have "url_parts (signed_url C hook secret ts) = (hook, urlencode ?es, [])"
    using url_parts_unsplit [OF assms(2,3) urlencode_no_hash, of ?es "[]"] by simp
  then show ?thesis using parse_urlencode by blast
qed

text \<open>Every channel is tried although one before it raises: a text answer like \<^verbatim>\<open>"code"\<close> raises \<open>TypeError\<close> in \<open>_post_webhook\<close>, and \<open>_fire\<close> catches it.\<close>

lemma text_answer_raises: "refused_by (VStr ''error code 3'') CODE_FIELDS = Inl (raise_of PyTypeError)"
  by (simp add: CODE_FIELDS_def)

lemma notify_all_append: "notify_all (ns @ ms) k w = notify_all ms k (notify_all ns k w)"
  by (induction ns arbitrary: w) auto

lemma log_channel_first: "\<exists>cs'. build_notifiers cs = LogChannel # cs'"
  by (simp add: build_notifiers_def)

end
