(* ===== verification/Human_Input.thy ===== *)
theory Human_Input
  imports Netspy_Prelude
begin

text \<open>
  \<^verbatim>\<open>netspy/network/downloader/_humanize.py\<close>: mouse, keyboard and wheel in small steps.  The calls of the page are the result; random
  numbers are a function of how many were drawn before (each within the range it was asked for), numbers are exact reals.
\<close>

datatype page_call =
    MouseMove real real | MouseClick real real | PageClick string | LocatorClick string | PressSequentially string char
  | Wheel real real | Sleep real

text \<open>\<open>unif i a b\<close>: the draw number \<open>i\<close>, \<^verbatim>\<open>random.uniform(a, b)\<close>.\<close>

type_synonym randoms = "nat \<Rightarrow> real \<Rightarrow> real \<Rightarrow> real"

definition in_range :: "randoms \<Rightarrow> bool" where
  "in_range unif \<longleftrightarrow> (\<forall>i a b. a \<le> b \<longrightarrow> a \<le> unif i a b \<and> unif i a b \<le> b)"

lemma in_rangeD: "in_range unif \<Longrightarrow> a \<le> b \<Longrightarrow> a \<le> unif i a b \<and> unif i a b \<le> b"
  by (simp add: in_range_def)

definition ease :: "real \<Rightarrow> real" where
  "ease t = t * t * (3 - 2 * t)"

text \<open>The loop over \<^verbatim>\<open>range(i, n + 1)\<close>; the last step has no jitter and draws only its pause.  \<open>k\<close>: numbers drawn so far.\<close>

fun move_loop :: "randoms \<Rightarrow> real \<times> real \<Rightarrow> real \<times> real \<Rightarrow> nat \<Rightarrow> nat \<Rightarrow> nat \<Rightarrow> page_call list \<times> nat" where
  "move_loop unif s e n 0 k = ([], k)"
| "move_loop unif s e n (Suc m) k =
     (let i = n - m; t = ease (real i / real n);
          jx = (if i < n then unif k (-3) 3 else 0); jy = (if i < n then unif (k + 1) (-3) 3 else 0);
          k1 = (if i < n then k + 2 else k)
      in case move_loop unif s e n m (k1 + 1) of (cs, k2) \<Rightarrow>
           (MouseMove (fst s + (fst e - fst s) * t + jx) (snd s + (snd e - snd s) * t + jy) # Sleep (unif k1 (2 / 1000) (12 / 1000)) # cs, k2))"

text \<open>\<open>steps\<close> and \<open>start\<close> as given or chosen: \<open>steps or randint(8, 20)\<close>, the middle of the viewport.\<close>

definition human_move :: "randoms \<Rightarrow> nat \<Rightarrow> (real \<times> real) option \<Rightarrow> (real \<times> real) option \<Rightarrow> nat option \<Rightarrow> real \<times> real \<Rightarrow> nat
    \<Rightarrow> page_call list \<times> nat" where
  "human_move unif dice viewport start steps e k =
     (let n = (case steps of Some (Suc m) \<Rightarrow> Suc m | _ \<Rightarrow> dice);
          s = (case start of Some p \<Rightarrow> p | None \<Rightarrow> (case viewport of Some (w, h) \<Rightarrow> (w / 2, h / 2) | None \<Rightarrow> (1280 / 2, 720 / 2)))
      in case move_loop unif s e n n k of (cs, k1) \<Rightarrow> (cs @ [MouseMove (fst e) (snd e)], k1))"

text \<open>A box: left, top, width, height; \<open>None\<close> when the element is not visible.\<close>

definition human_click :: "randoms \<Rightarrow> nat \<Rightarrow> (real \<times> real) option \<Rightarrow> (real \<times> real \<times> real \<times> real) option \<Rightarrow> string \<Rightarrow> (real \<times> real) option
    \<Rightarrow> page_call list" where
  "human_click unif dice viewport box selector start =
     (case box of
        None \<Rightarrow> [PageClick selector]
      | Some (x, y, w, h) \<Rightarrow>
          (let tx = x + w * unif 0 (35 / 100) (65 / 100); ty = y + h * unif 1 (35 / 100) (65 / 100)
           in case human_move unif dice viewport start None (tx, ty) 2 of (cs, k) \<Rightarrow>
                cs @ [Sleep (unif k (5 / 100) (15 / 100)), MouseClick tx ty]))"

definition human_type :: "randoms \<Rightarrow> string \<Rightarrow> string \<Rightarrow> real \<times> real \<Rightarrow> page_call list" where
  "human_type unif selector what delay =
     LocatorClick selector
       # concat (map (\<lambda>(i, ch). [PressSequentially selector ch, Sleep (unif i (fst delay) (snd delay))]) (zip [0..<length what] what))"

definition human_scroll :: "randoms \<Rightarrow> nat \<Rightarrow> real option \<Rightarrow> nat option \<Rightarrow> page_call list" where
  "human_scroll unif dice distance steps =
     (let total = (case distance of Some d \<Rightarrow> d | None \<Rightarrow> unif 0 300 900);
          n = (case steps of Some (Suc m) \<Rightarrow> Suc m | _ \<Rightarrow> dice); per = total / real n
      in concat (map (\<lambda>i. [Wheel 0 (per * unif (2 * i + 1) (7 / 10) (13 / 10)), Sleep (unif (2 * i + 2) (3 / 100) (12 / 100))]) [0..<n]))"

section \<open>Where the pointer goes\<close>

fun move_of :: "page_call \<Rightarrow> (real \<times> real) option" where
  "move_of (MouseMove x y) = Some (x, y)"
| "move_of _ = None"

lemma ease_range: "0 \<le> t \<Longrightarrow> t \<le> 1 \<Longrightarrow> 0 \<le> ease t \<and> ease t \<le> 1"
proof -
  assume t: "0 \<le> t" "t \<le> 1"
  have "1 - ease t = (1 - t) * (1 - t) * (1 + 2 * t)" by (simp add: ease_def algebra_simps)
  moreover have "0 \<le> (1 - t) * (1 - t) * (1 + 2 * t)" using t by simp
  ultimately have "ease t \<le> 1" by linarith
  moreover have "0 \<le> ease t" using t by (simp add: ease_def)
  ultimately show ?thesis by simp
qed

text \<open>Every point is within three pixels, in both directions, of the straight line from start to target.\<close>

definition near_line :: "real \<times> real \<Rightarrow> real \<times> real \<Rightarrow> real \<times> real \<Rightarrow> bool" where
  "near_line s e p \<longleftrightarrow> (\<exists>t. 0 \<le> t \<and> t \<le> 1 \<and> \<bar>fst p - (fst s + (fst e - fst s) * t)\<bar> \<le> 3 \<and> \<bar>snd p - (snd s + (snd e - snd s) * t)\<bar> \<le> 3)"

lemma move_loop_near:
  assumes "in_range unif" "m \<le> n" "c \<in> set (fst (move_loop unif s e n m k))" "move_of c = Some p"
  shows "near_line s e p"
  using assms(2,3)
proof (induction m arbitrary: k)
  case (Suc m)
  let ?i = "n - m" and ?t = "ease (real (n - m) / real n)"
  let ?jx = "if ?i < n then unif k (-3) 3 else 0" and ?jy = "if ?i < n then unif (k + 1) (-3) 3 else 0"
  let ?k1 = "if ?i < n then k + 2 else k"
  have t: "0 \<le> ?t" "?t \<le> 1" using ease_range [of "real (n - m) / real n"] Suc.prems(1) by (auto simp: divide_le_eq_1)
  have r: "- 3 \<le> unif j (-3) 3 \<and> unif j (-3) 3 \<le> 3" for j by (rule in_rangeD [OF assms(1)]) simp
  have j: "\<bar>?jx\<bar> \<le> 3" "\<bar>?jy\<bar> \<le> 3" using r [of k] r [of "k + 1"] by (auto simp: abs_le_iff)
  from Suc.prems(2) consider "c = MouseMove (fst s + (fst e - fst s) * ?t + ?jx) (snd s + (snd e - snd s) * ?t + ?jy)"
    | x where "c = Sleep x" | "c \<in> set (fst (move_loop unif s e n m (?k1 + 1)))"
    by (auto simp: Let_def split: prod.splits)
  then show ?case
  proof cases
    case 1
    then have p: "p = (fst s + (fst e - fst s) * ?t + ?jx, snd s + (snd e - snd s) * ?t + ?jy)" using assms(4) by simp
    show ?thesis unfolding near_line_def by (rule exI [of _ ?t]) (use t j in \<open>simp add: p\<close>)
  next
    case 3
    then show ?thesis using Suc.IH Suc.prems(1) by simp
  qed (use assms(4) in simp)
qed simp

lemma human_move_target:
  "last (fst (human_move unif dice viewport start steps e k)) = MouseMove (fst e) (snd e)"
  by (simp add: human_move_def Let_def split: prod.split)

lemma human_move_stays_near:
  assumes "in_range unif" "c \<in> set (fst (human_move unif dice viewport (Some s) steps e k))" "move_of c = Some p"
  shows "near_line s e p"
proof -
  let ?n = "case steps of Some (Suc m) \<Rightarrow> Suc m | _ \<Rightarrow> dice"
  consider "c \<in> set (fst (move_loop unif s e ?n ?n k))" | "c = MouseMove (fst e) (snd e)"
    using assms(2) by (auto simp: human_move_def Let_def split: prod.splits)
  then show ?thesis
  proof cases
    case 1
    then show ?thesis by (rule move_loop_near [OF assms(1) order_refl _ assms(3)])
  next
    case 2
    then show ?thesis using assms(3) unfolding near_line_def by (intro exI [of _ 1]) auto
  qed
qed

text \<open>A click lands inside the element, away from its border, and where the pointer was moved to.\<close>

lemma human_click_inside:
  assumes "in_range unif" "0 \<le> w" "0 \<le> h"
  shows "\<exists>tx ty cs d. human_click unif dice viewport (Some (x, y, w, h)) sel start = cs @ [MouseMove tx ty, Sleep d, MouseClick tx ty]
    \<and> x + w * (35 / 100) \<le> tx \<and> tx \<le> x + w * (65 / 100) \<and> y + h * (35 / 100) \<le> ty \<and> ty \<le> y + h * (65 / 100)"
proof -
  let ?u = "\<lambda>i. unif i (35 / 100) (65 / 100)"
  let ?tx = "x + w * ?u 0" and ?ty = "y + h * ?u 1"
  have u: "35 / 100 \<le> ?u i \<and> ?u i \<le> 65 / 100" for i by (rule in_rangeD [OF assms(1)]) simp
  obtain cs k where m: "human_move unif dice viewport start None (?tx, ?ty) 2 = (cs, k)" by force
  have "cs \<noteq> []" "last cs = MouseMove ?tx ?ty"
    using m human_move_target [of unif dice viewport start None "(?tx, ?ty)" 2] by (auto simp: human_move_def Let_def split: prod.splits)
  then have "cs = butlast cs @ [MouseMove ?tx ?ty]" by (metis append_butlast_last_id)
  then have "human_click unif dice viewport (Some (x, y, w, h)) sel start
      = butlast cs @ [MouseMove ?tx ?ty, Sleep (unif k (5 / 100) (15 / 100)), MouseClick ?tx ?ty]"
    using m by (simp add: human_click_def Let_def)
  moreover have "w * (35 / 100) \<le> w * ?u 0" "w * ?u 0 \<le> w * (65 / 100)" "h * (35 / 100) \<le> h * ?u 1" "h * ?u 1 \<le> h * (65 / 100)"
    using mult_left_mono [OF conjunct1 [OF u] assms(2)] mult_left_mono [OF conjunct2 [OF u] assms(2)]
      mult_left_mono [OF conjunct1 [OF u] assms(3)] mult_left_mono [OF conjunct2 [OF u] assms(3)] by blast+
  ultimately show ?thesis by (intro exI conjI) (assumption | rule add_left_mono)+
qed

text \<open>What is typed is the text, character by character.\<close>

fun typed :: "page_call list \<Rightarrow> string" where
  "typed [] = []"
| "typed (PressSequentially sel ch # cs) = ch # typed cs"
| "typed (c # cs) = typed cs"

lemma typed_append: "typed (xs @ ys) = typed xs @ typed ys"
  by (induction xs rule: typed.induct) auto

lemma human_type_types: "typed (human_type unif sel what delay) = what"
proof -
  have "typed (concat (map (\<lambda>(i, ch). [PressSequentially sel ch, Sleep (unif i (fst delay) (snd delay))]) (zip ns what))) = what"
    if "length ns = length what" for ns :: "nat list"
    using that by (induction ns what rule: list_induct2) auto
  then show ?thesis by (simp add: human_type_def)
qed

text \<open>Scrolling covers the distance up to three tenths either way.\<close>

fun scrolled :: "page_call list \<Rightarrow> real" where
  "scrolled [] = 0"
| "scrolled (Wheel x y # cs) = y + scrolled cs"
| "scrolled (c # cs) = scrolled cs"

lemma scrolled_append: "scrolled (xs @ ys) = scrolled xs + scrolled ys"
  by (induction xs rule: scrolled.induct) auto

lemma scrolled_wheels:
  assumes "\<And>i. a \<le> g i \<and> g i \<le> b" "0 \<le> per"
  shows "real (length xs) * (per * a) \<le> scrolled (concat (map (\<lambda>i. [Wheel 0 (per * g i), Sleep (p i)]) xs))
    \<and> scrolled (concat (map (\<lambda>i. [Wheel 0 (per * g i), Sleep (p i)]) xs)) \<le> real (length xs) * (per * b)"
proof (induction xs)
  case (Cons i xs)
  have "per * a \<le> per * g i" "per * g i \<le> per * b"
    using assms by (auto intro: mult_left_mono)
  then show ?case using Cons by (simp add: distrib_right)
qed simp

lemma human_scroll_distance:
  assumes "in_range unif" "0 \<le> d" "0 < n"
  shows "d * (7 / 10) \<le> scrolled (human_scroll unif dice (Some d) (Some n)) \<and> scrolled (human_scroll unif dice (Some d) (Some n)) \<le> d * (13 / 10)"
proof -
  have u: "7 / 10 \<le> unif (2 * i + 1) (7 / 10) (13 / 10) \<and> unif (2 * i + 1) (7 / 10) (13 / 10) \<le> 13 / 10" for i
    by (rule in_rangeD [OF assms(1)]) simp
  have per: "0 \<le> d / real n" using assms(2) by simp
  have n: "(case n of 0 \<Rightarrow> dice | Suc m \<Rightarrow> Suc m) = n" using assms(3) by (cases n) auto
  have "real n * (d / real n * x) = d * x" for x using assms(3) by simp
  then show ?thesis
    using scrolled_wheels [where g = "\<lambda>i. unif (2 * i + 1) (7 / 10) (13 / 10)" and xs = "[0..<n]", OF u per]
    by (simp only: human_scroll_def Let_def option.case n length_upt diff_zero)
qed

end
