(* ===== verification/Run_Report.thy ===== *)
theory Run_Report
  imports Request_Buffer
begin

text \<open>
  What a run says about itself: the summary of the counters (\<^verbatim>\<open>netspy/utils/stats.py\<close>, \<open>_emit_run_summary\<close> of \<^verbatim>\<open>base_scheduler.py\<close>) and the
  progress reports (\<^verbatim>\<open>netspy/utils/metrics.py\<close>); and two helpers of \<^verbatim>\<open>netspy/utils/tools.py\<close>, \<open>retry\<close> and \<open>load_object\<close>.
\<close>

section \<open>The summary\<close>

datatype num = NInt int | NFloat real

definition SUMMARY_FIELDS :: "(string \<times> string) list" where
  "SUMMARY_FIELDS = [(''request_ok'', ''request_ok''), (''request_failed'', ''request_failed''), (''retry'', ''retry''), (''dropped'', ''dropped''),
     (''robots_dropped'', ''robots_dropped''), (''content_type_dropped'', ''content_type_dropped''), (''dedup_dropped'', ''dedup_dropped''),
     (''parse_error'', ''parse_error''), (''items'', ''item''), (''item_dedup_dropped'', ''item_dedup_dropped''),
     (''item_failed'', ''item_failed''), (''dedup_degraded'', ''dedup_degraded'')]"

text \<open>\<^verbatim>\<open>round(x, 3)\<close> is \<open>fmt3\<close>.\<close>

definition as_summary_dict :: "time \<Rightarrow> stats \<Rightarrow> (string, num) pydict" where
  "as_summary_dict elapsed st =
     [(''schema'', NInt 1), (''elapsed'', NFloat (fmt3 elapsed))]
     @ map (\<lambda>(f, k). (f, NInt (stats_get st k))) SUMMARY_FIELDS
     @ [(''rate'', NFloat (if elapsed \<noteq> 0 then fmt3 (of_int (stats_get st ''request_ok'') / elapsed) else 0))]"

text \<open>\<open>{**stats, **context}\<close>: a context entry with the name of a counter would replace it.\<close>

definition run_summary :: "time \<Rightarrow> stats \<Rightarrow> (string, num + string) pydict \<Rightarrow> (string, num + string) pydict" where
  "run_summary elapsed st ctx = foldl (\<lambda>d (k, v). dset d k v) (map (\<lambda>(k, v). (k, Inl v)) (as_summary_dict elapsed st)) ctx"

definition scheduler_context :: "string \<Rightarrow> (string \<times> string \<times> string) option \<Rightarrow> (string, num + string) pydict" where
  "scheduler_context spider redis =
     (''spider'', Inr spider) # (case redis of None \<Rightarrow> []
       | Some (run_id, ns, job) \<Rightarrow> [(''run_id'', Inr run_id), (''namespace'', Inr ns), (''redis_key'', Inr job)])"

lemma dget_foldl_dset: "k \<notin> fst ` set ctx \<Longrightarrow> dget (foldl (\<lambda>d (k, v). dset d k v) d ctx) k = dget d k"
  by (induction ctx arbitrary: d) auto

lemma dget_map_values: "dget (map (\<lambda>(k, v). (k, h v)) d) f = map_option h (dget d f)"
  by (induction d) auto

lemma dget_summary_fields:
  "(f, k) \<in> set SUMMARY_FIELDS \<Longrightarrow> dget (as_summary_dict elapsed st) f = Some (NInt (stats_get st k))"
proof -
  assume a: "(f, k) \<in> set SUMMARY_FIELDS"
  have k: "dkeys (as_summary_dict elapsed st) = ''schema'' # ''elapsed'' # map fst SUMMARY_FIELDS @ [''rate'']"
    by (simp add: as_summary_dict_def dkeys_def case_prod_unfold)
  have "distinct (''schema'' # ''elapsed'' # map fst SUMMARY_FIELDS @ [''rate''])" by code_simp
  then have "distinct (dkeys (as_summary_dict elapsed st))" by (simp only: k)
  moreover have "(f, NInt (stats_get st k)) \<in> set (as_summary_dict elapsed st)"
    using a by (force simp: as_summary_dict_def)
  ultimately show ?thesis by (rule dget_in_set)
qed

text \<open>The contract with the reader of the line: every counter arrives under its field, whatever scheduler adds its context.\<close>

lemma summary_carries_counters:
  assumes "(f, k) \<in> set SUMMARY_FIELDS"
  shows "dget (run_summary elapsed st (scheduler_context spider redis)) f = Some (Inl (NInt (stats_get st k)))"
proof -
  let ?names = "{''spider'', ''run_id'', ''namespace'', ''redis_key''}"
  have "fst ` set (scheduler_context spider redis) \<subseteq> ?names"
    by (cases redis) (auto simp: scheduler_context_def)
  moreover have "\<forall>e \<in> set SUMMARY_FIELDS. fst e \<notin> ?names" by code_simp
  moreover have "f \<notin> ?names" using bspec [OF calculation(2) assms] by (simp only: fst_conv not_False_eq_True)
  ultimately have "f \<notin> fst ` set (scheduler_context spider redis)" by (meson subsetD)
  then have "dget (run_summary elapsed st (scheduler_context spider redis)) f = dget (map (\<lambda>(k, v). (k, Inl v)) (as_summary_dict elapsed st)) f"
    unfolding run_summary_def by (rule dget_foldl_dset)
  also have "\<dots> = map_option Inl (dget (as_summary_dict elapsed st) f)"
    by (rule dget_map_values)
  finally show ?thesis unfolding dget_summary_fields [OF assms] by simp
qed

section \<open>Progress reports\<close>

text \<open>The gauges of the exporter (\<open>None\<close>: no exporter), and what the last report saw.\<close>

record metrics =
  me_last_ok :: int
  me_last_ts :: time
  me_gauges :: "(string, int) pydict option"

definition gauges_update :: "(string, int) pydict \<Rightarrow> (string, int) pydict \<Rightarrow> (string, int) pydict" where
  "gauges_update g vals = foldl (\<lambda>g (k, v). dset g k v) g vals"

fun run_probes :: "(string \<times> ('w \<Rightarrow> int res \<times> 'w)) list \<Rightarrow> 'w \<Rightarrow> (string, int) pydict res \<times> 'w" where
  "run_probes [] w = (Inr [], w)"
| "run_probes ((nm, p) # ps) w =
     (case p w of
        (Inl e, w1) \<Rightarrow> (Inl e, w1)
      | (Inr v, w1) \<Rightarrow> (case run_probes ps w1 of (Inl e, w2) \<Rightarrow> (Inl e, w2) | (Inr g, w2) \<Rightarrow> (Inr ((nm, v) # g), w2)))"

text \<open>\<open>_tick\<close> answers the rate it reports.\<close>

definition tick_report :: "(string \<times> ('w \<Rightarrow> int res \<times> 'w)) list \<Rightarrow> stats \<Rightarrow> time \<Rightarrow> metrics \<Rightarrow> 'w \<Rightarrow> real res \<times> metrics \<times> 'w" where
  "tick_report probes st now m w =
     (case run_probes probes w of
        (Inl e, w1) \<Rightarrow> (Inl e, m, w1)
      | (Inr g, w1) \<Rightarrow>
          (let ok = stats_get st ''request_ok'';
               rate = (if now > me_last_ts m then of_int (ok - me_last_ok m) / (now - me_last_ts m) else 0)
           in (Inr rate, m\<lparr>me_last_ok := ok, me_last_ts := now,
                 me_gauges := map_option (\<lambda>gs. gauges_update gs (st @ g)) (me_gauges m)\<rparr>, w1)))"

text \<open>\<open>run\<close>: a report per interval until the stop event; an exception leaves the loop and ends the thread.\<close>

fun report_loop :: "(string \<times> ('w \<Rightarrow> int res \<times> 'w)) list \<Rightarrow> (stats \<times> time) list \<Rightarrow> metrics \<Rightarrow> 'w \<Rightarrow> (time \<times> real) list \<times> metrics \<times> 'w" where
  "report_loop probes [] m w = ([], m, w)"
| "report_loop probes ((st, now) # evs) m w =
     (case tick_report probes st now m w of
        (Inl e, m1, w1) \<Rightarrow> ([], m1, w1)
      | (Inr rate, m1, w1) \<Rightarrow> (case report_loop probes evs m1 w1 of (rs, m2, w2) \<Rightarrow> ((now, rate) # rs, m2, w2)))"

text \<open>The reported rates, each over its interval, add up to the pages that were fetched.\<close>

fun reported_pages :: "time \<Rightarrow> (time \<times> real) list \<Rightarrow> real" where
  "reported_pages t0 [] = 0"
| "reported_pages t0 ((t, r) # rs) = r * (t - t0) + reported_pages t rs"

lemma rates_add_up:
  assumes "sorted_wrt (<) (me_last_ts m # map snd evs)"
  shows "reported_pages (me_last_ts m) (fst (report_loop probes evs m w)) = of_int (me_last_ok (fst (snd (report_loop probes evs m w))) - me_last_ok m)"
  using assms
proof (induction evs arbitrary: m w)
  case (Cons e evs)
  obtain st now where e: "e = (st, now)" by force
  have lt: "me_last_ts m < now" using Cons.prems by (simp add: e)
  obtain x m1 w1 where t: "tick_report probes st now m w = (x, m1, w1)" by (metis prod.collapse)
  show ?case
  proof (cases x)
    case (Inl err)
    then show ?thesis using t by (auto simp: e tick_report_def Let_def split: prod.splits sum.splits)
  next
    case (Inr rate)
    then have m1: "me_last_ts m1 = now" "rate * (now - me_last_ts m) = of_int (me_last_ok m1 - me_last_ok m)"
      using t lt by (auto simp: tick_report_def Let_def split: prod.splits sum.splits)
    have "reported_pages now (fst (report_loop probes evs m1 w1)) = of_int (me_last_ok (fst (snd (report_loop probes evs m1 w1))) - me_last_ok m1)"
      using Cons.IH [of m1 w1] Cons.prems m1(1) by (simp add: e)
    then show ?thesis using t Inr m1(2) by (simp add: e prod.case_eq_if)
  qed
qed simp

text \<open>A single failing probe (the length of the Redis queue) ends the reports for the rest of the run.\<close>

lemma probe_error_ends_reports:
  "p w = (Inl e, w1) \<Longrightarrow> fst (report_loop [(''queue_depth'', p)] ((st, t) # evs) m w) = []"
  by (simp add: tick_report_def)

section \<open>\<open>tools.retry\<close>\<close>

text \<open>\<open>catches\<close>: the exceptions to retry on.  The second component of the answer counts the calls.\<close>

function retry_from :: "int \<Rightarrow> (exn \<Rightarrow> bool) \<Rightarrow> ('w \<Rightarrow> 'a res \<times> 'w) \<Rightarrow> int \<Rightarrow> 'w \<Rightarrow> 'a res \<times> nat \<times> 'w" where
  "retry_from n catches f attempt w =
     (case f w of
        (Inr x, w1) \<Rightarrow> (Inr x, 1, w1)
      | (Inl e, w1) \<Rightarrow>
          if \<not> catches e then (Inl e, 1, w1)
          else if attempt + 1 > n then (Inl e, 1, w1)
          else (case retry_from n catches f (attempt + 1) w1 of (r, k, w2) \<Rightarrow> (r, Suc k, w2)))"
  by pat_completeness auto
termination
  by (relation "measure (\<lambda>(n, _, _, attempt, _). nat (n - attempt))") auto

declare retry_from.simps [simp del]

definition retry_call :: "int \<Rightarrow> (exn \<Rightarrow> bool) \<Rightarrow> ('w \<Rightarrow> 'a res \<times> 'w) \<Rightarrow> 'w \<Rightarrow> 'a res \<times> nat \<times> 'w" where
  "retry_call n catches f = retry_from n catches f 0"

text \<open>The state after \<open>k\<close> calls.\<close>

fun after_calls :: "('w \<Rightarrow> 'a res \<times> 'w) \<Rightarrow> nat \<Rightarrow> 'w \<Rightarrow> 'w" where
  "after_calls f 0 w = w"
| "after_calls f (Suc k) w = after_calls f k (snd (f w))"

lemma retry_from_calls:
  assumes "retry_from n catches f attempt w = (r, k, w')"
  shows "1 \<le> k \<and> int k \<le> max 1 (n - attempt + 1) \<and> w' = after_calls f k w \<and> fst (f (after_calls f (k - 1) w)) = r
    \<and> (\<forall>j < k - 1. \<exists>e. fst (f (after_calls f j w)) = Inl e \<and> catches e)
    \<and> (\<forall>e. r = Inl e \<and> catches e \<longrightarrow> int k = max 1 (n - attempt + 1))"
  using assms
proof (induction n catches f attempt w arbitrary: r k w' rule: retry_from.induct)
  case (1 n catches f attempt w)
  obtain x w1 where f: "f w = (x, w1)" by force
  show ?case
  proof (cases "\<exists>e. x = Inl e \<and> catches e \<and> \<not> attempt + 1 > n")
    case False
    then have "r = x \<and> k = 1 \<and> w' = w1 \<and> (\<forall>e. x = Inl e \<and> catches e \<longrightarrow> attempt + 1 > n)"
      using "1.prems" f by (subst (asm) retry_from.simps) (auto split: sum.splits if_splits)
    then show ?thesis using f by auto
  next
    case True
    then obtain e where e: "x = Inl e" "catches e" "\<not> attempt + 1 > n" by blast
    obtain r1 k1 w2 where rec: "retry_from n catches f (attempt + 1) w1 = (r1, k1, w2)" by (metis prod.collapse)
    have eq: "r = r1" "k = Suc k1" "w' = w2"
      using "1.prems" f e rec by (subst (asm) retry_from.simps; simp)+
    have ih: "1 \<le> k1 \<and> int k1 \<le> max 1 (n - (attempt + 1) + 1) \<and> w2 = after_calls f k1 w1 \<and> fst (f (after_calls f (k1 - 1) w1)) = r1
        \<and> (\<forall>j < k1 - 1. \<exists>e. fst (f (after_calls f j w1)) = Inl e \<and> catches e)
        \<and> (\<forall>e. r1 = Inl e \<and> catches e \<longrightarrow> int k1 = max 1 (n - (attempt + 1) + 1))"
      using "1.IH" f e rec by auto
    have step: "after_calls f (Suc j) w = after_calls f j w1" for j using f by simp
    have "\<exists>e. fst (f (after_calls f j w)) = Inl e \<and> catches e" if "j < k - 1" for j
    proof (cases j)
      case 0
      then show ?thesis using f e by auto
    next
      case (Suc i)
      then show ?thesis using ih that eq(2) step by auto
    qed
    moreover have "fst (f (after_calls f (k - 1) w)) = r" using ih eq step [of "k1 - 1"] by simp
    moreover have "w' = after_calls f k w" using ih eq step by simp
    ultimately show ?thesis using ih eq e(3) by (auto simp: max_def split: if_splits)
  qed
qed

text \<open>
  \<open>retry(times=n)\<close>: at most \<open>n + 1\<close> calls, all but the last failed with a caught exception, the answer is that of the last call,
  and it gives up on a caught exception only after all \<open>n + 1\<close> calls.
\<close>

lemma retry_bounded:
  assumes "retry_call n catches f w = (r, k, w')" "0 \<le> n"
  shows "1 \<le> k \<and> int k \<le> n + 1 \<and> fst (f (after_calls f (k - 1) w)) = r \<and> (\<forall>e. r = Inl e \<and> catches e \<longrightarrow> int k = n + 1)"
  using retry_from_calls [of n catches f 0 w r k w'] assms by (auto simp: retry_call_def)

section \<open>\<open>tools.load_object\<close>\<close>

text \<open>\<open>path.rpartition(".")\<close>: the last dot; importing the module and finding the name in it are arguments.\<close>

fun rpartition_dot :: "string \<Rightarrow> (string \<times> string) option" where
  "rpartition_dot [] = None"
| "rpartition_dot (c # cs) =
     (case rpartition_dot cs of
        Some (a, b) \<Rightarrow> Some (c # a, b)
      | None \<Rightarrow> if c = CHR ''.'' then Some ([], cs) else None)"

definition load_object :: "(string \<Rightarrow> (string \<rightharpoonup> 'o) res) \<Rightarrow> string \<Rightarrow> 'o res" where
  "load_object import_module path =
     (case rpartition_dot path of
        None \<Rightarrow> Inl (raise_of PyValueError)
      | Some (m, nm) \<Rightarrow>
          (case import_module m of
             Inl e \<Rightarrow> Inl e
           | Inr ns \<Rightarrow> (case ns nm of None \<Rightarrow> Inl (raise_of PyOtherError) | Some ob \<Rightarrow> Inr ob)))"

lemma rpartition_dot_parts: "rpartition_dot s = Some (a, b) \<Longrightarrow> s = a @ ''.'' @ b \<and> CHR ''.'' \<notin> set b"
proof (induction s arbitrary: a b)
  case (Cons c cs)
  have none: "CHR ''.'' \<notin> set t" if "rpartition_dot t = None" for t
    using that by (induction t) (auto split: option.splits if_splits)
  show ?case using Cons none [of cs] by (auto split: option.splits if_splits)
qed simp

end
