(* ===== verification/Shared_Objects.thy ===== *)
theory Shared_Objects
  imports Downloader
begin

text \<open>
  The objects a process shares between its threads and builds when they are first asked for: the default downloaders
  (\<^verbatim>\<open>get_default_downloader\<close> and \<^verbatim>\<open>close_default_downloaders\<close> of \<^verbatim>\<open>netspy/network/downloader/__init__.py\<close>) and the proxy pool
  (\<^verbatim>\<open>netspy/network/proxy_pool/__init__.py\<close>).  Both look into a table without a lock, take the lock when the entry is missing, look
  again and build; closing takes everything out of the table under the lock and closes it afterwards.  A state is the table, the
  holder of the lock and where every thread stands; a step is one action of one thread, and \<open>None\<close> when it cannot happen.
  Objects are numbered in the order in which they were built.
\<close>

section \<open>Which downloader\<close>

datatype backend = Playwright | Curl bool | AsyncHttpx | Httpx bool

definition starts_with_curl :: "string \<Rightarrow> bool" where
  "starts_with_curl k = (take 4 k = ''curl'')"

text \<open>\<open>_build\<close>: the class, and \<open>use_session\<close> where it has that argument.\<close>

definition build_downloader :: "setting \<Rightarrow> string \<Rightarrow> request \<Rightarrow> backend" where
  "build_downloader cfg key r =
     (if key = ''playwright'' then Playwright
      else if starts_with_curl key then Curl (wants_session cfg r)
      else if key = ''async'' then AsyncHttpx
      else Httpx (wants_session cfg r))"

text \<open>Sharing is sound: a downloader built for one request is the one that any other request with its key would have got.\<close>

lemma shared_downloader_fits:
  assumes "downloader_key cfg r = downloader_key cfg r'"
  shows "build_downloader cfg (downloader_key cfg r) r = build_downloader cfg (downloader_key cfg r') r'"
  using assms by (auto simp: downloader_key_def build_downloader_def starts_with_curl_def split: if_splits)

section \<open>Threads and steps\<close>

datatype asking =
    Outside
  | Missed string | Inside string | Building string
  | Holds string nat | NoObject
  | Shutting "nat list"

record shared =
  sh_table :: "(string, nat) pydict"
  sh_lock :: "nat option"
  sh_threads :: "asking list"
  sh_built :: "string list"
  sh_closed :: "nat list"
  sh_dropped :: "nat list"
  sh_clears :: nat

text \<open>
  \<open>sh_built\<close>, \<open>sh_closed\<close>, \<open>sh_dropped\<close> and \<open>sh_clears\<close> are histories: the key of every object, the objects closed, the objects a failing
  close left open, and how often the table was emptied.
\<close>

definition nothing_shared :: "nat \<Rightarrow> shared" where
  "nothing_shared n = \<lparr>sh_table = [], sh_lock = None, sh_threads = replicate n Outside, sh_built = [], sh_closed = [], sh_dropped = [], sh_clears = 0\<rparr>"

definition goes :: "nat \<Rightarrow> asking \<Rightarrow> shared \<Rightarrow> shared" where
  "goes t a s = s\<lparr>sh_threads := (sh_threads s)[t := a]\<rparr>"

text \<open>Where a thread stands; a thread that does not exist takes no step.\<close>

definition stands :: "shared \<Rightarrow> nat \<Rightarrow> asking option" where
  "stands s t = (if t < length (sh_threads s) then Some (sh_threads s ! t) else None)"

text \<open>The look without the lock; \<open>get_proxy_pool\<close> answers \<open>None\<close> instead when \<open>PROXY_ENABLE\<close> is off.\<close>

definition first_look :: "nat \<Rightarrow> string \<Rightarrow> shared \<Rightarrow> shared option" where
  "first_look t k s =
     (if stands s t = Some Outside then Some (goes t (case dget (sh_table s) k of Some ob \<Rightarrow> Holds k ob | None \<Rightarrow> Missed k) s) else None)"

definition no_pool :: "nat \<Rightarrow> shared \<Rightarrow> shared option" where
  "no_pool t s = (if stands s t = Some Outside then Some (goes t NoObject s) else None)"

text \<open>Under the lock: enter, look again, build.  Building may raise; the lock is given back then, too.\<close>

definition enter_lock :: "nat \<Rightarrow> shared \<Rightarrow> shared option" where
  "enter_lock t s =
     (case stands s t of
        Some (Missed k) \<Rightarrow> if sh_lock s = None then Some ((goes t (Inside k) s)\<lparr>sh_lock := Some t\<rparr>) else None
      | _ \<Rightarrow> None)"

definition second_look :: "nat \<Rightarrow> shared \<Rightarrow> shared option" where
  "second_look t s =
     (case stands s t of
        Some (Inside k) \<Rightarrow> (case dget (sh_table s) k of
            Some ob \<Rightarrow> Some ((goes t (Holds k ob) s)\<lparr>sh_lock := None\<rparr>)
          | None \<Rightarrow> Some (goes t (Building k) s))
      | _ \<Rightarrow> None)"

definition build_shared :: "nat \<Rightarrow> bool \<Rightarrow> shared \<Rightarrow> shared option" where
  "build_shared t ok s =
     (case stands s t of
        Some (Building k) \<Rightarrow>
          (if ok then (let ob = length (sh_built s)
                       in Some ((goes t (Holds k ob) s)\<lparr>sh_lock := None, sh_table := dset (sh_table s) k ob, sh_built := sh_built s @ [k]\<rparr>))
           else Some ((goes t Outside s)\<lparr>sh_lock := None\<rparr>))
      | _ \<Rightarrow> None)"

text \<open>The caller is done with its object.\<close>

definition leave :: "nat \<Rightarrow> shared \<Rightarrow> shared option" where
  "leave t s =
     (case stands s t of Some (Holds k ob) \<Rightarrow> Some (goes t Outside s) | Some NoObject \<Rightarrow> Some (goes t Outside s) | _ \<Rightarrow> None)"

text \<open>
  Closing: the values are copied and the table is emptied under the lock.  (A look without the lock that falls between the two
  sees what a look just before sees.)  Then the objects are closed one by one; an exception ends the loop.
\<close>

definition clear_table :: "nat \<Rightarrow> shared \<Rightarrow> shared option" where
  "clear_table t s =
     (if stands s t = Some Outside \<and> sh_lock s = None
      then Some ((goes t (Shutting (map snd (sh_table s))) s)\<lparr>sh_table := [], sh_clears := sh_clears s + 1\<rparr>) else None)"

definition close_next :: "nat \<Rightarrow> bool \<Rightarrow> shared \<Rightarrow> shared option" where
  "close_next t ok s =
     (case stands s t of
        Some (Shutting (ob # obs)) \<Rightarrow>
          (if ok then Some ((goes t (Shutting obs) s)\<lparr>sh_closed := sh_closed s @ [ob]\<rparr>)
           else Some ((goes t Outside s)\<lparr>sh_dropped := sh_dropped s @ ob # obs\<rparr>))
      | Some (Shutting []) \<Rightarrow> Some (goes t Outside s)
      | _ \<Rightarrow> None)"

datatype shared_event =
    Ask nat string | AskNothing nat | EnterLock nat | SecondLook nat | Build nat bool | Leave nat | Clear nat | CloseNext nat bool

fun shared_step :: "shared_event \<Rightarrow> shared \<Rightarrow> shared option" where
  "shared_step (Ask t k) s = first_look t k s"
| "shared_step (AskNothing t) s = no_pool t s"
| "shared_step (EnterLock t) s = enter_lock t s"
| "shared_step (SecondLook t) s = second_look t s"
| "shared_step (Build t ok) s = build_shared t ok s"
| "shared_step (Leave t) s = leave t s"
| "shared_step (Clear t) s = clear_table t s"
| "shared_step (CloseNext t ok) s = close_next t ok s"

text \<open>
  The first step of \<open>get_proxy_pool\<close>, whose table has one key, and of \<open>get_default_downloader\<close>, which looks under the key of the
  request.  Pool and downloaders have a table and a lock each: each is a state of its own.
\<close>

definition pool_key :: string where "pool_key = ''pool''"

definition ask_pool :: "setting \<Rightarrow> nat \<Rightarrow> shared_event" where
  "ask_pool cfg t = (if PROXY_ENABLE cfg then Ask t pool_key else AskNothing t)"

definition ask_downloader :: "setting \<Rightarrow> nat \<Rightarrow> request \<Rightarrow> shared_event" where
  "ask_downloader cfg t r = Ask t (downloader_key cfg r)"

text \<open>A schedule; an event that cannot happen is skipped, so every list of events is one.\<close>

fun shared_run :: "shared_event list \<Rightarrow> shared \<Rightarrow> shared" where
  "shared_run [] s = s"
| "shared_run (e # es) s = shared_run es (case shared_step e s of None \<Rightarrow> s | Some s' \<Rightarrow> s')"

section \<open>Every object is somewhere\<close>

fun shutting :: "asking \<Rightarrow> nat list" where
  "shutting (Shutting obs) = obs"
| "shutting _ = []"

definition objects :: "shared \<Rightarrow> nat multiset" where
  "objects s = mset (map snd (sh_table s)) + mset (concat (map shutting (sh_threads s))) + mset (sh_closed s) + mset (sh_dropped s)"

lemma standsD: "stands s t = Some a \<Longrightarrow> t < length (sh_threads s) \<and> sh_threads s ! t = a"
  by (auto simp: stands_def split: if_splits)

lemma goes_sel [simp]:
  "sh_table (goes t a s) = sh_table s" "sh_lock (goes t a s) = sh_lock s" "sh_threads (goes t a s) = (sh_threads s)[t := a]"
  "sh_built (goes t a s) = sh_built s" "sh_closed (goes t a s) = sh_closed s" "sh_dropped (goes t a s) = sh_dropped s" "sh_clears (goes t a s) = sh_clears s"
  by (simp_all add: goes_def)

lemma mset_shutting:
  assumes "t < length xs"
  shows "mset (concat (map shutting (xs[t := a]))) + mset (shutting (xs ! t)) = mset (concat (map shutting xs)) + mset (shutting a)"
  using assms
proof (induction xs arbitrary: t)
  case (Cons x xs)
  then show ?case by (cases t) (auto simp: ac_simps)
qed simp

lemma mset_dset_new: "dget d k = None \<Longrightarrow> image_mset snd (mset (dset d k v)) = add_mset v (image_mset snd (mset d))"
  by (induction d k v rule: dset.induct) (auto split: if_splits)

lemma stands_goes [simp]: "stands (goes t a s) u = (if u = t \<and> stands s t \<noteq> None then Some a else stands s u)"
  by (auto simp: stands_def)

lemma stands_updates [simp]:
  "stands (s\<lparr>sh_lock := l\<rparr>) u = stands s u" "stands (s\<lparr>sh_table := d\<rparr>) u = stands s u" "stands (s\<lparr>sh_built := b\<rparr>) u = stands s u"
  "stands (s\<lparr>sh_closed := c\<rparr>) u = stands s u" "stands (s\<lparr>sh_dropped := c\<rparr>) u = stands s u" "stands (s\<lparr>sh_clears := n\<rparr>) u = stands s u"
  by (simp_all add: stands_def)

lemmas shared_steps = first_look_def no_pool_def enter_lock_def second_look_def build_shared_def leave_def clear_table_def close_next_def Let_def

text \<open>What a step does to a thread and to the rest, event by event.\<close>

lemma shared_step_cases:
  assumes "shared_step e s = Some s'"
  obtains (move) t a b where "stands s t = Some a" "shutting a = []" "shutting b = []" "s' = goes t b s"
      "\<And>k. b = Inside k \<Longrightarrow> False" "\<And>k. b = Building k \<Longrightarrow> a = Inside k \<and> dget (sh_table s) k = None"
      "\<And>k ob. b = Holds k ob \<Longrightarrow> dget (sh_table s) k = Some ob"
    | (lock) t k where "stands s t = Some (Missed k)" "sh_lock s = None" "s' = (goes t (Inside k) s)\<lparr>sh_lock := Some t\<rparr>"
    | (unlock) t k b where "stands s t = Some (Inside k) \<or> stands s t = Some (Building k)" "s' = (goes t b s)\<lparr>sh_lock := None\<rparr>"
        "b = Outside \<or> (\<exists>ob. b = Holds k ob \<and> dget (sh_table s) k = Some ob)"
    | (build) t k where "stands s t = Some (Building k)"
        "s' = (goes t (Holds k (length (sh_built s))) s)
           \<lparr>sh_lock := None, sh_table := dset (sh_table s) k (length (sh_built s)), sh_built := sh_built s @ [k]\<rparr>"
    | (clear) t where "stands s t = Some Outside" "sh_lock s = None"
        "s' = (goes t (Shutting (map snd (sh_table s))) s)\<lparr>sh_table := [], sh_clears := sh_clears s + 1\<rparr>"
    | (closed) t ob obs where "stands s t = Some (Shutting (ob # obs))" "s' = (goes t (Shutting obs) s)\<lparr>sh_closed := sh_closed s @ [ob]\<rparr>"
    | (dropped) t obs where "stands s t = Some (Shutting obs)" "s' = (goes t Outside s)\<lparr>sh_dropped := sh_dropped s @ obs\<rparr>" "obs \<noteq> []"
proof (cases e)
  case (Ask t k)
  then have st: "stands s t = Some Outside" using assms by (auto simp: shared_steps split: if_splits)
  show thesis
  proof (cases "dget (sh_table s) k")
    case None
    with assms Ask st show thesis by (intro move [of t Outside "Missed k"]) (auto simp: shared_steps)
  next
    case (Some ob)
    with assms Ask st show thesis by (intro move [of t Outside "Holds k ob"]) (auto simp: shared_steps)
  qed
next
  case (AskNothing t)
  with assms show thesis by (intro move [of t Outside NoObject]) (auto simp: shared_steps split: if_splits)
next
  case (EnterLock t)
  with assms show thesis by (auto simp: shared_steps split: option.splits asking.splits if_splits intro: lock)
next
  case (SecondLook t)
  then obtain k where k: "stands s t = Some (Inside k)" using assms by (auto simp: shared_steps split: option.splits asking.splits)
  show thesis
  proof (cases "dget (sh_table s) k")
    case None
    then show thesis using assms SecondLook k by (intro move [of t "Inside k" "Building k"]) (auto simp: shared_steps)
  next
    case (Some ob)
    then show thesis using assms SecondLook k by (intro unlock [of t k "Holds k ob"]) (auto simp: shared_steps)
  qed
next
  case (Build t ok)
  then obtain k where k: "stands s t = Some (Building k)" using assms by (auto simp: shared_steps split: option.splits asking.splits)
  with assms Build show thesis by (cases ok) (auto simp: shared_steps intro: build unlock [of t k Outside])
next
  case (Leave t)
  then obtain a where "stands s t = Some a" "shutting a = []" "s' = goes t Outside s"
    using assms by (auto simp: shared_steps split: option.splits asking.splits)
  then show thesis by (intro move [of t a Outside]) auto
next
  case (Clear t)
  with assms show thesis by (auto simp: shared_steps split: if_splits intro: clear)
next
  case (CloseNext t ok)
  then obtain obs where k: "stands s t = Some (Shutting obs)" using assms by (auto simp: shared_steps split: option.splits asking.splits)
  with assms CloseNext show thesis
    by (cases obs; cases ok) (auto simp: shared_steps intro: move [of t "Shutting []" Outside] closed dropped)
qed

text \<open>The lock is held by the thread inside, and what it builds is missing from the table.\<close>

definition lock_ok :: "shared \<Rightarrow> bool" where
  "lock_ok s = (\<forall>t k. (stands s t = Some (Inside k) \<longrightarrow> sh_lock s = Some t)
     \<and> (stands s t = Some (Building k) \<longrightarrow> sh_lock s = Some t \<and> dget (sh_table s) k = None))"

lemma lock_okD:
  "lock_ok s \<Longrightarrow> stands s t = Some (Inside k) \<Longrightarrow> sh_lock s = Some t"
  "lock_ok s \<Longrightarrow> stands s t = Some (Building k) \<Longrightarrow> sh_lock s = Some t"
  "lock_ok s \<Longrightarrow> stands s t = Some (Building k) \<Longrightarrow> dget (sh_table s) k = None"
  unfolding lock_ok_def by blast+

lemma step_lock_ok:
  assumes "shared_step e s = Some s'" "lock_ok s"
  shows "lock_ok s'"
  using assms(1)
proof (cases rule: shared_step_cases)
  case (move t a b)
  then show ?thesis unfolding lock_ok_def by (auto dest: lock_okD [OF assms(2)])
next
  case (unlock t k b)
  then have "sh_lock s = Some t" by (auto dest: lock_okD [OF assms(2)])
  with unlock show ?thesis unfolding lock_ok_def by (auto dest: lock_okD [OF assms(2)])
next
  case (build t k)
  then have "sh_lock s = Some t" by (auto dest: lock_okD [OF assms(2)])
  with build show ?thesis unfolding lock_ok_def by (auto dest: lock_okD [OF assms(2)])
qed (auto simp: lock_ok_def dest: lock_okD [OF assms(2)])

text \<open>Tables and threads name objects by the key they were built under.\<close>

definition keys_ok :: "shared \<Rightarrow> bool" where
  "keys_ok s = (\<forall>k ob. (\<exists>t. stands s t = Some (Holds k ob)) \<or> dget (sh_table s) k = Some ob \<longrightarrow> ob < length (sh_built s) \<and> sh_built s ! ob = k)"

lemma keys_okD:
  "keys_ok s \<Longrightarrow> stands s t = Some (Holds k ob) \<Longrightarrow> ob < length (sh_built s) \<and> sh_built s ! ob = k"
  "keys_ok s \<Longrightarrow> dget (sh_table s) k = Some ob \<Longrightarrow> ob < length (sh_built s) \<and> sh_built s ! ob = k"
  unfolding keys_ok_def by blast+

lemma step_keys_ok:
  assumes "shared_step e s = Some s'" "keys_ok s"
  shows "keys_ok s'"
  using assms(1)
proof (cases rule: shared_step_cases)
  case (build t k)
  then show ?thesis unfolding keys_ok_def
    by (auto simp: nth_append split: if_splits dest: keys_okD [OF assms(2)])
qed (auto simp: keys_ok_def split: if_splits dest: keys_okD [OF assms(2)])

text \<open>Under one key at most one object is built between two closes.\<close>

definition counts_ok :: "shared \<Rightarrow> bool" where
  "counts_ok s = (\<forall>k. count_list (sh_built s) k \<le> sh_clears s + (if dget (sh_table s) k = None then 0 else 1))"

lemma step_counts_ok:
  assumes "shared_step e s = Some s'" "lock_ok s" "counts_ok s"
  shows "counts_ok s'"
  using assms(1)
proof (cases rule: shared_step_cases)
  case (build t k)
  have "dget (sh_table s) k = None" by (rule lock_okD(3) [OF assms(2) build(1)])
  then have "count_list (sh_built s) k \<le> sh_clears s" using assms(3) [unfolded counts_ok_def, THEN spec, of k] by simp
  then have "count_list (sh_built s') j \<le> sh_clears s' + (if dget (sh_table s') j = None then 0 else 1)" for j
    using assms(3) [unfolded counts_ok_def, THEN spec, of j] unfolding build(2) by (auto split: if_splits)
  then show ?thesis unfolding counts_ok_def by blast
next
  case (clear t)
  show ?thesis unfolding counts_ok_def
  proof
    fix k
    have "count_list (sh_built s) k \<le> sh_clears s + (if dget (sh_table s) k = None then 0 else 1)"
      using assms(3) by (simp add: counts_ok_def)
    then show "count_list (sh_built s') k \<le> sh_clears s' + (if dget (sh_table s') k = None then 0 else 1)"
      using clear(3) by (auto split: if_splits)
  qed
qed (use assms(3) in \<open>auto simp: counts_ok_def\<close>)

lemma objects_goes:
  assumes "stands s t = Some a"
  shows "objects (goes t b s) + mset (shutting a) = objects s + mset (shutting b)"
  using mset_shutting [of t "sh_threads s" b] standsD [OF assms] by (simp add: objects_def ac_simps)

lemma step_objects:
  assumes "shared_step e s = Some s'" "lock_ok s" "objects s = mset [0..<length (sh_built s)]"
  shows "objects s' = mset [0..<length (sh_built s')]"
  using assms(1)
proof (cases rule: shared_step_cases)
  case (move t a b)
  then show ?thesis using objects_goes [OF move(1), of b] assms(3) by simp
next
  case (lock t k)
  then show ?thesis using objects_goes [OF lock(1), of "Inside k"] assms(3) by (simp add: objects_def)
next
  case (unlock t k b)
  then have "shutting b = []" by auto
  then show ?thesis using unlock objects_goes [of s t "Inside k" b] objects_goes [of s t "Building k" b] assms(3) by (auto simp: objects_def)
next
  case (build t k)
  then show ?thesis using objects_goes [OF build(1), of "Holds k (length (sh_built s))"] assms(3) lock_okD(3) [OF assms(2) build(1)]
    by (simp add: objects_def mset_dset_new)
next
  case (clear t)
  then show ?thesis using objects_goes [OF clear(1), of "Shutting (map snd (sh_table s))"] assms(3) by (simp add: objects_def ac_simps)
next
  case (closed t ob obs)
  then have "objects s' = add_mset ob (objects (goes t (Shutting obs) s))" by (simp add: objects_def)
  then show ?thesis using objects_goes [OF closed(1), of "Shutting obs"] assms(3) closed(2) by simp
next
  case (dropped t obs)
  then have "objects s' = objects (goes t Outside s) + mset obs" by (simp add: objects_def)
  then show ?thesis using objects_goes [OF dropped(1), of Outside] assms(3) dropped(2) by simp
qed

lemma shared_run_ok:
  assumes "lock_ok s" "keys_ok s" "counts_ok s" "objects s = mset [0..<length (sh_built s)]"
  shows "keys_ok (shared_run es s) \<and> counts_ok (shared_run es s)
    \<and> objects (shared_run es s) = mset [0..<length (sh_built (shared_run es s))]"
  using assms
proof (induction es arbitrary: s)
  case (Cons e es)
  show ?case
  proof (cases "shared_step e s")
    case None
    then show ?thesis using Cons by simp
  next
    case (Some s')
    note st = step_lock_ok [OF Some Cons.prems(1)] step_keys_ok [OF Some Cons.prems(2)] step_counts_ok [OF Some Cons.prems(1,3)]
      step_objects [OF Some Cons.prems(1,4)]
    show ?thesis using Cons.IH [OF st] Some by simp
  qed
qed simp

lemma stands_nothing [simp]: "stands (nothing_shared n) t = (if t < n then Some Outside else None)"
  by (simp add: stands_def nothing_shared_def)

lemma nothing_shared_ok:
  "lock_ok (nothing_shared n)" "keys_ok (nothing_shared n)" "counts_ok (nothing_shared n)"
  "objects (nothing_shared n) = mset [0..<length (sh_built (nothing_shared n))]"
  by (simp_all add: lock_ok_def keys_ok_def counts_ok_def objects_def) (simp_all add: nothing_shared_def)

section \<open>What every schedule keeps\<close>

text \<open>
  Between two closes an object is built at most once per key, however many threads ask at once; an object a thread has got was
  built under the key it asked for; and every object that was ever built is in exactly one place: in the table, on the list of a
  thread that is closing, closed, or left open by a close that raised.
\<close>

theorem shared_objects_accounted:
  defines "after \<equiv> \<lambda>es n. shared_run es (nothing_shared n)"
  shows "count_list (sh_built (after es n)) k \<le> sh_clears (after es n) + 1"
    and "objects (after es n) = mset [0..<length (sh_built (after es n))]"
    and "stands (after es n) t = Some (Holds k ob) \<Longrightarrow> ob < length (sh_built (after es n)) \<and> sh_built (after es n) ! ob = k"
proof -
  note ok = shared_run_ok [OF nothing_shared_ok, of es n]
  show "count_list (sh_built (after es n)) k \<le> sh_clears (after es n) + 1"
    using ok by (auto simp: after_def counts_ok_def intro: order_trans)
  show "objects (after es n) = mset [0..<length (sh_built (after es n))]" using ok by (simp add: after_def)
  show "ob < length (sh_built (after es n)) \<and> sh_built (after es n) ! ob = k" if "stands (after es n) t = Some (Holds k ob)"
    using keys_okD(1) that ok by (auto simp: after_def)
qed

text \<open>Without a close in between, threads that ask for one key share one object.\<close>

lemma count_list_twice: "i < j \<Longrightarrow> j < length xs \<Longrightarrow> xs ! i = k \<Longrightarrow> xs ! j = k \<Longrightarrow> 2 \<le> count_list xs k"
proof (induction xs arbitrary: i j)
  case (Cons x xs)
  obtain j' where j: "j = Suc j'" using Cons.prems(1) by (cases j) auto
  show ?case
  proof (cases i)
    case 0
    have "k \<in> set xs" using Cons.prems j nth_mem [of j' xs] by auto
    then have "0 < count_list xs k" by (metis count_notin count_list_0_iff neq0_conv)
    then show ?thesis using 0 Cons.prems by simp
  next
    case (Suc i')
    then show ?thesis using Cons.IH [of i' j'] Cons.prems j by simp
  qed
qed simp

theorem threads_share_one_object:
  assumes "sh_clears (shared_run es (nothing_shared n)) = 0"
    and "stands (shared_run es (nothing_shared n)) t = Some (Holds k ob)"
    and "stands (shared_run es (nothing_shared n)) u = Some (Holds k ob')"
  shows "ob = ob'"
proof (rule ccontr)
  let ?s = "shared_run es (nothing_shared n)"
  assume "ob \<noteq> ob'"
  then have "2 \<le> count_list (sh_built ?s) k"
    using shared_objects_accounted(3) [OF assms(2)] shared_objects_accounted(3) [OF assms(3)]
      count_list_twice [of ob ob' "sh_built ?s" k] count_list_twice [of ob' ob "sh_built ?s" k] by (cases "ob < ob'") auto
  then show False using shared_objects_accounted(1) [of es n k] assms(1) by simp
qed

text \<open>With the pool enabled no caller of \<open>get_proxy_pool\<close> is told that there is none, whoever closes the pool meanwhile.\<close>

lemma enabled_pool_is_found:
  assumes "PROXY_ENABLE cfg" "\<And>e. e \<in> set es \<Longrightarrow> (\<exists>t. e = ask_pool cfg t) \<or> (\<forall>t. e \<noteq> AskNothing t)"
  shows "stands (shared_run es (nothing_shared n)) t \<noteq> Some NoObject"
proof -
  have step: "\<forall>t. stands s' t \<noteq> Some NoObject" if "shared_step e s = Some s'" "\<forall>t. stands s t \<noteq> Some NoObject" "\<forall>t. e \<noteq> AskNothing t" for e s s'
    using that by (cases e) (auto simp: shared_steps split: option.splits asking.splits if_splits list.splits)
  have "\<forall>t. stands (shared_run es s) t \<noteq> Some NoObject" if "\<forall>t. stands s t \<noteq> Some NoObject" "\<forall>e\<in>set es. \<forall>t. e \<noteq> AskNothing t" for s
    using that by (induction es arbitrary: s) (auto split: option.splits dest: step)
  moreover have "\<forall>e\<in>set es. \<forall>t. e \<noteq> AskNothing t" using assms by (auto simp: ask_pool_def)
  ultimately show ?thesis by simp
qed

section \<open>What the lock does not give\<close>

text \<open>A downloader that a thread has got can be closed before the thread uses it.\<close>

lemma closed_before_use:
  "let s = shared_run [Ask 0 ''httpx'', EnterLock 0, SecondLook 0, Build 0 True, Clear 1, CloseNext 1 True] (nothing_shared 2)
   in stands s 0 = Some (Holds ''httpx'' 0) \<and> 0 \<in> set (sh_closed s)"
  by code_simp

text \<open>A worker that is still running when the downloaders have been closed builds a new one, which nobody closes.\<close>

lemma late_worker_leaves_one_open:
  "let s = shared_run [Clear 1, CloseNext 1 True, Ask 0 ''httpx'', EnterLock 0, SecondLook 0, Build 0 True, Leave 0] (nothing_shared 2)
   in sh_table s = [(''httpx'', 0)] \<and> sh_threads s = [Outside, Outside] \<and> sh_closed s = []"
  by code_simp

text \<open>A close that raises leaves the rest open and forgotten.\<close>

lemma failing_close_forgets_rest:
  "let s = shared_run [Ask 0 ''curl'', EnterLock 0, SecondLook 0, Build 0 True, Leave 0, Ask 0 ''httpx'', EnterLock 0, SecondLook 0, Build 0 True,
       Clear 1, CloseNext 1 False] (nothing_shared 2)
   in sh_dropped s = [0, 1] \<and> sh_table s = [] \<and> sh_closed s = []"
  by code_simp

end
