(* ===== verification/Startup.thy ===== *)
theory Startup
  imports Scheduler
begin

text \<open>
  How a spider is put together and started: the names the spider classes (\<^verbatim>\<open>netspy/core/spiders\<close>) derive and hand to their
  scheduler, the threads a node starts and stops (\<^verbatim>\<open>base_scheduler.py\<close>), and what a distributed node does and says before the
  first request (\<^verbatim>\<open>_on_start\<close>, \<^verbatim>\<open>_explain_skipped_seed\<close> and the warnings of \<^verbatim>\<open>redis_scheduler.py\<close>).  A logged line that a user acts on is
  a value; its wording is left out.
\<close>

section \<open>Spider classes\<close>

text \<open>\<open>x or d\<close> for a string that may be missing.\<close>

definition or_else :: "string option \<Rightarrow> string \<Rightarrow> string" where
  "or_else x d = (case x of Some (c # cs) \<Rightarrow> c # cs | _ \<Rightarrow> d)"

text \<open>\<open>Spider\<close>: the scheduler of the class with the name \<open>cls\<close>; \<open>prefix\<close> is \<open>REDIS_KEY_PREFIX\<close>, \<open>node\<close> the generated name of the node.\<close>

definition spider_sched :: "setting \<Rightarrow> string \<Rightarrow> string \<Rightarrow> string option \<Rightarrow> bool option \<Rightarrow> string \<Rightarrow> sched res" where
  "spider_sched cfg prefix cls redis_key keep_alive node = new_sched cfg prefix (or_else redis_key cls) keep_alive None node"

definition task_source_key :: "string \<Rightarrow> string \<Rightarrow> string" where
  "task_source_key prefix name = prefix @ '':'' @ name @ '':tasks''"

text \<open>\<open>TaskSpider\<close>: the key its tasks come from, and its scheduler; the key \<open>push_tasks\<close>, a class method, writes to.\<close>

definition task_spider :: "setting \<Rightarrow> string \<Rightarrow> string \<Rightarrow> string option \<Rightarrow> string option \<Rightarrow> bool option \<Rightarrow> string \<Rightarrow> string \<times> sched res" where
  "task_spider cfg prefix cls redis_key task_key keep_alive node =
     (let rk = or_else redis_key cls
      in (task_source_key prefix (or_else task_key rk), new_sched cfg prefix rk keep_alive None node))"

definition push_key :: "string \<Rightarrow> string \<Rightarrow> string option \<Rightarrow> string" where
  "push_key prefix cls task_key = task_source_key prefix (or_else task_key cls)"

text \<open>\<open>BatchSpider\<close>: the namespace its master works in, the task table, and the scheduler of its workers, which has no run of its own.\<close>

record batch_spider =
  bs_ns :: string
  bs_table :: string
  bs_interval :: real
  bs_sched :: "sched res"

definition batch_spider_of :: "setting \<Rightarrow> string \<Rightarrow> real \<Rightarrow> string \<Rightarrow> string option \<Rightarrow> string option \<Rightarrow> string option \<Rightarrow> real option \<Rightarrow> bool option
    \<Rightarrow> string \<Rightarrow> batch_spider" where
  "batch_spider_of cfg prefix default_interval cls class_table redis_key task_table interval keep_alive node =
     (let rk = or_else redis_key cls;
          keep = (case keep_alive of None \<Rightarrow> SPIDER_KEEP_ALIVE cfg | Some b \<Rightarrow> b)
      in \<lparr>bs_ns = prefix @ '':'' @ rk, bs_table = or_else task_table (or_else class_table (to_snake rk)),
          bs_interval = (case interval of None \<Rightarrow> default_interval | Some i \<Rightarrow> i),
          bs_sched = new_sched cfg prefix rk (Some keep) (Some []) node\<rparr>)"

text \<open>What a producer pushes with the \<open>task_key\<close> of the consumer is what the consumer reads; without one, only if the consumer keeps the name of its class.\<close>

lemma producer_meets_consumer:
  "fst (task_spider cfg prefix cls rk tk keep node) = push_key prefix cls tk \<longleftrightarrow> or_else tk [] \<noteq> [] \<or> or_else rk cls = cls"
  by (auto simp: task_spider_def push_key_def task_source_key_def or_else_def Let_def split: option.splits list.splits)

text \<open>Whatever \<open>RUN_ID\<close> says, the workers of a batch work in the namespace of its master; a \<open>Spider\<close> would move to one of its own.\<close>

lemma batch_worker_meets_master:
  assumes "bs_sched (batch_spider_of cfg prefix d cls ct rk tt i keep node) = Inr sc"
  shows "sc_ns sc = bs_ns (batch_spider_of cfg prefix d cls ct rk tt i keep node)" "dedup_ns sc = sc_ns sc"
  using assms
  by (auto simp: batch_spider_of_def new_sched_def dedup_ns_def Let_def split: sum.splits)

section \<open>Threads\<close>

datatype thread_name = RequestThread | ItemThread | WorkerThread nat | MetricsThread

datatype thread_op = Start thread_name | Stop thread_name | Join thread_name

text \<open>\<open>1 if DEBUG else (thread_count or SPIDER_THREAD_COUNT)\<close>\<close>

definition node_threads :: "setting \<Rightarrow> bool \<Rightarrow> int option \<Rightarrow> int" where
  "node_threads cfg debug thread_count =
     (if debug then 1 else case thread_count of Some n \<Rightarrow> if n \<noteq> 0 then n else SPIDER_THREAD_COUNT cfg | None \<Rightarrow> SPIDER_THREAD_COUNT cfg)"

definition start_threads :: "int \<Rightarrow> bool \<Rightarrow> thread_op list" where
  "start_threads n metrics =
     [Start RequestThread, Start ItemThread] @ map (\<lambda>i. Start (WorkerThread i)) [0..<nat n] @ (if metrics then [Start MetricsThread] else [])"

definition stop_workers :: "int \<Rightarrow> thread_op list" where
  "stop_workers n = map (\<lambda>i. Stop (WorkerThread i)) [0..<nat n] @ map (\<lambda>i. Join (WorkerThread i)) [0..<nat n]"

definition stop_metrics :: "bool \<Rightarrow> thread_op list" where
  "stop_metrics metrics = (if metrics then [Stop MetricsThread, Join MetricsThread] else [])"

definition stop_buffers :: "thread_op list" where
  "stop_buffers = [Stop RequestThread, Stop ItemThread, Join RequestThread, Join ItemThread]"

text \<open>The three steps of the teardown together tell every thread that was started to stop, and wait for it after that.\<close>

lemma started_threads_are_stopped:
  assumes "Start t \<in> set (start_threads n metrics)"
  shows "\<exists>a b c. stop_workers n @ stop_metrics metrics @ stop_buffers = a @ Stop t # b @ Join t # c"
proof -
  let ?f = "\<lambda>i. Stop (WorkerThread i)" and ?g = "\<lambda>i. Join (WorkerThread i)"
  consider (req) "t = RequestThread" | (item) "t = ItemThread" | (met) "t = MetricsThread" "metrics" | (worker) i where "t = WorkerThread i" "i < nat n"
    using assms by (auto simp: start_threads_def split: if_splits)
  then show ?thesis
  proof cases
    case req
    then show ?thesis
      by (intro exI [of _ "stop_workers n @ stop_metrics metrics"] exI [of _ "[Stop ItemThread]"] exI [of _ "[Join ItemThread]"])
        (simp add: stop_buffers_def)
  next
    case item
    then show ?thesis
      by (intro exI [of _ "stop_workers n @ stop_metrics metrics @ [Stop RequestThread]"] exI [of _ "[Join RequestThread]"] exI [of _ "[]"])
        (simp add: stop_buffers_def)
  next
    case met
    then show ?thesis
      by (intro exI [of _ "stop_workers n"] exI [of _ "[]"] exI [of _ stop_buffers]) (simp add: stop_metrics_def)
  next
    case worker
    then have "Stop t \<in> set (map ?f [0..<nat n])" "Join t \<in> set (map ?g [0..<nat n])" by auto
    then obtain a b c d where "map ?f [0..<nat n] = a @ Stop t # b" "map ?g [0..<nat n] = c @ Join t # d" by (meson split_list)
    then show ?thesis
      by (intro exI [of _ a] exI [of _ "b @ c"] exI [of _ "d @ stop_metrics metrics @ stop_buffers"]) (simp add: stop_workers_def)
  qed
qed

section \<open>Warnings\<close>

datatype start_note = DedupIsPerProcess | NodesLookDead | LeasesRunOut | OthersSeed | RunIsOver int int | CrossRunDedup

definition dedup_warning :: "setting \<Rightarrow> start_note list" where
  "dedup_warning cfg = (if ascii_lower (DEDUP_FILTER cfg) \<in> {''memory'', ''lite''} then [DedupIsPerProcess] else [])"

definition timing_warnings :: "setting \<Rightarrow> start_note list" where
  "timing_warnings cfg =
     (if HEARTBEAT_STALE cfg \<le> HEARTBEAT_INTERVAL cfg then [NodesLookDead] else [])
     @ (if 0 < SPIDER_TASK_LEASE cfg \<and> SPIDER_TASK_LEASE cfg \<le> HEARTBEAT_INTERVAL cfg then [LeasesRunOut] else [])"

text \<open>
  No warning means: at every moment up to the next beat, which comes after the interval and what the beat before took, the entry of the
  node is fresh and the leases it renewed run, as long as a beat takes less than the room left (and the millisecond the entry is
  rounded to).
\<close>

lemma quiet_timing_is_safe:
  assumes "timing_warnings cfg = []" "0 \<le> t" "later \<le> t + HEARTBEAT_INTERVAL cfg + took"
    and "took + 1 / 1000 < HEARTBEAT_STALE cfg - HEARTBEAT_INTERVAL cfg"
    and "0 < SPIDER_TASK_LEASE cfg \<Longrightarrow> took + 1 / 1000 < SPIDER_TASK_LEASE cfg - HEARTBEAT_INTERVAL cfg"
  shows "beat_alive cfg later (beat_value t n)"
    and "0 < SPIDER_TASK_LEASE cfg \<Longrightarrow> later < fmt3 (t + SPIDER_TASK_LEASE cfg)"
proof -
  have "t - 1 / 2000 \<le> fmt3 t" using fmt3_bound [of t] unfolding abs_le_iff by linarith
  then show "beat_alive cfg later (beat_value t n)" using assms(3,4) by (simp add: beat_value_read [OF assms(2)])
  have "t + SPIDER_TASK_LEASE cfg - 1 / 2000 \<le> fmt3 (t + SPIDER_TASK_LEASE cfg)" using fmt3_bound [of "t + SPIDER_TASK_LEASE cfg"] unfolding abs_le_iff by linarith
  then show "later < fmt3 (t + SPIDER_TASK_LEASE cfg)" if "0 < SPIDER_TASK_LEASE cfg" using assms(3,5) that by simp
qed

text \<open>With the warning the room is gone: an entry whose next beat comes in time can be taken for dead before it.\<close>

lemma warned_node_looks_dead:
  assumes "HEARTBEAT_STALE cfg < HEARTBEAT_INTERVAL cfg" "0 \<le> t" "fmt3 t = t"
  shows "\<exists>later < t + HEARTBEAT_INTERVAL cfg. \<not> beat_alive cfg later (beat_value t n)"
  using assms by (intro exI [of _ "t + (HEARTBEAT_STALE cfg + HEARTBEAT_INTERVAL cfg) / 2"]) (simp add: beat_value_read field_simps)

section \<open>The start of a distributed node\<close>

text \<open>
  \<open>_on_start\<close>: the warnings, the entry in the list of runs, the lifetimes of the keys.  The heartbeat thread it starts then beats, first
  at once and then after every interval, at the moments given with what the node holds then.
\<close>

definition on_start :: "'s redis \<Rightarrow> setting \<Rightarrow> sched \<Rightarrow> filter_obj list \<Rightarrow> time \<Rightarrow> 's \<Rightarrow> start_note list \<times> 's" where
  "on_start R cfg sc dedups now s =
     (dedup_warning cfg @ timing_warnings cfg @ (if sc_run_id sc \<noteq> [] \<and> sc_scope sc = ''spider'' then [CrossRunDedup] else []),
      touch_run_keys R cfg sc dedups (register_run R sc now s))"

definition heartbeat_run :: "'s redis \<Rightarrow> setting \<Rightarrow> sched \<Rightarrow> filter_obj list \<Rightarrow> (time \<times> nat \<times> coll) list \<Rightarrow> 's \<Rightarrow> 's" where
  "heartbeat_run R cfg sc dedups beats s = fold (\<lambda>(now, pending, c). beat R cfg sc dedups now pending c) beats s"

text \<open>The task scheduler starts a poller on top and has no seeds; on shutdown it stops the poller first.\<close>

definition new_poller :: poller where
  "new_poller = \<lparr>po_exhausted = False, po_empty_polls = 0\<rparr>"

definition task_on_start :: "'s redis \<Rightarrow> setting \<Rightarrow> sched \<Rightarrow> filter_obj list \<Rightarrow> time \<Rightarrow> 's \<Rightarrow> start_note list \<times> poller \<times> 's" where
  "task_on_start R cfg sc dedups now s = (case on_start R cfg sc dedups now s of (ns, s1) \<Rightarrow> (ns, new_poller, s1))"

definition task_seed :: "'s redis \<Rightarrow> setting \<Rightarrow> sched \<Rightarrow> (filter_obj \<times> 's) benv \<Rightarrow> replay_io \<Rightarrow> nat
    \<Rightarrow> (filter_obj \<times> 's) node \<Rightarrow> unit res \<times> (filter_obj \<times> 's) node" where
  "task_seed R cfg sc B io o' nd = replay_and_flush R cfg sc B io o' nd"

text \<open>
  \<open>_explain_skipped_seed\<close>; \<open>ttl\<close> is the command of that name, seconds left as an integer, not positive without an expiry.  The
  conditions are asked for one after the other, and an exception of any counts as "not stale".
\<close>

definition explain_skipped_seed :: "'s redis \<Rightarrow> (string \<Rightarrow> 's \<Rightarrow> int) \<Rightarrow> setting \<Rightarrow> sched \<Rightarrow> time \<Rightarrow> 's \<Rightarrow> start_note \<times> 's" where
  "explain_skipped_seed R ttl cfg sc now s =
     (case rcall R (rask (ttl (seed_key sc))) s of
        (Inl _, s1) \<Rightarrow> (OthersSeed, s1)
      | (Inr left, s1) \<Rightarrow>
          (let age = SPIDER_SEED_LOCK_TTL cfg - left in
           if left \<le> 0 \<or> of_int age \<le> SPIDER_STARTUP_GRACE cfg then (OthersSeed, s1)
           else case rq_empty R (sc_ns sc) s1 of
             (Inr True, s2) \<Rightarrow>
               (case rq_inflight_count R (sc_ns sc) s2 of
                  (Inr k, s3) \<Rightarrow>
                    if k \<noteq> 0 then (OthersSeed, s3)
                    else (case live_node_count R cfg sc now s3 of
                            (Inr l, s4) \<Rightarrow> (if l = 0 then RunIsOver age left else OthersSeed, s4)
                          | (Inl _, s4) \<Rightarrow> (OthersSeed, s4))
                | (Inl _, s3) \<Rightarrow> (OthersSeed, s3))
           | (_, s2) \<Rightarrow> (OthersSeed, s2)))"

context redis_server
begin

text \<open>The explanation only reads, and it calls a crawl finished only when its queue is empty, nothing is on lease and no node has a fresh entry.\<close>

lemma explain_reads: "view (snd (explain_skipped_seed R ttl cfg sc now s)) = view s"
proof -
  have ask: "view s' = view st" if "rcall R (rask f) st = (x, s')" for f st x s'
    using rcall_ask_view [of "rask f" st] that by simp
  have cnt: "view s' = view st" if "rq_empty R n st = (x, s')" for n st x s'
    using that ask [of _ st] by (auto simp: rq_empty_def rq_qsize_def split: prod.splits)
  have lnc: "view s' = view st" if "live_node_count R cfg sc now st = (x, s')" for st x s'
    using that ask [of _ st] by (auto simp: live_node_count_def split: prod.splits sum.splits)
  show ?thesis
    unfolding explain_skipped_seed_def rq_inflight_count_def Let_def
    by (auto split: prod.splits sum.splits bool.splits dest!: ask cnt lnc)
qed

lemma explain_finished:
  assumes "fst (explain_skipped_seed R ttl cfg sc now s) = RunIsOver age left"
  shows "zsets (view s) (queue_key (sc_ns sc)) = Map.empty" "zsets (view s) (inflight_key (sc_ns sc)) = Map.empty"
    and "\<And>v. v \<in> ran (hashes (view s) (heartbeat_key sc)) \<Longrightarrow> \<not> beat_alive cfg now v"
proof -
  have cnt: "view s2 = view s1" "zsets (view s1) (queue_key n) = Map.empty" if "rq_empty R n s1 = (Inr True, s2)" for n s1 s2
  proof -
    have k: "rcall R (rask (zcard R (queue_key n))) s1 = (Inr 0, s2)"
      using that by (auto simp: rq_empty_def rq_qsize_def map_sum_Inr_iff split: prod.splits)
    then show "view s2 = view s1" "zsets (view s1) (queue_key n) = Map.empty"
      using rcall_Inr [OF k] by (auto simp: zset_empty_iff)
  qed
  have ttl: "view s2 = view s1" if "rcall R (rask (ttl k)) s1 = (Inr x, s2)" for k s1 x s2
    using rcall_Inr [OF that] by auto
  have inf: "view s2 = view s1" "zsets (view s1) (inflight_key n) = Map.empty" if "rq_inflight_count R n s1 = (Inr 0, s2)" for n s1 s2
    using rcall_Inr [OF that [unfolded rq_inflight_count_def]] by (auto simp: zset_empty_iff)
  have live: "\<not> beat_alive cfg now v" if "live_node_count R cfg sc now s1 = (Inr 0, s2)" "v \<in> ran (hashes (view s1) (heartbeat_key sc))" for s1 s2 v
  proof -
    obtain x t where x: "rcall R (rask (hvals_cmd R (heartbeat_key sc))) s1 = (x, t)" by force
    with that(1) obtain vs where v: "rcall R (rask (hvals_cmd R (heartbeat_key sc))) s1 = (Inr vs, s2)" "filter (beat_alive cfg now) vs = []"
      by (cases x) (simp_all add: live_node_count_def)
    then have "set vs = ran (hashes (view s1) (heartbeat_key sc))" using rcall_Inr [OF v(1)] hvals_val by auto
    then show ?thesis using v(2) that(2) by (auto simp: filter_empty_conv)
  qed
  obtain s1 s2 s3 s4 where "rcall R (rask (ttl (seed_key sc))) s = (Inr left, s1)" "rq_empty R (sc_ns sc) s1 = (Inr True, s2)"
      "rq_inflight_count R (sc_ns sc) s2 = (Inr 0, s3)" "live_node_count R cfg sc now s3 = (Inr 0, s4)"
    using assms unfolding explain_skipped_seed_def Let_def
    by (auto split: prod.splits sum.splits bool.splits if_splits)
  note r = this
  have v: "view s1 = view s" "view s2 = view s" "view s3 = view s" using ttl [OF r(1)] cnt(1) [OF r(2)] inf(1) [OF r(3)] by simp_all
  show "zsets (view s) (queue_key (sc_ns sc)) = Map.empty" "zsets (view s) (inflight_key (sc_ns sc)) = Map.empty"
    using cnt(2) [OF r(2)] inf(2) [OF r(3)] v by simp_all
  show "\<not> beat_alive cfg now x" if "x \<in> ran (hashes (view s) (heartbeat_key sc))" for x
    using live [OF r(4), of x] that v by simp
qed

text \<open>
  With \<open>RUN_ID\<close> every beat gives the seed lock the lifetime \<open>RUN_TTL\<close>.  The age computed from it is too small, by the difference of the two
  lifetimes, so a finished run is not recognised before that difference has passed.
\<close>

lemma fold_expire_str:
  assumes "k \<in> set ks" "live_str (view s) k = Some v" "0 < t"
  shows "strs (view (fold (\<lambda>k st. snd (expire_cmd R k t st)) ks s)) k = Some (v, clock (view s) + t)"
proof -
  have ev: "clock (view (snd (expire_cmd R j t st))) = clock (view st)"
    "live_str (view (snd (expire_cmd R j t st))) k = live_str (view st) k"
    "strs (view (snd (expire_cmd R j t st))) k = (if j = k \<and> live_str (view st) k = Some v then Some (v, clock (view st) + t) else strs (view st) k)"
    if "live_str (view st) k = Some v" for j st
    using that assms(3) by (auto simp: expire_view live_str_def split: option.splits if_splits prod.splits)
  have keep: "strs (view (fold (\<lambda>k st. snd (expire_cmd R k t st)) js st)) k = Some (v, clock (view st) + t)"
    if "strs (view st) k = Some (v, clock (view st) + t)" for js st
    using that
  proof (induction js arbitrary: st)
    case (Cons j js)
    have l: "live_str (view st) k = Some v" using Cons.prems assms(3) by (simp add: live_str_def)
    show ?case using Cons.IH [of "snd (expire_cmd R j t st)"] Cons.prems ev [OF l, of j] by simp
  qed simp
  show ?thesis
    using assms(1,2)
  proof (induction ks arbitrary: s)
    case (Cons j ks)
    then show ?case
      using ev [OF Cons.prems(2), of j] keep [of "snd (expire_cmd R j t s)" ks] by (cases "j = k") simp_all
  qed simp
qed

lemma run_id_hides_finished_run:
  assumes "sc_run_id sc \<noteq> []" "live_str (view s) (seed_key sc) = Some v" "fst (conn R s) = Answered" "0 < RUN_TTL cfg"
    and ttl: "\<And>k st v e. strs (view st) k = Some (v, e) \<Longrightarrow> clock (view st) < e \<Longrightarrow> e - clock (view st) - 1 \<le> of_int (ttl k st)"
    and later: "strs (view s2) (seed_key sc) = strs (view (touch_run_keys R cfg sc dedups s)) (seed_key sc)"
      "clock (view s2) - clock (view s) + 1 \<le> of_int (RUN_TTL cfg - SPIDER_SEED_LOCK_TTL cfg) + SPIDER_STARTUP_GRACE cfg"
      "clock (view s2) - clock (view s) < of_int (RUN_TTL cfg)"
  shows "fst (explain_skipped_seed R ttl cfg sc now s2) = OthersSeed"
proof -
  let ?f = "fold (\<lambda>k st. snd (expire_cmd R k (of_int (RUN_TTL cfg)) st)) (run_keys sc dedups)"
  obtain s1 where s1: "view s1 = view s" "rcall R (rdo ?f) s = (Inr (fst (rdo ?f s1)), snd (rdo ?f s1))"
    by (rule rcall_answered [OF assms(3), of "rdo ?f"])
  then have t: "touch_run_keys R cfg sc dedups s = ?f s1" using assms(1) by (simp add: touch_run_keys_def)
  have "strs (view s2) (seed_key sc) = Some (v, clock (view s) + of_int (RUN_TTL cfg))"
    using fold_expire_str [of "seed_key sc" "run_keys sc dedups" s1 v "of_int (RUN_TTL cfg)"] assms(2,4) later(1) s1(1) t by (simp add: run_keys_def)
  then have left: "clock (view s) + of_int (RUN_TTL cfg) - clock (view s2) - 1 \<le> of_int (ttl (seed_key sc) st)" if "view st = view s2" for st
    using ttl [of st "seed_key sc" v "clock (view s) + of_int (RUN_TTL cfg)"] that later(3) by simp
  show ?thesis
  proof (cases "rcall R (rask (ttl (seed_key sc))) s2")
    case (Pair x s3)
    show ?thesis
    proof (cases x)
      case (Inr n)
      obtain st where "view st = view s2" "ttl (seed_key sc) st = n" using rcall_Inr [OF Pair [unfolded Inr]] by auto
      then have "of_int (SPIDER_SEED_LOCK_TTL cfg - n) \<le> SPIDER_STARTUP_GRACE cfg" using left [of st] later(2) by simp
      then show ?thesis using Pair Inr by (simp add: explain_skipped_seed_def)
    qed (simp add: explain_skipped_seed_def Pair)
  qed
qed

end

end
