(* ===== verification/Scaffold.thy ===== *)
theory Scaffold
  imports Net_Item Py_Str
begin

text \<open>
  \<^verbatim>\<open>netspy/commands/create/__init__.py\<close>: the names derived from the name the user gives, the files that \<^verbatim>\<open>netspy create\<close> writes and its
  refusal to write over existing ones.  Rendering a template (Jinja) is an argument; the file system is a map from paths to
  contents, a directory exists when a file is below it.  Letters are ASCII letters.
\<close>

section \<open>Names\<close>

definition upper_char :: "char \<Rightarrow> char" where
  "upper_char c = (let n = (of_char c :: nat) in if 97 \<le> n \<and> n \<le> 122 then char_of (n - 32) else c)"

definition is_lower :: "char \<Rightarrow> bool" where
  "is_lower c = (let n = (of_char c :: nat) in 97 \<le> n \<and> n \<le> 122)"

text \<open>\<open>re.sub(r"[\s-]+", "_", name)\<close>; the flag: the last character was replaced.\<close>

fun squash :: "bool \<Rightarrow> string \<Rightarrow> string" where
  "squash run [] = []"
| "squash run (c # cs) =
     (if is_space c \<or> c = CHR ''-'' then (if run then squash True cs else CHR ''_'' # squash True cs) else c # squash False cs)"

definition strip_underscores :: "string \<Rightarrow> string" where
  "strip_underscores s = rev (dropWhile (\<lambda>c. c = CHR ''_'') (rev (dropWhile (\<lambda>c. c = CHR ''_'') s)))"

definition snake_name :: "string \<Rightarrow> string" where
  "snake_name name = strip_underscores (to_snake (squash False (strip name)))"

text \<open>\<open>re.split(r"[\s_-]+", name)\<close>\<close>

definition is_sep :: "char \<Rightarrow> bool" where
  "is_sep c = (is_space c \<or> c = CHR ''_'' \<or> c = CHR ''-'')"

function split_name :: "string \<Rightarrow> string list" where
  "split_name [] = [[]]"
| "split_name (c # cs) =
     (if is_sep c then [] # split_name (dropWhile is_sep cs)
      else (case split_name cs of [] \<Rightarrow> [[c]] | p # ps \<Rightarrow> (c # p) # ps))"
  by pat_completeness auto
termination
  by (relation "measure length") (auto simp: less_Suc_eq_le length_dropWhile_le)

definition capitalized :: "string \<Rightarrow> string" where
  "capitalized p = (case p of [] \<Rightarrow> [] | c # cs \<Rightarrow> upper_char c # cs)"

definition islower :: "string \<Rightarrow> bool" where
  "islower p = (list_ex is_lower p \<and> \<not> list_ex is_upper p)"

definition camel_name :: "string \<Rightarrow> string" where
  "camel_name name =
     (let parts = split_name (strip name)
      in if length parts = 1 \<and> \<not> islower (hd parts) then capitalized (hd parts) else concat (map capitalized (filter (\<lambda>p. p \<noteq> []) parts)))"

definition ends_with :: "string \<Rightarrow> string \<Rightarrow> bool" where
  "ends_with s suf = (length suf \<le> length s \<and> drop (length s - length suf) s = suf)"

definition spider_names :: "string \<Rightarrow> string \<times> string" where
  "spider_names name =
     (let c = camel_name name; cls = (if ends_with c ''Spider'' then c else c @ ''Spider'') in (cls, snake_name cls))"

text \<open>\<open>re.sub(r"_item$", "", module) or module\<close>\<close>

definition item_names :: "string \<Rightarrow> string \<times> string \<times> string" where
  "item_names name =
     (let c = camel_name name; cls = (if ends_with c ''Item'' then c else c @ ''Item''); m = snake_name cls;
          cut = (if ends_with m ''_item'' then take (length m - 5) m else m)
      in (cls, m, if cut = [] then m else cut))"

section \<open>Writing\<close>

type_synonym files = "string \<Rightarrow> string option"
type_synonym renderer = "string \<Rightarrow> (string \<times> string) list \<Rightarrow> string"

definition write_file :: "bool \<Rightarrow> string \<Rightarrow> string \<Rightarrow> files \<Rightarrow> unit res \<times> files" where
  "write_file force path content fs =
     (if fs path \<noteq> None \<and> \<not> force then (Inl (raise_of PyOSError), fs) else (Inr (), fs(path \<mapsto> content)))"

definition slash :: "string \<Rightarrow> string \<Rightarrow> string" where
  "slash a b = a @ ''/'' @ b"

definition create_spider :: "renderer \<Rightarrow> string \<Rightarrow> string \<Rightarrow> bool \<Rightarrow> files \<Rightarrow> string res \<times> files" where
  "create_spider rnd name dir force fs =
     (case spider_names name of (cls, m) \<Rightarrow>
       (let table = snd (snd (item_names name)); path = slash dir (m @ ''.py'')
        in case write_file force path (rnd ''air_spider.py.jinja'' [(''class_name'', cls), (''table_name'', table)]) fs of
             (Inl e, fs1) \<Rightarrow> (Inl e, fs1) | (Inr _, fs1) \<Rightarrow> (Inr path, fs1)))"

text \<open>One row of \<^verbatim>\<open>SHOW FULL COLUMNS\<close>: field, key, comment (\<open>None\<close>: NULL).\<close>

type_synonym column = "string \<times> string \<times> string option"

definition one_line :: "string \<Rightarrow> string" where
  "one_line s = strip (map (\<lambda>c. if c = CHR 0x0A then CHR '' '' else c) s)"

definition reflect_table :: "column list \<Rightarrow> ((string \<times> string) list \<times> string list) res" where
  "reflect_table rows =
     (if rows = [] then Inl (raise_of PyValueError)
      else Inr (map (\<lambda>(f, _, c). (f, one_line (case c of None \<Rightarrow> [] | Some t \<Rightarrow> t))) rows, map fst (filter (\<lambda>(_, k, _). k = ''PRI'') rows)))"

text \<open>\<open>create_item\<close>: \<open>table\<close> with the answer of the database when one is named; \<open>render_fields\<close> is the template with the columns.\<close>

definition create_item :: "renderer \<Rightarrow> (string \<Rightarrow> string \<Rightarrow> (string \<times> string) list \<Rightarrow> string list \<Rightarrow> string) \<Rightarrow> string \<Rightarrow> string
    \<Rightarrow> (string \<times> column list res) option \<Rightarrow> bool \<Rightarrow> files \<Rightarrow> string res \<times> files" where
  "create_item rnd render_fields name dir table force fs =
     (case item_names name of (cls, m, derived) \<Rightarrow>
       (let path = slash dir (m @ ''.py'');
            content = (case table of
              None \<Rightarrow> Inr (rnd ''item.py.jinja'' [(''class_name'', cls), (''table_name'', derived)])
            | Some (t, answer) \<Rightarrow>
                (case answer of Inl e \<Rightarrow> Inl e
                 | Inr rows \<Rightarrow> (case reflect_table rows of Inl e \<Rightarrow> Inl e | Inr (fds, unique) \<Rightarrow> Inr (render_fields cls t fds unique))))
        in case content of
             Inl e \<Rightarrow> (Inl e, fs)
           | Inr text' \<Rightarrow>
               (case write_file force path text' fs of (Inl e, fs1) \<Rightarrow> (Inl e, fs1) | (Inr _, fs1) \<Rightarrow> (Inr path, fs1))))"

definition create_setting :: "renderer \<Rightarrow> string \<Rightarrow> bool \<Rightarrow> files \<Rightarrow> string res \<times> files" where
  "create_setting rnd dir force fs =
     (let path = slash dir ''setting.py''
      in case write_file force path (rnd ''setting.py.jinja'' [(''project_name'', ''netspy'')]) fs of
           (Inl e, fs1) \<Rightarrow> (Inl e, fs1) | (Inr _, fs1) \<Rightarrow> (Inr path, fs1))"

text \<open>\<open>root.exists() and any(root.iterdir())\<close>: something is below the root; a file of that name has no entries to list and raises.\<close>

definition below :: "string \<Rightarrow> string \<Rightarrow> bool" where
  "below dir p = (\<exists>r. p = slash dir r)"

definition project_files :: "renderer \<Rightarrow> string \<Rightarrow> (string \<times> string) list" where
  "project_files rnd name =
     (case spider_names name of (cls, m) \<Rightarrow>
       (let project = snake_name name; p = (''project_name'', project); sm = (''spider_module'', m); sc = (''spider_class'', cls)
        in [(''main.py'', rnd ''project/main.py.jinja'' [p, sm, sc]), (''setting.py'', rnd ''setting.py.jinja'' [p]),
            (''README.md'', rnd ''project/README.md.jinja'' [p, sm]), (''spiders/__init__.py'', []),
            (slash ''spiders'' (m @ ''.py''), rnd ''project/spider.py.jinja'' [p, sc]), (''items/__init__.py'', [])]))"

text \<open>\<open>populated\<close>: whether something is below the root (what the directory listing says).\<close>

definition create_project :: "renderer \<Rightarrow> string \<Rightarrow> bool \<Rightarrow> bool \<Rightarrow> files \<Rightarrow> string res \<times> files" where
  "create_project rnd name force populated fs =
     (if fs name \<noteq> None \<or> populated \<and> \<not> force then (Inl (raise_of PyOSError), fs)
      else (Inr name, fold (\<lambda>(rel, content) fs1. snd (write_file True (slash name rel) content fs1)) (project_files rnd name) fs))"

section \<open>Nothing is written over\<close>

lemma write_file_keeps: "\<not> force \<Longrightarrow> write_file force path content fs = (r, fs') \<Longrightarrow> fs p = Some c \<Longrightarrow> fs' p = Some c"
  by (auto simp: write_file_def split: if_splits)

lemma create_keeps_files:
  assumes "fs p = Some c"
  shows "snd (create_spider rnd name dir False fs) p = Some c"
    "snd (create_item rnd render_fields name dir table False fs) p = Some c"
    "snd (create_setting rnd dir False fs) p = Some c"
proof -
  have w: "snd (write_file False path content fs) p = Some c" for path content
    using write_file_keeps [of False path content fs _ _ p c] assms by (metis prod.collapse)
  have s: "snd (case x of (Inl e, fs1) \<Rightarrow> (Inl e, fs1) | (Inr _, fs1) \<Rightarrow> (Inr y, fs1)) = snd x" for x :: "unit res \<times> files" and y :: string
    by (simp split: prod.split sum.split)
  show "snd (create_spider rnd name dir False fs) p = Some c"
    using w by (simp add: create_spider_def Let_def s split: prod.split)
  show "snd (create_setting rnd dir False fs) p = Some c"
    using w by (simp add: create_setting_def Let_def s)
  show "snd (create_item rnd render_fields name dir table False fs) p = Some c"
    using w assms by (simp add: create_item_def Let_def s split: prod.split sum.split)
qed

lemma project_writes:
  "fold (\<lambda>(rel, content) fs1. snd (write_file True (slash name rel) content fs1)) files fs p
     = (case map_of (rev (map (\<lambda>(rel, content). (slash name rel, content)) files)) p of None \<Rightarrow> fs p | Some c \<Rightarrow> Some c)"
  by (induction files arbitrary: fs) (auto simp: write_file_def split: option.splits)

lemma create_project_keeps:
  assumes "populated \<longleftrightarrow> (\<exists>q. below name q \<and> fs q \<noteq> None)" "fs p = Some c"
  shows "snd (create_project rnd name False populated fs) p = Some c"
proof (cases "fst (create_project rnd name False populated fs) = Inr name")
  case True
  then have "\<not> populated" by (auto simp: create_project_def split: if_splits)
  then have "\<not> below name p" using assms by auto
  then have "map_of (rev (map (\<lambda>(rel, content). (slash name rel, content)) fls)) p = None" for fls :: "(string \<times> string) list"
    by (auto simp: map_of_eq_None_iff below_def)
  then show ?thesis using assms(2) \<open>\<not> populated\<close> by (simp add: create_project_def project_writes)
qed (use assms(2) in \<open>auto simp: create_project_def split: if_splits\<close>)

text \<open>The main program of a new project finds its spider: the module it imports is one of the files written.\<close>

lemma project_has_its_spider:
  assumes "create_project rnd name force populated fs = (Inr r, fs')" "spider_names name = (cls, m)"
  shows "fs' (slash name (slash ''spiders'' (m @ ''.py''))) \<noteq> None"
proof -
  have "(slash name (slash ''spiders'' (m @ ''.py'')), rnd ''project/spider.py.jinja'' [(''project_name'', snake_name name), (''spider_class'', cls)])
      \<in> set (rev (map (\<lambda>(rel, content). (slash name rel, content)) (project_files rnd name)))"
    using assms(2) by (simp add: project_files_def Let_def)
  from imageI [OF this, of fst]
  have m: "map_of (rev (map (\<lambda>(rel, content). (slash name rel, content)) (project_files rnd name))) (slash name (slash ''spiders'' (m @ ''.py''))) \<noteq> None"
    unfolding map_of_eq_None_iff by simp
  have "fs' = fold (\<lambda>(rel, content) fs1. snd (write_file True (slash name rel) content fs1)) (project_files rnd name) fs"
    using assms(1) by (auto simp: create_project_def split: if_splits)
  then show ?thesis using m by (simp only: project_writes option.case_eq_if) simp
qed

section \<open>The names are usable\<close>

lemma ends_with_append [simp]: "ends_with (s @ suf) suf"
  by (simp add: ends_with_def)

lemma spider_class_suffix: "ends_with (fst (spider_names name)) ''Spider''"
  by (simp add: spider_names_def Let_def)

lemma item_class_suffix: "ends_with (fst (item_names name)) ''Item''"
  by (simp add: item_names_def Let_def)

lemma item_table_nonempty: "item_names name = (cls, m, t) \<Longrightarrow> m \<noteq> [] \<Longrightarrow> t \<noteq> []"
  by (auto simp: item_names_def Let_def split: if_splits)

lemma set_strip_underscores: "set (strip_underscores s) \<subseteq> set s"
  by (auto simp: strip_underscores_def dest!: set_dropWhileD)

lemma squash_chars: "c \<in> set (squash b s) \<Longrightarrow> \<not> is_space c \<and> c \<noteq> CHR ''-''"
proof (induction b s rule: squash.induct)
  case (2 run d cs)
  then show ?case by (auto simp: is_space_def split: if_splits)
qed simp

lemma lower_char_not_upper: "\<not> is_upper (lower_char c)"
  by (auto simp: lower_char_def is_upper_def Let_def)

lemma boundary_chars: "set (concat (map (\<lambda>d. if is_upper d then [CHR ''_'', d] else [d]) xs)) \<subseteq> insert CHR ''_'' (set xs)"
  by (induction xs) auto

lemma to_snake_chars: "c \<in> set (to_snake s) \<Longrightarrow> \<exists>d. c = lower_char d \<and> (d = CHR ''_'' \<or> d \<in> set s)"
proof (cases s)
  case (Cons x xs)
  assume "c \<in> set (to_snake s)"
  then have "c \<in> lower_char ` insert x (set (concat (map (\<lambda>d. if is_upper d then [CHR ''_'', d] else [d]) xs)))"
    by (simp only: to_snake_def Cons list.case set_map list.set)
  then show ?thesis using boundary_chars [of xs] unfolding Cons by fastforce
qed (simp add: to_snake_def)

text \<open>A module name has no capital letter, no blank and no hyphen.\<close>

lemma snake_name_chars: "c \<in> set (snake_name name) \<Longrightarrow> \<not> is_upper c \<and> \<not> is_space c \<and> c \<noteq> CHR ''-''"
proof -
  assume "c \<in> set (snake_name name)"
  then have c: "c \<in> set (to_snake (squash False (strip name)))"
    using set_strip_underscores by (auto simp: snake_name_def)
  then obtain d where d: "c = lower_char d" "d = CHR ''_'' \<or> d \<in> set (squash False (strip name))"
    using to_snake_chars [OF c] by blast
  have e: "\<not> is_space d \<and> d \<noteq> CHR ''-''" using d(2) squash_chars by (auto simp: is_space_def)
  have "\<not> is_space (lower_char d) \<and> lower_char d \<noteq> CHR ''-''"
  proof (cases "is_upper d")
    case True
    let ?n = "of_char d :: nat"
    have n: "65 \<le> ?n" "?n \<le> 90" using True by (auto simp: is_upper_def Let_def)
    then have "of_char (lower_char d) = ?n + 32" using True by (simp add: lower_char_def)
    then show ?thesis using n by (auto simp: is_space_def)
  qed (use e in \<open>simp add: lower_char_def\<close>)
  then show ?thesis using d(1) lower_char_not_upper [of d] by simp
qed

lemma name_examples:
  "camel_name ''news_list'' = ''NewsList''" "camel_name ''NewsSpider'' = ''NewsSpider''" "camel_name ''my-cool-thing'' = ''MyCoolThing''"
  "snake_name ''NewsSpider'' = ''news_spider''" "snake_name ''my-cool-thing'' = ''my_cool_thing''"
  by code_simp+

section \<open>What is generated need not be Python\<close>

text \<open>A name that starts with a digit gives a class name that starts with a digit.\<close>

lemma digit_class_name: "spider_names ''163'' = (''163Spider'', ''163_spider'')"
  by code_simp

text \<open>A column comment goes into a comment of the generated class; only line feeds are taken out of it, so what follows a carriage return is a line of code.\<close>

lemma comment_keeps_return:
  "reflect_table [(''id'', ''PRI'', Some (''key'' @ [CHR 0x0D] @ ''import os''))]
     = Inr ([(''id'', ''key'' @ [CHR 0x0D] @ ''import os'')], [''id''])"
  by code_simp

end
