(* ===== verification/Command_Line.thy ===== *)
theory Command_Line
  imports Scaffold Failed_Replay
begin

text \<open>
  \<^verbatim>\<open>netspy/commands/cmdline.py\<close>: what the commands \<open>create\<close>, \<open>retry\<close> and \<open>cache\<close> do with their options once they are parsed (the parsing is
  typer's).  An end is what is printed, an exit code, or the exception that typer shows.
\<close>

datatype 'a command_end = Printed 'a | ExitWith int | Raised exn

record create_options =
  co_project :: "string option"
  co_spider :: "string option"
  co_item :: "string option"
  co_table :: "string option"
  co_setting :: bool
  co_force :: bool

text \<open>An option that is given with an empty value counts as not given.\<close>

definition given :: "string option \<Rightarrow> string option" where
  "given x = (case x of Some (c # cs) \<Rightarrow> Some (c # cs) | _ \<Rightarrow> None)"

definition ended :: "'a res \<times> 's \<Rightarrow> 'a command_end \<times> 's" where
  "ended x = (case x of (Inl e, s) \<Rightarrow> (Raised e, s) | (Inr a, s) \<Rightarrow> (Printed a, s))"

text \<open>\<open>rows t\<close> is what the database says of table \<open>t\<close>, \<open>populated p\<close> whether a directory has entries.\<close>

definition create_cmd :: "renderer \<Rightarrow> (string \<Rightarrow> string \<Rightarrow> (string \<times> string) list \<Rightarrow> string list \<Rightarrow> string) \<Rightarrow> (string \<Rightarrow> column list res)
    \<Rightarrow> (string \<Rightarrow> bool) \<Rightarrow> string \<Rightarrow> create_options \<Rightarrow> files \<Rightarrow> string command_end \<times> files" where
  "create_cmd rnd render_fields rows populated dir opts fs =
     (case given (co_project opts) of
        Some p \<Rightarrow> ended (create_project rnd p (co_force opts) (populated p) fs)
      | None \<Rightarrow>
     (case given (co_spider opts) of
        Some n \<Rightarrow> ended (create_spider rnd n dir (co_force opts) fs)
      | None \<Rightarrow>
     (case given (co_item opts) of
        Some n \<Rightarrow> ended (create_item rnd render_fields n dir (map_option (\<lambda>t. (t, rows t)) (given (co_table opts))) (co_force opts) fs)
      | None \<Rightarrow> if co_setting opts then ended (create_setting rnd dir (co_force opts) fs) else (ExitWith 1, fs))))"

text \<open>\<open>retry\<close>: items first, then requests; with neither flag both are replayed.\<close>

datatype retry_line = ItemsLine nat nat | RequestsLine nat nat

definition retry_cmd :: "('s \<Rightarrow> (nat \<times> nat) res \<times> 's) \<Rightarrow> ('s \<Rightarrow> (nat \<times> nat) res \<times> 's) \<Rightarrow> bool \<Rightarrow> bool \<Rightarrow> 's \<Rightarrow> retry_line list command_end \<times> 's" where
  "retry_cmd ri rr requests items s =
     (let both = (\<not> requests \<and> \<not> items);
          r1 = (if items \<or> both then (case ri s of (Inl e, s1) \<Rightarrow> (Inl e, s1) | (Inr (ok, failed), s1) \<Rightarrow> (Inr [ItemsLine ok failed], s1)) else (Inr [], s))
      in case r1 of
           (Inl e, s1) \<Rightarrow> (Raised e, s1)
         | (Inr ls, s1) \<Rightarrow>
             (if requests \<or> both
              then (case rr s1 of (Inl e, s2) \<Rightarrow> (Raised e, s2) | (Inr (ok, failed), s2) \<Rightarrow> (Printed (ls @ [RequestsLine ok failed]), s2))
              else (Printed ls, s1)))"

text \<open>The two replays of the program, over their two files.\<close>

record 'w replay_state =
  rs_items :: jsonl
  rs_requests :: jsonl
  rs_w :: 'w

definition items_step :: "setting \<Rightarrow> (string \<Rightarrow> bool) \<Rightarrow> 'w writer \<Rightarrow> 'w replay_state \<Rightarrow> (nat \<times> nat) res \<times> 'w replay_state" where
  "items_step cfg loads wr s =
     (case retry_items cfg loads wr (rs_items s) (rs_w s) of (x, file, w) \<Rightarrow> (x, s\<lparr>rs_items := file, rs_w := w\<rparr>))"

definition requests_step :: "(request \<Rightarrow> 'w \<Rightarrow> bool res \<times> 'w) \<Rightarrow> 'w replay_state \<Rightarrow> (nat \<times> nat) res \<times> 'w replay_state" where
  "requests_step dl s =
     (case retry_requests dl (rs_requests s) (rs_w s) of (x, file, w) \<Rightarrow> (x, s\<lparr>rs_requests := file, rs_w := w\<rparr>))"

section \<open>What holds of the commands\<close>

text \<open>Without \<open>--force\<close> no combination of options changes a file that is there.\<close>

lemma create_cmd_keeps_files:
  assumes "\<not> co_force opts" "fs p = Some c" "\<And>q. populated q \<longleftrightarrow> (\<exists>x. below q x \<and> fs x \<noteq> None)"
  shows "snd (create_cmd rnd render_fields rows populated dir opts fs) p = Some c"
proof -
  have e: "snd (ended x) = snd x" for x :: "string res \<times> files" by (cases x; cases "fst x") (simp_all add: ended_def)
  note k = create_keeps_files [of fs p c, OF assms(2)] create_project_keeps [of "populated q" q fs p c for q, OF assms(3,2)]
  show ?thesis
    using assms(1,2) by (simp add: create_cmd_def e k split: option.split)
qed

text \<open>A command that fails or finds nothing to do writes nothing.\<close>

lemma create_cmd_failed_writes_nothing:
  assumes "create_cmd rnd render_fields rows populated dir opts fs = (x, fs')" "\<And>out. x \<noteq> Printed out"
  shows "fs' = fs"
  using assms
  by (auto simp: create_cmd_def ended_def create_project_def create_spider_def create_item_def create_setting_def write_file_def Let_def
      split: option.splits sum.splits prod.splits if_splits)

text \<open>No flag means both flags, and a replay of the items that raises keeps the requests from being replayed.\<close>

lemma retry_cmd_no_flag: "retry_cmd ri rr False False s = retry_cmd ri rr True True s"
  by (simp only: retry_cmd_def Let_def simp_thms)

lemma retry_cmd_items_first:
  assumes "ri s = (Inl e, s1)"
  shows "retry_cmd ri rr True True s = (Raised e, s1)"
  using assms by (simp add: retry_cmd_def)

text \<open>Replaying the requests leaves their file as it is, so \<open>retry\<close> can be repeated; replaying the items does not touch the requests.\<close>

lemma retry_cmd_keeps_requests:
  "rs_requests (snd (retry_cmd (items_step cfg loads wr) (requests_step dl) requests items s)) = rs_requests s"
  by (auto simp: retry_cmd_def items_step_def requests_step_def retry_requests_def Let_def split: prod.splits sum.splits if_splits)

end
